(* ===== verification/Kernel_Prelude.thy ===== *)
theory Kernel_Prelude
  imports Main "HOL-Library.Word" "HOL-Library.More_List"
begin

unbundle bit_operations_syntax

text \<open>
  Shared vocabulary of the development: the machine types of \<^verbatim>\<open>include/common.h\<close>, the
  result type of kernel functions with its sequencing combinator, byte strings with
  in-place update and little-endian layout, byte-addressed memory with 64-bit loads and
  stores, and the interfaces (locales) several components implement.

  Results. A kernel function either returns or stops the machine.  \<open>Panic msg\<close> is
  \<^verbatim>\<open>panic(msg)\<close> (print and loop forever), \<open>Hang\<close> is a loop that nothing in the model can
  leave (\<^verbatim>\<open>while(1);\<close>, spinning on a lock that is never released), and \<open>Undefined\<close> is an
  access outside an object, where C gives no meaning.  \<open>bindr m k\<close> runs \<open>k\<close> on the
  result of \<open>m\<close> unless \<open>m\<close> stopped.
\<close>

section \<open>Types\<close>

type_synonym byte = "8 word"
type_synonym u8 = "8 word"
type_synonym u16 = "16 word"
type_synonym u32 = "32 word"
type_synonym u64 = "64 word"

datatype halt = Panic string | Hang | Undefined

type_synonym 'a res = "halt + 'a"

named_theorems layout \<comment> \<open>sizes and offsets of on-disk structures\<close>
named_theorems frame \<comment> \<open>fields an operation leaves unchanged\<close>

section \<open>Sequencing fallible operations\<close>

definition bindr :: "'a res \<Rightarrow> ('a \<Rightarrow> 'b res) \<Rightarrow> 'b res" where
  "bindr m k = (case m of Inl e \<Rightarrow> Inl e | Inr x \<Rightarrow> k x)"

definition assert_that :: "bool \<Rightarrow> string \<Rightarrow> unit res" where
  "assert_that c msg = (if c then Inr () else Inl (Panic msg))"

section \<open>Byte strings\<close>

definition overwrite :: "'a list \<Rightarrow> nat \<Rightarrow> 'a list \<Rightarrow> 'a list" where
  "overwrite d off bs = take off d @ bs @ drop (off + length bs) d"

definition slice :: "nat \<Rightarrow> nat \<Rightarrow> 'a list \<Rightarrow> 'a list" where
  "slice off n d = take n (drop off d)"

primrec le_bytes :: "nat \<Rightarrow> 'a::len word \<Rightarrow> byte list" where
  "le_bytes 0 w = []"
| "le_bytes (Suc n) w = ucast w # le_bytes n (drop_bit 8 w)"

primrec le_word :: "byte list \<Rightarrow> 'a::len word" where
  "le_word [] = 0"
| "le_word (b # bs) = ucast b OR push_bit 8 (le_word bs)"

section \<open>Byte-addressed memory\<close>

type_synonym mem = "u64 \<Rightarrow> byte"

definition load64 :: "mem \<Rightarrow> u64 \<Rightarrow> u64" where
  "load64 m a = le_word (map (\<lambda>i. m (a + of_nat i)) [0..<8])"

primrec store_bytes :: "mem \<Rightarrow> u64 \<Rightarrow> byte list \<Rightarrow> mem" where
  "store_bytes m a [] = m"
| "store_bytes m a (b # bs) = store_bytes (m(a := b)) (a + 1) bs"

definition load_bytes :: "mem \<Rightarrow> u64 \<Rightarrow> nat \<Rightarrow> byte list" where
  "load_bytes m a n = map (\<lambda>i. m (a + of_nat i)) [0..<n]"

definition aligned :: "nat \<Rightarrow> u64 \<Rightarrow> bool" where
  "aligned k a \<longleftrightarrow> take_bit k a = 0" \<comment> \<open>a multiple of \<open>2 ^ k\<close>\<close>

definition store64 :: "mem \<Rightarrow> u64 \<Rightarrow> u64 \<Rightarrow> mem" where
  "store64 m a v = store_bytes m a (le_bytes 8 v)"

section \<open>Lemmas on results\<close>

lemma bindr_Inl [simp]: "bindr (Inl e) k = Inl e"
  by (simp add: bindr_def)

lemma bindr_Inr [simp]: "bindr (Inr x) k = k x"
  by (simp add: bindr_def)

lemma bindr_eq_Inr: "bindr m k = Inr y \<longleftrightarrow> (\<exists>x. m = Inr x \<and> k x = Inr y)"
  by (simp add: bindr_def split: sum.splits)

lemma bindr_eq_Inl: "bindr m k = Inl e \<longleftrightarrow> m = Inl e \<or> (\<exists>x. m = Inr x \<and> k x = Inl e)"
  by (auto simp: bindr_def split: sum.splits)

lemma bindr_InrE:
  assumes "bindr m k = Inr y"
  obtains x where "m = Inr x" and "k x = Inr y"
  using assms by (auto simp: bindr_eq_Inr)

lemma bindr_assoc: "bindr (bindr m k) h = bindr m (\<lambda>x. bindr (k x) h)"
  by (simp add: bindr_def split: sum.splits)

lemma bindr_cong [fundef_cong]:
  "m = m' \<Longrightarrow> (\<And>x. m' = Inr x \<Longrightarrow> k x = k' x) \<Longrightarrow> bindr m k = bindr m' k'"
  by (simp add: bindr_def split: sum.splits)

lemma assert_that_simps [simp]:
  "assert_that True msg = Inr ()"
  "assert_that False msg = Inl (Panic msg)"
  by (simp_all add: assert_that_def)

lemma assert_that_Inr [simp]: "assert_that c msg = Inr u \<longleftrightarrow> c"
  by (simp add: assert_that_def)

section \<open>Lemmas on byte strings\<close>

lemma length_overwrite [simp]:
  "off + length bs \<le> length d \<Longrightarrow> length (overwrite d off bs) = length d"
  by (simp add: overwrite_def)

lemma length_slice [simp]: "off + n \<le> length d \<Longrightarrow> length (slice off n d) = n"
  by (simp add: slice_def)

lemma slice_overwrite_same:
  "off + length bs \<le> length d \<Longrightarrow> n = length bs \<Longrightarrow> slice off n (overwrite d off bs) = bs"
  by (simp add: overwrite_def slice_def)

lemma nth_overwrite:
  assumes "off + length bs \<le> length d" and "i < length d"
  shows "overwrite d off bs ! i =
    (if off \<le> i \<and> i < off + length bs then bs ! (i - off) else d ! i)"
  using assms by (auto simp: overwrite_def nth_append min_def)

lemma nth_slice: "off + n \<le> length d \<Longrightarrow> i < n \<Longrightarrow> slice off n d ! i = d ! (off + i)"
  by (simp add: slice_def)

lemma slice_overwrite_other:
  assumes "off + length bs \<le> length d" and "p + n \<le> length d"
    and "p + n \<le> off \<or> off + length bs \<le> p"
  shows "slice p n (overwrite d off bs) = slice p n d"
  using assms by (intro nth_equalityI) (auto simp: nth_slice nth_overwrite)

lemma overwrite_slice_id [simp]:
  "off + n \<le> length d \<Longrightarrow> overwrite d off (slice off n d) = d"
  by (simp add: overwrite_def slice_def) (metis append_take_drop_id drop_drop add.commute)

lemma slice_whole [simp]: "n = length d \<Longrightarrow> slice 0 n d = d"
  by (simp add: slice_def)

lemma slice_take_prefix: "k + m \<le> n \<Longrightarrow> slice k m (slice off n d) = slice (off + k) m d"
  by (simp add: slice_def drop_take min_def add.commute)

lemma slice_append_slice:
  "slice off a d @ slice (off + a) b d = slice off (a + b) d"
  by (simp add: slice_def take_add add.commute)

lemma length_le_bytes [simp]: "length (le_bytes n w) = n"
  by (induction n arbitrary: w) auto

lemma le_word_le_bytes: "le_word (le_bytes n w) = take_bit (8 * n) (w :: 'a::len word)"
proof (induction n arbitrary: w)
  case 0
  then show ?case by simp
next
  case (Suc n)
  then show ?case
    by (auto intro!: bit_word_eqI simp: bit_simps)
qed

lemma le_bytes_le_word:
  "8 * length bs \<le> LENGTH('a) \<Longrightarrow> le_bytes (length bs) (le_word bs :: 'a::len word) = bs"
proof (induction bs)
  case Nil
  then show ?case by simp
next
  case (Cons b bs)
  have "ucast (ucast b OR push_bit 8 (le_word bs) :: 'a word) = b"
    using Cons.prems by (auto intro!: bit_word_eqI simp: bit_simps)
  moreover have "drop_bit 8 (ucast b OR push_bit 8 (le_word bs) :: 'a word) =
      take_bit (LENGTH('a) - 8) (le_word bs)"
    by (rule bit_word_eqI) (auto simp: bit_simps dest: bit_imp_le_length)
  moreover have "take_bit (LENGTH('a) - 8) (le_word bs :: 'a word) = le_word bs"
  proof -
    have eq: "take_bit (8 * length bs) (le_word bs :: 'a word) = le_word bs"
      using Cons by (metis le_word_le_bytes Suc_leD add_leD2 length_Cons mult_Suc_right)
    have "min (LENGTH('a) - 8) (8 * length bs) = 8 * length bs"
      using Cons.prems by simp
    then have "take_bit (LENGTH('a) - 8) (take_bit (8 * length bs) (le_word bs :: 'a word)) =
        take_bit (8 * length bs) (le_word bs)"
      by (simp only: take_bit_take_bit)
    then show ?thesis by (simp only: eq)
  qed
  ultimately show ?case
    using Cons by simp
qed

lemma le_roundtrip16 [simp]: "le_word (le_bytes 2 w) = (w :: u16)"
  by (simp add: le_word_le_bytes take_bit_word_eq_self)

lemma le_roundtrip32 [simp]: "le_word (le_bytes 4 w) = (w :: u32)"
  by (simp add: le_word_le_bytes take_bit_word_eq_self)

lemma le_roundtrip64 [simp]: "le_word (le_bytes 8 w) = (w :: u64)"
  by (simp add: le_word_le_bytes take_bit_word_eq_self)

section \<open>Bounds of machine words\<close>

lemma unat_lt64: "unat (w :: u64) < 2 ^ 64"
  using unsigned_less [of w, where ?'a = nat] by simp

lemma unat_lt32: "unat (w :: u32) < 2 ^ 32"
  using unsigned_less [of w, where ?'a = nat] by simp

lemma unat_lt16: "unat (w :: u16) < 2 ^ 16"
  using unsigned_less [of w, where ?'a = nat] by simp

lemma unat_ucast_u32_u64 [simp]: "unat (ucast (w :: u32) :: u64) = unat w"
  by (simp add: unsigned_ucast_eq take_bit_nat_eq_self unat_lt32 less_trans [OF unat_lt32])

lemma unat_ucast_u16_u32 [simp]: "unat (ucast (w :: u16) :: u32) = unat w"
  by (simp add: unsigned_ucast_eq take_bit_nat_eq_self unat_lt16 less_trans [OF unat_lt16])

section \<open>Lemmas on memory\<close>

lemma store_bytes_apply:
  "length bs \<le> 2 ^ 64 \<Longrightarrow>
   store_bytes m a bs x = (if unat (x - a) < length bs then bs ! unat (x - a) else m x)"
proof (induction bs arbitrary: m a)
  case Nil
  then show ?case by simp
next
  case (Cons b bs)
  then have IH: "store_bytes (m(a := b)) (a + 1) bs x =
      (if unat (x - (a + 1)) < length bs then bs ! unat (x - (a + 1)) else (m(a := b)) x)"
    by simp
  show ?case
  proof (cases "x = a")
    case True
    then have "x - (a + 1) = (0xFFFFFFFFFFFFFFFF :: u64)"
      by simp
    then have "unat (x - (a + 1)) = 2 ^ 64 - 1"
      by (simp only:) simp
    with Cons.prems have "\<not> unat (x - (a + 1)) < length bs" by simp
    with True IH show ?thesis by simp
  next
    case False
    then have "unat (x - a) = Suc (unat (x - (a + 1)))"
      using unat_minus_one [of "x - a"] by (auto simp: diff_diff_eq unat_eq_0 gr0_conv_Suc [symmetric] intro!: Suc_pred [symmetric] gr0I)
    with False show ?thesis by (simp add: IH)
  qed
qed

lemma length_load_bytes [simp]: "length (load_bytes m a n) = n"
  by (simp add: load_bytes_def)

lemma nth_load_bytes [simp]: "i < n \<Longrightarrow> load_bytes m a n ! i = m (a + of_nat i)"
  by (simp add: load_bytes_def)

lemma unat_of_nat64: "i < 2 ^ 64 \<Longrightarrow> unat (of_nat i :: u64) = i"
  by (simp add: unat_of_nat take_bit_nat_eq_self)

lemma load_store_bytes:
  assumes "length bs \<le> 2 ^ 64" and "n = length bs"
  shows "load_bytes (store_bytes m a bs) a n = bs"
  using assms by (intro nth_equalityI) (auto simp: store_bytes_apply unat_of_nat64)

lemma store_load_bytes: "store_bytes m a (load_bytes m a n) = m"
proof -
  have "store_bytes m a (map (\<lambda>i. m (a + of_nat i)) [0..<n]) = m"
  proof (induction n arbitrary: a)
    case 0
    then show ?case by simp
  next
    case (Suc n)
    have "map (\<lambda>i. m (a + of_nat i)) [0..<Suc n] =
        m a # map (\<lambda>i. m ((a + 1) + of_nat i)) [0..<n]"
      by (simp only: upt_conv_Cons map_Suc_upt [symmetric]) (simp add: comp_def add.assoc)
    then show ?case
      using Suc [of "a + 1"] by (simp del: upt_Suc)
  qed
  then show ?thesis by (simp add: load_bytes_def)
qed

lemma load64_alt: "load64 m a = le_word (load_bytes m a 8)"
  by (simp add: load64_def load_bytes_def)

lemma load64_store64_same [simp]: "load64 (store64 m a v) a = v"
  by (simp add: load64_alt store64_def load_store_bytes)

lemma drop_bit_aligned_add:
  assumes "aligned k b" and "i < 2 ^ k"
  shows "drop_bit k (b + of_nat i) = drop_bit k b"
proof -
  have i: "(of_nat i :: u64) = take_bit k (of_nat i)"
    using assms(2) by (simp add: take_bit_of_nat take_bit_nat_eq_self)
  have "\<not> bit b n" if "n < k" for n
    using assms(1) that by (metis aligned_def bit_0_eq bit_take_bit_iff bot_apply bot_bool_def)
  moreover have "bit (of_nat i :: u64) n \<Longrightarrow> n < k" for n
    by (subst (asm) i) (simp add: bit_take_bit_iff)
  ultimately have disj: "b AND of_nat i = 0"
    by (auto simp: bit_eq_iff bit_and_iff)
  have "drop_bit k (b OR of_nat i) = drop_bit k b"
    by (subst i) (auto intro!: bit_word_eqI simp: bit_simps)
  with disj show ?thesis
    by (simp add: disjunctive_add_eq_or)
qed

lemma aligned_inj:
  "aligned k a \<Longrightarrow> aligned k b \<Longrightarrow> drop_bit k a = drop_bit k b \<Longrightarrow> a = b"
  by (metis aligned_def bits_ident)

lemma aligned_regions:
  assumes "aligned k a" and "aligned k b" and "a \<noteq> b" and "i < 2 ^ k" and "j < 2 ^ k"
  shows "b + of_nat i \<noteq> a + of_nat j"
  using assms by (metis drop_bit_aligned_add aligned_inj)

lemma store_bytes_other:
  assumes "length bs \<le> 2 ^ k" and "aligned k a" and "aligned k b" and "a \<noteq> b" and "i < 2 ^ k"
    and "k \<le> 64"
  shows "store_bytes m a bs (b + of_nat i) = m (b + of_nat i)"
proof -
  have "length bs \<le> 2 ^ 64"
    using assms(1,6) by (meson le_trans one_le_numeral power_increasing)
  moreover have "\<not> unat (b + of_nat i - a) < length bs"
  proof
    assume "unat (b + of_nat i - a) < length bs"
    then have "unat (b + of_nat i - a) < 2 ^ k" using assms(1) by simp
    from aligned_regions [OF assms(2-5) this] show False
      by (simp add: unat_of_nat64)
  qed
  ultimately show ?thesis by (simp add: store_bytes_apply)
qed

lemma load64_store64_other [simp]:
  assumes "aligned 3 a" and "aligned 3 b" and "a \<noteq> b"
  shows "load64 (store64 m a v) b = load64 m b"
  using assms
  by (auto simp: load64_def store64_def intro!: arg_cong [where f = le_word]
      store_bytes_other [where k = 3])

section \<open>Interfaces\<close>

text \<open>
  Reachable states of a step relation, and the contract of an inductive invariant: it holds
  initially and every step keeps it.
\<close>

inductive reach :: "('s \<Rightarrow> bool) \<Rightarrow> ('s \<Rightarrow> 's \<Rightarrow> bool) \<Rightarrow> 's \<Rightarrow> bool"
  for start step where
  reach_start: "start s \<Longrightarrow> reach start step s"
| reach_step: "reach start step s \<Longrightarrow> step s t \<Longrightarrow> reach start step t"

locale inductive_invariant =
  fixes start :: "'s \<Rightarrow> bool" and step :: "'s \<Rightarrow> 's \<Rightarrow> bool" and inv :: "'s \<Rightarrow> bool"
  assumes inv_start: "start s \<Longrightarrow> inv s"
    and inv_step: "inv s \<Longrightarrow> step s t \<Longrightarrow> inv t"
begin

lemma reach_inv: "reach start step s \<Longrightarrow> inv s"
  by (induction rule: reach.induct) (auto intro: inv_start inv_step)

end

text \<open>
  The contract of an allocator: \<open>free s\<close> is the set of items it can still hand out, \<open>alloc\<close>
  removes one item from it and fails only when it is empty, \<open>release\<close> puts back an item
  of the pool that is not free.
\<close>

locale alloc_pool =
  fixes inv :: "'s \<Rightarrow> bool" and items :: "'s \<Rightarrow> 'a set" and free :: "'s \<Rightarrow> 'a set"
    and alloc :: "'s \<Rightarrow> ('a \<times> 's) option" and release :: "'a \<Rightarrow> 's \<Rightarrow> 's option"
  assumes free_items: "inv s \<Longrightarrow> free s \<subseteq> items s"
    and finite_items: "inv s \<Longrightarrow> finite (items s)"
    and alloc_Some: "inv s \<Longrightarrow> alloc s = Some (x, t) \<Longrightarrow>
      x \<in> free s \<and> free t = free s - {x} \<and> items t = items s \<and> inv t"
    and alloc_None: "inv s \<Longrightarrow> alloc s = None \<Longrightarrow> free s = {}"
    and release_free: "inv s \<Longrightarrow> x \<in> items s \<Longrightarrow> x \<notin> free s \<Longrightarrow>
      \<exists>t. release x s = Some t \<and> free t = insert x (free s) \<and> items t = items s \<and> inv t"
begin

primrec alloc_many :: "nat \<Rightarrow> 's \<Rightarrow> ('a list \<times> 's) option" where
  "alloc_many 0 s = Some ([], s)"
| "alloc_many (Suc n) s =
     (case alloc s of None \<Rightarrow> None
      | Some (x, s) \<Rightarrow> (case alloc_many n s of None \<Rightarrow> None | Some (xs, s) \<Rightarrow> Some (x # xs, s)))"

lemma alloc_succeeds:
  assumes "inv s" and "free s \<noteq> {}"
  obtains x t where "alloc s = Some (x, t)"
  using assms alloc_None by (cases "alloc s") auto

lemma alloc_many_Some:
  "inv s \<Longrightarrow> alloc_many n s = Some (xs, t) \<Longrightarrow>
   length xs = n \<and> distinct xs \<and> set xs \<subseteq> free s \<and> free t = free s - set xs \<and>
   items t = items s \<and> inv t"
proof (induction n arbitrary: s xs)
  case 0
  then show ?case by simp
next
  case (Suc n)
  then obtain x s' xs' where a: "alloc s = Some (x, s')" and b: "alloc_many n s' = Some (xs', t)"
    and c: "xs = x # xs'"
    by (auto split: option.splits)
  from alloc_Some [OF Suc.prems(1) a] Suc.IH [OF _ b] c show ?case by auto
qed

lemma alloc_many_all:
  assumes "inv s" and "n \<le> card (free s)"
  shows "\<exists>xs t. alloc_many n s = Some (xs, t)"
  using assms
proof (induction n arbitrary: s)
  case 0
  then show ?case by simp
next
  case (Suc n)
  have fin: "finite (free s)"
    using free_items finite_items Suc.prems(1) by (blast intro: finite_subset)
  have "free s \<noteq> {}" using Suc.prems(2) by auto
  then obtain x t where a: "alloc s = Some (x, t)"
    using alloc_succeeds Suc.prems(1) by blast
  from alloc_Some [OF Suc.prems(1) a] fin Suc.prems(2) have "inv t" "n \<le> card (free t)"
    by auto
  from Suc.IH [OF this] a show ?case by auto
qed

lemma alloc_release:
  assumes "inv s" and "alloc s = Some (x, t)"
  shows "\<exists>u. release x t = Some u \<and> free u = free s \<and> inv u"
proof -
  from alloc_Some [OF assms] have x: "x \<in> free s" "free t = free s - {x}" "items t = items s" "inv t"
    by auto
  moreover have "x \<in> items t" using x free_items [OF assms(1)] by auto
  ultimately obtain u where "release x t = Some u" "free u = insert x (free t)" "inv u"
    using release_free [of t x] by auto
  with x show ?thesis by auto
qed

end

text \<open>
  The contract of a fixed-size record layout: encoding gives \<open>sz\<close> bytes and decoding undoes
  it.  A record written at an offset of a block is read back from there, and records at
  disjoint offsets do not disturb each other.
\<close>

locale record_layout =
  fixes sz :: nat and enc :: "'r \<Rightarrow> byte list" and dec :: "byte list \<Rightarrow> 'r"
    and wf :: "'r \<Rightarrow> bool"
  assumes enc_length: "wf r \<Longrightarrow> length (enc r) = sz"
    and dec_enc: "wf r \<Longrightarrow> dec (enc r) = r"
begin

lemma read_written:
  "wf r \<Longrightarrow> off + sz \<le> length d \<Longrightarrow> dec (slice off sz (overwrite d off (enc r))) = r"
  by (simp add: slice_overwrite_same enc_length dec_enc)

lemma read_other:
  "wf r \<Longrightarrow> off + sz \<le> length d \<Longrightarrow> p + n \<le> length d \<Longrightarrow> p + n \<le> off \<or> off + sz \<le> p \<Longrightarrow>
   slice p n (overwrite d off (enc r)) = slice p n d"
  by (rule slice_overwrite_other) (auto simp: enc_length)

end

text \<open>
  The contract of a store of disk blocks behind a cache.  \<open>inv s H\<close>: the store is consistent and
  exactly the blocks \<open>H\<close> are held; \<open>held s i n d\<close>: the handle \<open>i\<close> is the buffer of block \<open>n\<close> and
  has data \<open>d\<close>; \<open>content s\<close> is what the disk has.  At most \<open>cap\<close> blocks can be held at a time.  A
  block is read, its data changed, written through and released; a release is allowed when
  the data agrees with the disk.  \<open>rest\<close> is the part of the state the store does not touch.
\<close>

locale block_store =
  fixes inv :: "'s \<Rightarrow> 'b set \<Rightarrow> bool" and content :: "'s \<Rightarrow> 'b \<Rightarrow> byte list" and rest :: "'s \<Rightarrow> 'r"
    and held :: "'s \<Rightarrow> nat \<Rightarrow> 'b \<Rightarrow> byte list \<Rightarrow> bool" and valid :: "'b \<Rightarrow> bool" and cap :: nat and bsize :: nat
    and rd :: "'b \<Rightarrow> 's \<Rightarrow> (nat \<times> 's) res" and get :: "nat \<Rightarrow> 's \<Rightarrow> byte list"
    and put :: "nat \<Rightarrow> byte list \<Rightarrow> 's \<Rightarrow> 's" and wr :: "nat \<Rightarrow> 's \<Rightarrow> 's res" and rel :: "nat \<Rightarrow> 's \<Rightarrow> 's res"
  assumes content_length: "inv s H \<Longrightarrow> length (content s n) = bsize"
    and held_get: "held s i n d \<Longrightarrow> get i s = d"
    and rd_ok: "inv s H \<Longrightarrow> n \<notin> H \<Longrightarrow> valid n \<Longrightarrow> card H < cap \<Longrightarrow>
      \<exists>i t. rd n s = Inr (i, t) \<and> inv t (insert n H) \<and> held t i n (content s n) \<and>
        content t = content s \<and> rest t = rest s \<and>
        (\<forall>j m d. m \<in> H \<longrightarrow> held s j m d \<longrightarrow> held t j m d)"
    and put_ok: "inv s H \<Longrightarrow> n \<in> H \<Longrightarrow> held s i n d \<Longrightarrow> length e = bsize \<Longrightarrow>
      inv (put i e s) H \<and> held (put i e s) i n e \<and> content (put i e s) = content s \<and>
        rest (put i e s) = rest s \<and>
        (\<forall>j m d. m \<in> H \<longrightarrow> m \<noteq> n \<longrightarrow> held s j m d \<longrightarrow> held (put i e s) j m d)"
    and wr_ok: "inv s H \<Longrightarrow> n \<in> H \<Longrightarrow> held s i n d \<Longrightarrow>
      \<exists>t. wr i s = Inr t \<and> inv t H \<and> held t i n d \<and> content t = (content s)(n := d) \<and>
        rest t = rest s \<and> (\<forall>j m d. m \<in> H \<longrightarrow> held s j m d \<longrightarrow> held t j m d)"
    and rel_ok: "inv s H \<Longrightarrow> n \<in> H \<Longrightarrow> held s i n (content s n) \<Longrightarrow>
      \<exists>t. rel i s = Inr t \<and> inv t (H - {n}) \<and> content t = content s \<and> rest t = rest s \<and>
        (\<forall>j m d. m \<in> H \<longrightarrow> m \<noteq> n \<longrightarrow> held s j m d \<longrightarrow> held t j m d)"
begin

text \<open>Read a block and release it; read it, change it, write it and release it.\<close>

lemma peek_ok:
  assumes "inv s H" and "n \<notin> H" and "valid n" and "card H < cap"
  obtains i t u where "rd n s = Inr (i, t)" "get i t = content s n" "rel i t = Inr u" "inv u H"
    "content u = content s" "rest u = rest s" "inv t (insert n H)" "content t = content s" "rest t = rest s"
    "held t i n (content s n)"
    "\<forall>j m d. m \<in> H \<longrightarrow> held s j m d \<longrightarrow> held u j m d"
proof -
  from rd_ok [OF assms] obtain i t where t: "rd n s = Inr (i, t)" "inv t (insert n H)"
    "held t i n (content s n)" "content t = content s" "rest t = rest s"
    "\<forall>j m d. m \<in> H \<longrightarrow> held s j m d \<longrightarrow> held t j m d" by blast
  have "held t i n (content t n)" using t(3,4) by simp
  from rel_ok [OF t(2) _ this] obtain u where u: "rel i t = Inr u" "inv u (insert n H - {n})"
    "content u = content t" "rest u = rest t"
    "\<forall>j m d. m \<in> insert n H \<longrightarrow> m \<noteq> n \<longrightarrow> held t j m d \<longrightarrow> held u j m d" by blast
  have "insert n H - {n} = H" using assms(2) by simp
  moreover have "\<forall>j m d. m \<in> H \<longrightarrow> held s j m d \<longrightarrow> held u j m d"
    using t(6) u(5) assms(2) by blast
  ultimately show thesis using t u held_get [OF t(3)] by (intro that) auto
qed

lemma update_ok:
  assumes "inv s H" and "n \<notin> H" and "valid n" and "card H < cap" and "length e = bsize"
  obtains i t u v where "rd n s = Inr (i, t)" "get i t = content s n" "wr i (put i e t) = Inr u"
    "rel i u = Inr v" "inv v H" "content v = (content s)(n := e)" "rest v = rest s"
    "inv t (insert n H)" "content t = content s" "rest t = rest s" "held t i n (content s n)"
    "\<forall>j m d. m \<in> H \<longrightarrow> held s j m d \<longrightarrow> held v j m d"
proof -
  from rd_ok [OF assms(1-4)] obtain i t where t: "rd n s = Inr (i, t)" "inv t (insert n H)"
    "held t i n (content s n)" "content t = content s" "rest t = rest s"
    "\<forall>j m d. m \<in> H \<longrightarrow> held s j m d \<longrightarrow> held t j m d" by blast
  from put_ok [OF t(2) _ t(3) assms(5)] have p: "inv (put i e t) (insert n H)" "held (put i e t) i n e"
    "content (put i e t) = content t" "rest (put i e t) = rest t"
    "\<forall>j m d. m \<in> insert n H \<longrightarrow> m \<noteq> n \<longrightarrow> held t j m d \<longrightarrow> held (put i e t) j m d" by auto
  from wr_ok [OF p(1) _ p(2)] obtain u where u: "wr i (put i e t) = Inr u" "inv u (insert n H)"
    "held u i n e" "content u = (content t)(n := e)" "rest u = rest t"
    "\<forall>j m d. m \<in> insert n H \<longrightarrow> held (put i e t) j m d \<longrightarrow> held u j m d"
    using p(3,4) by auto
  have "held u i n (content u n)" using u(3,4) by simp
  from rel_ok [OF u(2) _ this] obtain v where v: "rel i u = Inr v" "inv v (insert n H - {n})"
    "content v = content u" "rest v = rest u"
    "\<forall>j m d. m \<in> insert n H \<longrightarrow> m \<noteq> n \<longrightarrow> held u j m d \<longrightarrow> held v j m d" by blast
  have "insert n H - {n} = H" using assms(2) by simp
  moreover have "\<forall>j m d. m \<in> H \<longrightarrow> held s j m d \<longrightarrow> held v j m d"
    using t(6) p(5) u(6) v(5) assms(2) by (metis insertCI)
  ultimately show thesis using t u v held_get [OF t(3)] by (intro that) auto
qed

end

end
