(* ===== verification/Strings.thy ===== *)
theory Strings
  imports Kernel_Prelude
begin

text \<open>
  \<^verbatim>\<open>kernel/lib/str.c\<close>: the byte and string routines of the kernel, over byte-addressed memory.
  Functions that only read take their pointers as views, \<open>p i\<close> being \<^verbatim>\<open>p[i]\<close>; \<open>ptr m a\<close>
  is the view of memory \<open>m\<close> from address \<open>a\<close>.  A length of type \<^verbatim>\<open>uint32\<close> is a \<open>u32\<close>, a
  length of type \<^verbatim>\<open>int\<close> an \<open>int\<close>; loops count down on \<open>nat\<close>.  The \<^verbatim>\<open>int\<close> counters of
  \<^verbatim>\<open>memset\<close> and \<^verbatim>\<open>strlen\<close> overflow at \<open>2 ^ 31\<close>, which is \<open>Undefined\<close>.
\<close>

definition ptr :: "mem \<Rightarrow> u64 \<Rightarrow> nat \<Rightarrow> byte" where
  "ptr m a i = m (a + of_nat i)"

section \<open>Definitions\<close>

primrec memset_loop :: "mem \<Rightarrow> u64 \<Rightarrow> byte \<Rightarrow> nat \<Rightarrow> mem" where
  "memset_loop m dst c 0 = m"
| "memset_loop m dst c (Suc k) = memset_loop (m(dst := c)) (dst + 1) c k"

definition memset :: "mem \<Rightarrow> u64 \<Rightarrow> int \<Rightarrow> u32 \<Rightarrow> mem res" where
  "memset m dst c n =
     (if unat n < 2 ^ 31 then Inr (memset_loop m dst (word_of_int c) (unat n)) else Inl Undefined)"

fun memcmp_loop :: "(nat \<Rightarrow> byte) \<Rightarrow> (nat \<Rightarrow> byte) \<Rightarrow> nat \<Rightarrow> nat \<Rightarrow> int" where
  "memcmp_loop s1 s2 i 0 = 0"
| "memcmp_loop s1 s2 i (Suc k) =
     (if s1 i \<noteq> s2 i then uint (s1 i) - uint (s2 i) else memcmp_loop s1 s2 (Suc i) k)"

definition memcmp :: "(nat \<Rightarrow> byte) \<Rightarrow> (nat \<Rightarrow> byte) \<Rightarrow> u32 \<Rightarrow> int" where
  "memcmp v1 v2 n = memcmp_loop v1 v2 0 (unat n)"

primrec copy_fwd :: "mem \<Rightarrow> u64 \<Rightarrow> u64 \<Rightarrow> nat \<Rightarrow> mem" where
  "copy_fwd m d s 0 = m"
| "copy_fwd m d s (Suc k) = copy_fwd (m(d := m s)) (d + 1) (s + 1) k"

primrec copy_bwd :: "mem \<Rightarrow> u64 \<Rightarrow> u64 \<Rightarrow> nat \<Rightarrow> mem" where
  "copy_bwd m d s 0 = m"
| "copy_bwd m d s (Suc k) = copy_bwd (m(d - 1 := m (s - 1))) (d - 1) (s - 1) k"

definition memmove :: "mem \<Rightarrow> u64 \<Rightarrow> u64 \<Rightarrow> u32 \<Rightarrow> mem" where
  "memmove m dst src n =
     (if n = 0 then m
      else if src < dst \<and> src + ucast n > dst
      then copy_bwd m (dst + ucast n) (src + ucast n) (unat n)
      else copy_fwd m dst src (unat n))"

fun strncmp_loop :: "(nat \<Rightarrow> byte) \<Rightarrow> (nat \<Rightarrow> byte) \<Rightarrow> nat \<Rightarrow> nat \<Rightarrow> int" where
  "strncmp_loop p q i 0 = 0"
| "strncmp_loop p q i (Suc k) =
     (if p i \<noteq> 0 \<and> p i = q i then strncmp_loop p q (Suc i) k else uint (p i) - uint (q i))"

definition strncmp :: "(nat \<Rightarrow> byte) \<Rightarrow> (nat \<Rightarrow> byte) \<Rightarrow> u32 \<Rightarrow> int" where
  "strncmp p q n = strncmp_loop p q 0 (unat n)"

primrec strncpy_loop :: "mem \<Rightarrow> u64 \<Rightarrow> u64 \<Rightarrow> nat \<Rightarrow> mem" where
  "strncpy_loop m s t 0 = m"
| "strncpy_loop m s t (Suc k) =
     (let c = m t; m = m(s := c)
      in if c \<noteq> 0 then strncpy_loop m (s + 1) (t + 1) k else memset_loop m (s + 1) 0 k)"

definition strncpy :: "mem \<Rightarrow> u64 \<Rightarrow> u64 \<Rightarrow> int \<Rightarrow> mem" where
  "strncpy m s t n = strncpy_loop m s t (nat n)"

primrec safestrcpy_loop :: "mem \<Rightarrow> u64 \<Rightarrow> u64 \<Rightarrow> nat \<Rightarrow> mem" where
  "safestrcpy_loop m s t 0 = m(s := 0)"
| "safestrcpy_loop m s t (Suc k) =
     (let c = m t; m = m(s := c)
      in if c \<noteq> 0 then safestrcpy_loop m (s + 1) (t + 1) k else m(s + 1 := 0))"

definition safestrcpy :: "mem \<Rightarrow> u64 \<Rightarrow> u64 \<Rightarrow> int \<Rightarrow> mem" where
  "safestrcpy m s t n = (if n \<le> 0 then m else safestrcpy_loop m s t (nat n - 1))"

function strlen_from :: "(nat \<Rightarrow> byte) \<Rightarrow> nat \<Rightarrow> nat res" where
  "strlen_from s n =
     (if 2 ^ 31 \<le> n then Inl Undefined
      else if s n \<noteq> 0 then strlen_from s (Suc n) else Inr n)"
  by pat_completeness auto
termination
  by (relation "measure (\<lambda>(s, n). 2 ^ 31 - n)") auto

declare strlen_from.simps [simp del]

definition strlen :: "(nat \<Rightarrow> byte) \<Rightarrow> nat res" where
  "strlen s = strlen_from s 0"

text \<open>
  Specifications: the C string of at most \<open>n\<close> bytes at a pointer, and the \<open>n\<close> bytes
  \<^verbatim>\<open>strncpy\<close> stores (the string, padded with NULs or cut).
\<close>

definition cstr :: "(nat \<Rightarrow> byte) \<Rightarrow> nat \<Rightarrow> byte list" where
  "cstr p n = takeWhile (\<lambda>b. b \<noteq> 0) (map p [0..<n])"

definition strncpy_bytes :: "(nat \<Rightarrow> byte) \<Rightarrow> nat \<Rightarrow> byte list" where
  "strncpy_bytes t n = cstr t n @ replicate (n - length (cstr t n)) 0"

section \<open>Filling and copying memory\<close>

lemma memset_loop_eq: "memset_loop m dst c n = store_bytes m dst (replicate n c)"
  by (induction n arbitrary: m dst) auto

lemma map_ptr_Suc: "map p [0..<Suc n] = p 0 # map (\<lambda>i. p (Suc i)) [0..<n]"
  by (simp only: upt_conv_Cons map_Suc_upt [symmetric] zero_less_Suc list.map map_map comp_def)

lemma load_bytes_Suc: "load_bytes m a (Suc n) = m a # load_bytes m (a + 1) n"
  by (simp only: load_bytes_def map_ptr_Suc) (simp add: add.assoc)

lemma load_bytes_upd:
  "(\<And>i. i < n \<Longrightarrow> a + of_nat i \<noteq> d) \<Longrightarrow> load_bytes (m(d := v)) a n = load_bytes m a n"
  by (simp add: load_bytes_def)

lemma offset_neq:
  fixes d s :: u64
  assumes "i < unat (d - s)"
  shows "s + of_nat i \<noteq> d"
proof
  assume "s + of_nat i = d"
  then have "d - s = of_nat i" by auto
  moreover have "i < 2 ^ 64"
    using assms unat_lt64 [of "d - s"] by simp
  ultimately have "unat (d - s) = i" by (simp add: unat_of_nat64)
  with assms show False by simp
qed

text \<open>A forward copy never reads a byte it has overwritten if the destination does not
  start inside the source.\<close>

lemma copy_fwd_eq:
  assumes "n \<le> unat (d - s) \<or> d = s"
  shows "copy_fwd m d s n = store_bytes m d (load_bytes m s n)"
  using assms
proof (induction n arbitrary: m d s)
  case 0
  then show ?case by (simp add: load_bytes_def)
next
  case (Suc n)
  have "load_bytes (m(d := m s)) (s + 1) n = load_bytes m (s + 1) n"
  proof (cases "d = s")
    case True
    then show ?thesis by simp
  next
    case False
    with Suc.prems have n: "Suc n \<le> unat (d - s)" by simp
    show ?thesis
    proof (rule load_bytes_upd)
      fix i assume "i < n"
      with n have "s + of_nat (Suc i) \<noteq> d"
        by (intro offset_neq) simp
      then show "s + 1 + of_nat i \<noteq> d" by (simp add: add.assoc)
    qed
  qed
  moreover have "copy_fwd (m(d := m s)) (d + 1) (s + 1) n =
      store_bytes (m(d := m s)) (d + 1) (load_bytes (m(d := m s)) (s + 1) n)"
    using Suc.prems by (intro Suc.IH) auto
  ultimately show ?case by (simp add: load_bytes_Suc)
qed

lemma store_bytes_append:
  "store_bytes m a (xs @ ys) = store_bytes (store_bytes m a xs) (a + of_nat (length xs)) ys"
  by (induction xs arbitrary: m a) (auto simp: add.assoc)

lemma store_bytes_upd:
  "(\<And>i. i < length bs \<Longrightarrow> a + of_nat i \<noteq> x) \<Longrightarrow>
   store_bytes (m(x := v)) a bs = (store_bytes m a bs)(x := v)"
proof (induction bs arbitrary: m a)
  case Nil
  then show ?case by simp
next
  case (Cons b bs)
  have "a \<noteq> x" using Cons.prems [of 0] by simp
  have "a + 1 + of_nat i \<noteq> x" if "i < length bs" for i
    using Cons.prems [of "Suc i"] that by (simp add: add.assoc)
  then have "store_bytes (m(a := b, x := v)) (a + 1) bs = (store_bytes (m(a := b)) (a + 1) bs)(x := v)"
    by (rule Cons.IH)
  then show ?case by (simp only: store_bytes.simps fun_upd_twist [OF \<open>a \<noteq> x\<close>])
qed

lemma load_bytes_snoc: "load_bytes m a (Suc n) = load_bytes m a n @ [m (a + of_nat n)]"
  by (simp add: load_bytes_def)

text \<open>A backward copy never reads a byte it has overwritten if the source does not start
  inside the destination.\<close>

lemma copy_bwd_eq:
  assumes "n \<le> unat (s - d)"
  shows "copy_bwd m (d + of_nat n) (s + of_nat n) n = store_bytes m d (load_bytes m s n)"
  using assms
proof (induction n arbitrary: m)
  case 0
  then show ?case by (simp add: load_bytes_def)
next
  case (Suc n)
  let ?m = "m(d + of_nat n := m (s + of_nat n))"
  have ends: "d + of_nat (Suc n) - 1 = d + of_nat n" "s + of_nat (Suc n) - 1 = s + of_nat n"
    by simp_all
  have lt: "n < 2 ^ 64" using Suc.prems unat_lt64 [of "s - d"] by simp
  have rd: "s + of_nat i \<noteq> d + of_nat n" if "i < n" for i
  proof -
    have "d + of_nat (n - i) \<noteq> s" using Suc.prems that by (intro offset_neq) simp
    then show ?thesis using that by (auto simp: of_nat_diff algebra_simps)
  qed
  have wr: "d + of_nat i \<noteq> d + of_nat n" if "i < n" for i
    using that lt by (metis add_left_cancel less_trans nat_neq_iff unat_of_nat64)
  have "copy_bwd ?m (d + of_nat n) (s + of_nat n) n = store_bytes ?m d (load_bytes ?m s n)"
    using Suc.prems by (intro Suc.IH) simp
  also have "\<dots> = store_bytes ?m d (load_bytes m s n)"
    using rd by (simp add: load_bytes_upd)
  also have "\<dots> = (store_bytes m d (load_bytes m s n))(d + of_nat n := m (s + of_nat n))"
    using wr by (intro store_bytes_upd) simp
  finally show ?case
    by (simp only: copy_bwd.simps ends load_bytes_snoc store_bytes_append) simp
qed

lemma memmove_eq:
  assumes "unat src + unat n < 2 ^ 64" and "unat dst + unat n \<le> 2 ^ 64"
  shows "memmove m dst src n = store_bytes m dst (load_bytes m src (unat n))"
proof -
  have n': "(ucast n :: u64) = of_nat (unat n)"
    by (simp add: word_unat_eq_iff unat_of_nat64 less_trans [OF unat_lt32])
  show ?thesis
  proof (cases "src < dst \<and> src + ucast n > dst")
    case True
    have "unat (src - dst) = 2 ^ 64 + unat src - unat dst"
      using True by (simp add: unat_sub_if_size word_less_nat_alt word_size)
    then have "unat n \<le> unat (src - dst)" using assms by simp
    from copy_bwd_eq [OF this] have "copy_bwd m (dst + ucast n) (src + ucast n) (unat n) =
        store_bytes m dst (load_bytes m src (unat n))" for m
      by (simp only: n')
    with True show ?thesis
      by (cases "n = 0") (simp_all add: memmove_def load_bytes_def)
  next
    case False
    have "unat (src + ucast n) = unat src + unat n"
      using assms(1) by (simp add: unat_word_ariths)
    with False have "dst \<le> src \<or> unat src + unat n \<le> unat dst"
      by (auto simp: word_le_nat_alt word_less_nat_alt)
    then have "unat n \<le> unat (dst - src) \<or> dst = src"
      using assms by (auto simp: unat_sub_if_size word_size word_le_nat_alt word_unat_eq_iff)
    from copy_fwd_eq [OF this] False show ?thesis
      by (cases "n = 0") (auto simp: memmove_def load_bytes_def)
  qed
qed

text \<open>Disjoint ranges may lie anywhere.\<close>

lemma offset_exists:
  fixes d s :: u64
  assumes "\<And>j. j < n \<Longrightarrow> d \<noteq> s + of_nat j"
  shows "n \<le> unat (d - s)"
proof (rule ccontr)
  assume "\<not> n \<le> unat (d - s)"
  then have "d \<noteq> s + of_nat (unat (d - s))" by (intro assms) simp
  then show False by simp
qed

lemma memmove_disjoint:
  assumes "\<And>j. j < unat n \<Longrightarrow> dst \<noteq> src + of_nat j" and "\<And>j. j < unat n \<Longrightarrow> src \<noteq> dst + of_nat j"
  shows "memmove m dst src n = store_bytes m dst (load_bytes m src (unat n))"
proof -
  have n': "(ucast n :: u64) = of_nat (unat n)"
    by (simp add: word_unat_eq_iff unat_of_nat64 less_trans [OF unat_lt32])
  have "n = 0 \<Longrightarrow> ?thesis" by (simp add: memmove_def load_bytes_def)
  moreover have "copy_bwd m (dst + ucast n) (src + ucast n) (unat n) = store_bytes m dst (load_bytes m src (unat n))"
    unfolding n' by (rule copy_bwd_eq) (rule offset_exists [OF assms(2)])
  moreover have "copy_fwd m dst src (unat n) = store_bytes m dst (load_bytes m src (unat n))"
    by (rule copy_fwd_eq) (rule disjI1, rule offset_exists [OF assms(1)])
  ultimately show ?thesis by (simp add: memmove_def)
qed

text \<open>\<^verbatim>\<open>memmove\<close> copies correctly even when the two ranges overlap: the destination receives
  the \<open>n\<close> bytes the source held before the call, and nothing else changes.  The ranges must
  not wrap around the address space.
\<close>

theorem memmove_correct:
  assumes "unat src + unat n < 2 ^ 64" and "unat dst + unat n \<le> 2 ^ 64"
  shows "memmove m dst src n = store_bytes m dst (load_bytes m src (unat n))"
  by (rule memmove_eq [OF assms])

theorem memmove_correct_witness:
  "memmove (\<lambda>a. ucast a) 2 1 3 = store_bytes (\<lambda>a. ucast a) 2 [1, 2, 3]"
proof -
  have "unat (1::u64) + unat (3::u32) < 2 ^ 64" "unat (2::u64) + unat (3::u32) \<le> 2 ^ 64"
    by simp_all
  from memmove_correct [OF this, of "\<lambda>a. ucast a"] show ?thesis
    by (simp add: load_bytes_def upt_rec)
qed

lemma memset_eq:
  "unat n < 2 ^ 31 \<Longrightarrow> memset m dst c n = Inr (store_bytes m dst (replicate (unat n) (word_of_int c)))"
  by (simp add: memset_def memset_loop_eq)

section \<open>Comparison\<close>

lemma memcmp_loop_eq_0:
  "memcmp_loop p q i k = 0 \<longleftrightarrow> (\<forall>j. i \<le> j \<and> j < i + k \<longrightarrow> p j = q j)"
proof (induction k arbitrary: i)
  case 0
  then show ?case by auto
next
  case (Suc k)
  have "(\<forall>j. i \<le> j \<and> j < i + Suc k \<longrightarrow> p j = q j) \<longleftrightarrow>
      p i = q i \<and> (\<forall>j. Suc i \<le> j \<and> j < Suc i + k \<longrightarrow> p j = q j)"
    by (metis Suc_le_eq add_Suc add_Suc_right le_less less_add_Suc1)
  then show ?case
    using Suc by (simp add: word_uint_eq_iff)
qed

lemma memcmp_eq_0_iff: "memcmp p q n = 0 \<longleftrightarrow> map p [0..<unat n] = map q [0..<unat n]"
  by (auto simp: memcmp_def memcmp_loop_eq_0)

lemma cstr_Suc:
  "cstr p (Suc n) = (if p 0 = 0 then [] else p 0 # cstr (\<lambda>i. p (Suc i)) n)"
  by (simp only: cstr_def map_ptr_Suc) simp

lemma cstr_0 [simp]: "cstr p 0 = []"
  by (simp add: cstr_def)

lemma length_cstr: "length (cstr p n) \<le> n"
  by (metis cstr_def diff_zero length_map length_takeWhile_le length_upt)

lemma strncmp_loop_shift: "strncmp_loop p q (Suc i) k = strncmp_loop (\<lambda>j. p (Suc j)) (\<lambda>j. q (Suc j)) i k"
  by (induction k arbitrary: i) auto

lemma strncmp_loop_eq_0: "strncmp_loop p q 0 k = 0 \<longleftrightarrow> cstr p k = cstr q k"
proof (induction k arbitrary: p q)
  case 0
  then show ?case by simp
next
  case (Suc k)
  then show ?case
    by (auto simp: cstr_Suc strncmp_loop_shift word_uint_eq_iff)
qed

text \<open>\<^verbatim>\<open>strncmp\<close> decides equality of C strings: it returns 0 exactly when the two strings,
  each cut at its NUL or after \<open>n\<close> bytes, are the same.
\<close>

theorem strncmp_eq_0_iff: "strncmp p q n = 0 \<longleftrightarrow> cstr p (unat n) = cstr q (unat n)"
  by (simp add: strncmp_def strncmp_loop_eq_0)

section \<open>Copying strings\<close>

lemma strncpy_bytes_Suc:
  "strncpy_bytes t (Suc n) =
     (if t 0 = 0 then replicate (Suc n) 0 else t 0 # strncpy_bytes (\<lambda>i. t (Suc i)) n)"
  by (simp add: strncpy_bytes_def cstr_Suc)

lemma length_strncpy_bytes [simp]: "length (strncpy_bytes t n) = n"
  using length_cstr [of t n] by (simp add: strncpy_bytes_def)

lemma strncpy_bytes_cong:
  "(\<And>i. i < n \<Longrightarrow> t i = t' i) \<Longrightarrow> strncpy_bytes t n = strncpy_bytes t' n"
proof -
  assume "\<And>i. i < n \<Longrightarrow> t i = t' i"
  then have "map t [0..<n] = map t' [0..<n]" by simp
  then show ?thesis by (simp only: strncpy_bytes_def cstr_def)
qed

lemma strncpy_loop_eq:
  assumes "n \<le> unat (s - t)"
  shows "strncpy_loop m s t n = store_bytes m s (strncpy_bytes (ptr m t) n)"
  using assms
proof (induction n arbitrary: m s t)
  case 0
  then show ?case by (simp add: strncpy_bytes_def)
next
  case (Suc n)
  have "ptr (m(s := m t)) (t + 1) i = ptr m t (Suc i)" if "i < n" for i
    using offset_neq [of "Suc i" s t] Suc.prems that by (simp add: ptr_def add.assoc)
  then have "strncpy_bytes (ptr (m(s := m t)) (t + 1)) n = strncpy_bytes (\<lambda>i. ptr m t (Suc i)) n"
    by (rule strncpy_bytes_cong)
  moreover have "strncpy_loop (m(s := m t)) (s + 1) (t + 1) n =
      store_bytes (m(s := m t)) (s + 1) (strncpy_bytes (ptr (m(s := m t)) (t + 1)) n)"
    using Suc.prems by (intro Suc.IH) simp
  ultimately show ?case
    by (simp add: Let_def strncpy_bytes_Suc memset_loop_eq ptr_def)
qed

text \<open>\<^verbatim>\<open>strncpy\<close> writes exactly \<open>n\<close> bytes: the source string, cut to \<open>n\<close> bytes or padded
  with NULs, provided the destination does not start inside the source.
\<close>

theorem strncpy_correct:
  assumes "nat n \<le> unat (s - t)"
  shows "strncpy m s t n = store_bytes m s (strncpy_bytes (ptr m t) (nat n))"
  using assms by (simp add: strncpy_def strncpy_loop_eq)

theorem strncpy_correct_witness:
  "strncpy (\<lambda>a. if a = 9 then 0 else 7) 100 8 3 =
   store_bytes (\<lambda>a. if a = 9 then 0 else 7) 100 (7 # replicate 2 0)"
proof -
  have "nat 3 \<le> unat ((100::u64) - 8)" by simp
  from strncpy_correct [OF this, of "\<lambda>a. if a = 9 then 0 else 7"] show ?thesis
    by (simp add: strncpy_bytes_def cstr_def ptr_def upt_rec)
qed

lemma safestrcpy_loop_frame:
  assumes "Suc n < 2 ^ 64" and "Suc n \<le> unat (x - s)"
  shows "safestrcpy_loop m s t n x = m x"
  using assms
proof (induction n arbitrary: m s t)
  case 0
  then have "x \<noteq> s" by auto
  then show ?case by simp
next
  case (Suc n)
  have "s + of_nat 0 \<noteq> x" "s + of_nat 1 \<noteq> x"
    using Suc.prems by (auto intro!: offset_neq simp del: of_nat_0 of_nat_1)
  moreover have "Suc n \<le> unat (x - (s + 1))"
    using Suc.prems \<open>s + of_nat 0 \<noteq> x\<close> unat_minus_one [of "x - s"] by (simp add: diff_diff_eq)
  moreover from this have "safestrcpy_loop (m(s := m t)) (s + 1) (t + 1) n x = (m(s := m t)) x"
    using Suc.prems(1) by (intro Suc.IH) simp_all
  ultimately show ?case by (auto simp: Let_def)
qed

lemma safestrcpy_loop_terminates:
  assumes "Suc n < 2 ^ 64"
  shows "\<exists>i \<le> n. safestrcpy_loop m s t n (s + of_nat i) = 0"
  using assms
proof (induction n arbitrary: m s t)
  case 0
  then show ?case by simp
next
  case (Suc n)
  show ?case
  proof (cases "m t = 0")
    case True
    then show ?thesis by (intro exI [of _ 0]) (simp add: Let_def)
  next
    case False
    have "\<exists>i \<le> n. safestrcpy_loop (m(s := m t)) (s + 1) (t + 1) n (s + 1 + of_nat i) = 0"
      using Suc.prems by (intro Suc.IH) simp
    then obtain i where "i \<le> n" "safestrcpy_loop (m(s := m t)) (s + 1) (t + 1) n (s + 1 + of_nat i) = 0"
      by blast
    with False show ?thesis
      by (intro exI [of _ "Suc i"]) (simp add: Let_def add.assoc)
  qed
qed

text \<open>\<^verbatim>\<open>safestrcpy\<close> always leaves a NUL-terminated string inside the \<open>n\<close> bytes of the
  destination and writes nowhere else.
\<close>

theorem safestrcpy_safe:
  assumes "0 < n" and "n < 2 ^ 31"
  shows "(\<exists>i < nat n. safestrcpy m s t n (s + of_nat i) = 0) \<and>
    (\<forall>x. nat n \<le> unat (x - s) \<longrightarrow> safestrcpy m s t n x = m x)"
proof -
  have n: "Suc (nat n - 1) = nat n" using assms by simp
  have "Suc (nat n - 1) < 2 ^ 64" using assms by simp
  note lt = this
  obtain i where "i \<le> nat n - 1" and "safestrcpy_loop m s t (nat n - 1) (s + of_nat i) = 0"
    using safestrcpy_loop_terminates [OF lt] by blast
  then have "\<exists>i < nat n. safestrcpy m s t n (s + of_nat i) = 0"
    using assms(1) n by (intro exI [of _ i]) (auto simp: safestrcpy_def)
  moreover have "safestrcpy m s t n x = m x" if "nat n \<le> unat (x - s)" for x
    using safestrcpy_loop_frame [OF lt] that assms(1) n by (simp add: safestrcpy_def)
  ultimately show ?thesis by blast
qed

theorem safestrcpy_safe_witness:
  "(\<exists>i < nat 4. safestrcpy (\<lambda>_. 7) 16 64 4 (16 + of_nat i) = 0) \<and>
   safestrcpy (\<lambda>_. 7) 16 64 4 20 = 7 \<and> safestrcpy (\<lambda>_. 7) 16 64 4 4096 = 7"
proof -
  have s: "(\<exists>i < nat 4. safestrcpy (\<lambda>_. 7) 16 64 4 (16 + of_nat i) = 0) \<and>
      (\<forall>x. nat 4 \<le> unat (x - 16) \<longrightarrow> safestrcpy (\<lambda>_. 7) 16 64 4 x = 7)"
    by (rule safestrcpy_safe) simp_all
  have "nat 4 \<le> unat (20 - 16 :: u64)" "nat 4 \<le> unat (4096 - 16 :: u64)" by simp_all
  with s show ?thesis by blast
qed

section \<open>String length\<close>

lemma strlen_from_eq:
  assumes "s k = 0" and "\<forall>j. n \<le> j \<and> j < k \<longrightarrow> s j \<noteq> 0" and "n \<le> k" and "k < 2 ^ 31"
  shows "strlen_from s n = Inr k"
  using assms
proof (induction s n rule: strlen_from.induct)
  case (1 s n)
  show ?case
  proof (cases "n = k")
    case True
    with "1.prems" show ?thesis by (simp add: strlen_from.simps [of s k])
  next
    case False
    with "1.prems" have "n < k" and "s n \<noteq> 0" by auto
    with "1.IH" "1.prems" show ?thesis
      by (simp add: strlen_from.simps [of s n])
  qed
qed

text \<open>\<^verbatim>\<open>strlen\<close> returns the position of the first NUL, if that position is an \<^verbatim>\<open>int\<close>.\<close>

theorem strlen_correct:
  assumes "s k = 0" and "\<forall>j < k. s j \<noteq> 0" and "k < 2 ^ 31"
  shows "strlen s = Inr k"
  using assms strlen_from_eq [of s k 0] by (simp add: strlen_def)

theorem strlen_correct_witness: "strlen (\<lambda>i. if i = 2 then 0 else 65) = Inr 2"
  by (rule strlen_correct) auto

end
