(* ===== verification/Spinlock.thy ===== *)
theory Spinlock
  imports Kernel_Prelude
begin

text \<open>
  \<^verbatim>\<open>kernel/lib/spinlock.c\<close> and the interrupt bookkeeping of \<^verbatim>\<open>include/proc/cpu.h\<close>: nested
  interrupt disabling and spin locks.  The functions run on one hart: \<open>hart\<close> is its
  \<^verbatim>\<open>cpu_t\<close> fields \<^verbatim>\<open>noff\<close> and \<^verbatim>\<open>origin\<close> with the SIE bit of its \<^verbatim>\<open>sstatus\<close>, and the hart id
  (\<^verbatim>\<open>mycpuid()\<close>, register \<^verbatim>\<open>tp\<close>) is an argument.  Called alone, an acquire of a lock that
  another hart holds spins for ever (\<open>Hang\<close>); the step relation \<open>lock_step\<close> at the end
  interleaves the instructions of any number of harts competing for one lock.
\<close>

section \<open>Definitions\<close>

record hart =
  noff :: int
  origin :: bool
  sie :: bool

record spinlock =
  locked :: bool
  name :: string
  cpuid :: int

definition push_off :: "hart \<Rightarrow> hart" where
  "push_off c =
     (let old = sie c;
          c = c\<lparr>sie := False\<rparr>;
          c = (if noff c = 0 then c\<lparr>origin := old\<rparr> else c)
      in c\<lparr>noff := noff c + 1\<rparr>)"

definition pop_off :: "hart \<Rightarrow> hart res" where
  "pop_off c =
     (if sie c then Inl (Panic ''pop_off - interruptible'')
      else if noff c < 1 then Inl (Panic ''pop_off'')
      else let c = c\<lparr>noff := noff c - 1\<rparr>
        in Inr (if noff c = 0 \<and> origin c then c\<lparr>sie := True\<rparr> else c))"

definition spinlock_holding :: "int \<Rightarrow> spinlock \<Rightarrow> bool" where
  "spinlock_holding hid lk \<longleftrightarrow> locked lk \<and> cpuid lk = hid"

definition spinlock_init :: "string \<Rightarrow> spinlock" where
  "spinlock_init nm = \<lparr>locked = False, name = nm, cpuid = -1\<rparr>"

text \<open>The effect of an acquire and of a release on the lock word alone; the operations below
  add the interrupt bookkeeping.\<close>

definition lock_take :: "int \<Rightarrow> spinlock \<Rightarrow> spinlock res" where
  "lock_take hid lk =
     (if spinlock_holding hid lk then Inl (Panic ''double acquire detected'')
      else if locked lk then Inl Hang
      else Inr (lk\<lparr>locked := True, cpuid := hid\<rparr>))"

definition lock_drop :: "int \<Rightarrow> spinlock \<Rightarrow> spinlock res" where
  "lock_drop hid lk =
     (if \<not> spinlock_holding hid lk then Inl (Panic ''release'')
      else Inr (lk\<lparr>cpuid := -1, locked := False\<rparr>))"

definition spinlock_acquire :: "int \<Rightarrow> hart \<Rightarrow> spinlock \<Rightarrow> (hart \<times> spinlock) res" where
  "spinlock_acquire hid c lk =
     (let c = push_off c
      in bindr (lock_take hid lk) (\<lambda>lk. Inr (c, lk)))"

definition spinlock_release :: "int \<Rightarrow> hart \<Rightarrow> spinlock \<Rightarrow> (hart \<times> spinlock) res" where
  "spinlock_release hid c lk =
     bindr (lock_drop hid lk) (\<lambda>lk. bindr (pop_off c) (\<lambda>c. Inr (c, lk)))"

text \<open>\<^verbatim>\<open>cpu_init\<close> clears the bookkeeping of every hart.\<close>

definition cpu_init :: "hart list \<Rightarrow> hart list" where
  "cpu_init cs = map (\<lambda>c. c\<lparr>noff := 0, origin := False\<rparr>) cs"

text \<open>
  Interleaving.  Where a hart stands in \<^verbatim>\<open>spinlock_acquire\<close> / \<^verbatim>\<open>spinlock_release\<close> of the lock:
  outside, spinning on the atomic swap, having swapped but not yet stored its id, in the
  critical section, having cleared the id, having cleared the lock word.  The atomic swap is
  one step; so is each store.
\<close>

datatype lock_pc = Outside | Spinning | Swapped | Critical | Cleared | Unlocked

record lock_sys =
  lk :: spinlock
  harts :: "int \<Rightarrow> hart"
  pc :: "int \<Rightarrow> lock_pc"

inductive lock_step :: "lock_sys \<Rightarrow> lock_sys \<Rightarrow> bool" where
  enter: "pc s h = Outside \<Longrightarrow> 0 \<le> h \<Longrightarrow> \<not> spinlock_holding h (lk s) \<Longrightarrow>
    lock_step s (s\<lparr>harts := (harts s)(h := push_off (harts s h)), pc := (pc s)(h := Spinning)\<rparr>)"
| swap_busy: "pc s h = Spinning \<Longrightarrow> locked (lk s) \<Longrightarrow> lock_step s s"
| swap_free: "pc s h = Spinning \<Longrightarrow> \<not> locked (lk s) \<Longrightarrow>
    lock_step s (s\<lparr>lk := (lk s)\<lparr>locked := True\<rparr>, pc := (pc s)(h := Swapped)\<rparr>)"
| store_id: "pc s h = Swapped \<Longrightarrow>
    lock_step s (s\<lparr>lk := (lk s)\<lparr>cpuid := h\<rparr>, pc := (pc s)(h := Critical)\<rparr>)"
| clear_id: "pc s h = Critical \<Longrightarrow> spinlock_holding h (lk s) \<Longrightarrow>
    lock_step s (s\<lparr>lk := (lk s)\<lparr>cpuid := -1\<rparr>, pc := (pc s)(h := Cleared)\<rparr>)"
| unlock: "pc s h = Cleared \<Longrightarrow>
    lock_step s (s\<lparr>lk := (lk s)\<lparr>locked := False\<rparr>, pc := (pc s)(h := Unlocked)\<rparr>)"
| leave: "pc s h = Unlocked \<Longrightarrow> pop_off (harts s h) = Inr c \<Longrightarrow>
    lock_step s (s\<lparr>harts := (harts s)(h := c), pc := (pc s)(h := Outside)\<rparr>)"

definition lock_start :: "lock_sys \<Rightarrow> bool" where
  "lock_start s \<longleftrightarrow> (\<exists>nm. lk s = spinlock_init nm) \<and> (\<forall>h. pc s h = Outside) \<and>
     (\<forall>h. noff (harts s h) = 0)"

definition owns :: "lock_sys \<Rightarrow> int \<Rightarrow> bool" where
  "owns s h \<longleftrightarrow> pc s h = Swapped \<or> pc s h = Critical \<or> pc s h = Cleared"

text \<open>The invariant: at most one owner, the lock word and the stored id agree with it, and every
  hart inside the protocol runs with interrupts off at a positive depth.\<close>

definition lock_owner :: "lock_sys \<Rightarrow> int option \<Rightarrow> bool" where
  "lock_owner s w \<longleftrightarrow> (\<forall>h. owns s h \<longleftrightarrow> w = Some h) \<and> (locked (lk s) \<longleftrightarrow> w \<noteq> None) \<and>
     cpuid (lk s) = (case w of Some h \<Rightarrow> if pc s h = Critical then h else -1 | None \<Rightarrow> -1)"

definition hart_ok :: "lock_sys \<Rightarrow> int \<Rightarrow> bool" where
  "hart_ok s h \<longleftrightarrow> 0 \<le> noff (harts s h) \<and>
     (pc s h \<noteq> Outside \<longrightarrow> 0 \<le> h \<and> 1 \<le> noff (harts s h) \<and> \<not> sie (harts s h))"

definition lock_inv :: "lock_sys \<Rightarrow> bool" where
  "lock_inv s \<longleftrightarrow> (\<exists>w. lock_owner s w) \<and> (\<forall>h. hart_ok s h)"

section \<open>Nested interrupt disabling\<close>

lemma push_off_simps [simp]:
  "noff (push_off c) = noff c + 1"
  "sie (push_off c) = False"
  "noff c \<noteq> 0 \<Longrightarrow> origin (push_off c) = origin c"
  "noff c = 0 \<Longrightarrow> origin (push_off c) = sie c"
  by (simp_all add: push_off_def Let_def)

lemma pop_off_push_off:
  assumes "0 \<le> noff c" and "0 < noff c \<longrightarrow> \<not> sie c"
  shows "\<exists>d. pop_off (push_off c) = Inr d \<and> noff d = noff c \<and> sie d = sie c \<and>
    (0 < noff c \<longrightarrow> d = c)"
  using assms by (cases c) (auto simp: pop_off_def push_off_def Let_def)

section \<open>Acquire and release\<close>

lemma lock_take_free: "\<not> locked l \<Longrightarrow> lock_take hid l = Inr (l\<lparr>locked := True, cpuid := hid\<rparr>)"
  by (simp add: lock_take_def spinlock_holding_def)

lemma lock_take_drop:
  "lock_take hid l = Inr l' \<Longrightarrow> \<exists>l''. lock_drop hid l' = Inr l'' \<and> \<not> locked l''"
  by (auto simp: lock_take_def lock_drop_def spinlock_holding_def split: if_splits)

text \<open>An acquire of a free lock followed by the release of it by the same hart succeeds,
  leaves the lock free, and restores the hart's nesting depth and its interrupt-enable bit.
\<close>

theorem acquire_release_restores:
  assumes "\<not> locked l" and "0 \<le> noff c" and "0 < noff c \<longrightarrow> \<not> sie c"
  shows "\<exists>c1 l1 c2 l2. spinlock_acquire hid c l = Inr (c1, l1) \<and> spinlock_holding hid l1 \<and>
    \<not> sie c1 \<and> spinlock_release hid c1 l1 = Inr (c2, l2) \<and> \<not> locked l2 \<and>
    noff c2 = noff c \<and> sie c2 = sie c"
proof -
  obtain d where "pop_off (push_off c) = Inr d" "noff d = noff c" "sie d = sie c"
    using pop_off_push_off assms by blast
  then show ?thesis
    using assms(1) by (simp add: spinlock_acquire_def spinlock_release_def lock_take_free
        lock_drop_def spinlock_holding_def Let_def)
qed

theorem acquire_release_restores_witness:
  "\<exists>c1 l1 c2 l2.
     spinlock_acquire 0 \<lparr>noff = 0, origin = False, sie = True\<rparr> (spinlock_init ''ftable'') = Inr (c1, l1) \<and>
     spinlock_holding 0 l1 \<and> \<not> sie c1 \<and> spinlock_release 0 c1 l1 = Inr (c2, l2) \<and> \<not> locked l2 \<and>
     noff c2 = 0 \<and> sie c2 = True"
  using acquire_release_restores [of "spinlock_init ''ftable''"
      "\<lparr>noff = 0, origin = False, sie = True\<rparr>" 0]
  by (simp add: spinlock_init_def)

text \<open>The lock routines detect misuse: acquiring a lock the hart already holds panics, and
  releasing a lock the hart does not hold panics, whatever the state of the hart.
\<close>

theorem lock_misuse_panics:
  "(spinlock_holding hid l \<longrightarrow>
      spinlock_acquire hid c l = Inl (Panic ''double acquire detected'')) \<and>
   (\<not> spinlock_holding hid l \<longrightarrow> spinlock_release hid c l = Inl (Panic ''release''))"
  by (simp add: spinlock_acquire_def spinlock_release_def lock_take_def lock_drop_def Let_def)

theorem lock_misuse_panics_witness:
  "spinlock_release 0 \<lparr>noff = 0, origin = False, sie = True\<rparr> (spinlock_init ''x'') =
     Inl (Panic ''release'')"
  using lock_misuse_panics [of 0 "spinlock_init ''x''"]
  by (simp add: spinlock_holding_def spinlock_init_def)

section \<open>Mutual exclusion\<close>

lemma lock_inv_start: "lock_start s \<Longrightarrow> lock_inv s"
  by (auto simp: lock_start_def lock_inv_def lock_owner_def hart_ok_def owns_def spinlock_init_def)

lemma pop_off_noff: "pop_off c = Inr d \<Longrightarrow> 0 \<le> noff d"
  by (auto simp: pop_off_def Let_def split: if_splits)

lemma hart_ok_step: "lock_step s t \<Longrightarrow> hart_ok s g \<Longrightarrow> hart_ok t g"
  by (induction rule: lock_step.induct) (auto simp: hart_ok_def dest: pop_off_noff)

lemma lock_owner_owns: "lock_owner s w \<Longrightarrow> owns s h \<longleftrightarrow> w = Some h"
  by (simp add: lock_owner_def)

lemma lock_owner_step:
  assumes "lock_step s t" and "lock_owner s w" and "\<forall>h. hart_ok s h"
  shows "\<exists>w. lock_owner t w"
  using assms
proof (induction rule: lock_step.induct)
  case (enter s h)
  then have "w \<noteq> Some h" using lock_owner_owns [of s w h] by (auto simp: owns_def)
  with enter have "lock_owner (s\<lparr>harts := (harts s)(h := push_off (harts s h)), pc := (pc s)(h := Spinning)\<rparr>) w"
    by (auto simp: lock_owner_def owns_def split: option.splits)
  then show ?case by blast
next
  case (swap_busy s h)
  then show ?case by blast
next
  case (swap_free s h)
  then have "w = None" by (simp add: lock_owner_def)
  with swap_free have "lock_owner (s\<lparr>lk := (lk s)\<lparr>locked := True\<rparr>, pc := (pc s)(h := Swapped)\<rparr>) (Some h)"
    by (auto simp: lock_owner_def owns_def)
  then show ?case by blast
next
  case (store_id s h)
  then have "w = Some h" by (auto simp: lock_owner_def owns_def)
  with store_id have "lock_owner (s\<lparr>lk := (lk s)\<lparr>cpuid := h\<rparr>, pc := (pc s)(h := Critical)\<rparr>) (Some h)"
    by (auto simp: lock_owner_def owns_def)
  then show ?case by blast
next
  case (clear_id s h)
  then have "w = Some h" by (auto simp: lock_owner_def owns_def)
  with clear_id have "lock_owner (s\<lparr>lk := (lk s)\<lparr>cpuid := -1\<rparr>, pc := (pc s)(h := Cleared)\<rparr>) (Some h)"
    by (auto simp: lock_owner_def owns_def)
  then show ?case by blast
next
  case (unlock s h)
  then have "w = Some h" by (auto simp: lock_owner_def owns_def)
  with unlock have "lock_owner (s\<lparr>lk := (lk s)\<lparr>locked := False\<rparr>, pc := (pc s)(h := Unlocked)\<rparr>) None"
    by (auto simp: lock_owner_def owns_def)
  then show ?case by blast
next
  case (leave s h c)
  then have "w \<noteq> Some h" using lock_owner_owns [of s w h] by (auto simp: owns_def)
  with leave have "lock_owner (s\<lparr>harts := (harts s)(h := c), pc := (pc s)(h := Outside)\<rparr>) w"
    by (auto simp: lock_owner_def owns_def split: option.splits)
  then show ?case by blast
qed

lemma lock_inv_step: "lock_step s t \<Longrightarrow> lock_inv s \<Longrightarrow> lock_inv t"
  unfolding lock_inv_def using lock_owner_step hart_ok_step by blast

lemma lock_inv_critical: "lock_inv s \<Longrightarrow> pc s h = Critical \<Longrightarrow> lock_owner s (Some h)"
  using lock_owner_owns [of s _ h] by (auto simp: lock_inv_def owns_def)

lemma lock_inv_holder: "lock_inv s \<Longrightarrow> spinlock_holding h (lk s) \<Longrightarrow> 0 \<le> h \<Longrightarrow> pc s h = Critical"
  by (auto simp: lock_inv_def lock_owner_def spinlock_holding_def split: if_splits)

interpretation lock_protocol: inductive_invariant lock_start lock_step lock_inv
  by unfold_locales (auto intro: lock_inv_start lock_inv_step)

text \<open>C26. Mutual exclusion on any number of harts: in every reachable interleaving at most one
  hart is in the critical section, that hart is the one the lock names as holder, and it runs
  with interrupts off.
\<close>

theorem spinlock_mutual_exclusion:
  assumes "reach lock_start lock_step s" and "pc s h = Critical" and "pc s g = Critical"
  shows "h = g \<and> spinlock_holding h (lk s) \<and> \<not> sie (harts s h)"
proof -
  from assms(1) have "lock_inv s" by (rule lock_protocol.reach_inv)
  with assms(2,3) have "lock_owner s (Some h)" "lock_owner s (Some g)" "hart_ok s h"
    by (simp_all add: lock_inv_critical) (simp add: lock_inv_def)
  with assms(2) show ?thesis
    by (auto simp: lock_owner_def owns_def hart_ok_def spinlock_holding_def)
qed

text \<open>A run in which hart 0 takes the lock.\<close>

definition idle_sys :: lock_sys where
  "idle_sys = \<lparr>lk = spinlock_init ''proc'', harts = (\<lambda>_. \<lparr>noff = 0, origin = False, sie = True\<rparr>),
     pc = (\<lambda>_. Outside)\<rparr>"

lemma reach_critical:
  assumes "reach lock_start lock_step s" and "pc s h = Outside" and "0 \<le> h" and "\<not> locked (lk s)"
  shows "\<exists>t. reach lock_start lock_step t \<and> pc t h = Critical"
proof -
  let ?a = "s\<lparr>harts := (harts s)(h := push_off (harts s h)), pc := (pc s)(h := Spinning)\<rparr>"
  let ?b = "?a\<lparr>lk := (lk ?a)\<lparr>locked := True\<rparr>, pc := (pc ?a)(h := Swapped)\<rparr>"
  let ?c = "?b\<lparr>lk := (lk ?b)\<lparr>cpuid := h\<rparr>, pc := (pc ?b)(h := Critical)\<rparr>"
  have "lock_step s ?a"
    using assms by (intro lock_step.enter) (auto simp: spinlock_holding_def)
  moreover have "lock_step ?a ?b"
    using assms by (intro lock_step.swap_free) auto
  moreover have "lock_step ?b ?c"
    by (intro lock_step.store_id) simp
  ultimately have "reach lock_start lock_step ?c"
    using assms(1) by (meson reach_step)
  then show ?thesis by (intro exI [of _ ?c]) simp
qed

theorem spinlock_mutual_exclusion_witness:
  "\<exists>t. reach lock_start lock_step t \<and> pc t 0 = Critical \<and> spinlock_holding 0 (lk t)"
proof -
  have "reach lock_start lock_step idle_sys"
    by (rule reach_start) (auto simp: lock_start_def idle_sys_def)
  then obtain t where t: "reach lock_start lock_step t" "pc t 0 = Critical"
    using reach_critical [of idle_sys 0] by (auto simp: idle_sys_def spinlock_init_def)
  with spinlock_mutual_exclusion [OF t t(2)] show ?thesis by blast
qed

text \<open>Harts that follow the protocol never panic in the lock routines: a hart outside the
  lock does not hold it, a hart in the critical section does, and the interrupt depth it
  gives back is always available.
\<close>

theorem spinlock_protocol_no_panic:
  assumes "reach lock_start lock_step s" and "0 \<le> h"
  shows "(pc s h = Outside \<longrightarrow> \<not> spinlock_holding h (lk s)) \<and>
    (pc s h = Critical \<longrightarrow> spinlock_holding h (lk s)) \<and>
    (pc s h = Unlocked \<longrightarrow> (\<exists>c. pop_off (harts s h) = Inr c))"
proof -
  from assms(1) have "lock_inv s" by (rule lock_protocol.reach_inv)
  then have "hart_ok s h" by (simp add: lock_inv_def)
  then have "pc s h = Unlocked \<longrightarrow> (\<exists>c. pop_off (harts s h) = Inr c)"
    by (auto simp: hart_ok_def pop_off_def Let_def)
  moreover have "pc s h = Critical \<longrightarrow> spinlock_holding h (lk s)"
    using lock_inv_critical [OF \<open>lock_inv s\<close>, of h] by (simp add: lock_owner_def spinlock_holding_def)
  moreover have "pc s h = Outside \<longrightarrow> \<not> spinlock_holding h (lk s)"
    using lock_inv_holder [OF \<open>lock_inv s\<close>, of h] assms(2) by auto
  ultimately show ?thesis by blast
qed

theorem spinlock_protocol_no_panic_witness:
  "reach lock_start lock_step idle_sys \<and> \<not> spinlock_holding 1 (lk idle_sys)"
proof
  show r: "reach lock_start lock_step idle_sys"
    by (rule reach_start) (auto simp: lock_start_def idle_sys_def)
  show "\<not> spinlock_holding 1 (lk idle_sys)"
    using spinlock_protocol_no_panic [OF r, of 1] by (simp add: idle_sys_def)
qed

end
