(* ===== verification/Pmem.thy ===== *)
theory Pmem
  imports Kernel_Prelude
begin

text \<open>
  \<^verbatim>\<open>kernel/mem/pmem.c\<close>: the physical page allocator.  Two regions, one for the kernel and one
  for user pages; the free pages of a region form a singly linked list threaded through their
  own first eight bytes.  \<open>list_head\<close> is \<^verbatim>\<open>list_head.next\<close> (0 is NULL).  The region lock is
  taken and released inside each operation, so an operation is one atomic step here.
  \<^verbatim>\<open>ALLOC_BEGIN\<close>, which the linker sets, is an argument of \<open>pmem_init\<close>.
\<close>

section \<open>Definitions\<close>

record alloc_region =
  r_begin :: u64
  r_end :: u64
  allocable :: u32
  list_head :: u64

record pmem =
  mem :: mem
  kern_region :: alloc_region
  user_region :: alloc_region

abbreviation PGSIZE :: u64 where
  "PGSIZE \<equiv> 4096"

abbreviation KERNEL_PAGES :: u64 where
  "KERNEL_PAGES \<equiv> 1024"

definition PG_ROUND_UP :: "u64 \<Rightarrow> u64" where
  "PG_ROUND_UP sz = (sz + PGSIZE - 1) AND NOT (PGSIZE - 1)"

definition PG_ROUND_DOWN :: "u64 \<Rightarrow> u64" where
  "PG_ROUND_DOWN a = a AND NOT (PGSIZE - 1)"

definition region_free_page :: "mem \<Rightarrow> alloc_region \<Rightarrow> u64 \<Rightarrow> (mem \<times> alloc_region) res" where
  "region_free_page m r pa =
     (if pa mod PGSIZE \<noteq> 0 \<or> pa < r_begin r \<or> r_end r \<le> pa
      then Inl (Panic ''region_free_page: bad page'')
      else Inr (store64 m pa (list_head r),
                r\<lparr>list_head := pa, allocable := allocable r + 1\<rparr>))"

definition region_alloc_page :: "mem \<Rightarrow> alloc_region \<Rightarrow> u64 \<times> alloc_region" where
  "region_alloc_page m r =
     (let n = list_head r
      in if n \<noteq> 0 then (n, r\<lparr>list_head := load64 m n, allocable := allocable r - 1\<rparr>)
         else (0, r))"

definition init_region :: "u64 \<Rightarrow> u64 \<Rightarrow> alloc_region" where
  "init_region b e = \<lparr>r_begin = b, r_end = e, allocable = 0, list_head = 0\<rparr>"

text \<open>The loop of \<^verbatim>\<open>freerange_region\<close>.  \<open>p\<close> takes at most \<open>2 ^ 52\<close> page-aligned values and the
  loop condition depends on \<open>p\<close> alone, so a run of more than \<open>2 ^ 52\<close> rounds never ends.\<close>

primrec freerange_loop :: "nat \<Rightarrow> mem \<Rightarrow> alloc_region \<Rightarrow> u64 \<Rightarrow> u64 \<Rightarrow> (mem \<times> alloc_region) res" where
  "freerange_loop 0 m r p pa_end = Inl Hang"
| "freerange_loop (Suc fuel) m r p pa_end =
     (if p + PGSIZE \<le> pa_end
      then bindr (region_free_page m r p) (\<lambda>(m, r). freerange_loop fuel m r (p + PGSIZE) pa_end)
      else Inr (m, r))"

definition freerange_region :: "mem \<Rightarrow> alloc_region \<Rightarrow> u64 \<Rightarrow> u64 \<Rightarrow> (mem \<times> alloc_region) res" where
  "freerange_region m r pa_start pa_end =
     freerange_loop (2 ^ 52 + 1) m r (PG_ROUND_UP pa_start) pa_end"

definition pmem_init :: "u64 \<Rightarrow> mem \<Rightarrow> pmem res" where
  "pmem_init ALLOC_BEGIN m =
     (let a = ALLOC_BEGIN; b = 0x88000000
      in if b \<le> a then Inl (Panic ''pmem_init: bad ALLOC range'')
      else let total_bytes = b - a
        in if total_bytes mod PGSIZE \<noteq> 0
           then Inl (Panic ''pmem_init: ALLOC range not page-aligned'')
        else let total_pages = total_bytes div PGSIZE
          in if total_pages < KERNEL_PAGES
             then Inl (Panic ''pmem_init: ALLOC range too small for kernel pages'')
          else let mid = a + KERNEL_PAGES * PGSIZE;
                   k = init_region a mid;
                   u = init_region mid b
            in bindr (freerange_region m k (r_begin k) (r_end k)) (\<lambda>(m, k).
               bindr (freerange_region m u (r_begin u) (r_end u)) (\<lambda>(m, u).
               Inr \<lparr>mem = m, kern_region = k, user_region = u\<rparr>)))"

definition pmem_alloc :: "bool \<Rightarrow> pmem \<Rightarrow> u64 \<times> pmem" where
  "pmem_alloc in_kernel s =
     (if in_kernel
      then let (pa, r) = region_alloc_page (mem s) (kern_region s) in (pa, s\<lparr>kern_region := r\<rparr>)
      else let (pa, r) = region_alloc_page (mem s) (user_region s) in (pa, s\<lparr>user_region := r\<rparr>))"

definition pmem_free :: "u64 \<Rightarrow> bool \<Rightarrow> pmem \<Rightarrow> pmem res" where
  "pmem_free page in_kernel s =
     (let r = (if in_kernel then kern_region s else user_region s)
      in if page mod PGSIZE \<noteq> 0 \<or> page < r_begin r \<or> r_end r \<le> page
         then Inl (Panic ''pmem_free: invalid page or wrong region'')
         else bindr (region_free_page (mem s) r page) (\<lambda>(m, r).
           Inr (if in_kernel then s\<lparr>mem := m, kern_region := r\<rparr> else s\<lparr>mem := m, user_region := r\<rparr>)))"

text \<open>Abstraction: the list of free pages of a region, its pages, and the invariant.\<close>

primrec page_list :: "mem \<Rightarrow> u64 \<Rightarrow> u64 list \<Rightarrow> bool" where
  "page_list m a [] \<longleftrightarrow> a = 0"
| "page_list m a (p # ps) \<longleftrightarrow> a = p \<and> p \<noteq> 0 \<and> page_list m (load64 m p) ps"

definition page_ok :: "alloc_region \<Rightarrow> u64 \<Rightarrow> bool" where
  "page_ok r p \<longleftrightarrow> p mod PGSIZE = 0 \<and> r_begin r \<le> p \<and> p < r_end r"

definition region_list :: "mem \<Rightarrow> alloc_region \<Rightarrow> u64 list \<Rightarrow> bool" where
  "region_list m r ps \<longleftrightarrow> page_list m (list_head r) ps \<and> distinct ps \<and> (\<forall>p \<in> set ps. page_ok r p) \<and>
     allocable r = of_nat (length ps) \<and> 0 < r_begin r"

definition region :: "bool \<Rightarrow> pmem \<Rightarrow> alloc_region" where
  "region k s = (if k then kern_region s else user_region s)"

definition free_pages :: "bool \<Rightarrow> pmem \<Rightarrow> u64 set" where
  "free_pages k s = {p. \<exists>ps. region_list (mem s) (region k s) ps \<and> p \<in> set ps}"

definition region_pages :: "bool \<Rightarrow> pmem \<Rightarrow> u64 set" where
  "region_pages k s = {p. page_ok (region k s) p}"

definition pmem_inv :: "pmem \<Rightarrow> bool" where
  "pmem_inv s \<longleftrightarrow> (\<exists>ps. region_list (mem s) (kern_region s) ps) \<and>
     (\<exists>ps. region_list (mem s) (user_region s) ps) \<and>
     r_end (kern_region s) \<le> r_begin (user_region s)"

section \<open>Lists of pages in memory\<close>

lemma page_list_unique: "page_list m a ps \<Longrightarrow> page_list m a qs \<Longrightarrow> ps = qs"
proof (induction ps arbitrary: a qs)
  case Nil
  then show ?case by (cases qs) auto
next
  case (Cons p ps)
  then show ?case by (cases qs) auto
qed

lemma pg_mod: "(p :: u64) mod PGSIZE = 0 \<longleftrightarrow> 4096 dvd unat p"
  by (simp add: word_unat_eq_iff unat_mod mod_eq_0_iff_dvd)

lemma page_aligned: "p mod PGSIZE = 0 \<Longrightarrow> aligned 3 p"
proof -
  assume "p mod PGSIZE = 0"
  then have "take_bit 12 p = 0" by (simp add: take_bit_eq_mod)
  then have "take_bit 3 (take_bit 12 p) = 0" by simp
  then show ?thesis by (simp add: aligned_def)
qed

lemma page_list_store:
  "page_list m a ps \<Longrightarrow> \<forall>q \<in> set ps. q mod PGSIZE = 0 \<Longrightarrow> p mod PGSIZE = 0 \<Longrightarrow> p \<notin> set ps \<Longrightarrow>
   page_list (store64 m p v) a ps"
  by (induction ps arbitrary: a) (auto simp: page_aligned)

lemma region_free_page_list:
  assumes "region_list m r ps" and "page_ok r p" and "p \<notin> set ps"
  shows "\<exists>m' r'. region_free_page m r p = Inr (m', r') \<and> region_list m' r' (p # ps) \<and>
    r_begin r' = r_begin r \<and> r_end r' = r_end r \<and> m' = store64 m p (list_head r)"
proof -
  have "p \<noteq> 0"
    using assms(1,2) by (auto simp: region_list_def page_ok_def)
  moreover have "page_list (store64 m p (list_head r)) (list_head r) ps"
    using assms by (intro page_list_store) (auto simp: region_list_def page_ok_def)
  ultimately show ?thesis
    using assms by (auto simp: region_free_page_def region_list_def page_ok_def)
qed

lemma region_alloc_page_list:
  assumes "region_list m r ps"
  shows "(case ps of [] \<Rightarrow> region_alloc_page m r = (0, r)
     | p # qs \<Rightarrow> \<exists>r'. region_alloc_page m r = (p, r') \<and> region_list m r' qs \<and>
         r_begin r' = r_begin r \<and> r_end r' = r_end r)"
  using assms by (auto simp: region_alloc_page_def region_list_def page_ok_def Let_def split: list.splits)

lemma region_list_store_other:
  assumes "region_list m r ps" and "p mod PGSIZE = 0" and "\<not> page_ok r p"
  shows "region_list (store64 m p v) r ps"
proof -
  have "page_list (store64 m p v) (list_head r) ps"
    using assms(1,3) by (intro page_list_store assms(2)) (auto simp: region_list_def page_ok_def)
  with assms(1) show ?thesis by (simp add: region_list_def)
qed

lemma page_ok_disjoint: "page_ok r p \<Longrightarrow> r_end r \<le> r_begin q \<or> r_end q \<le> r_begin r \<Longrightarrow> \<not> page_ok q p"
  by (auto simp: page_ok_def)

section \<open>Filling a region\<close>

definition page_seq :: "u64 \<Rightarrow> nat \<Rightarrow> u64 list" where
  "page_seq p n = map (\<lambda>i. p + of_nat i * PGSIZE) [0..<n]"

lemma page_seq_Suc: "page_seq p (Suc n) = p # page_seq (p + PGSIZE) n"
  by (simp only: page_seq_def upt_conv_Cons map_Suc_upt [symmetric] zero_less_Suc list.map map_map comp_def)
     (simp add: algebra_simps)

lemma freerange_loop_list:
  assumes "region_list m r ps" and "unat p + 4096 * n = unat (r_end r)"
    and "unat (r_end r) + 4096 < 2 ^ 64" and "p mod PGSIZE = 0" and "r_begin r \<le> p"
    and "\<forall>q \<in> set ps. q < p" and "n < fuel"
  shows "\<exists>m' r'. freerange_loop fuel m r p (r_end r) = Inr (m', r') \<and>
    region_list m' r' (rev (page_seq p n) @ ps) \<and> r_begin r' = r_begin r \<and> r_end r' = r_end r \<and>
    (\<forall>q qs. region_list m q qs \<longrightarrow> r_end r \<le> r_begin q \<or> r_end q \<le> r_begin r \<longrightarrow> region_list m' q qs)"
  using assms
proof (induction n arbitrary: fuel m r p ps)
  case 0
  then have "p = r_end r" by (simp add: word_unat_eq_iff)
  moreover have "\<not> p + PGSIZE \<le> p"
    using 0 \<open>p = r_end r\<close> by (simp add: word_le_nat_alt unat_word_ariths)
  ultimately show ?case
    using 0 by (cases fuel) (auto simp: page_seq_def)
next
  case (Suc n)
  obtain f where f: "fuel = Suc f" using Suc.prems(7) by (cases fuel) auto
  have up: "unat (p + PGSIZE) = unat p + 4096"
    using Suc.prems(2,3) by (simp add: unat_word_ariths)
  have le: "p + PGSIZE \<le> r_end r"
    using Suc.prems(2) up by (simp add: word_le_nat_alt)
  have lt: "p < p + PGSIZE" using up by (simp add: word_less_nat_alt)
  have ok: "page_ok r p"
    using Suc.prems(4,5) le lt by (auto simp: page_ok_def)
  have "p \<notin> set ps" using Suc.prems(6) by auto
  from region_free_page_list [OF Suc.prems(1) ok this] obtain m1 r1 where
    1: "region_free_page m r p = Inr (m1, r1)" "region_list m1 r1 (p # ps)" "r_begin r1 = r_begin r"
      "r_end r1 = r_end r" "m1 = store64 m p (list_head r)" by auto
  have fr: "region_list m1 q qs"
    if "region_list m q qs" "r_end r \<le> r_begin q \<or> r_end q \<le> r_begin r" for q qs
    unfolding 1(5) using region_list_store_other [OF that(1) Suc.prems(4)] page_ok_disjoint [OF ok that(2)]
    by blast
  have "(p + PGSIZE) mod PGSIZE = 0"
    using Suc.prems(4) up by (simp only: pg_mod) simp
  moreover have "r_begin r1 \<le> p + PGSIZE" "\<forall>q \<in> set (p # ps). q < p + PGSIZE"
    using Suc.prems(5,6) lt 1(3) by (auto intro: order.strict_trans)
  ultimately have "\<exists>m2 r2. freerange_loop f m1 r1 (p + PGSIZE) (r_end r1) = Inr (m2, r2) \<and>
      region_list m2 r2 (rev (page_seq (p + PGSIZE) n) @ p # ps) \<and> r_begin r2 = r_begin r1 \<and>
      r_end r2 = r_end r1 \<and> (\<forall>q qs. region_list m1 q qs \<longrightarrow> r_end r1 \<le> r_begin q \<or> r_end q \<le> r_begin r1 \<longrightarrow>
        region_list m2 q qs)"
    using 1 Suc.prems(2,3,7) up f by (intro Suc.IH) simp_all
  then obtain m2 r2 where
    2: "freerange_loop f m1 r1 (p + PGSIZE) (r_end r) = Inr (m2, r2)"
      "region_list m2 r2 (rev (page_seq (p + PGSIZE) n) @ p # ps)" "r_begin r2 = r_begin r"
      "r_end r2 = r_end r"
      "\<forall>q qs. region_list m1 q qs \<longrightarrow> r_end r \<le> r_begin q \<or> r_end q \<le> r_begin r \<longrightarrow> region_list m2 q qs"
    unfolding 1(3,4) by blast
  with 1 f le fr show ?case by (simp add: page_seq_Suc)
qed

lemma PG_ROUND_UP_aligned:
  assumes "p mod PGSIZE = 0"
  shows "PG_ROUND_UP p = p"
proof -
  have t: "p AND mask 12 = 0" using assms by (simp add: take_bit_eq_mod flip: take_bit_eq_mask)
  have m: "PGSIZE - 1 = mask 12" by (simp add: mask_eq_exp_minus_1)
  have "p + PGSIZE - 1 = p + mask 12" by (simp add: mask_eq_exp_minus_1)
  also have "\<dots> = p OR mask 12" using t by (rule disjunctive_add_eq_or)
  finally have "PG_ROUND_UP p = (p OR mask 12) AND NOT (mask 12)"
    by (simp only: PG_ROUND_UP_def m)
  also have "\<dots> = p AND NOT (mask 12)"
    by (rule bit_word_eqI) (auto simp: bit_simps)
  also have "\<dots> = (p AND NOT (mask 12)) OR (p AND mask 12)"
    by (simp add: t)
  also have "\<dots> = p"
    by (rule bit_word_eqI) (auto simp: bit_simps)
  finally show ?thesis .
qed

lemma region_list_init: "0 < b \<Longrightarrow> region_list m (init_region b e) []"
  by (simp add: region_list_def init_region_def)

lemma freerange_region_list:
  assumes "b mod PGSIZE = 0" and "0 < b" and "unat b + 4096 * n = unat e" and "e \<le> 0x88000000"
  shows "\<exists>m' r'. freerange_region m (init_region b e) b e = Inr (m', r') \<and>
    region_list m' r' (rev (page_seq b n)) \<and> r_begin r' = b \<and> r_end r' = e \<and>
    (\<forall>q qs. region_list m q qs \<longrightarrow> e \<le> r_begin q \<or> r_end q \<le> b \<longrightarrow> region_list m' q qs)"
proof -
  have "unat e \<le> 0x88000000" using assms(4) by (simp add: word_le_nat_alt)
  then show ?thesis
    using freerange_loop_list [OF region_list_init [OF assms(2)], of b n e "2 ^ 52 + 1" m] assms
    by (simp add: freerange_region_def PG_ROUND_UP_aligned init_region_def)
qed

lemma set_page_seq:
  assumes "unat b + 4096 * n = unat e"
  shows "set (page_seq b n) = {p. b \<le> p \<and> p < e \<and> (p - b) mod PGSIZE = 0}" (is "?L = ?R")
proof (rule set_eqI)
  fix p
  have u: "unat (of_nat i * PGSIZE) = i * 4096" if "i \<le> n" for i
  proof -
    have "i * 4096 < 2 ^ 64" using that assms unat_lt64 [of e] by simp
    moreover have "of_nat i * PGSIZE = of_nat (i * 4096)" by simp
    ultimately show ?thesis by (metis unat_of_nat64)
  qed
  show "p \<in> ?L \<longleftrightarrow> p \<in> ?R"
  proof
    assume "p \<in> ?L"
    then obtain i where i: "i < n" "p = b + of_nat i * PGSIZE" by (auto simp: page_seq_def)
    have "unat p = unat b + i * 4096"
      using i u [of i] assms unat_lt64 [of e] by (simp add: unat_word_ariths)
    moreover have "(p - b) mod PGSIZE = 0"
      using i u [of i] by (simp only: pg_mod) simp
    ultimately show "p \<in> ?R" using i assms by (auto simp: word_le_nat_alt word_less_nat_alt)
  next
    assume p: "p \<in> ?R"
    define i where "i = unat (p - b) div 4096"
    have d: "unat (p - b) = unat p - unat b"
      using p by (simp add: unat_sub word_le_nat_alt)
    have "4096 dvd unat (p - b)"
      using p by (simp only: pg_mod mem_Collect_eq)
    then have e: "unat (p - b) = i * 4096" by (auto simp: i_def)
    then have "i < n" using p d assms by (auto simp: word_less_nat_alt word_le_nat_alt)
    moreover have "p - b = of_nat i * PGSIZE"
      using e u [of i] \<open>i < n\<close> by (simp add: word_unat_eq_iff)
    then have "p = b + of_nat i * PGSIZE" by (simp add: algebra_simps)
    ultimately show "p \<in> ?L" by (auto simp: page_seq_def)
  qed
qed

section \<open>Initialisation\<close>

lemma free_pages_eq:
  "region_list (mem s) (region k s) ps \<Longrightarrow> free_pages k s = set ps"
  unfolding free_pages_def by (auto simp: region_list_def dest: page_list_unique)

lemma free_pages_card: "region_list (mem s) (region k s) ps \<Longrightarrow> card (free_pages k s) = length ps"
  by (simp add: free_pages_eq) (simp add: region_list_def distinct_card)

text \<open>Initialisation splits the pages from \<^verbatim>\<open>ALLOC_BEGIN\<close> to \<^verbatim>\<open>0x88000000\<close> into a kernel pool
  of exactly \<^verbatim>\<open>KERNEL_PAGES\<close> pages and a user pool with all the others: both free lists are
  well formed, every page of each region is free, and the counters are right.
\<close>

theorem pmem_init_correct:
  assumes "a mod PGSIZE = 0" and "0 < a" and "unat a + 1024 * 4096 \<le> 0x88000000"
  shows "\<exists>s. pmem_init a m = Inr s \<and> pmem_inv s \<and>
    free_pages True s = region_pages True s \<and> free_pages False s = region_pages False s \<and>
    allocable (kern_region s) = 1024 \<and> card (free_pages True s) = 1024 \<and>
    card (free_pages False s) = (0x88000000 - unat a) div 4096 - 1024 \<and>
    r_begin (kern_region s) = a \<and> r_end (kern_region s) = a + 1024 * PGSIZE \<and>
    r_begin (user_region s) = a + 1024 * PGSIZE \<and> r_end (user_region s) = 0x88000000"
proof -
  let ?mid = "a + 1024 * PGSIZE" and ?b = "0x88000000 :: u64"
  define n where "n = (0x88000000 - unat a) div 4096 - 1024"
  have mid: "unat ?mid = unat a + 1024 * 4096"
    using assms(3) by (simp add: unat_word_ariths)
  obtain k where k: "unat a = 4096 * k" using assms(1) unfolding pg_mod by auto
  have "0x88000000 - 4096 * k = 4096 * (557056 - k)" by simp
  then have "n = 557056 - k - 1024" unfolding n_def k by simp
  then have n: "unat ?mid + 4096 * n = unat ?b"
    using assms(3) unfolding mid k by simp
  have midm: "?mid mod PGSIZE = 0"
    unfolding pg_mod mid k by simp
  have mid0: "0 < ?mid" using mid by (simp add: word_less_nat_alt)
  have ab: "a < ?b" using assms(3) by (simp add: word_less_nat_alt)
  have sub: "unat (?b - a) = 0x88000000 - unat a" using ab by (simp add: unat_sub)
  have guard1: "(?b - a) mod PGSIZE = 0"
    unfolding pg_mod sub k by simp
  have guard2: "\<not> (?b - a) div PGSIZE < 1024"
    using assms(3) by (simp add: word_less_nat_alt unat_div sub)
  note guards = guard1 guard2
  obtain m1 r1 where 1: "freerange_region m (init_region a ?mid) a ?mid = Inr (m1, r1)"
      "region_list m1 r1 (rev (page_seq a 1024))" "r_begin r1 = a" "r_end r1 = ?mid"
    using freerange_region_list [of a 1024 ?mid m] assms mid by (auto simp: word_le_nat_alt)
  obtain m2 r2 where 2: "freerange_region m1 (init_region ?mid ?b) ?mid ?b = Inr (m2, r2)"
      "region_list m2 r2 (rev (page_seq ?mid n))" "r_begin r2 = ?mid" "r_end r2 = ?b"
      "region_list m2 r1 (rev (page_seq a 1024))"
    using freerange_region_list [OF midm mid0 n, of m1] 1 by auto
  let ?s = "\<lparr>mem = m2, kern_region = r1, user_region = r2\<rparr>"
  have ok: "page_ok r p \<longleftrightarrow> r_begin r \<le> p \<and> p < r_end r \<and> (p - r_begin r) mod PGSIZE = 0"
    if "r_begin r mod PGSIZE = 0" for r p
    using that unfolding page_ok_def pg_mod
    by (auto simp: unat_sub word_le_nat_alt dvd_diff_nat) (metis dvd_diffD)
  have "pmem_init a m = Inr ?s"
    using ab guards 1(1) 2(1) by (simp add: pmem_init_def Let_def init_region_def not_le)
  moreover have "pmem_inv ?s" using 2 1 by (auto simp: pmem_inv_def)
  moreover have "free_pages True ?s = region_pages True ?s"
    using 2 1 free_pages_eq [of ?s True] set_page_seq [of a 1024 ?mid] mid assms(1)
    by (auto simp: region_def region_pages_def ok)
  moreover have "free_pages False ?s = region_pages False ?s"
    using 2 1 free_pages_eq [of ?s False] set_page_seq [OF n] midm
    by (auto simp: region_def region_pages_def ok)
  moreover have "allocable r1 = 1024" using 1(2) by (simp add: region_list_def page_seq_def)
  moreover have "card (free_pages True ?s) = 1024"
    using 2(5) free_pages_card [of ?s True "rev (page_seq a 1024)"] by (simp add: region_def page_seq_def)
  moreover have "card (free_pages False ?s) = n"
    using 2(2) free_pages_card [of ?s False "rev (page_seq ?mid n)"] by (simp add: region_def page_seq_def)
  ultimately show ?thesis using 1 2 unfolding n_def by auto
qed

theorem pmem_init_correct_witness:
  "\<exists>s. pmem_init 0x80010000 (\<lambda>_. 0) = Inr s \<and> pmem_inv s \<and> allocable (kern_region s) = 1024 \<and>
    r_end (user_region s) = 0x88000000"
  using pmem_init_correct [of "0x80010000" "\<lambda>_. 0"] by auto

section \<open>Allocation and release\<close>

lemma region_cases [simp]:
  "region True s = kern_region s" "region False s = user_region s"
  by (simp_all add: region_def)

lemma pmem_inv_region: "pmem_inv s \<Longrightarrow> \<exists>ps. region_list (mem s) (region k s) ps"
  by (cases k) (auto simp: pmem_inv_def)

lemma pmem_alloc_list:
  assumes "pmem_inv s" and "region_list (mem s) (region k s) ps"
  shows "case ps of [] \<Rightarrow> pmem_alloc k s = (0, s)
    | p # qs \<Rightarrow> \<exists>t. pmem_alloc k s = (p, t) \<and> pmem_inv t \<and> region_list (mem t) (region k t) qs \<and>
        mem t = mem s \<and> region (\<not> k) t = region (\<not> k) s \<and>
        r_begin (region k t) = r_begin (region k s) \<and> r_end (region k t) = r_end (region k s)"
proof (cases ps)
  case Nil
  with region_alloc_page_list [OF assms(2)] show ?thesis
    by (cases k) (auto simp: pmem_alloc_def)
next
  case (Cons p qs)
  with region_alloc_page_list [OF assms(2)] obtain r where
    r: "region_alloc_page (mem s) (region k s) = (p, r)" "region_list (mem s) r qs"
      "r_begin r = r_begin (region k s)" "r_end r = r_end (region k s)" by auto
  show ?thesis
  proof (cases k)
    case True
    with r assms(1) Cons show ?thesis by (auto simp: pmem_alloc_def pmem_inv_def)
  next
    case False
    with r assms(1) Cons show ?thesis by (auto simp: pmem_alloc_def pmem_inv_def)
  qed
qed

lemma pmem_free_list:
  assumes "pmem_inv s" and "region_list (mem s) (region k s) ps" and "page_ok (region k s) p"
    and "p \<notin> set ps"
  shows "\<exists>t. pmem_free p k s = Inr t \<and> pmem_inv t \<and> region_list (mem t) (region k t) (p # ps) \<and>
    r_begin (region k t) = r_begin (region k s) \<and> r_end (region k t) = r_end (region k s) \<and>
    (\<forall>qs. region_list (mem s) (region (\<not> k) s) qs \<longrightarrow> region_list (mem t) (region (\<not> k) t) qs)"
proof -
  obtain m r where r: "region_free_page (mem s) (region k s) p = Inr (m, r)"
      "region_list m r (p # ps)" "r_begin r = r_begin (region k s)" "r_end r = r_end (region k s)"
      "m = store64 (mem s) p (list_head (region k s))"
    using region_free_page_list [OF assms(2-4)] by blast
  have dis: "\<not> page_ok (region (\<not> k) s) p"
    using assms(1) page_ok_disjoint [OF assms(3), of "region (\<not> k) s"]
    by (cases k) (auto simp: pmem_inv_def)
  have oth: "region_list m (region (\<not> k) s) qs" if "region_list (mem s) (region (\<not> k) s) qs" for qs
    unfolding r(5) using that assms(3) dis by (intro region_list_store_other) (auto simp: page_ok_def)
  show ?thesis
  proof (cases k)
    case True
    with r oth assms(1,3) show ?thesis
      by (auto simp: pmem_free_def pmem_inv_def page_ok_def Let_def)
  next
    case False
    with r oth assms(1,3) show ?thesis
      by (auto simp: pmem_free_def pmem_inv_def page_ok_def Let_def)
  qed
qed

text \<open>The two pools, as instances of the allocator interface.\<close>

definition pool_alloc :: "bool \<Rightarrow> pmem \<Rightarrow> (u64 \<times> pmem) option" where
  "pool_alloc k s = (case pmem_alloc k s of (pa, t) \<Rightarrow> if pa = 0 then None else Some (pa, t))"

definition pool_free :: "bool \<Rightarrow> u64 \<Rightarrow> pmem \<Rightarrow> pmem option" where
  "pool_free k p s = (case pmem_free p k s of Inl _ \<Rightarrow> None | Inr t \<Rightarrow> Some t)"

lemma region_list_nonzero: "region_list m r ps \<Longrightarrow> p \<in> set ps \<Longrightarrow> p \<noteq> 0"
  by (auto simp: region_list_def page_ok_def)

lemma pool_laws: "alloc_pool pmem_inv (region_pages k) (free_pages k) (pool_alloc k) (pool_free k)"
proof
  fix s assume "pmem_inv s"
  then obtain ps where "region_list (mem s) (region k s) ps" using pmem_inv_region by blast
  then show "free_pages k s \<subseteq> region_pages k s"
    by (auto simp: free_pages_eq region_pages_def region_list_def)
  show "finite (region_pages k s)" by simp
next
  fix s p t assume inv: "pmem_inv s" and a: "pool_alloc k s = Some (p, t)"
  obtain ps where ps: "region_list (mem s) (region k s) ps" using inv pmem_inv_region by blast
  have "ps \<noteq> []" using a pmem_alloc_list [OF inv ps] by (auto simp: pool_alloc_def)
  then obtain qs where "ps = p # qs" and t: "pmem_inv t" "region_list (mem t) (region k t) qs"
      "r_begin (region k t) = r_begin (region k s)" "r_end (region k t) = r_end (region k s)"
    using a pmem_alloc_list [OF inv ps] by (auto simp: pool_alloc_def neq_Nil_conv split: if_splits)
  moreover have "distinct ps" using ps by (simp add: region_list_def)
  ultimately show "p \<in> free_pages k s \<and> free_pages k t = free_pages k s - {p} \<and>
      region_pages k t = region_pages k s \<and> pmem_inv t"
    using ps by (auto simp: free_pages_eq region_pages_def page_ok_def)
next
  fix s assume inv: "pmem_inv s" and a: "pool_alloc k s = None"
  obtain ps where ps: "region_list (mem s) (region k s) ps" using inv pmem_inv_region by blast
  have "ps = []"
    using a pmem_alloc_list [OF inv ps] region_list_nonzero [OF ps]
    by (cases ps) (auto simp: pool_alloc_def)
  with ps show "free_pages k s = {}" by (simp add: free_pages_eq)
next
  fix s p assume inv: "pmem_inv s" and p: "p \<in> region_pages k s" "p \<notin> free_pages k s"
  obtain ps where ps: "region_list (mem s) (region k s) ps" using inv pmem_inv_region by blast
  with p obtain t where "pmem_free p k s = Inr t" "pmem_inv t"
      "region_list (mem t) (region k t) (p # ps)" "r_begin (region k t) = r_begin (region k s)"
      "r_end (region k t) = r_end (region k s)"
    using pmem_free_list [OF inv ps, of p] by (auto simp: free_pages_eq region_pages_def)
  with ps show "\<exists>t. pool_free k p s = Some t \<and> free_pages k t = insert p (free_pages k s) \<and>
      region_pages k t = region_pages k s \<and> pmem_inv t"
    by (auto simp: pool_free_def free_pages_eq region_pages_def page_ok_def)
qed

interpretation kpool: alloc_pool pmem_inv "region_pages True" "free_pages True" "pool_alloc True" "pool_free True"
  by (rule pool_laws)

interpretation upool: alloc_pool pmem_inv "region_pages False" "free_pages False" "pool_alloc False" "pool_free False"
  by (rule pool_laws)

text \<open>A page the allocator hands out is a page of the requested region that was free and is
  no longer; the other pool keeps its free pages; and \<^verbatim>\<open>pmem_alloc\<close> returns NULL only when
  the region has no free page left.
\<close>

theorem pmem_alloc_correct:
  assumes "pmem_inv s" and "pmem_alloc k s = (pa, t)"
  shows "pmem_inv t \<and> free_pages (\<not> k) t = free_pages (\<not> k) s \<and>
    (if pa = 0 then t = s \<and> free_pages k s = {}
     else pa \<in> free_pages k s \<and> pa \<in> region_pages k s \<and> free_pages k t = free_pages k s - {pa})"
proof -
  obtain ps where ps: "region_list (mem s) (region k s) ps" using assms(1) pmem_inv_region by blast
  have fr: "free_pages k s \<subseteq> region_pages k s"
    using alloc_pool.free_items [OF pool_laws assms(1)] .
  show ?thesis
  proof (cases ps)
    case Nil
    with pmem_alloc_list [OF assms(1) ps] assms ps show ?thesis by (simp add: free_pages_eq)
  next
    case (Cons p qs)
    with pmem_alloc_list [OF assms(1) ps] assms have
      t: "pa = p" "pmem_inv t" "region_list (mem t) (region k t) qs" "mem t = mem s"
        "region (\<not> k) t = region (\<not> k) s" by auto
    moreover have "free_pages (\<not> k) t = free_pages (\<not> k) s"
      using t by (simp add: free_pages_def)
    moreover have "p \<noteq> 0" "p \<notin> set qs" using ps Cons by (auto simp: region_list_def page_ok_def)
    ultimately show ?thesis
      using ps Cons fr by (auto simp: free_pages_eq)
  qed
qed

text \<open>Any number of pages up to the size of a pool can be allocated in a row, and they are
  pairwise different pages of that pool.
\<close>

theorem pmem_alloc_many_distinct:
  assumes "pmem_inv s" and "n \<le> card (free_pages False s)"
  shows "\<exists>xs t. alloc_pool.alloc_many (pool_alloc False) n s = Some (xs, t) \<and> length xs = n \<and>
    distinct xs \<and> set xs \<subseteq> region_pages False s \<and> free_pages False t = free_pages False s - set xs"
proof -
  obtain xs t where "alloc_pool.alloc_many (pool_alloc False) n s = Some (xs, t)"
    using upool.alloc_many_all assms by blast
  with upool.alloc_many_Some [OF assms(1) this] upool.free_items [OF assms(1)] show ?thesis by blast
qed

text \<open>A page given back to its region is the next one handed out from it, and giving a page to
  the wrong region, or an address that is not the start of a page of the region, panics.
\<close>

theorem pmem_free_correct:
  assumes "pmem_inv s"
  shows "(\<not> page_ok (region k s) p \<longrightarrow>
       pmem_free p k s = Inl (Panic ''pmem_free: invalid page or wrong region'')) \<and>
    (page_ok (region k s) p \<and> p \<notin> free_pages k s \<longrightarrow>
       (\<exists>t. pmem_free p k s = Inr t \<and> pmem_inv t \<and> free_pages k t = insert p (free_pages k s) \<and>
          free_pages (\<not> k) t = free_pages (\<not> k) s \<and> fst (pmem_alloc k t) = p))"
proof -
  obtain ps where ps: "region_list (mem s) (region k s) ps" using assms pmem_inv_region by blast
  obtain qs where qs: "region_list (mem s) (region (\<not> k) s) qs" using assms pmem_inv_region by blast
  show ?thesis
  proof (intro conjI impI)
    assume "\<not> page_ok (region k s) p"
    then show "pmem_free p k s = Inl (Panic ''pmem_free: invalid page or wrong region'')"
      by (auto simp: pmem_free_def page_ok_def region_def Let_def)
  next
    assume "page_ok (region k s) p \<and> p \<notin> free_pages k s"
    then obtain t where t: "pmem_free p k s = Inr t" "pmem_inv t"
        "region_list (mem t) (region k t) (p # ps)" "region_list (mem t) (region (\<not> k) t) qs"
      using pmem_free_list [OF assms ps, of p] ps qs by (auto simp: free_pages_eq)
    then show "\<exists>t. pmem_free p k s = Inr t \<and> pmem_inv t \<and> free_pages k t = insert p (free_pages k s) \<and>
          free_pages (\<not> k) t = free_pages (\<not> k) s \<and> fst (pmem_alloc k t) = p"
      using ps qs pmem_alloc_list [OF t(2,3)] by (auto simp: free_pages_eq)
  qed
qed

text \<open>Witnesses: a small memory with one free user page.\<close>

definition pmem_small :: pmem where
  "pmem_small = \<lparr>mem = (\<lambda>_. 0),
     kern_region = \<lparr>r_begin = 0x1000, r_end = 0x2000, allocable = 0, list_head = 0\<rparr>,
     user_region = \<lparr>r_begin = 0x2000, r_end = 0x4000, allocable = 1, list_head = 0x2000\<rparr>\<rparr>"

lemma pmem_small_lists:
  "region_list (mem pmem_small) (region True pmem_small) []"
  "region_list (mem pmem_small) (region False pmem_small) [0x2000]"
  by (simp_all add: region_list_def pmem_small_def page_ok_def load64_def upt_rec)

lemma pmem_small_inv: "pmem_inv pmem_small"
  using pmem_small_lists by (auto simp: pmem_inv_def) (simp add: pmem_small_def)

lemma pmem_small_free: "free_pages False pmem_small = {0x2000}" "free_pages True pmem_small = {}"
  using free_pages_eq [OF pmem_small_lists(1)] free_pages_eq [OF pmem_small_lists(2)] by simp_all

theorem pmem_alloc_correct_witness:
  "\<exists>t. pmem_alloc False pmem_small = (0x2000, t) \<and> pmem_inv t \<and> free_pages False t = {}"
proof -
  obtain pa t where a: "pmem_alloc False pmem_small = (pa, t)" by fastforce
  have "pa = 0x2000"
    using a by (simp add: pmem_alloc_def region_alloc_page_def pmem_small_def Let_def split: prod.splits)
  with pmem_alloc_correct [OF pmem_small_inv a] a pmem_small_free show ?thesis by auto
qed

theorem pmem_alloc_many_distinct_witness:
  "\<exists>xs t. alloc_pool.alloc_many (pool_alloc False) 1 pmem_small = Some (xs, t) \<and> length xs = 1 \<and>
    distinct xs \<and> set xs \<subseteq> region_pages False pmem_small \<and> free_pages False t = {0x2000} - set xs"
  using pmem_alloc_many_distinct [OF pmem_small_inv, of 1] by (simp add: pmem_small_free)

theorem pmem_free_correct_witness:
  "\<exists>t. pmem_free 0x3000 False pmem_small = Inr t \<and> free_pages False t = {0x2000, 0x3000} \<and>
    fst (pmem_alloc False t) = 0x3000"
proof -
  have "page_ok (region False pmem_small) 0x3000" by (simp add: page_ok_def pmem_small_def)
  with pmem_free_correct [OF pmem_small_inv, of False "0x3000"] show ?thesis
    by (auto simp: pmem_small_free)
qed

end
