(* ===== verification/Mmap.thy ===== *)
theory Mmap
  imports Kernel_Prelude
begin

text \<open>
  \<^verbatim>\<open>kernel/mem/mmap.c\<close>: the store of \<^verbatim>\<open>mmap_region_t\<close> descriptors.  \<^verbatim>\<open>N_MMAP\<close> nodes sit in an
  array; the free ones are linked by the node's own \<^verbatim>\<open>next\<close> (\<open>node_next\<close>, \<open>None\<close> is NULL)
  behind node 0, which is the permanent list head.  A pointer to a descriptor is the index of
  its node.  The inner \<^verbatim>\<open>next\<close> of a descriptor (\<open>m_next\<close>) belongs to whoever uses it.  The
  store's lock is taken and released inside each operation.
\<close>

section \<open>Definitions\<close>

record mmap_region =
  m_begin :: u64
  npages :: u32
  m_next :: "nat option"

record mmap_store =
  regions :: "nat \<Rightarrow> mmap_region"
  node_next :: "nat \<Rightarrow> nat option"

abbreviation N_MMAP :: nat where
  "N_MMAP \<equiv> 256"

abbreviation list_mmap_head :: nat where
  "list_mmap_head \<equiv> 0"

primrec mmap_init_loop :: "nat \<Rightarrow> mmap_store \<Rightarrow> mmap_store" where
  "mmap_init_loop 0 s = s"
| "mmap_init_loop (Suc i) s =
     (let s = mmap_init_loop i s in s\<lparr>node_next := (node_next s)(i := Some (i + 1))\<rparr>)"

definition mmap_init :: "mmap_store \<Rightarrow> mmap_store" where
  "mmap_init s =
     (let s = mmap_init_loop (N_MMAP - 1) s
      in s\<lparr>node_next := (node_next s)(N_MMAP - 1 := None)\<rparr>)"

definition mmap_region_alloc :: "mmap_store \<Rightarrow> (nat \<times> mmap_store) res" where
  "mmap_region_alloc s =
     (case node_next s list_mmap_head of
        None \<Rightarrow> Inl (Panic ''mmap_region_alloc: out of mmap regions'')
      | Some node \<Rightarrow> Inr (node, s\<lparr>node_next := (node_next s)(list_mmap_head := node_next s node)\<rparr>))"

definition mmap_region_free :: "nat \<Rightarrow> mmap_store \<Rightarrow> mmap_store" where
  "mmap_region_free node s =
     (let s = s\<lparr>node_next := (node_next s)(node := node_next s list_mmap_head)\<rparr>
      in s\<lparr>node_next := (node_next s)(list_mmap_head := Some node)\<rparr>)"

text \<open>Abstraction: the chain of free nodes behind the head.\<close>

primrec chain :: "(nat \<Rightarrow> nat option) \<Rightarrow> nat option \<Rightarrow> nat list \<Rightarrow> bool" where
  "chain nx a [] \<longleftrightarrow> a = None"
| "chain nx a (x # xs) \<longleftrightarrow> a = Some x \<and> chain nx (nx x) xs"

definition free_nodes :: "mmap_store \<Rightarrow> nat list \<Rightarrow> bool" where
  "free_nodes s xs \<longleftrightarrow> chain (node_next s) (node_next s list_mmap_head) xs \<and> distinct xs \<and>
     set xs \<subseteq> {1..<N_MMAP}"

definition mmap_inv :: "mmap_store \<Rightarrow> bool" where
  "mmap_inv s \<longleftrightarrow> (\<exists>xs. free_nodes s xs)"

definition mmap_free_set :: "mmap_store \<Rightarrow> nat set" where
  "mmap_free_set s = {x. \<exists>xs. free_nodes s xs \<and> x \<in> set xs}"

section \<open>Chains\<close>

lemma chain_unique: "chain nx a xs \<Longrightarrow> chain nx a ys \<Longrightarrow> xs = ys"
proof (induction xs arbitrary: a ys)
  case Nil
  then show ?case by (cases ys) auto
next
  case (Cons x xs)
  then show ?case by (cases ys) auto
qed

lemma chain_upd: "y \<notin> set xs \<Longrightarrow> chain (nx(y := v)) a xs = chain nx a xs"
  by (induction xs arbitrary: a) auto

lemma mmap_free_set_eq: "free_nodes s xs \<Longrightarrow> mmap_free_set s = set xs"
  unfolding mmap_free_set_def by (auto simp: free_nodes_def dest: chain_unique)

lemma alloc_free_nodes:
  assumes "free_nodes s xs"
  shows "case xs of [] \<Rightarrow> mmap_region_alloc s = Inl (Panic ''mmap_region_alloc: out of mmap regions'')
    | x # ys \<Rightarrow> \<exists>t. mmap_region_alloc s = Inr (x, t) \<and> free_nodes t ys \<and> regions t = regions s"
proof (cases xs)
  case Nil
  with assms show ?thesis by (simp add: free_nodes_def mmap_region_alloc_def)
next
  case (Cons x ys)
  then have "x \<noteq> 0" "0 \<notin> set ys" using assms by (auto simp: free_nodes_def)
  with Cons assms show ?thesis
    by (auto simp: free_nodes_def mmap_region_alloc_def chain_upd)
qed

lemma free_free_nodes:
  assumes "free_nodes s xs" and "x \<in> {1..<N_MMAP}" and "x \<notin> set xs"
  shows "free_nodes (mmap_region_free x s) (x # xs)"
proof -
  have "0 \<notin> set xs" "x \<noteq> 0" using assms by (auto simp: free_nodes_def)
  with assms show ?thesis
    by (auto simp: free_nodes_def mmap_region_free_def Let_def chain_upd)
qed

lemma regions_mmap_region_free [simp, frame]: "regions (mmap_region_free x s) = regions s"
  by (simp add: mmap_region_free_def Let_def)

section \<open>Initialisation\<close>

lemma mmap_init_loop_next:
  "node_next (mmap_init_loop n s) i = (if i < n then Some (Suc i) else node_next s i)"
  by (induction n) (auto simp: Let_def less_Suc_eq)

lemma mmap_init_next:
  "node_next (mmap_init s) i =
     (if i < 255 then Some (Suc i) else if i = 255 then None else node_next s i)"
  by (simp add: mmap_init_def Let_def mmap_init_loop_next)

lemma chain_upto:
  "i + n = 256 \<Longrightarrow> 0 < n \<Longrightarrow> chain (node_next (mmap_init s)) (Some i) [i..<256]"
proof (induction n arbitrary: i)
  case 0
  then show ?case by simp
next
  case (Suc n)
  show ?case
  proof (cases n)
    case 0
    with Suc.prems have "i = 255" by simp
    then show ?thesis by (simp add: mmap_init_next upt_rec)
  next
    case (Suc k)
    with Suc.prems Suc.IH [of "Suc i"] show ?thesis
      by (simp add: mmap_init_next upt_conv_Cons)
  qed
qed

lemma mmap_init_nodes: "free_nodes (mmap_init s) [1..<256]"
  using chain_upto [of 1 255 s] by (simp add: free_nodes_def mmap_init_next)

section \<open>The store as an allocator\<close>

definition store_alloc :: "mmap_store \<Rightarrow> (nat \<times> mmap_store) option" where
  "store_alloc s = (case mmap_region_alloc s of Inl _ \<Rightarrow> None | Inr r \<Rightarrow> Some r)"

interpretation mmap_pool: alloc_pool mmap_inv "\<lambda>_. {1..<N_MMAP}" mmap_free_set store_alloc
  "\<lambda>x s. Some (mmap_region_free x s)"
proof
  fix s assume "mmap_inv s"
  then show "mmap_free_set s \<subseteq> {1..<N_MMAP}"
    by (auto simp: mmap_free_set_def free_nodes_def)
  show "finite {1..<N_MMAP}" by simp
next
  fix s x t assume "mmap_inv s" and a: "store_alloc s = Some (x, t)"
  then obtain xs where xs: "free_nodes s xs" by (auto simp: mmap_inv_def)
  obtain ys where ys: "xs = x # ys" "free_nodes t ys"
    using alloc_free_nodes [OF xs] a by (cases xs) (auto simp: store_alloc_def)
  then show "x \<in> mmap_free_set s \<and> mmap_free_set t = mmap_free_set s - {x} \<and>
      {1..<N_MMAP} = {1..<N_MMAP} \<and> mmap_inv t"
    using xs by (auto simp: mmap_free_set_eq mmap_inv_def) (auto simp: free_nodes_def)
next
  fix s assume "mmap_inv s" and a: "store_alloc s = None"
  then obtain xs where xs: "free_nodes s xs" by (auto simp: mmap_inv_def)
  have "xs = []"
    using alloc_free_nodes [OF xs] a by (cases xs) (auto simp: store_alloc_def)
  with xs show "mmap_free_set s = {}" by (simp add: mmap_free_set_eq)
next
  fix s x assume "mmap_inv s" and x: "x \<in> {1..<N_MMAP}" "x \<notin> mmap_free_set s"
  then obtain xs where xs: "free_nodes s xs" by (auto simp: mmap_inv_def)
  with x have "free_nodes (mmap_region_free x s) (x # xs)"
    by (intro free_free_nodes) (auto simp: mmap_free_set_eq)
  with xs show "\<exists>t. Some (mmap_region_free x s) = Some t \<and>
      mmap_free_set t = insert x (mmap_free_set s) \<and> {1..<N_MMAP} = {1..<N_MMAP} \<and> mmap_inv t"
    by (auto simp: mmap_free_set_eq mmap_inv_def)
qed

text \<open>After initialisation the store hands out every descriptor but the reserved head: 255
  consecutive allocations succeed and give pairwise different nodes, none of them node 0.
\<close>

theorem mmap_init_all_allocatable:
  "\<exists>xs t. alloc_pool.alloc_many store_alloc 255 (mmap_init s) = Some (xs, t) \<and> distinct xs \<and>
     set xs = {1..<N_MMAP} \<and> mmap_free_set t = {}"
proof -
  have inv: "mmap_inv (mmap_init s)" using mmap_init_nodes by (auto simp: mmap_inv_def)
  have free: "mmap_free_set (mmap_init s) = {1..<N_MMAP}"
    using mmap_free_set_eq [OF mmap_init_nodes] by simp
  obtain xs t where xs: "alloc_pool.alloc_many store_alloc 255 (mmap_init s) = Some (xs, t)"
    using mmap_pool.alloc_many_all [OF inv, of 255] free by auto
  note r = mmap_pool.alloc_many_Some [OF inv xs]
  have "set xs = {1..<N_MMAP}"
    using r free by (intro card_subset_eq) (auto simp: distinct_card)
  with xs r free show ?thesis by auto
qed

text \<open>Allocation takes the node behind the head and leaves the descriptors alone, running out
  panics, and a freed node is the next one allocated.
\<close>

theorem mmap_region_alloc_free:
  assumes "mmap_inv s"
  shows "(mmap_free_set s = {} \<longrightarrow>
      mmap_region_alloc s = Inl (Panic ''mmap_region_alloc: out of mmap regions'')) \<and>
    (mmap_free_set s \<noteq> {} \<longrightarrow> (\<exists>x t. mmap_region_alloc s = Inr (x, t) \<and> x \<in> mmap_free_set s \<and>
        regions t = regions s \<and> mmap_inv t \<and> mmap_free_set t = mmap_free_set s - {x})) \<and>
    (\<forall>x \<in> {1..<N_MMAP} - mmap_free_set s.
        mmap_inv (mmap_region_free x s) \<and>
        (\<exists>t. mmap_region_alloc (mmap_region_free x s) = Inr (x, t) \<and> mmap_free_set t = mmap_free_set s))"
proof -
  obtain xs where xs: "free_nodes s xs" using assms by (auto simp: mmap_inv_def)
  note A = alloc_free_nodes [OF xs]
  have 1: "mmap_free_set s = {} \<longrightarrow>
      mmap_region_alloc s = Inl (Panic ''mmap_region_alloc: out of mmap regions'')"
    using A xs by (cases xs) (auto simp: mmap_free_set_eq)
  have 2: "\<exists>x t. mmap_region_alloc s = Inr (x, t) \<and> x \<in> mmap_free_set s \<and>
        regions t = regions s \<and> mmap_inv t \<and> mmap_free_set t = mmap_free_set s - {x}"
    if ne: "mmap_free_set s \<noteq> {}"
  proof -
    obtain x ys t where t: "xs = x # ys" "mmap_region_alloc s = Inr (x, t)" "free_nodes t ys"
        "regions t = regions s"
      using A xs ne by (cases xs) (auto simp: mmap_free_set_eq)
    moreover have "x \<notin> set ys" using t xs by (auto simp: free_nodes_def)
    ultimately show ?thesis using xs by (auto simp: mmap_free_set_eq mmap_inv_def)
  qed
  have 3: "mmap_inv (mmap_region_free x s) \<and>
      (\<exists>t. mmap_region_alloc (mmap_region_free x s) = Inr (x, t) \<and> mmap_free_set t = mmap_free_set s)"
    if "x \<in> {1..<N_MMAP} - mmap_free_set s" for x
  proof -
    have f: "free_nodes (mmap_region_free x s) (x # xs)"
      using that xs by (intro free_free_nodes) (auto simp: mmap_free_set_eq)
    from alloc_free_nodes [OF f] xs f show ?thesis
      by (auto simp: mmap_free_set_eq mmap_inv_def)
  qed
  from 1 2 3 show ?thesis by blast
qed

theorem mmap_region_alloc_free_witness:
  "\<exists>x t. mmap_region_alloc (mmap_init \<lparr>regions = (\<lambda>_. \<lparr>m_begin = 0, npages = 0, m_next = None\<rparr>),
     node_next = (\<lambda>_. None)\<rparr>) = Inr (x, t) \<and> x \<in> {1..<N_MMAP}"
proof -
  let ?s = "mmap_init \<lparr>regions = (\<lambda>_. \<lparr>m_begin = 0, npages = 0, m_next = None\<rparr>), node_next = (\<lambda>_. None)\<rparr>"
  have "mmap_inv ?s" using mmap_init_nodes by (auto simp: mmap_inv_def)
  from mmap_region_alloc_free [OF this] mmap_free_set_eq [OF mmap_init_nodes] show ?thesis by auto
qed

end
