(* ===== verification/Bufcache.thy ===== *)
theory Bufcache
  imports Spinlock
begin

text \<open>
  \<^verbatim>\<open>kernel/fs/buf.c\<close>: the cache of disk blocks.  \<open>bufs ! i\<close> is \<^verbatim>\<open>buf_cache[i].buf\<close>; the nodes
  and the list head are linked by \<open>nxt\<close> and \<open>prv\<close> (\<open>None\<close> is NULL).  A \<^verbatim>\<open>buf_t*\<close> is the index
  of its buffer.  \<open>disk\<close> is the disk, a block of \<^verbatim>\<open>BLOCK_SIZE\<close> bytes per block number;
  \<open>disk_rw\<close> is the transfer \<^verbatim>\<open>virtio_disk_rw\<close> performs.  The locks of the buffers (\<open>slk\<close>) are
  part of the state, since callers hold them across calls; \<^verbatim>\<open>lk_buf_cache\<close> is taken and released
  inside each operation and is not.  Processes run on hart 0 only (\<^verbatim>\<open>main.c\<close> starts the scheduler
  there and nowhere else), so that is the hart that takes the locks.

  The state record is extended by the components above, so every operation is polymorphic in
  the rest of the state.
\<close>

section \<open>Definitions\<close>

abbreviation N_BLOCK_BUF :: nat where
  "N_BLOCK_BUF \<equiv> 64"

abbreviation BLOCK_SIZE :: nat where
  "BLOCK_SIZE \<equiv> 1024"

abbreviation BLOCK_NUM_UNUSED :: u32 where
  "BLOCK_NUM_UNUSED \<equiv> 0xFFFFFFFF"

record buf =
  slk :: spinlock
  block_num :: u32
  data :: "byte list"
  buf_ref :: u32
  on_disk :: bool

datatype bnode = Head | Node nat

record buf_state =
  disk :: "u32 \<Rightarrow> byte list"
  bufs :: "buf list"
  nxt :: "bnode \<Rightarrow> bnode option"
  prv :: "bnode \<Rightarrow> bnode option"

definition set_buf :: "nat \<Rightarrow> buf \<Rightarrow> 'a buf_state_scheme \<Rightarrow> 'a buf_state_scheme" where
  "set_buf i b s = s\<lparr>bufs := (bufs s)[i := b]\<rparr>"

text \<open>A store through a NULL pointer is undefined.\<close>

definition set_nxt :: "bnode option \<Rightarrow> bnode option \<Rightarrow> 'a buf_state_scheme \<Rightarrow> 'a buf_state_scheme res" where
  "set_nxt p v s = (case p of None \<Rightarrow> Inl Undefined | Some n \<Rightarrow> Inr (s\<lparr>nxt := (nxt s)(n := v)\<rparr>))"

definition set_prv :: "bnode option \<Rightarrow> bnode option \<Rightarrow> 'a buf_state_scheme \<Rightarrow> 'a buf_state_scheme res" where
  "set_prv p v s = (case p of None \<Rightarrow> Inl Undefined | Some n \<Rightarrow> Inr (s\<lparr>prv := (prv s)(n := v)\<rparr>))"

definition insert_head :: "nat \<Rightarrow> bool \<Rightarrow> 'a buf_state_scheme \<Rightarrow> 'a buf_state_scheme res" where
  "insert_head i head_next s =
     bindr (if nxt s (Node i) \<noteq> None \<and> prv s (Node i) \<noteq> None
            then bindr (set_prv (nxt s (Node i)) (prv s (Node i)) s) (\<lambda>s.
                 set_nxt (prv s (Node i)) (nxt s (Node i)) s)
            else Inr s) (\<lambda>s.
     if head_next
     then bindr (set_prv (Some (Node i)) (Some Head) s) (\<lambda>s.
          bindr (set_nxt (Some (Node i)) (nxt s Head) s) (\<lambda>s.
          bindr (set_prv (nxt s Head) (Some (Node i)) s) (\<lambda>s.
          set_nxt (Some Head) (Some (Node i)) s)))
     else bindr (set_nxt (Some (Node i)) (Some Head) s) (\<lambda>s.
          bindr (set_prv (Some (Node i)) (prv s Head) s) (\<lambda>s.
          bindr (set_nxt (prv s Head) (Some (Node i)) s) (\<lambda>s.
          set_prv (Some Head) (Some (Node i)) s))))"

primrec buf_init_loop :: "nat \<Rightarrow> 'a buf_state_scheme \<Rightarrow> 'a buf_state_scheme res" where
  "buf_init_loop 0 s = Inr s"
| "buf_init_loop (Suc i) s =
     bindr (buf_init_loop i s) (\<lambda>s.
     insert_head i False
       (set_buf i ((bufs s ! i)\<lparr>slk := spinlock_init ''buffer'', block_num := BLOCK_NUM_UNUSED,
                                buf_ref := 0, on_disk := False\<rparr>) s))"

definition buf_init :: "'a buf_state_scheme \<Rightarrow> 'a buf_state_scheme res" where
  "buf_init s =
     buf_init_loop N_BLOCK_BUF (s\<lparr>nxt := (nxt s)(Head := Some Head), prv := (prv s)(Head := Some Head)\<rparr>)"

text \<open>The block transfer of \<^verbatim>\<open>virtio_disk_rw\<close>: the device writes the buffer's data to its block or
  fills it from there, and the completion interrupt clears the \<^verbatim>\<open>disk\<close> flag.\<close>

definition disk_rw :: "nat \<Rightarrow> bool \<Rightarrow> 'a buf_state_scheme \<Rightarrow> 'a buf_state_scheme" where
  "disk_rw i wr s =
     (let b = bufs s ! i
      in if wr then (set_buf i (b\<lparr>on_disk := False\<rparr>) s)\<lparr>disk := (disk s)(block_num b := data b)\<rparr>
         else set_buf i (b\<lparr>data := disk s (block_num b), on_disk := False\<rparr>) s)"

text \<open>The two searches of \<^verbatim>\<open>buf_read\<close> along the list.  More than \<open>N_BLOCK_BUF\<close> steps mean a cycle
  that misses the head, on which the loop never ends.\<close>

fun scan :: "nat \<Rightarrow> (bnode \<Rightarrow> bnode option) \<Rightarrow> (nat \<Rightarrow> bool) \<Rightarrow> bnode option \<Rightarrow> nat option res" where
  "scan fuel link P None = Inl Undefined"
| "scan fuel link P (Some Head) = Inr None"
| "scan 0 link P (Some (Node i)) = Inl Hang"
| "scan (Suc fuel) link P (Some (Node i)) =
     (if P i then Inr (Some i) else scan fuel link P (link (Node i)))"

definition lock_buf :: "nat \<Rightarrow> 'a buf_state_scheme \<Rightarrow> 'a buf_state_scheme res" where
  "lock_buf i s =
     bindr (lock_take 0 (slk (bufs s ! i))) (\<lambda>l. Inr (set_buf i ((bufs s ! i)\<lparr>slk := l\<rparr>) s))"

definition buf_read :: "u32 \<Rightarrow> 'a buf_state_scheme \<Rightarrow> (nat \<times> 'a buf_state_scheme) res" where
  "buf_read bn s =
     bindr (scan N_BLOCK_BUF (nxt s) (\<lambda>i. block_num (bufs s ! i) = bn) (nxt s Head)) (\<lambda>hit.
     case hit of
       Some i \<Rightarrow>
         let s = set_buf i ((bufs s ! i)\<lparr>buf_ref := buf_ref (bufs s ! i) + 1\<rparr>) s
         in bindr (lock_buf i s) (\<lambda>s. Inr (i, s))
     | None \<Rightarrow>
         bindr (scan N_BLOCK_BUF (prv s) (\<lambda>i. buf_ref (bufs s ! i) = 0) (prv s Head)) (\<lambda>free.
         case free of
           Some i \<Rightarrow>
             let s = set_buf i ((bufs s ! i)\<lparr>block_num := bn, buf_ref := 1, on_disk := False\<rparr>) s
             in bindr (lock_buf i s) (\<lambda>s. Inr (i, disk_rw i False s))
         | None \<Rightarrow> Inl (Panic ''buf_read: no buffers'')))"

definition buf_write :: "nat \<Rightarrow> 'a buf_state_scheme \<Rightarrow> 'a buf_state_scheme res" where
  "buf_write i s =
     (if \<not> spinlock_holding 0 (slk (bufs s ! i)) then Inl (Panic ''buf_write: not holding lock'')
      else Inr (disk_rw i True s))"

definition buf_release :: "nat \<Rightarrow> 'a buf_state_scheme \<Rightarrow> 'a buf_state_scheme res" where
  "buf_release i s =
     (if \<not> spinlock_holding 0 (slk (bufs s ! i)) then Inl (Panic ''buf_release: not holding lock'')
      else bindr (lock_drop 0 (slk (bufs s ! i))) (\<lambda>l.
        let s = set_buf i ((bufs s ! i)\<lparr>slk := l, buf_ref := buf_ref (bufs s ! i) - 1\<rparr>) s
        in if buf_ref (bufs s ! i) = 0 then insert_head i True s else Inr s))"

text \<open>\<^verbatim>\<open>buf->data\<close> as its holder sees it and changes it.\<close>

definition buf_data :: "nat \<Rightarrow> 'a buf_state_scheme \<Rightarrow> byte list" where
  "buf_data i s = data (bufs s ! i)"

definition set_data :: "nat \<Rightarrow> byte list \<Rightarrow> 'a buf_state_scheme \<Rightarrow> 'a buf_state_scheme" where
  "set_data i d s = set_buf i ((bufs s ! i)\<lparr>data := d\<rparr>) s"

text \<open>
  Abstraction.  \<open>seg nx pv a xs b\<close>: following \<open>nx\<close> from \<open>a\<close> visits the nodes \<open>xs\<close> and reaches
  \<open>b\<close>, with \<open>pv\<close> the inverse links.  \<open>lru s xs\<close>: the circular list of the cache is \<open>xs\<close>.
  \<open>cache s H\<close>: the cache is consistent while exactly the blocks \<open>H\<close> are held: it has its 64
  buffers on the list, at most one per block, the held ones referenced once and locked, the
  others unreferenced, unlocked and equal to the disk.
\<close>

fun seg :: "(bnode \<Rightarrow> bnode option) \<Rightarrow> (bnode \<Rightarrow> bnode option) \<Rightarrow> bnode \<Rightarrow> nat list \<Rightarrow> bnode \<Rightarrow> bool" where
  "seg nx pv a [] b \<longleftrightarrow> nx a = Some b \<and> pv b = Some a"
| "seg nx pv a (x # xs) b \<longleftrightarrow> nx a = Some (Node x) \<and> pv (Node x) = Some a \<and> seg nx pv (Node x) xs b"

definition lru :: "'a buf_state_scheme \<Rightarrow> nat list \<Rightarrow> bool" where
  "lru s xs \<longleftrightarrow> seg (nxt s) (prv s) Head xs Head \<and> distinct xs"

definition buf_ok :: "'a buf_state_scheme \<Rightarrow> u32 set \<Rightarrow> buf \<Rightarrow> bool" where
  "buf_ok s H b \<longleftrightarrow> length (data b) = BLOCK_SIZE \<and>
     (if block_num b \<in> H then buf_ref b = 1 \<and> spinlock_holding 0 (slk b)
      else buf_ref b = 0 \<and> \<not> locked (slk b) \<and>
        (block_num b \<noteq> BLOCK_NUM_UNUSED \<longrightarrow> data b = disk s (block_num b)))"

definition cache :: "'a buf_state_scheme \<Rightarrow> u32 set \<Rightarrow> bool" where
  "cache s H \<longleftrightarrow> length (bufs s) = N_BLOCK_BUF \<and>
     (\<exists>xs. lru s xs \<and> set xs = {..<N_BLOCK_BUF}) \<and>
     (\<forall>b \<in> set (bufs s). buf_ok s H b) \<and>
     (\<forall>i < N_BLOCK_BUF. \<forall>j < N_BLOCK_BUF. block_num (bufs s ! i) = block_num (bufs s ! j) \<longrightarrow>
        block_num (bufs s ! i) \<noteq> BLOCK_NUM_UNUSED \<longrightarrow> i = j) \<and>
     BLOCK_NUM_UNUSED \<notin> H \<and> (\<forall>n. length (disk s n) = BLOCK_SIZE) \<and>
     H \<subseteq> block_num ` set (bufs s)"

text \<open>Buffer \<open>i\<close> is the one of block \<open>n\<close> and has data \<open>d\<close>.\<close>

definition holds :: "'a buf_state_scheme \<Rightarrow> nat \<Rightarrow> u32 \<Rightarrow> byte list \<Rightarrow> bool" where
  "holds s i n d \<longleftrightarrow> i < N_BLOCK_BUF \<and> block_num (bufs s ! i) = n \<and> buf_data i s = d"

section \<open>The linked list\<close>

lemma seg_append:
  "seg nx pv a (xs @ y # ys) b \<longleftrightarrow> seg nx pv a xs (Node y) \<and> seg nx pv (Node y) ys b"
  by (induction xs arbitrary: a) auto

lemma seg_next: "seg nx pv a xs b \<Longrightarrow> nx a = Some (case xs of [] \<Rightarrow> b | x # _ \<Rightarrow> Node x)"
  by (cases xs) auto

lemma seg_prev: "seg nx pv a xs b \<Longrightarrow> pv b = Some (if xs = [] then a else Node (last xs))"
  by (induction xs arbitrary: a) auto

lemma seg_upd_nx: "n \<noteq> a \<Longrightarrow> n \<notin> Node ` set xs \<Longrightarrow> seg (nx(n := v)) pv a xs b = seg nx pv a xs b"
  by (induction xs arbitrary: a) auto

lemma seg_upd_pv: "n \<noteq> b \<Longrightarrow> n \<notin> Node ` set xs \<Longrightarrow> seg nx (pv(n := v)) a xs b = seg nx pv a xs b"
  by (induction xs arbitrary: a) auto

text \<open>Replacing what follows a segment.\<close>

lemma seg_retarget:
  assumes "seg nx pv a xs b" and "distinct xs" and "a \<notin> Node ` set xs"
    and "l = (if xs = [] then a else Node (last xs))"
    and "\<forall>n \<in> insert a (Node ` set xs). n \<noteq> l \<longrightarrow> nx' n = nx n" and "nx' l = Some c"
    and "\<forall>n \<in> Node ` set xs. pv' n = pv n" and "pv' c = Some l"
  shows "seg nx' pv' a xs c"
  using assms
proof (induction xs arbitrary: a)
  case Nil
  then show ?case by simp
next
  case (Cons x xs)
  have l: "l = (if xs = [] then Node x else Node (last xs))" using Cons.prems(4) by simp
  have "seg nx' pv' (Node x) xs c"
    using Cons.prems l by (intro Cons.IH) auto
  moreover have "a \<noteq> l" using Cons.prems(3) l by auto
  ultimately show ?case using Cons.prems by auto
qed

lemma seg_cong:
  assumes "\<forall>n \<in> insert a (Node ` set xs). nx' n = nx n" and "\<forall>n \<in> insert b (Node ` set xs). pv' n = pv n"
  shows "seg nx' pv' a xs b = seg nx pv a xs b"
  using assms by (induction xs arbitrary: a) auto

text \<open>Taking node \<open>x\<close> out of the ring and putting it at the front or at the back, on links.\<close>

lemma ring_unlink:
  assumes "seg nx pv Head (us @ x # vs) Head" and "distinct (us @ x # vs)"
    and "nx (Node x) = Some n" and "pv (Node x) = Some p"
  shows "seg (nx(p := Some n)) (pv(n := Some p)) Head (us @ vs) Head"
proof -
  from assms(1) have u: "seg nx pv Head us (Node x)" and v: "seg nx pv (Node x) vs Head"
    by (auto simp: seg_append)
  have p: "p = (if us = [] then Head else Node (last us))"
    using seg_prev [OF u] assms(4) by simp
  show ?thesis
  proof (cases vs)
    case Nil
    then have "n = Head" using v assms(3) by simp
    with u p assms(2) Nil show ?thesis
      by (auto intro: seg_retarget [OF u])
  next
    case (Cons y ys)
    then have n: "n = Node y" and y: "seg nx pv (Node y) ys Head" using v assms(3) by auto
    have "seg (nx(p := Some n)) (pv(n := Some p)) Head us (Node y)"
      using p assms(2) n Cons by (intro seg_retarget [OF u]) auto
    moreover have "us \<noteq> [] \<Longrightarrow> last us \<notin> set ys"
      using assms(2) Cons last_in_set [of us] by (auto simp: disjoint_iff)
    then have "seg (nx(p := Some n)) (pv(n := Some p)) (Node y) ys Head"
      using y p n assms(2) Cons
      by (subst seg_cong [where nx = nx and pv = pv]) auto
    ultimately show ?thesis using Cons by (simp add: seg_append)
  qed
qed

lemma ring_push_front:
  assumes "seg nx pv Head xs Head" and "x \<notin> set xs" and "distinct xs"
    and nx': "nx' = nx(Node x := nx Head, Head := Some (Node x))"
    and pv': "pv' = pv(Node x := Some Head, the (nx Head) := Some (Node x))"
  shows "seg nx' pv' Head (x # xs) Head"
proof (cases xs)
  case Nil
  with assms show ?thesis by auto
next
  case (Cons y ys)
  with assms(1) have "nx Head = Some (Node y)" "seg nx pv (Node y) ys Head" by auto
  moreover from this have "seg nx' pv' (Node y) ys Head"
    using assms Cons by (subst seg_cong [where nx = nx and pv = pv]) auto
  ultimately show ?thesis using Cons assms by auto
qed

lemma ring_push_back:
  assumes "seg nx pv Head xs Head" and "x \<notin> set xs" and "distinct xs"
    and nx': "nx' = nx(Node x := Some Head, the (pv Head) := Some (Node x))"
    and pv': "pv' = pv(Node x := pv Head, Head := Some (Node x))"
  shows "seg nx' pv' Head (xs @ [x]) Head"
proof -
  have p: "pv Head = Some (if xs = [] then Head else Node (last xs))"
    using seg_prev [OF assms(1)] .
  have "seg nx' pv' Head xs (Node x)"
    using assms p by (intro seg_retarget [OF assms(1)]) auto
  moreover have "nx' (Node x) = Some Head"
    using assms p by (auto simp: last_in_set)
  ultimately show ?thesis using assms(4,5) by (auto simp: seg_append)
qed

section \<open>The list operations\<close>

lemma insert_head_frame [simp, frame]:
  assumes "insert_head i hn s = Inr t"
  shows "disk t = disk s" "bufs t = bufs s" "buf_state.more t = buf_state.more s"
  using assms
  by (auto simp: insert_head_def set_nxt_def set_prv_def bindr_eq_Inr split: if_splits option.splits)

text \<open>
  On the ring \<^verbatim>\<open>insert_head\<close> moves a node to the front or to the back.
\<close>

lemma lru_links:
  assumes "lru s (us @ x # vs)"
  obtains n p where "nxt s (Node x) = Some n" "prv s (Node x) = Some p" "n \<noteq> Node x" "p \<noteq> Node x"
    "seg ((nxt s)(p := Some n)) ((prv s)(n := Some p)) Head (us @ vs) Head"
proof -
  have sg: "seg (nxt s) (prv s) Head (us @ x # vs) Head" and d: "distinct (us @ x # vs)"
    using assms by (auto simp: lru_def)
  then have u: "seg (nxt s) (prv s) Head us (Node x)" and v: "seg (nxt s) (prv s) (Node x) vs Head"
    by (auto simp: seg_append)
  show thesis
    using seg_next [OF v] seg_prev [OF u] d last_in_set [of us] ring_unlink [OF sg d seg_next [OF v] seg_prev [OF u]]
    by (intro that [of "case vs of [] \<Rightarrow> Head | y # _ \<Rightarrow> Node y" "if us = [] then Head else Node (last us)"])
       (auto split: list.splits)
qed

lemma insert_head_front:
  assumes "lru s (us @ x # vs)"
  shows "\<exists>t. insert_head x True s = Inr t \<and> lru t (x # us @ vs)"
proof -
  obtain n p where np: "nxt s (Node x) = Some n" "prv s (Node x) = Some p" "n \<noteq> Node x" "p \<noteq> Node x"
    and u: "seg ((nxt s)(p := Some n)) ((prv s)(n := Some p)) Head (us @ vs) Head"
    by (rule lru_links [OF assms])
  let ?nx = "(nxt s)(p := Some n)" and ?pv = "(prv s)(n := Some p)"
  obtain h where h: "?nx Head = Some h" using seg_next [OF u] by blast
  let ?nx' = "?nx(Node x := ?nx Head, Head := Some (Node x))"
  let ?pv' = "?pv(Node x := Some Head, the (?nx Head) := Some (Node x))"
  have d: "x \<notin> set (us @ vs)" "distinct (us @ vs)" using assms by (auto simp: lru_def)
  have "seg ?nx' ?pv' Head (x # us @ vs) Head"
    by (rule ring_push_front [OF u d refl refl])
  moreover have "insert_head x True s = Inr (s\<lparr>nxt := ?nx', prv := ?pv'\<rparr>)"
    using np h by (simp add: insert_head_def set_nxt_def set_prv_def)
  ultimately show ?thesis using d by (auto simp: lru_def)
qed

lemma insert_head_back_new:
  assumes "lru s xs" and "x \<notin> set xs" and "nxt s (Node x) = None \<or> prv s (Node x) = None"
  shows "\<exists>t. insert_head x False s = Inr t \<and> lru t (xs @ [x]) \<and>
    (\<forall>n. n \<noteq> Head \<longrightarrow> n \<notin> Node ` set (x # xs) \<longrightarrow> nxt t n = nxt s n \<and> prv t n = prv s n)"
proof -
  have u: "seg (nxt s) (prv s) Head xs Head" and d: "distinct xs"
    using assms(1) by (auto simp: lru_def)
  have p: "prv s Head = Some (if xs = [] then Head else Node (last xs))"
    using seg_prev [OF u] .
  let ?nx' = "(nxt s)(Node x := Some Head, the (prv s Head) := Some (Node x))"
  let ?pv' = "(prv s)(Node x := prv s Head, Head := Some (Node x))"
  have "seg ?nx' ?pv' Head (xs @ [x]) Head"
    by (rule ring_push_back [OF u assms(2) d refl refl])
  moreover have "insert_head x False s = Inr (s\<lparr>nxt := ?nx', prv := ?pv'\<rparr>)"
    using assms(3) p by (auto simp: insert_head_def set_nxt_def set_prv_def)
  ultimately show ?thesis using d assms(2) p by (auto simp: lru_def)
qed

text \<open>The searches find the first matching buffer of the list, resp. the last.\<close>

lemma scan_seg:
  assumes "seg nx pv a xs Head" and "length xs \<le> fuel"
  shows "scan fuel nx P (nx a) = Inr (find P xs)"
  using assms
proof (induction xs arbitrary: a fuel)
  case Nil
  then show ?case by simp
next
  case (Cons x xs)
  then obtain f where f: "fuel = Suc f" by (cases fuel) auto
  have "scan f nx P (nx (Node x)) = Inr (find P xs)"
    using Cons.prems f by (intro Cons.IH) auto
  with Cons.prems f show ?case by auto
qed

lemma seg_rev: "seg nx pv a xs b = seg pv nx b (rev xs) a"
proof (induction xs arbitrary: a)
  case Nil
  then show ?case by auto
next
  case (Cons x xs)
  show ?case using Cons [of "Node x"] by (auto simp: seg_append)
qed

lemma lru_scan_next:
  "lru s xs \<Longrightarrow> length xs \<le> N_BLOCK_BUF \<Longrightarrow> scan N_BLOCK_BUF (nxt s) P (nxt s Head) = Inr (find P xs)"
  by (auto simp: lru_def intro: scan_seg)

lemma lru_scan_prev:
  "lru s xs \<Longrightarrow> length xs \<le> N_BLOCK_BUF \<Longrightarrow> scan N_BLOCK_BUF (prv s) P (prv s Head) = Inr (find P (rev xs))"
  using scan_seg [of "prv s" "nxt s" Head "rev xs"] by (simp add: lru_def seg_rev [of "nxt s"])

section \<open>Initialisation\<close>

lemma buf_init_loop_ok:
  assumes "length (bufs s) = N_BLOCK_BUF" and "lru s []" and "\<forall>i. nxt s (Node i) = None" and "n \<le> N_BLOCK_BUF"
  shows "\<exists>t. buf_init_loop n s = Inr t \<and> lru t [0..<n] \<and> disk t = disk s \<and>
    buf_state.more t = buf_state.more s \<and> (\<forall>i \<ge> n. nxt t (Node i) = None) \<and>
    length (bufs t) = N_BLOCK_BUF \<and>
    (\<forall>i < N_BLOCK_BUF. bufs t ! i = (if i < n then (bufs s ! i)\<lparr>slk := spinlock_init ''buffer'',
       block_num := BLOCK_NUM_UNUSED, buf_ref := 0, on_disk := False\<rparr> else bufs s ! i))"
  using assms
proof (induction n)
  case 0
  then show ?case by simp
next
  case (Suc n)
  then obtain t where t: "buf_init_loop n s = Inr t" "lru t [0..<n]" "disk t = disk s"
    "buf_state.more t = buf_state.more s" "\<forall>i \<ge> n. nxt t (Node i) = None" "length (bufs t) = N_BLOCK_BUF"
    "\<forall>i < N_BLOCK_BUF. bufs t ! i = (if i < n then (bufs s ! i)\<lparr>slk := spinlock_init ''buffer'',
       block_num := BLOCK_NUM_UNUSED, buf_ref := 0, on_disk := False\<rparr> else bufs s ! i)"
    by auto
  let ?t = "set_buf n ((bufs t ! n)\<lparr>slk := spinlock_init ''buffer'', block_num := BLOCK_NUM_UNUSED,
                          buf_ref := 0, on_disk := False\<rparr>) t"
  have "lru ?t [0..<n]" using t(2) by (simp add: lru_def set_buf_def)
  then obtain u where u: "insert_head n False ?t = Inr u" "lru u ([0..<n] @ [n])"
      "\<forall>k. k \<noteq> Head \<longrightarrow> k \<notin> Node ` set (n # [0..<n]) \<longrightarrow> nxt u k = nxt ?t k \<and> prv u k = prv ?t k"
    using insert_head_back_new [of ?t "[0..<n]" n] t(5) by (auto simp: set_buf_def)
  have f: "bufs u = bufs ?t" "disk u = disk ?t" "buf_state.more u = buf_state.more ?t"
    using u(1) by simp_all
  have none: "nxt u (Node i) = None" if "Suc n \<le> i" for i
    using u(3) [rule_format, of "Node i"] t(5) that by (simp add: set_buf_def image_iff)
  have b: "bufs u ! i = (if i < Suc n then (bufs s ! i)\<lparr>slk := spinlock_init ''buffer'',
       block_num := BLOCK_NUM_UNUSED, buf_ref := 0, on_disk := False\<rparr> else bufs s ! i)"
    if "i < N_BLOCK_BUF" for i
    using f(1) t(6,7) that Suc.prems(4) by (auto simp: set_buf_def nth_list_update less_Suc_eq)
  show ?case
    using t(1,3,4,6) u(1,2) f none b by (simp add: set_buf_def)
qed

section \<open>Consistency of the cache\<close>

lemma cacheD:
  assumes "cache s H"
  shows "length (bufs s) = N_BLOCK_BUF" "\<And>i. i < N_BLOCK_BUF \<Longrightarrow> buf_ok s H (bufs s ! i)"
    "\<And>n. length (disk s n) = BLOCK_SIZE" "BLOCK_NUM_UNUSED \<notin> H"
    "\<And>i j. i < N_BLOCK_BUF \<Longrightarrow> j < N_BLOCK_BUF \<Longrightarrow> block_num (bufs s ! i) = block_num (bufs s ! j) \<Longrightarrow>
       block_num (bufs s ! i) \<noteq> BLOCK_NUM_UNUSED \<Longrightarrow> i = j"
  using assms by (auto simp: cache_def)

lemma cache_lru:
  assumes "cache s H"
  obtains xs where "lru s xs" "set xs = {..<N_BLOCK_BUF}" "length xs = N_BLOCK_BUF"
proof -
  obtain xs where xs: "lru s xs" "set xs = {..<N_BLOCK_BUF}" using assms by (auto simp: cache_def)
  then have "length xs = N_BLOCK_BUF" using distinct_card [of xs] by (simp add: lru_def)
  with xs that show thesis by blast
qed

text \<open>Changing one buffer: what is left to show of the other buffers and of the block numbers.\<close>

lemma set_buf_simps [simp]:
  "nxt (set_buf i b s) = nxt s" "prv (set_buf i b s) = prv s" "disk (set_buf i b s) = disk s"
  "buf_state.more (set_buf i b s) = buf_state.more s" "bufs (set_buf i b s) = (bufs s)[i := b]"
  "lru (set_buf i b s) xs = lru s xs"
  by (simp_all add: set_buf_def lru_def)

lemma cache_alt:
  "cache s H \<longleftrightarrow> length (bufs s) = N_BLOCK_BUF \<and>
     (\<exists>xs. lru s xs \<and> set xs = {..<N_BLOCK_BUF}) \<and>
     (\<forall>i < N_BLOCK_BUF. buf_ok s H (bufs s ! i)) \<and>
     (\<forall>i < N_BLOCK_BUF. \<forall>j < N_BLOCK_BUF. block_num (bufs s ! i) = block_num (bufs s ! j) \<longrightarrow>
        block_num (bufs s ! i) \<noteq> BLOCK_NUM_UNUSED \<longrightarrow> i = j) \<and>
     BLOCK_NUM_UNUSED \<notin> H \<and> (\<forall>n. length (disk s n) = BLOCK_SIZE) \<and>
     (\<forall>n \<in> H. \<exists>i < N_BLOCK_BUF. block_num (bufs s ! i) = n)"
proof -
  have "(\<forall>b \<in> set (bufs s). buf_ok s H b) \<longleftrightarrow> (\<forall>i < N_BLOCK_BUF. buf_ok s H (bufs s ! i))"
    and "H \<subseteq> block_num ` set (bufs s) \<longleftrightarrow> (\<forall>n \<in> H. \<exists>i < N_BLOCK_BUF. block_num (bufs s ! i) = n)"
    if "length (bufs s) = N_BLOCK_BUF"
    using that by (auto simp: set_conv_nth image_iff subset_iff) metis+
  then show ?thesis unfolding cache_def by blast
qed

lemma buf_ok_other:
  "buf_ok s H b \<Longrightarrow> disk t (block_num b) = disk s (block_num b) \<Longrightarrow>
   (block_num b \<in> H' \<longleftrightarrow> block_num b \<in> H) \<Longrightarrow> buf_ok t H' b"
  by (simp add: buf_ok_def)

lemma cache_update:
  assumes c: "cache s H" and i: "i < N_BLOCK_BUF" and b: "buf_ok t H' b"
    and t: "bufs t = (bufs s)[i := b]" "\<exists>xs. lru t xs \<and> set xs = {..<N_BLOCK_BUF}"
    and d: "\<And>n. length (disk t n) = BLOCK_SIZE" "\<And>n. n \<noteq> block_num b \<Longrightarrow> disk t n = disk s n"
    and u: "\<And>j. j < N_BLOCK_BUF \<Longrightarrow> j \<noteq> i \<Longrightarrow> block_num b \<noteq> BLOCK_NUM_UNUSED \<Longrightarrow> block_num (bufs s ! j) \<noteq> block_num b"
    and o: "\<And>n. n \<noteq> block_num b \<Longrightarrow> n \<in> H' \<longleftrightarrow> n \<in> H"
    and k: "block_num b \<noteq> BLOCK_NUM_UNUSED" "BLOCK_NUM_UNUSED \<notin> H'"
      "block_num (bufs s ! i) \<in> H \<Longrightarrow> block_num b = block_num (bufs s ! i)"
  shows "cache t H'"
proof -
  note C = c [unfolded cache_alt]
  have l: "length (bufs s) = N_BLOCK_BUF" using C by blast
  have nth: "bufs t ! j = (if j = i then b else bufs s ! j)" if "j < N_BLOCK_BUF" for j
    using that l by (simp add: t(1) nth_list_update)
  have ok: "buf_ok t H' (bufs t ! j)" if "j < N_BLOCK_BUF" for j
  proof (cases "j = i")
    case True
    with b nth [OF that] show ?thesis by simp
  next
    case False
    have "buf_ok s H (bufs s ! j)" "block_num (bufs s ! j) \<noteq> block_num b"
      using C that u [OF that False k(1)] by auto
    then show ?thesis using False nth [OF that] by (simp add: buf_ok_other d(2) o)
  qed
  have uniq: "x = y" if "x < N_BLOCK_BUF" "y < N_BLOCK_BUF"
      "block_num (bufs t ! x) = block_num (bufs t ! y)" "block_num (bufs t ! x) \<noteq> BLOCK_NUM_UNUSED" for x y
    using that nth [OF that(1)] nth [OF that(2)] u [OF that(1) _ k(1)] u [OF that(2) _ k(1)] C
    by (auto split: if_splits)
  have cov: "\<exists>j < N_BLOCK_BUF. block_num (bufs t ! j) = n" if "n \<in> H'" for n
  proof (cases "n = block_num b")
    case True
    then show ?thesis using i nth [OF i] by auto
  next
    case False
    then have "n \<in> H" using o that by blast
    then obtain j where j: "j < N_BLOCK_BUF" "block_num (bufs s ! j) = n" using C by blast
    then have "j \<noteq> i" using k(3) \<open>n \<in> H\<close> False by auto
    with j nth [OF j(1)] show ?thesis by auto
  qed
  show ?thesis unfolding cache_alt using t d(1) k(2) l ok uniq cov by auto
qed

section \<open>The operations on a consistent cache\<close>

lemma lock_take_unlocked:
  "\<not> locked l \<Longrightarrow> \<exists>l'. lock_take h l = Inr l' \<and> spinlock_holding h l'"
  by (simp add: lock_take_def spinlock_holding_def)

lemma lock_drop_held:
  "spinlock_holding h l \<Longrightarrow> \<exists>l'. lock_drop h l = Inr l' \<and> \<not> locked l'"
  by (simp add: lock_drop_def)

lemma holdsD: "holds s i n d \<Longrightarrow> i < N_BLOCK_BUF \<and> block_num (bufs s ! i) = n \<and> data (bufs s ! i) = d"
  by (simp add: holds_def buf_data_def)

lemma holds_upd:
  "cache s H \<Longrightarrow> i < N_BLOCK_BUF \<Longrightarrow> bufs t = (bufs s)[i := b] \<Longrightarrow>
   holds t j n d \<longleftrightarrow> (if j = i then block_num b = n \<and> data b = d else holds s j n d)"
  using cacheD(1) [of s H] by (auto simp: holds_def buf_data_def)

lemma holds_upd_same:
  "cache s H \<Longrightarrow> i < N_BLOCK_BUF \<Longrightarrow> bufs t = (bufs s)[i := b] \<Longrightarrow>
   block_num b = block_num (bufs s ! i) \<Longrightarrow> data b = data (bufs s ! i) \<Longrightarrow> holds t j n d \<longleftrightarrow> holds s j n d"
  using holds_upd [of s H i t b j n d] by (auto simp: holds_def buf_data_def)

text \<open>Some buffer is unreferenced while fewer than 64 blocks are held.\<close>

lemma cache_victim:
  assumes c: "cache s H" and "card H < N_BLOCK_BUF"
  shows "\<exists>i < N_BLOCK_BUF. buf_ref (bufs s ! i) = 0"
proof (rule ccontr)
  assume "\<not> ?thesis"
  then have in_H: "block_num (bufs s ! i) \<in> H" if "i < N_BLOCK_BUF" for i
    using cacheD(2) [OF c that] that by (auto simp: buf_ok_def split: if_splits)
  have "finite H"
    using c by (auto simp: cache_def intro: finite_subset)
  moreover have "(\<lambda>i. block_num (bufs s ! i)) ` {..<N_BLOCK_BUF} \<subseteq> H" using in_H by auto
  moreover have "inj_on (\<lambda>i. block_num (bufs s ! i)) {..<N_BLOCK_BUF}"
    using cacheD(5) [OF c] in_H cacheD(4) [OF c] by (intro inj_onI) (metis lessThan_iff)
  ultimately have "N_BLOCK_BUF \<le> card H"
    using card_inj_on_le [of "\<lambda>i. block_num (bufs s ! i)" "{..<N_BLOCK_BUF}" H] by simp
  with assms(2) show False by simp
qed

lemma find_SomeD: "find P xs = Some x \<Longrightarrow> x \<in> set xs \<and> P x"
  by (induction xs) (auto split: if_splits)

lemma buf_read_cache:
  assumes c: "cache s H" and n: "n \<notin> H" "n \<noteq> BLOCK_NUM_UNUSED" and k: "card H < N_BLOCK_BUF"
  shows "\<exists>i t. buf_read n s = Inr (i, t) \<and> cache t (insert n H) \<and> holds t i n (disk s n) \<and>
    disk t = disk s \<and> buf_state.more t = buf_state.more s \<and>
    (\<forall>j m d. m \<in> H \<longrightarrow> holds s j m d \<longrightarrow> holds t j m d)"
proof -
  obtain xs where xs: "lru s xs" "set xs = {..<N_BLOCK_BUF}" "length xs = N_BLOCK_BUF"
    by (rule cache_lru [OF c])
  have hit: "scan N_BLOCK_BUF (nxt s) P (nxt s Head) = Inr (find P xs)" for P
    using lru_scan_next [OF xs(1)] xs(3) by simp
  have vic: "scan N_BLOCK_BUF (prv s) P (prv s Head) = Inr (find P (rev xs))" for P
    using lru_scan_prev [OF xs(1)] xs(3) by simp
  have len: "length (bufs s) = N_BLOCK_BUF" using cacheD(1) [OF c] .
  show ?thesis
  proof (cases "find (\<lambda>i. block_num (bufs s ! i) = n) xs")
    case (Some i)
    then have i: "i < N_BLOCK_BUF" "block_num (bufs s ! i) = n" using find_SomeD xs(2) by force+
    have ok: "buf_ok s H (bufs s ! i)" using cacheD(2) [OF c i(1)] .
    then have free: "\<not> locked (slk (bufs s ! i))" using i n by (simp add: buf_ok_def)
    then obtain l where l: "lock_take 0 (slk (bufs s ! i)) = Inr l" "spinlock_holding 0 l"
      using lock_take_unlocked by blast
    define b where "b = (bufs s ! i)\<lparr>buf_ref := buf_ref (bufs s ! i) + 1, slk := l\<rparr>"
    have rd: "buf_read n s = Inr (i, set_buf i b s)"
      using len i(1) l by (simp add: buf_read_def hit Some lock_buf_def set_buf_def b_def)
    have uniq: "block_num (bufs s ! j) \<noteq> n" if "j < N_BLOCK_BUF" "j \<noteq> i" for j
      using cacheD(5) [OF c that(1) i(1)] i(2) n(2) that(2) by auto
    have "cache (set_buf i b s) (insert n H)"
      using ok i n l xs cacheD(3,4) [OF c] uniq
      by (intro cache_update [OF c i(1)]) (auto simp: b_def buf_ok_def)
    moreover have "holds (set_buf i b s) i n (disk s n)"
      using ok i n by (simp add: holds_upd [OF c i(1), where b = b] b_def buf_ok_def)
    moreover have "holds (set_buf i b s) j m d" if "m \<in> H" "holds s j m d" for j m d
      using that i n by (auto simp: holds_upd [OF c i(1), where b = b] dest: holdsD)
    ultimately show ?thesis using rd by auto
  next
    case None
    then have miss: "block_num (bufs s ! j) \<noteq> n" if "j < N_BLOCK_BUF" for j
      using that xs(2) by (auto simp: find_None_iff)
    obtain i where i: "find (\<lambda>i. buf_ref (bufs s ! i) = 0) (rev xs) = Some i"
      using cache_victim [OF c k] xs(2) by (cases "find (\<lambda>i. buf_ref (bufs s ! i) = 0) (rev xs)")
        (auto simp: find_None_iff)
    then have i': "i < N_BLOCK_BUF" "buf_ref (bufs s ! i) = 0" using find_SomeD xs(2) by force+
    have ok: "buf_ok s H (bufs s ! i)" using cacheD(2) [OF c i'(1)] .
    then have free: "\<not> locked (slk (bufs s ! i))" "block_num (bufs s ! i) \<notin> H"
      using i'(2) by (auto simp: buf_ok_def split: if_splits)
    then obtain l where l: "lock_take 0 (slk (bufs s ! i)) = Inr l" "spinlock_holding 0 l"
      using lock_take_unlocked by blast
    define b where "b = (bufs s ! i)\<lparr>block_num := n, buf_ref := 1, slk := l, data := disk s n, on_disk := False\<rparr>"
    have rd: "buf_read n s = Inr (i, set_buf i b s)"
      using len i'(1) l
      by (simp add: buf_read_def hit vic None i lock_buf_def set_buf_def b_def disk_rw_def)
    have "cache (set_buf i b s) (insert n H)"
      using i' n l xs cacheD(3,4) [OF c] miss free
      by (intro cache_update [OF c i'(1)]) (auto simp: b_def buf_ok_def)
    moreover have "holds (set_buf i b s) i n (disk s n)"
      by (simp add: holds_upd [OF c i'(1)] b_def)
    moreover have "holds (set_buf i b s) j m d" if "m \<in> H" "holds s j m d" for j m d
      using that free by (auto simp: holds_upd [OF c i'(1), where b = b] dest: holdsD)
    ultimately show ?thesis using rd by auto
  qed
qed

lemma cache_update_held:
  assumes c: "cache s H" and n: "n \<in> H" and h: "holds s i n d"
    and b: "block_num b = n" "buf_ok t H' b" and H': "H' = H \<or> H' = H - {n}"
    and t: "bufs t = (bufs s)[i := b]" "\<exists>xs. lru t xs \<and> set xs = {..<N_BLOCK_BUF}"
    and d: "\<And>m. length (disk t m) = BLOCK_SIZE" "\<And>m. m \<noteq> n \<Longrightarrow> disk t m = disk s m"
  shows "cache t H'"
proof (rule cache_update [OF c _ b(2) t d(1)])
  have i: "i < N_BLOCK_BUF" "block_num (bufs s ! i) = n" using h by (auto simp: holds_def)
  have ne: "n \<noteq> BLOCK_NUM_UNUSED" using n cacheD(4) [OF c] by auto
  show "i < N_BLOCK_BUF" by (fact i)
  show "disk t m = disk s m" if "m \<noteq> block_num b" for m using d(2) b(1) that by simp
  show "block_num (bufs s ! j) \<noteq> block_num b" if "j < N_BLOCK_BUF" "j \<noteq> i" for j
    using cacheD(5) [OF c that(1) i(1)] i(2) ne that(2) b(1) by auto
  show "m \<in> H' \<longleftrightarrow> m \<in> H" if "m \<noteq> block_num b" for m using H' that b(1) by auto
  show "block_num b \<noteq> BLOCK_NUM_UNUSED" "BLOCK_NUM_UNUSED \<notin> H'" using ne b(1) H' cacheD(4) [OF c] by auto
  show "block_num b = block_num (bufs s ! i)" using i b by simp
qed

lemma heldD:
  assumes "cache s H" and "n \<in> H" and "holds s i n d"
  shows "i < N_BLOCK_BUF" "block_num (bufs s ! i) = n" "data (bufs s ! i) = d"
    "buf_ref (bufs s ! i) = 1" "spinlock_holding 0 (slk (bufs s ! i))" "length d = BLOCK_SIZE"
  using assms cacheD(2) [of s H i] by (auto simp: holds_def buf_data_def buf_ok_def)

lemma set_data_cache:
  assumes c: "cache s H" and n: "n \<in> H" and h: "holds s i n d" and e: "length e = BLOCK_SIZE"
  shows "cache (set_data i e s) H" and "holds (set_data i e s) j m f \<longleftrightarrow>
    (if j = i then m = n \<and> f = e else holds s j m f)"
    and "disk (set_data i e s) = disk s" "buf_state.more (set_data i e s) = buf_state.more s"
proof -
  note hd = heldD [OF c n h]
  obtain xs where xs: "lru s xs" "set xs = {..<N_BLOCK_BUF}" "length xs = N_BLOCK_BUF"
    by (rule cache_lru [OF c])
  let ?b = "(bufs s ! i)\<lparr>data := e\<rparr>"
  have ok: "buf_ok (set_data i e s) H ?b" using hd n e by (simp add: buf_ok_def)
  show "cache (set_data i e s) H"
    by (rule cache_update_held [OF c n h _ ok])
       (use hd(2) xs in \<open>simp_all add: set_data_def cacheD(3) [OF c] exI [of _ xs]\<close>)
  show "holds (set_data i e s) j m f \<longleftrightarrow> (if j = i then m = n \<and> f = e else holds s j m f)"
    using hd by (auto simp: holds_upd [OF c hd(1), where b = ?b] set_data_def)
qed (simp_all add: set_data_def)

lemma buf_write_cache:
  assumes c: "cache s H" and n: "n \<in> H" and h: "holds s i n d"
  shows "\<exists>t. buf_write i s = Inr t \<and> cache t H \<and> disk t = (disk s)(n := d) \<and>
    buf_state.more t = buf_state.more s \<and> (\<forall>j m e. holds t j m e \<longleftrightarrow> holds s j m e)"
proof -
  note hd = heldD [OF c n h]
  obtain xs where xs: "lru s xs" "set xs = {..<N_BLOCK_BUF}" "length xs = N_BLOCK_BUF"
    by (rule cache_lru [OF c])
  let ?b = "(bufs s ! i)\<lparr>on_disk := False\<rparr>"
  let ?t = "(set_buf i ?b s)\<lparr>disk := (disk s)(n := d)\<rparr>"
  have w: "buf_write i s = Inr ?t" using hd by (simp add: buf_write_def disk_rw_def Let_def)
  have lru: "lru ?t xs" using xs(1) by (simp add: lru_def)
  have ok: "buf_ok ?t H ?b" using hd n by (simp add: buf_ok_def)
  have "cache ?t H"
    by (rule cache_update_held [OF c n h _ ok])
       (use hd(2,6) lru xs(2) in \<open>simp_all add: cacheD(3) [OF c] exI [of _ xs]\<close>)
  moreover have "holds ?t j m e \<longleftrightarrow> holds s j m e" for j m e
    by (rule holds_upd_same [OF c hd(1), where b = ?b]) simp_all
  ultimately show ?thesis using w by simp
qed

lemma buf_release_cache:
  assumes c: "cache s H" and n: "n \<in> H" and h: "holds s i n (disk s n)"
  shows "\<exists>t. buf_release i s = Inr t \<and> cache t (H - {n}) \<and> disk t = disk s \<and>
    buf_state.more t = buf_state.more s \<and> (\<forall>j m e. holds t j m e \<longleftrightarrow> holds s j m e)"
proof -
  note hd = heldD [OF c n h]
  obtain xs where xs: "lru s xs" "set xs = {..<N_BLOCK_BUF}" "length xs = N_BLOCK_BUF"
    by (rule cache_lru [OF c])
  obtain l where l: "lock_drop 0 (slk (bufs s ! i)) = Inr l" "\<not> locked l"
    using lock_drop_held [OF hd(5)] by blast
  let ?b = "(bufs s ! i)\<lparr>slk := l, buf_ref := 0\<rparr>"
  have "i \<in> set xs" using hd xs by auto
  then obtain us vs where sp: "xs = us @ i # vs" by (auto simp: in_set_conv_decomp)
  then have "lru (set_buf i ?b s) (us @ i # vs)" using xs(1) by simp
  from insert_head_front [OF this] obtain t where
    t: "insert_head i True (set_buf i ?b s) = Inr t" "lru t (i # us @ vs)" by blast
  note f = insert_head_frame [OF t(1)]
  have r: "buf_release i s = Inr t"
    using hd l t(1) cacheD(1) [OF c] by (simp add: buf_release_def Let_def)
  have ex: "\<exists>ys. lru t ys \<and> set ys = {..<N_BLOCK_BUF}" 
    using t(2) xs(2) sp by (intro exI [of _ "i # us @ vs"]) auto
  have ok: "buf_ok t (H - {n}) ?b" using hd n f l by (simp add: buf_ok_def)
  have "cache t (H - {n})"
    by (rule cache_update_held [OF c n h _ ok _ _ ex]) (use hd(2) f in \<open>simp_all add: cacheD(3) [OF c]\<close>)
  moreover have "holds t j m e \<longleftrightarrow> holds s j m e" for j m e
    by (rule holds_upd_same [OF c hd(1), where b = ?b]) (simp_all add: f)
  ultimately show ?thesis using r f by simp
qed

text \<open>The buffer cache is a block store: the disk, written through.\<close>

interpretation bcache: block_store cache disk buf_state.more holds "\<lambda>n. n \<noteq> BLOCK_NUM_UNUSED"
  N_BLOCK_BUF BLOCK_SIZE buf_read buf_data set_data buf_write buf_release
proof unfold_locales
  fix s :: "'a buf_state_scheme" and H n i d and e :: "byte list"
  show "cache s H \<Longrightarrow> length (disk s n) = BLOCK_SIZE" using cacheD(3) by blast
  show "holds s i n d \<Longrightarrow> buf_data i s = d" by (simp add: holds_def)
  show "cache s H \<Longrightarrow> n \<notin> H \<Longrightarrow> n \<noteq> BLOCK_NUM_UNUSED \<Longrightarrow> card H < N_BLOCK_BUF \<Longrightarrow>
      \<exists>i t. buf_read n s = Inr (i, t) \<and> cache t (insert n H) \<and> holds t i n (disk s n) \<and>
        disk t = disk s \<and> buf_state.more t = buf_state.more s \<and>
        (\<forall>j m d. m \<in> H \<longrightarrow> holds s j m d \<longrightarrow> holds t j m d)"
    by (rule buf_read_cache)
  show "cache s H \<Longrightarrow> n \<in> H \<Longrightarrow> holds s i n d \<Longrightarrow> length e = BLOCK_SIZE \<Longrightarrow>
      cache (set_data i e s) H \<and> holds (set_data i e s) i n e \<and> disk (set_data i e s) = disk s \<and>
        buf_state.more (set_data i e s) = buf_state.more s \<and>
        (\<forall>j m d. m \<in> H \<longrightarrow> m \<noteq> n \<longrightarrow> holds s j m d \<longrightarrow> holds (set_data i e s) j m d)"
    by (simp add: set_data_cache) (auto simp: holds_def)
  show "cache s H \<Longrightarrow> n \<in> H \<Longrightarrow> holds s i n d \<Longrightarrow>
      \<exists>t. buf_write i s = Inr t \<and> cache t H \<and> holds t i n d \<and> disk t = (disk s)(n := d) \<and>
        buf_state.more t = buf_state.more s \<and> (\<forall>j m d. m \<in> H \<longrightarrow> holds s j m d \<longrightarrow> holds t j m d)"
    using buf_write_cache [of s H n i d] by auto
  show "cache s H \<Longrightarrow> n \<in> H \<Longrightarrow> holds s i n (disk s n) \<Longrightarrow>
      \<exists>t. buf_release i s = Inr t \<and> cache t (H - {n}) \<and> disk t = disk s \<and>
        buf_state.more t = buf_state.more s \<and>
        (\<forall>j m d. m \<in> H \<longrightarrow> m \<noteq> n \<longrightarrow> holds s j m d \<longrightarrow> holds t j m d)"
    using buf_release_cache [of s H n i] by auto
qed

text \<open>From the zeroed cache of the kernel image.\<close>

definition buf_bss :: "(u32 \<Rightarrow> byte list) \<Rightarrow> buf_state" where
  "buf_bss d = \<lparr>disk = d,
     bufs = replicate N_BLOCK_BUF \<lparr>slk = \<lparr>locked = False, name = [], cpuid = 0\<rparr>, block_num = 0,
       data = replicate BLOCK_SIZE 0, buf_ref = 0, on_disk = False\<rparr>,
     nxt = (\<lambda>_. None), prv = (\<lambda>_. None)\<rparr>"

lemma buf_init_cache:
  assumes "length (bufs s) = N_BLOCK_BUF" and "\<forall>b \<in> set (bufs s). length (data b) = BLOCK_SIZE"
    and "\<forall>i. nxt s (Node i) = None" and "\<forall>n. length (disk s n) = BLOCK_SIZE"
  shows "\<exists>t. buf_init s = Inr t \<and> cache t {} \<and> lru t [0..<N_BLOCK_BUF] \<and> disk t = disk s \<and>
    buf_state.more t = buf_state.more s \<and> block_num ` set (bufs t) = {BLOCK_NUM_UNUSED}"
proof -
  let ?s = "s\<lparr>nxt := (nxt s)(Head := Some Head), prv := (prv s)(Head := Some Head)\<rparr>"
  have "lru ?s []" by (simp add: lru_def)
  then obtain t where t: "buf_init_loop N_BLOCK_BUF ?s = Inr t" "lru t [0..<N_BLOCK_BUF]" "disk t = disk s"
    "buf_state.more t = buf_state.more s" "length (bufs t) = N_BLOCK_BUF"
    "\<And>i. i < N_BLOCK_BUF \<Longrightarrow> bufs t ! i = (bufs s ! i)\<lparr>slk := spinlock_init ''buffer'',
       block_num := BLOCK_NUM_UNUSED, buf_ref := 0, on_disk := False\<rparr>"
    using buf_init_loop_ok [of ?s N_BLOCK_BUF] assms(1,3) by auto
  have ok: "buf_ok t {} (bufs t ! i)" if "i < N_BLOCK_BUF" for i
    using t(6) [OF that] assms(1,2) that by (simp add: buf_ok_def spinlock_init_def)
  have "\<exists>xs. lru t xs \<and> set xs = {..<N_BLOCK_BUF}"
    using t(2) by (intro exI [of _ "[0..<N_BLOCK_BUF]"]) (simp add: atLeast0LessThan)
  then have "cache t {}"
    unfolding cache_alt using t(3,5,6) ok assms(4) by simp
  moreover have "block_num ` set (bufs t) = {BLOCK_NUM_UNUSED}"
  proof -
    have "block_num b = BLOCK_NUM_UNUSED" if b: "b \<in> set (bufs t)" for b
    proof -
      obtain i where "i < length (bufs t)" "b = bufs t ! i" using b by (auto simp: in_set_conv_nth)
      then show ?thesis using t(5,6) by simp
    qed
    moreover have "set (bufs t) \<noteq> {}" using t(5) by auto
    ultimately show ?thesis by (simp add: image_constant_conv)
  qed
  ultimately show ?thesis using t by (simp add: buf_init_def)
qed

lemma buf_bss_ready:
  assumes "\<And>n. length (d n) = BLOCK_SIZE"
  shows "\<exists>t. buf_init (buf_bss d) = Inr t \<and> cache t {} \<and> disk t = d \<and> lru t [0..<N_BLOCK_BUF] \<and>
    block_num ` set (bufs t) = {BLOCK_NUM_UNUSED}"
  using buf_init_cache [of "buf_bss d"] assms by (auto simp: buf_bss_def)

text \<open>The ring is determined by the links, so it is the one with all the buffers.\<close>

lemma seg_unique: "seg nx pv a xs Head \<Longrightarrow> seg nx pv a ys Head \<Longrightarrow> xs = ys"
  by (induction xs arbitrary: a ys) (case_tac ys, auto)+

lemma lru_all:
  assumes "cache s H" and "lru s xs"
  shows "set xs = {..<N_BLOCK_BUF}" "length xs = N_BLOCK_BUF"
proof -
  obtain ys where "lru s ys" "set ys = {..<N_BLOCK_BUF}" "length ys = N_BLOCK_BUF"
    by (rule cache_lru [OF assms(1)])
  moreover from this have "xs = ys" using assms(2) seg_unique by (auto simp: lru_def)
  ultimately show "set xs = {..<N_BLOCK_BUF}" "length xs = N_BLOCK_BUF" by simp_all
qed

lemma buf_release_moves:
  assumes "lru s xs" and "i \<in> set xs" and "i < length (bufs s)" and "buf_ref (bufs s ! i) = 1"
    and "buf_release i s = Inr t"
  shows "lru t (i # remove1 i xs)"
proof -
  obtain us vs where sp: "xs = us @ i # vs" using assms(2) by (auto simp: in_set_conv_decomp)
  then have rm: "remove1 i xs = us @ vs" using assms(1) by (auto simp: lru_def remove1_append)
  obtain l where "insert_head i True (set_buf i ((bufs s ! i)\<lparr>slk := l, buf_ref := 0\<rparr>) s) = Inr t"
    using assms(3-5) by (auto simp: buf_release_def Let_def bindr_eq_Inr split: if_splits)
  moreover have "lru (set_buf i ((bufs s ! i)\<lparr>slk := l, buf_ref := 0\<rparr>) s) (us @ i # vs)"
    using assms(1) sp by simp
  ultimately show ?thesis using insert_head_front rm by fastforce
qed

text \<open>What a read that misses does.\<close>

lemma buf_read_miss:
  assumes "cache s H" and "lru s xs" and "n \<notin> block_num ` set (bufs s)" and "buf_read n s = Inr (i, t)"
  shows "find (\<lambda>j. buf_ref (bufs s ! j) = 0) (rev xs) = Some i" "lru t xs"
    "i < length (bufs t)" "buf_ref (bufs t ! i) = 1"
proof -
  note xs = lru_all [OF assms(1,2)]
  have len: "length (bufs s) = N_BLOCK_BUF" by (rule cacheD(1) [OF assms(1)])
  have miss: "find (\<lambda>j. block_num (bufs s ! j) = n) xs = None"
    using xs(1) len assms(3) by (auto simp: find_None_iff)
  obtain l where k: "find (\<lambda>j. buf_ref (bufs s ! j) = 0) (rev xs) = Some i"
    and l: "lock_buf i (set_buf i ((bufs s ! i)\<lparr>block_num := n, buf_ref := 1, on_disk := False\<rparr>) s) = Inr l"
    and t: "t = disk_rw i False l"
    using assms(4) miss xs(2)
    by (auto simp: buf_read_def lru_scan_next [OF assms(2)] lru_scan_prev [OF assms(2)] bindr_eq_Inr Let_def
        split: option.splits)
  from k show "find (\<lambda>j. buf_ref (bufs s ! j) = 0) (rev xs) = Some i" .
  then have i: "i < length (bufs s)" using find_SomeD [of _ "rev xs"] xs(1) len by auto
  from l t i assms(2) show "lru t xs" "i < length (bufs t)" "buf_ref (bufs t ! i) = 1"
    by (auto simp: lock_buf_def disk_rw_def Let_def bindr_eq_Inr)
qed

lemma buf_read_held:
  assumes c: "cache s H" and n: "n \<in> H"
  shows "buf_read n s = Inl (Panic ''double acquire detected'')"
proof -
  obtain xs where xs: "lru s xs" "set xs = {..<N_BLOCK_BUF}" "length xs = N_BLOCK_BUF"
    by (rule cache_lru [OF c])
  obtain i where i: "find (\<lambda>i. block_num (bufs s ! i) = n) xs = Some i"
    using c n xs(2) by (cases "find (\<lambda>i. block_num (bufs s ! i) = n) xs") (auto simp: cache_alt find_None_iff)
  then have "i < N_BLOCK_BUF" "block_num (bufs s ! i) = n" using find_SomeD xs(2) by force+
  moreover from this have "spinlock_holding 0 (slk (bufs s ! i))"
    using cacheD(2) [OF c, of i] n by (simp add: buf_ok_def)
  ultimately show ?thesis
    using i xs cacheD(1) [OF c] by (simp add: buf_read_def lru_scan_next lock_buf_def lock_take_def Let_def)
qed

lemma buf_read_full:
  assumes c: "cache s H" and n: "n \<notin> block_num ` set (bufs s)" and k: "card H = N_BLOCK_BUF"
  shows "buf_read n s = Inl (Panic ''buf_read: no buffers'')"
proof -
  obtain xs where xs: "lru s xs" "set xs = {..<N_BLOCK_BUF}" "length xs = N_BLOCK_BUF"
    by (rule cache_lru [OF c])
  have len: "length (bufs s) = N_BLOCK_BUF" by (rule cacheD(1) [OF c])
  have miss: "find (\<lambda>j. block_num (bufs s ! j) = n) xs = None"
    using xs(2) len n by (auto simp: find_None_iff)
  have "card (block_num ` set (bufs s)) \<le> card H"
    using card_image_le [of "set (bufs s)" block_num] card_length [of "bufs s"] len k by simp
  then have "H = block_num ` set (bufs s)" using c by (intro card_seteq) (auto simp: cache_def)
  then have "buf_ref (bufs s ! i) \<noteq> 0" if "i < N_BLOCK_BUF" for i
    using cacheD(2) [OF c that] len that by (auto simp: buf_ok_def)
  then have "find (\<lambda>i. buf_ref (bufs s ! i) = 0) (rev xs) = None" using xs(2) by (auto simp: find_None_iff)
  with miss xs show ?thesis by (simp add: buf_read_def lru_scan_next lru_scan_prev)
qed

section \<open>Properties\<close>

text \<open>\<^verbatim>\<open>buf_init\<close> on the zeroed cache terminates without touching a NULL link and leaves a consistent
  cache in which no block is held: the ring has all 64 buffers in order and the disk is untouched.\<close>

theorem buf_init_correct:
  assumes "length (bufs s) = N_BLOCK_BUF" and "\<forall>b \<in> set (bufs s). length (data b) = BLOCK_SIZE"
    and "\<forall>i. nxt s (Node i) = None" and "\<forall>n. length (disk s n) = BLOCK_SIZE"
  shows "\<exists>t. buf_init s = Inr t \<and> cache t {} \<and> lru t [0..<N_BLOCK_BUF] \<and> disk t = disk s"
  using buf_init_cache [OF assms] by blast

theorem buf_init_correct_witness:
  "\<exists>t. buf_init (buf_bss (\<lambda>n. replicate BLOCK_SIZE 7)) = Inr t \<and> cache t {} \<and>
     lru t [0..<N_BLOCK_BUF] \<and> disk t = (\<lambda>n. replicate BLOCK_SIZE 7)"
  using buf_init_correct [of "buf_bss (\<lambda>n. replicate BLOCK_SIZE 7)"] by (simp add: buf_bss_def)

text \<open>Reading a block that nobody holds, while fewer than 64 blocks are held, returns a buffer with
  the block's data, locked by the caller; the cache stays consistent and no other buffer has the
  block, the disk is unchanged, and the buffers of the blocks held before are unchanged.\<close>

theorem buf_read_correct:
  assumes "cache s H" and "n \<notin> H" and "n \<noteq> BLOCK_NUM_UNUSED" and "card H < N_BLOCK_BUF"
  shows "\<exists>i t. buf_read n s = Inr (i, t) \<and> cache t (insert n H) \<and> holds t i n (disk s n) \<and>
    spinlock_holding 0 (slk (bufs t ! i)) \<and> disk t = disk s \<and> (\<forall>j d. holds t j n d \<longrightarrow> j = i) \<and>
    (\<forall>j m d. m \<in> H \<longrightarrow> holds s j m d \<longrightarrow> holds t j m d)"
proof -
  obtain i t where t: "buf_read n s = Inr (i, t)" "cache t (insert n H)" "holds t i n (disk s n)"
    "disk t = disk s" "\<forall>j m d. m \<in> H \<longrightarrow> holds s j m d \<longrightarrow> holds t j m d"
    using bcache.rd_ok [OF assms] by blast
  have "j = i" if "holds t j n d" for j d
    using cacheD(5) [OF t(2), of j i] holdsD [OF that] holdsD [OF t(3)] assms(3) by simp
  with t heldD(5) [OF t(2) _ t(3)] show ?thesis by blast
qed

theorem buf_read_correct_witness:
  "\<exists>s :: buf_state. cache s {} \<and> (\<exists>i t. buf_read 5 s = Inr (i, t) \<and> cache t {5} \<and>
     holds t i 5 (replicate BLOCK_SIZE 7))"
proof -
  obtain s :: buf_state where s: "cache s {}" "disk s = (\<lambda>n. replicate BLOCK_SIZE 7)"
    using buf_bss_ready [of "\<lambda>n. replicate BLOCK_SIZE 7"] by auto
  show ?thesis using buf_read_correct [OF s(1), of 5] s by auto
qed



text \<open>C36. Replacement order: a read that misses takes the last buffer of the ring that nobody references, and
  its release moves it to the front and keeps the order of the rest.  So the ring is ordered by
  the last release and the victim is the least recently released buffer.\<close>

theorem buf_replacement_lru:
  assumes "cache s H" and "lru s xs" and "n \<notin> block_num ` set (bufs s)"
    and "buf_read n s = Inr (i, t)" and "buf_release i t = Inr u"
  shows "find (\<lambda>j. buf_ref (bufs s ! j) = 0) (rev xs) = Some i \<and> lru t xs \<and> lru u (i # remove1 i xs)"
proof -
  note m = buf_read_miss [OF assms(1-4)]
  have "i \<in> set xs" using find_SomeD [OF m(1)] by simp
  from m buf_release_moves [OF m(2) this m(3,4) assms(5)] show ?thesis by blast
qed

theorem buf_replacement_lru_witness:
  "\<exists>(s :: buf_state) i t u. lru s [0..<N_BLOCK_BUF] \<and> buf_read 5 s = Inr (i, t) \<and> buf_release i t = Inr u \<and>
     lru u (i # remove1 i [0..<N_BLOCK_BUF])"
proof -
  obtain s :: buf_state where s: "block_num ` set (bufs s) = {BLOCK_NUM_UNUSED}" "cache s {}"
      "lru s [0..<N_BLOCK_BUF]"
    using buf_bss_ready [of "\<lambda>n. replicate BLOCK_SIZE 7"] by auto
  have "5 \<notin> block_num ` set (bufs s)" using s(1) by simp
  moreover obtain i t u where "buf_read 5 s = Inr (i, t)" "buf_release i t = Inr u"
    by (rule bcache.peek_ok [OF s(2), of 5]) simp_all
  ultimately show ?thesis using buf_replacement_lru [OF s(2,3)] s(3) by blast
qed

text \<open>Errors: reading a block that is already held is caught as a double acquire of its buffer's lock,
  reading a new block while all 64 buffers are referenced panics, and writing or releasing a
  buffer whose lock the caller does not hold panics.\<close>

theorem buf_errors:
  assumes "cache s H"
  shows "(n \<in> H \<longrightarrow> buf_read n s = Inl (Panic ''double acquire detected'')) \<and>
    (n \<notin> block_num ` set (bufs s) \<and> card H = N_BLOCK_BUF \<longrightarrow>
      buf_read n s = Inl (Panic ''buf_read: no buffers'')) \<and>
    (i < N_BLOCK_BUF \<and> block_num (bufs s ! i) \<notin> H \<longrightarrow>
      buf_write i s = Inl (Panic ''buf_write: not holding lock'') \<and>
      buf_release i s = Inl (Panic ''buf_release: not holding lock''))"
proof (intro conjI impI)
  assume "n \<in> H"
  then show "buf_read n s = Inl (Panic ''double acquire detected'')"
    by (rule buf_read_held [OF assms])
next
  assume "n \<notin> block_num ` set (bufs s) \<and> card H = N_BLOCK_BUF"
  then show "buf_read n s = Inl (Panic ''buf_read: no buffers'')"
    using buf_read_full [OF assms] by blast
next
  assume "i < N_BLOCK_BUF \<and> block_num (bufs s ! i) \<notin> H"
  then have "\<not> spinlock_holding 0 (slk (bufs s ! i))"
    using cacheD(2) [OF assms, of i] by (simp add: buf_ok_def spinlock_holding_def)
  then show "buf_write i s = Inl (Panic ''buf_write: not holding lock'')"
    "buf_release i s = Inl (Panic ''buf_release: not holding lock'')"
    by (simp_all add: buf_write_def buf_release_def)
qed

theorem buf_errors_witness:
  "\<exists>s :: buf_state. cache s {5} \<and> buf_read 5 s = Inl (Panic ''double acquire detected'')"
proof -
  obtain s :: buf_state where s: "cache s {}" using buf_bss_ready [of "\<lambda>n. replicate BLOCK_SIZE 7"] by auto
  obtain t :: buf_state where "cache t {5}" using bcache.rd_ok [OF s, of 5] by auto
  then show ?thesis using buf_errors [of t "{5}" 5] by blast
qed

end
