(* ===== verification/Bitmap.thy ===== *)
theory Bitmap
  imports Bufcache
begin

text \<open>
  \<^verbatim>\<open>kernel/fs/bitmap.c\<close>: the allocators of inodes and data blocks, each one block of bits on disk,
  and the super block of \<^verbatim>\<open>include/fs/fs.h\<close> that says where these blocks are.  The state of
  the buffer cache is extended by the in-memory super block \<^verbatim>\<open>sb\<close>.  Bit \<open>k\<close> of a bitmap is bit
  \<open>k mod 8\<close> of its byte \<open>k div 8\<close>; a bit that is set is in use.  The messages the functions print
  are not part of the state.
\<close>

section \<open>Definitions\<close>

record super_block =
  magic :: u32
  block_size :: u32
  inode_bitmap_start :: u32
  inode_start :: u32
  data_bitmap_start :: u32
  data_start :: u32
  inode_blocks :: u32
  data_blocks :: u32
  total_blocks :: u32

record fs_state = buf_state +
  sb :: super_block

text \<open>The two loops of the search: over the bits of a byte, with \<^verbatim>\<open>bit_cmp\<close> shifted along, and over
  the bytes of the block.\<close>

function find_shift :: "nat \<Rightarrow> byte \<Rightarrow> byte \<Rightarrow> (nat \<times> byte) option" where
  "find_shift shift bit_cmp b =
     (if shift \<le> 7
      then if bit_cmp AND b = 0 then Some (shift, bit_cmp) else find_shift (Suc shift) (push_bit 1 bit_cmp) b
      else None)"
  by pat_completeness auto
termination by (relation "measure (\<lambda>(shift, _). 8 - shift)") auto

function find_bit :: "nat \<Rightarrow> byte list \<Rightarrow> (nat \<times> nat \<times> byte) option" where
  "find_bit byte d =
     (if byte < BLOCK_SIZE
      then case find_shift 0 1 (d ! byte) of
             Some (shift, bit_cmp) \<Rightarrow> Some (byte, shift, bit_cmp)
           | None \<Rightarrow> find_bit (Suc byte) d
      else None)"
  by pat_completeness auto
termination by (relation "measure (\<lambda>(byte, _). BLOCK_SIZE - byte)") auto

declare find_shift.simps [simp del] find_bit.simps [simp del]

definition bitmap_search_and_set :: "u32 \<Rightarrow> 'a buf_state_scheme \<Rightarrow> (u32 \<times> 'a buf_state_scheme) res" where
  "bitmap_search_and_set bitmap_block s =
     bindr (buf_read bitmap_block s) (\<lambda>(i, s).
     case find_bit 0 (buf_data i s) of
       Some (byte, shift, bit_cmp) \<Rightarrow>
         let d = buf_data i s
         in bindr (buf_write i (set_data i (d[byte := d ! byte OR bit_cmp]) s)) (\<lambda>s.
            bindr (buf_release i s) (\<lambda>s.
            Inr (of_nat (byte * 8 + shift), s)))
     | None \<Rightarrow> bindr (buf_release i s) (\<lambda>s. Inr (0xFFFFFFFF, s)))"

text \<open>\<^verbatim>\<open>data[byte]\<close> with \<^verbatim>\<open>byte\<close> beyond the block is an access out of bounds.\<close>

definition bitmap_unset :: "u32 \<Rightarrow> u32 \<Rightarrow> 'a buf_state_scheme \<Rightarrow> 'a buf_state_scheme res" where
  "bitmap_unset bitmap_block num s =
     (let byte = unat (num div 8); shift = unat (num mod 8); bit_cmp = push_bit shift (1 :: byte)
      in bindr (buf_read bitmap_block s) (\<lambda>(i, s).
         let d = buf_data i s
         in if \<not> byte < length d then Inl Undefined
            else if d ! byte AND bit_cmp = 0 then buf_release i s
            else bindr (buf_write i (set_data i (d[byte := d ! byte AND NOT bit_cmp]) s)) (buf_release i)))"

definition bitmap_alloc_block :: "'a fs_state_scheme \<Rightarrow> (u32 \<times> 'a fs_state_scheme) res" where
  "bitmap_alloc_block s =
     bindr (bitmap_search_and_set (data_bitmap_start (sb s)) s) (\<lambda>(b, s).
     Inr (if b = 0xFFFFFFFF then (0, s) else (b + data_start (sb s), s)))"

definition bitmap_free_block :: "u32 \<Rightarrow> 'a fs_state_scheme \<Rightarrow> 'a fs_state_scheme res" where
  "bitmap_free_block bn s =
     (if bn < data_start (sb s) then Inr s
      else bitmap_unset (data_bitmap_start (sb s)) (bn - data_start (sb s)) s)"

definition bitmap_alloc_inode :: "'a fs_state_scheme \<Rightarrow> (u16 \<times> 'a fs_state_scheme) res" where
  "bitmap_alloc_inode s =
     bindr (bitmap_search_and_set (inode_bitmap_start (sb s)) s) (\<lambda>(b, s).
     Inr (if b = 0xFFFFFFFF then (0xFFFF, s) else (ucast b, s)))"

definition bitmap_free_inode :: "u16 \<Rightarrow> 'a fs_state_scheme \<Rightarrow> 'a fs_state_scheme res" where
  "bitmap_free_inode inode_num s = bitmap_unset (inode_bitmap_start (sb s)) (ucast inode_num) s"

text \<open>Abstraction: the bits of a block that are in use, and the block with one bit changed.\<close>

abbreviation N_BITS :: nat where
  "N_BITS \<equiv> 8192"

definition bitmap_bit :: "byte list \<Rightarrow> nat \<Rightarrow> bool" where
  "bitmap_bit d k \<longleftrightarrow> bit (d ! (k div 8)) (k mod 8)"

definition used_bits :: "byte list \<Rightarrow> nat set" where
  "used_bits d = {k. k < N_BITS \<and> bitmap_bit d k}"

definition set_bit_of :: "nat \<Rightarrow> byte list \<Rightarrow> byte list" where
  "set_bit_of k d = d[k div 8 := d ! (k div 8) OR 2 ^ (k mod 8)]"

definition clear_bit_of :: "nat \<Rightarrow> byte list \<Rightarrow> byte list" where
  "clear_bit_of k d = d[k div 8 := d ! (k div 8) AND NOT (2 ^ (k mod 8))]"

section \<open>Bits of a block\<close>

lemma bit_cmp_zero:
  assumes "j < 8"
  shows "((2 :: byte) ^ j AND b = 0) \<longleftrightarrow> \<not> bit b j"
proof
  assume "(2 :: byte) ^ j AND b = 0"
  then have "bit ((2 :: byte) ^ j AND b) j = bit (0 :: byte) j" by simp
  with assms show "\<not> bit b j" by (simp add: bit_simps)
next
  assume "\<not> bit b j"
  then show "(2 :: byte) ^ j AND b = 0" by (intro bit_word_eqI) (auto simp: bit_simps)
qed

lemma find_shift_spec:
  assumes "n \<le> 8"
  shows "find_shift n (2 ^ n) b =
    (case find (\<lambda>j. \<not> bit b j) [n..<8] of Some j \<Rightarrow> Some (j, 2 ^ j) | None \<Rightarrow> None)"
  using assms
proof (induction "8 - n" arbitrary: n)
  case 0
  then show ?case by (simp add: find_shift.simps)
next
  case (Suc x)
  then have n: "n < 8" by simp
  have "find_shift (Suc n) (2 ^ Suc n) b =
    (case find (\<lambda>j. \<not> bit b j) [Suc n..<8] of Some j \<Rightarrow> Some (j, 2 ^ j) | None \<Rightarrow> None)"
    using Suc by (intro Suc.hyps) auto
  with n show ?case
    by (subst find_shift.simps) (simp add: upt_conv_Cons bit_cmp_zero mult.commute)
qed

text \<open>The first free bit, if there is one.\<close>

lemma upt8: "[8 * n..<8 * Suc n] = map (\<lambda>j. 8 * n + j) [0..<8]"
  by (simp add: map_add_upt mult.commute add.commute)

lemma find_map: "find P (map f xs) = map_option f (find (P \<circ> f) xs)"
  by (induction xs) auto

lemma find_append: "find P (xs @ ys) = (case find P xs of Some x \<Rightarrow> Some x | None \<Rightarrow> find P ys)"
  by (induction xs) auto

lemma find_bit_spec:
  assumes "n \<le> BLOCK_SIZE"
  shows "find_bit n d = (case find (\<lambda>k. \<not> bitmap_bit d k) [8 * n..<N_BITS] of
    Some k \<Rightarrow> Some (k div 8, k mod 8, 2 ^ (k mod 8)) | None \<Rightarrow> None)"
  using assms
proof (induction "BLOCK_SIZE - n" arbitrary: n)
  case 0
  then show ?case by (simp add: find_bit.simps)
next
  case (Suc x)
  then have n: "n < BLOCK_SIZE" by simp
  have IH: "find_bit (Suc n) d = (case find (\<lambda>k. \<not> bitmap_bit d k) [8 * Suc n..<N_BITS] of
    Some k \<Rightarrow> Some (k div 8, k mod 8, 2 ^ (k mod 8)) | None \<Rightarrow> None)"
    using Suc by (intro Suc.hyps) auto
  have sp: "[8 * n..<N_BITS] = [8 * n..<8 * Suc n] @ [8 * Suc n..<N_BITS]"
    using n upt_add_eq_append [of "8 * n" "8 * Suc n" "N_BITS - 8 * Suc n"] by simp
  have eq: "find ((\<lambda>k. \<not> bitmap_bit d k) \<circ> (\<lambda>j. 8 * n + j)) [0..<8] = find (\<lambda>j. \<not> bit (d ! n) j) [0..<8]"
    by (rule find_cong) (auto simp: bitmap_bit_def)
  have fs: "find_shift 0 1 (d ! n) =
      (case find (\<lambda>j. \<not> bit (d ! n) j) [0..<8] of Some j \<Rightarrow> Some (j, 2 ^ j) | None \<Rightarrow> None)"
    using find_shift_spec [of 0 "d ! n"] by simp
  show ?case
  proof (cases "find (\<lambda>j. \<not> bit (d ! n) j) [0..<8]")
    case None
    then show ?thesis using n IH
      by (subst find_bit.simps) (simp only: fs sp find_append upt8 find_map eq option.case option.map if_True)
  next
    case (Some j)
    then have "j < 8" using find_SomeD by fastforce
    with Some show ?thesis using n
      by (subst find_bit.simps) (simp only: fs sp find_append upt8 find_map eq, simp)
  qed
qed

lemma find_bit_0:
  "find_bit 0 d = (case find (\<lambda>k. \<not> bitmap_bit d k) [0..<N_BITS] of
    Some k \<Rightarrow> Some (k div 8, k mod 8, 2 ^ (k mod 8)) | None \<Rightarrow> None)"
  using find_bit_spec [of 0 d] by simp

lemma bitmap_bit_upd:
  assumes "length d = BLOCK_SIZE" and "k < N_BITS" and "j < N_BITS"
  shows "bitmap_bit (set_bit_of k d) j \<longleftrightarrow> j = k \<or> bitmap_bit d j"
    and "bitmap_bit (clear_bit_of k d) j \<longleftrightarrow> j \<noteq> k \<and> bitmap_bit d j"
proof -
  have lt: "k div 8 < length d" "j mod 8 < 8" "k mod 8 < 8" using assms(1,2) by auto
  have ne: "j mod 8 \<noteq> k mod 8" if "j \<noteq> k" "j div 8 = k div 8" using that by (metis div_mult_mod_eq)
  show "bitmap_bit (set_bit_of k d) j \<longleftrightarrow> j = k \<or> bitmap_bit d j"
    using ne lt by (cases "j = k"; cases "j div 8 = k div 8")
      (simp_all add: bitmap_bit_def set_bit_of_def bit_simps)
  show "bitmap_bit (clear_bit_of k d) j \<longleftrightarrow> j \<noteq> k \<and> bitmap_bit d j"
    using ne lt by (cases "j = k"; cases "j div 8 = k div 8")
      (simp_all add: bitmap_bit_def clear_bit_of_def bit_simps)
qed

lemma used_bits_upd:
  assumes "length d = BLOCK_SIZE" and "k < N_BITS"
  shows "used_bits (set_bit_of k d) = insert k (used_bits d)"
    and "used_bits (clear_bit_of k d) = used_bits d - {k}"
  using bitmap_bit_upd [OF assms] assms(2) by (auto simp: used_bits_def)

lemma length_bit_upd [simp]: "length (set_bit_of k d) = length d" "length (clear_bit_of k d) = length d"
  by (simp_all add: set_bit_of_def clear_bit_of_def)

section \<open>The allocator on one bitmap block\<close>

lemma find_upt_SomeD: "find P [0..<n] = Some k \<Longrightarrow> k < n \<and> P k \<and> (\<forall>j < k. \<not> P j)"
  by (auto simp: find_Some_iff)

lemma used_bits_subset: "used_bits d \<subseteq> {..<N_BITS}"
  by (auto simp: used_bits_def)

lemma find_free_None: "find (\<lambda>k. \<not> bitmap_bit d k) [0..<N_BITS] = None \<longleftrightarrow> used_bits d = {..<N_BITS}"
  by (auto simp: find_None_iff used_bits_def)

lemma more_sb:
  "buf_state.more t = buf_state.more s \<Longrightarrow> sb t = sb s \<and> fs_state.more t = fs_state.more s"
  by (cases s; cases t) simp

lemma bitmap_search_and_set_cache:
  assumes c: "cache s H" "n \<notin> H" "n \<noteq> BLOCK_NUM_UNUSED" "card H < N_BLOCK_BUF"
  obtains (full) t where "used_bits (disk s n) = {..<N_BITS}"
      "bitmap_search_and_set n s = Inr (0xFFFFFFFF, t)" "cache t H" "disk t = disk s"
      "buf_state.more t = buf_state.more s" "\<forall>j m d. m \<in> H \<longrightarrow> holds s j m d \<longrightarrow> holds t j m d"
  | (found) k t where "k < N_BITS" "k \<notin> used_bits (disk s n)" "\<forall>j < k. j \<in> used_bits (disk s n)"
      "bitmap_search_and_set n s = Inr (of_nat k, t)" "cache t H" "disk t = (disk s)(n := set_bit_of k (disk s n))"
      "buf_state.more t = buf_state.more s" "\<forall>j m d. m \<in> H \<longrightarrow> holds s j m d \<longrightarrow> holds t j m d"
proof (cases "find (\<lambda>k. \<not> bitmap_bit (disk s n) k) [0..<N_BITS]")
  case None
  obtain i t u where r: "buf_read n s = Inr (i, t)" "buf_data i t = disk s n" "buf_release i t = Inr u" "cache u H"
    "disk u = disk s" "buf_state.more u = buf_state.more s"
    "\<forall>j m d. m \<in> H \<longrightarrow> holds s j m d \<longrightarrow> holds u j m d"
    by (rule bcache.peek_ok [OF c])
  have "bitmap_search_and_set n s = Inr (0xFFFFFFFF, u)"
    using r None by (simp add: bitmap_search_and_set_def find_bit_0)
  with None r show thesis by (intro full [of u]) (auto simp: find_free_None)
next
  case (Some k)
  note k = find_upt_SomeD [OF this]
  let ?e = "set_bit_of k (disk s n)"
  have "length ?e = BLOCK_SIZE" using cacheD(3) [OF c(1)] by simp
  from bcache.update_ok [OF c this] obtain i t u v where r: "buf_read n s = Inr (i, t)"
    "buf_data i t = disk s n" "buf_write i (set_data i ?e t) = Inr u" "buf_release i u = Inr v" "cache v H"
    "disk v = (disk s)(n := ?e)" "buf_state.more v = buf_state.more s"
    "\<forall>j m d. m \<in> H \<longrightarrow> holds s j m d \<longrightarrow> holds v j m d" by metis
  have "of_nat (k div 8) * 8 + of_nat (k mod 8) = (of_nat k :: u32)"
    by (metis div_mult_mod_eq of_nat_add of_nat_mult of_nat_numeral)
  then have "bitmap_search_and_set n s = Inr (of_nat k, v)"
    using r Some by (simp add: bitmap_search_and_set_def find_bit_0 set_bit_of_def Let_def)
  with r k show thesis by (intro found [of k v]) (auto simp: used_bits_def)
qed

lemma clear_bit_of_same:
  assumes "length d = BLOCK_SIZE" and "k < N_BITS" and "\<not> bitmap_bit d k"
  shows "clear_bit_of k d = d"
proof -
  have "d ! (k div 8) AND NOT (2 ^ (k mod 8)) = d ! (k div 8)"
    using assms(3) by (intro bit_word_eqI) (auto simp: bitmap_bit_def bit_simps)
  then show ?thesis by (simp add: clear_bit_of_def)
qed

lemma clear_set_bit:
  assumes "length d = BLOCK_SIZE" and "k < N_BITS" and "\<not> bitmap_bit d k"
  shows "clear_bit_of k (set_bit_of k d) = d"
proof -
  have "k div 8 < length d" using assms(1,2) by auto
  moreover have "(d ! (k div 8) OR 2 ^ (k mod 8)) AND NOT (2 ^ (k mod 8)) = d ! (k div 8)"
    using assms(3) by (intro bit_word_eqI) (auto simp: bitmap_bit_def bit_simps)
  ultimately show ?thesis by (simp add: clear_bit_of_def set_bit_of_def)
qed

lemma bitmap_unset_cache:
  assumes c: "cache s H" "n \<notin> H" "n \<noteq> BLOCK_NUM_UNUSED" "card H < N_BLOCK_BUF" and k: "unat num < N_BITS"
  obtains t where "bitmap_unset n num s = Inr t" "cache t H"
    "disk t = (disk s)(n := clear_bit_of (unat num) (disk s n))" "buf_state.more t = buf_state.more s"
    "\<forall>j m d. m \<in> H \<longrightarrow> holds s j m d \<longrightarrow> holds t j m d"
proof -
  have len: "length (disk s n) = BLOCK_SIZE" using cacheD(3) [OF c(1)] .
  have idx: "unat (num div 8) = unat num div 8" "unat (num mod 8) = unat num mod 8"
    by (simp_all add: unat_div unat_mod)
  have lt: "unat num div 8 < BLOCK_SIZE" "unat num mod 8 < 8" using k by auto
  note z = bit_cmp_zero [OF lt(2), unfolded and.commute [of "2 ^ _"]]
  show thesis
  proof (cases "bitmap_bit (disk s n) (unat num)")
    case False
    obtain i t u where r: "buf_read n s = Inr (i, t)" "buf_data i t = disk s n" "buf_release i t = Inr u" "cache u H"
      "disk u = disk s" "buf_state.more u = buf_state.more s"
      "\<forall>j m d. m \<in> H \<longrightarrow> holds s j m d \<longrightarrow> holds u j m d"
      by (rule bcache.peek_ok [OF c])
    have "bitmap_unset n num s = Inr u"
      using r False lt len
      by (simp add: bitmap_unset_def idx Let_def bitmap_bit_def z)
    with r clear_bit_of_same [OF len k False] show thesis by (intro that) auto
  next
    case True
    let ?e = "clear_bit_of (unat num) (disk s n)"
    have "length ?e = BLOCK_SIZE" using len by simp
    from bcache.update_ok [OF c this] obtain i t u v where r: "buf_read n s = Inr (i, t)"
      "buf_data i t = disk s n" "buf_write i (set_data i ?e t) = Inr u" "buf_release i u = Inr v" "cache v H"
      "disk v = (disk s)(n := ?e)" "buf_state.more v = buf_state.more s"
      "\<forall>j m d. m \<in> H \<longrightarrow> holds s j m d \<longrightarrow> holds v j m d" by metis
    have "bitmap_unset n num s = Inr v"
      using r True lt len
      by (simp add: bitmap_unset_def idx Let_def bitmap_bit_def z clear_bit_of_def)
    with r show thesis by (intro that) auto
  qed
qed

text \<open>Bits beyond the block are outside the array.\<close>

lemma bitmap_unset_range:
  assumes c: "cache s H" "n \<notin> H" "n \<noteq> BLOCK_NUM_UNUSED" "card H < N_BLOCK_BUF" and k: "N_BITS \<le> unat num"
  shows "bitmap_unset n num s = Inl Undefined"
proof -
  obtain i t where "buf_read n s = Inr (i, t)" "holds t i n (disk s n)"
    using bcache.rd_ok [OF c] by blast
  then have "buf_read n s = Inr (i, t)" "buf_data i t = disk s n" by (simp_all add: holds_def)
  moreover have "\<not> unat (num div 8) < BLOCK_SIZE" using div_le_mono [OF k, of 8] by (simp add: unat_div)
  moreover have "length (disk s n) = BLOCK_SIZE" by (rule cacheD(3) [OF c(1)])
  ultimately show ?thesis by (simp add: bitmap_unset_def Let_def)
qed

section \<open>Data blocks and inodes\<close>

text \<open>The disk layout: super block, inode bitmap, inode blocks, data bitmap, data blocks, in this
  order, with block numbers that do not wrap around.\<close>

definition sb_ok :: "super_block \<Rightarrow> bool" where
  "sb_ok b \<longleftrightarrow> 0 < inode_bitmap_start b \<and> inode_bitmap_start b < inode_start b \<and>
     unat (inode_start b) + unat (inode_blocks b) \<le> unat (data_bitmap_start b) \<and>
     data_bitmap_start b < data_start b \<and> unat (data_start b) + N_BITS < 2 ^ 32"

definition fs_ok :: "'a fs_state_scheme \<Rightarrow> u32 set \<Rightarrow> bool" where
  "fs_ok s H \<longleftrightarrow> cache s H \<and> sb_ok (sb s) \<and> card H < N_BLOCK_BUF"

definition data_block_nums :: "'a fs_state_scheme \<Rightarrow> u32 set" where
  "data_block_nums s = (\<lambda>k. of_nat k + data_start (sb s)) ` {..<N_BITS}"

definition free_blocks :: "'a fs_state_scheme \<Rightarrow> u32 set" where
  "free_blocks s = (\<lambda>k. of_nat k + data_start (sb s)) `
     ({..<N_BITS} - used_bits (disk s (data_bitmap_start (sb s))))"

definition free_inodes :: "'a fs_state_scheme \<Rightarrow> u16 set" where
  "free_inodes s = of_nat ` ({..<N_BITS} - used_bits (disk s (inode_bitmap_start (sb s))))"

lemma unat_less_u32: "k < 2 ^ 32 \<Longrightarrow> unat (of_nat k :: u32) = k"
  by (simp add: unat_of_nat take_bit_nat_eq_self)

lemma unat_data_block:
  assumes "sb_ok b" and "k < N_BITS"
  shows "unat (of_nat k + data_start b) = k + unat (data_start b)"
proof -
  have k: "unat (of_nat k :: u32) = k" using assms(2) by (simp add: unat_less_u32)
  have "unat (of_nat k :: u32) + unat (data_start b) < 2 ^ LENGTH(32)"
    using assms unfolding k by (simp add: sb_ok_def)
  from iffD1 [OF unat_add_lem this] show ?thesis by (simp only: k)
qed

lemma data_block_inj:
  assumes "sb_ok b"
  shows "inj_on (\<lambda>k. of_nat k + data_start b) {..<N_BITS}"
proof (rule inj_onI)
  fix x y
  assume "x \<in> {..<N_BITS}" "y \<in> {..<N_BITS}" "of_nat x + data_start b = of_nat y + data_start b"
  then show "x = y" using unat_data_block [OF assms] by (metis add_right_cancel lessThan_iff)
qed

lemma sb_ok_unused:
  assumes "sb_ok b"
  shows "inode_bitmap_start b \<noteq> BLOCK_NUM_UNUSED" "data_bitmap_start b \<noteq> BLOCK_NUM_UNUSED"
    "inode_bitmap_start b \<noteq> data_bitmap_start b" "inode_bitmap_start b \<noteq> 0" "data_bitmap_start b \<noteq> 0"
proof -
  have o: "unat (inode_bitmap_start b) < unat (inode_start b)" "unat (inode_start b) \<le> unat (data_bitmap_start b)"
    "unat (data_bitmap_start b) < unat (data_start b)" "unat (data_start b) + N_BITS < 2 ^ 32" "0 < unat (inode_bitmap_start b)"
    using assms by (simp_all add: sb_ok_def word_less_nat_alt)
  have "unat BLOCK_NUM_UNUSED = 2 ^ 32 - 1" by simp
  with o have "unat (inode_bitmap_start b) \<noteq> unat BLOCK_NUM_UNUSED" "unat (data_bitmap_start b) \<noteq> unat BLOCK_NUM_UNUSED"
    by linarith+
  then show "inode_bitmap_start b \<noteq> BLOCK_NUM_UNUSED" "data_bitmap_start b \<noteq> BLOCK_NUM_UNUSED" by metis+
  show "inode_bitmap_start b \<noteq> data_bitmap_start b" "inode_bitmap_start b \<noteq> 0" "data_bitmap_start b \<noteq> 0"
    using o by (metis leD, metis less_irrefl unat_0, metis less_zeroE le_zero_eq unat_0)
qed

lemma of_nat_not_unused:
  assumes "k < N_BITS"
  shows "(of_nat k :: u32) \<noteq> 0xFFFFFFFF"
proof
  assume "(of_nat k :: u32) = 0xFFFFFFFF"
  then have "unat (of_nat k :: u32) = unat (0xFFFFFFFF :: u32)" by (rule arg_cong)
  with assms show False by (simp add: unat_less_u32)
qed

lemma bitmap_alloc_block_cases:
  assumes "fs_ok s H" and "data_bitmap_start (sb s) \<notin> H"
  obtains (full) t where "free_blocks s = {}" "bitmap_alloc_block s = Inr (0, t)" "fs_ok t H" "disk t = disk s"
      "buf_state.more t = buf_state.more s" "\<forall>j m d. m \<in> H \<longrightarrow> holds s j m d \<longrightarrow> holds t j m d"
  | (found) k t where "k < N_BITS" "k \<notin> used_bits (disk s (data_bitmap_start (sb s)))"
      "bitmap_alloc_block s = Inr (of_nat k + data_start (sb s), t)" "fs_ok t H"
      "disk t = (disk s)(data_bitmap_start (sb s) := set_bit_of k (disk s (data_bitmap_start (sb s))))"
      "buf_state.more t = buf_state.more s" "\<forall>j m d. m \<in> H \<longrightarrow> holds s j m d \<longrightarrow> holds t j m d"
proof -
  have c: "cache s H" "sb_ok (sb s)" "card H < N_BLOCK_BUF" using assms(1) by (auto simp: fs_ok_def)
  from c(1) assms(2) sb_ok_unused(2) [OF c(2)] c(3) show thesis
  proof (cases rule: bitmap_search_and_set_cache)
    case (full t)
    with c more_sb [of t s] show thesis
      by (intro that(1) [of t]) (auto simp: free_blocks_def bitmap_alloc_block_def fs_ok_def)
  next
    case (found k t)
    with c more_sb [of t s] of_nat_not_unused [of k] show thesis
      by (intro that(2) [of k t]) (auto simp: bitmap_alloc_block_def fs_ok_def)
  qed
qed

lemma bitmap_free_block_data:
  assumes "fs_ok s H" and "data_bitmap_start (sb s) \<notin> H" and "k < N_BITS"
  obtains t where "bitmap_free_block (of_nat k + data_start (sb s)) s = Inr t" "fs_ok t H"
    "disk t = (disk s)(data_bitmap_start (sb s) := clear_bit_of k (disk s (data_bitmap_start (sb s))))"
    "buf_state.more t = buf_state.more s" "\<forall>j m d. m \<in> H \<longrightarrow> holds s j m d \<longrightarrow> holds t j m d"
proof -
  have c: "cache s H" "sb_ok (sb s)" "card H < N_BLOCK_BUF" using assms(1) by (auto simp: fs_ok_def)
  have k: "unat (of_nat k :: u32) = k" using assms(3) by (simp add: unat_less_u32)
  have "\<not> of_nat k + data_start (sb s) < data_start (sb s)"
    using unat_data_block [OF c(2) assms(3)] by (simp add: word_less_nat_alt)
  moreover obtain t where "bitmap_unset (data_bitmap_start (sb s)) (of_nat k) s = Inr t" "cache t H"
      "disk t = (disk s)(data_bitmap_start (sb s) := clear_bit_of k (disk s (data_bitmap_start (sb s))))"
      "buf_state.more t = buf_state.more s" "\<forall>j m d. m \<in> H \<longrightarrow> holds s j m d \<longrightarrow> holds t j m d"
    using bitmap_unset_cache [OF c(1) assms(2) sb_ok_unused(2) [OF c(2)] c(3), of "of_nat k"] assms(3) k
    by metis
  ultimately show thesis
    using c more_sb [of t s] by (intro that [of t]) (auto simp: bitmap_free_block_def fs_ok_def)
qed

text \<open>The blocks as a pool.\<close>

definition block_inv :: "u32 set \<Rightarrow> 'a fs_state_scheme \<Rightarrow> bool" where
  "block_inv H s \<longleftrightarrow> fs_ok s H \<and> data_bitmap_start (sb s) \<notin> H"

definition block_take :: "'a fs_state_scheme \<Rightarrow> (u32 \<times> 'a fs_state_scheme) option" where
  "block_take s = (case bitmap_alloc_block s of Inr (b, t) \<Rightarrow> if b = 0 then None else Some (b, t) | Inl _ \<Rightarrow> None)"

definition block_give :: "u32 \<Rightarrow> 'a fs_state_scheme \<Rightarrow> 'a fs_state_scheme option" where
  "block_give b s = (case bitmap_free_block b s of Inr t \<Rightarrow> Some t | Inl _ \<Rightarrow> None)"

lemma free_blocks_upd:
  assumes "fs_ok s H" "k < N_BITS" "sb t = sb s"
  shows "disk t = (disk s)(data_bitmap_start (sb s) := set_bit_of k (disk s (data_bitmap_start (sb s)))) \<Longrightarrow>
      free_blocks t = free_blocks s - {of_nat k + data_start (sb s)}"
    and "disk t = (disk s)(data_bitmap_start (sb s) := clear_bit_of k (disk s (data_bitmap_start (sb s)))) \<Longrightarrow>
      free_blocks t = insert (of_nat k + data_start (sb s)) (free_blocks s)"
proof -
  let ?d = "disk s (data_bitmap_start (sb s))"
  have len: "length ?d = BLOCK_SIZE" and sb: "sb_ok (sb s)" using assms(1) cacheD(3) by (auto simp: fs_ok_def)
  note inj = inj_on_image_set_diff [OF data_block_inj [OF sb]]
  note u = used_bits_upd [OF len assms(2)]
  have "(\<lambda>k. of_nat k + data_start (sb s)) ` ({..<N_BITS} - used_bits ?d - {k}) =
      (\<lambda>k. of_nat k + data_start (sb s)) ` ({..<N_BITS} - used_bits ?d) - (\<lambda>k. of_nat k + data_start (sb s)) ` {k}"
    using assms(2) by (intro inj) auto
  moreover have "{..<N_BITS} - insert k (used_bits ?d) = {..<N_BITS} - used_bits ?d - {k}" by blast
  ultimately show "free_blocks t = free_blocks s - {of_nat k + data_start (sb s)}"
    if "disk t = (disk s)(data_bitmap_start (sb s) := set_bit_of k ?d)"
    using that assms(3) u(1) by (simp add: free_blocks_def)
  show "free_blocks t = insert (of_nat k + data_start (sb s)) (free_blocks s)"
    if "disk t = (disk s)(data_bitmap_start (sb s) := clear_bit_of k ?d)"
    using that assms(2,3) u by (auto simp: free_blocks_def)
qed

lemma data_block_nonzero: "sb_ok b \<Longrightarrow> k < N_BITS \<Longrightarrow> of_nat k + data_start b \<noteq> 0"
  using unat_data_block [of b k] by (auto simp: sb_ok_def word_less_nat_alt)

interpretation block_pool: alloc_pool "block_inv H" data_block_nums free_blocks block_take block_give for H
proof unfold_locales
  fix s t :: "'a fs_state_scheme" and x
  show "block_inv H s \<Longrightarrow> free_blocks s \<subseteq> data_block_nums s"
    by (auto simp: free_blocks_def data_block_nums_def)
  show "block_inv H s \<Longrightarrow> finite (data_block_nums s)" by (simp add: data_block_nums_def)
  show "x \<in> free_blocks s \<and> free_blocks t = free_blocks s - {x} \<and> data_block_nums t = data_block_nums s \<and> block_inv H t"
    if as: "block_inv H s" "block_take s = Some (x, t)"
  proof -
    have f: "fs_ok s H" "data_bitmap_start (sb s) \<notin> H" using as(1) by (auto simp: block_inv_def)
    then show ?thesis
    proof (cases rule: bitmap_alloc_block_cases)
      case full
      with as(2) show ?thesis by (simp add: block_take_def)
    next
      case (found k t')
      then have e: "x = of_nat k + data_start (sb s)" "t' = t"
        using as(2) by (auto simp: block_take_def split: if_splits)
      with found f more_sb [of t s] free_blocks_upd(1) [OF f(1) found(1), of t] show ?thesis
        by (auto simp: block_inv_def data_block_nums_def) (auto simp: free_blocks_def)
    qed
  qed
  show "free_blocks s = {}" if as: "block_inv H s" "block_take s = None"
  proof -
    have f: "fs_ok s H" "data_bitmap_start (sb s) \<notin> H" using as(1) by (auto simp: block_inv_def)
    then show ?thesis
    proof (cases rule: bitmap_alloc_block_cases)
      case full
      then show ?thesis by simp
    next
      case (found k t')
      with as(2) f data_block_nonzero [of "sb s" k] show ?thesis by (simp add: block_take_def fs_ok_def)
    qed
  qed
  show "\<exists>t. block_give x s = Some t \<and> free_blocks t = insert x (free_blocks s) \<and>
      data_block_nums t = data_block_nums s \<and> block_inv H t"
    if as: "block_inv H s" "x \<in> data_block_nums s" "x \<notin> free_blocks s"
  proof -
    have f: "fs_ok s H" "data_bitmap_start (sb s) \<notin> H" using as(1) by (auto simp: block_inv_def)
    obtain k where k: "k < N_BITS" "x = of_nat k + data_start (sb s)" using as(2) by (auto simp: data_block_nums_def)
    obtain t where "bitmap_free_block x s = Inr t" "fs_ok t H" "buf_state.more t = buf_state.more s"
      "disk t = (disk s)(data_bitmap_start (sb s) := clear_bit_of k (disk s (data_bitmap_start (sb s))))"
      using bitmap_free_block_data [OF f k(1)] k(2) by metis
    with f k more_sb [of t s] free_blocks_upd(2) [OF f(1) k(1), of t] show ?thesis
      by (auto simp: block_inv_def block_give_def data_block_nums_def)
  qed
qed

text \<open>The inode bitmap.\<close>

lemma bitmap_alloc_inode_cases:
  assumes "fs_ok s H" and "inode_bitmap_start (sb s) \<notin> H"
  obtains (full) t where "used_bits (disk s (inode_bitmap_start (sb s))) = {..<N_BITS}"
      "bitmap_alloc_inode s = Inr (0xFFFF, t)" "fs_ok t H" "disk t = disk s"
      "buf_state.more t = buf_state.more s" "\<forall>j m d. m \<in> H \<longrightarrow> holds s j m d \<longrightarrow> holds t j m d"
  | (found) k t where "k < N_BITS" "k \<notin> used_bits (disk s (inode_bitmap_start (sb s)))"
      "\<forall>j < k. j \<in> used_bits (disk s (inode_bitmap_start (sb s)))"
      "bitmap_alloc_inode s = Inr (of_nat k, t)" "fs_ok t H"
      "disk t = (disk s)(inode_bitmap_start (sb s) := set_bit_of k (disk s (inode_bitmap_start (sb s))))"
      "buf_state.more t = buf_state.more s" "\<forall>j m d. m \<in> H \<longrightarrow> holds s j m d \<longrightarrow> holds t j m d"
proof -
  have c: "cache s H" "sb_ok (sb s)" "card H < N_BLOCK_BUF" using assms(1) by (auto simp: fs_ok_def)
  from c(1) assms(2) sb_ok_unused(1) [OF c(2)] c(3) show thesis
  proof (cases rule: bitmap_search_and_set_cache)
    case (full t)
    with c more_sb [of t s] show thesis
      by (intro that(1) [of t]) (auto simp: bitmap_alloc_inode_def fs_ok_def)
  next
    case (found k t)
    have "ucast (of_nat k :: u32) = (of_nat k :: u16)"
      using found(1) by (simp add: unsigned_of_nat take_bit_nat_eq_self)
    with found c more_sb [of t s] of_nat_not_unused [of k] show thesis
      by (intro that(2) [of k t]) (auto simp: bitmap_alloc_inode_def fs_ok_def)
  qed
qed

section \<open>A formatted disk\<close>

text \<open>The super block that \<^verbatim>\<open>mkfs\<close> writes, and the file system after \<^verbatim>\<open>buf_init\<close> and the reading of the
  super block, on a disk \<open>d\<close>.\<close>

definition mkfs_sb :: super_block where
  "mkfs_sb = \<lparr>magic = 0x12345678, block_size = 1024, inode_bitmap_start = 1, inode_start = 2,
     data_bitmap_start = 128 + 2, data_start = 128 + 3, inode_blocks = 128, data_blocks = 8192,
     total_blocks = 8192 + 128 + 3\<rparr>"

definition fs_bss :: "(u32 \<Rightarrow> byte list) \<Rightarrow> super_block \<Rightarrow> fs_state" where
  "fs_bss d b = \<lparr>disk = d, bufs = bufs (buf_bss d), nxt = (\<lambda>_. None), prv = (\<lambda>_. None), sb = b\<rparr>"

lemma mkfs_sb_ok: "sb_ok mkfs_sb"
  by (simp add: sb_ok_def mkfs_sb_def)

lemma fs_ready:
  assumes "\<And>n. length (d n) = BLOCK_SIZE"
  shows "\<exists>s :: fs_state. fs_ok s {} \<and> disk s = d \<and> sb s = mkfs_sb"
proof -
  obtain t where "cache t {}" "disk t = d" "buf_state.more t = buf_state.more (fs_bss d mkfs_sb)"
    using buf_init_cache [of "fs_bss d mkfs_sb"] assms by (auto simp: fs_bss_def buf_bss_def)
  moreover from this have "sb t = mkfs_sb" using more_sb [of t "fs_bss d mkfs_sb"] by (simp add: fs_bss_def)
  ultimately show ?thesis using mkfs_sb_ok by (intro exI [of _ t]) (simp add: fs_ok_def)
qed

section \<open>Properties\<close>

text \<open>The search returns the number of the first clear bit of the bitmap block, sets exactly that bit on the disk
  and touches no other block; it returns \<open>0xFFFFFFFF\<close> and changes nothing on the disk exactly when all
  8192 bits are in use.\<close>

theorem bitmap_search_and_set_first:
  assumes "cache s H" and "n \<notin> H" and "n \<noteq> BLOCK_NUM_UNUSED" and "card H < N_BLOCK_BUF"
  shows "\<exists>r t. bitmap_search_and_set n s = Inr (r, t) \<and> cache t H \<and>
    (if used_bits (disk s n) = {..<N_BITS} then r = 0xFFFFFFFF \<and> disk t = disk s
     else unat r < N_BITS \<and> unat r \<notin> used_bits (disk s n) \<and> {..<unat r} \<subseteq> used_bits (disk s n) \<and>
       used_bits (disk t n) = insert (unat r) (used_bits (disk s n)) \<and> (\<forall>m. m \<noteq> n \<longrightarrow> disk t m = disk s m))"
  using assms
proof (cases rule: bitmap_search_and_set_cache)
  case (full t)
  then show ?thesis by simp
next
  case (found k t)
  have "unat (of_nat k :: u32) = k" using found(1) by (simp add: unat_less_u32)
  with found used_bits_upd(1) [OF cacheD(3) [OF assms(1)] found(1), of n] show ?thesis
    by (intro exI [of _ "of_nat k"] exI [of _ t]) auto
qed

theorem bitmap_search_and_set_first_witness:
  "\<exists>s :: buf_state. cache s {} \<and> disk s 1 = (7 # replicate 1023 0) \<and>
     (\<exists>r t. bitmap_search_and_set 1 s = Inr (r, t) \<and> r \<noteq> 0xFFFFFFFF \<and>
       used_bits (disk t 1) = insert (unat r) (used_bits (disk s 1)))"
proof -
  obtain s :: buf_state where s: "cache s {}" "disk s = (\<lambda>n. 7 # replicate 1023 0)"
    using buf_bss_ready [of "\<lambda>n. 7 # replicate 1023 0"] by auto
  have "3 \<notin> used_bits (disk s 1)" by (simp add: s(2) used_bits_def bitmap_bit_def)
  moreover have "(3 :: nat) \<in> {..<N_BITS}" by simp
  ultimately have f: "used_bits (disk s 1) \<noteq> {..<N_BITS}" by metis
  obtain r t where r: "bitmap_search_and_set 1 s = Inr (r, t)" "unat r < N_BITS"
      "used_bits (disk t 1) = insert (unat r) (used_bits (disk s 1))"
    using bitmap_search_and_set_first [OF s(1), of 1] f by auto
  have "\<not> unat (0xFFFFFFFF :: u32) < N_BITS" by simp
  with r(2) have "r \<noteq> 0xFFFFFFFF" by metis
  with r s show ?thesis by (intro exI [of _ s]) simp
qed

text \<open>C35. Allocating a data block on a consistent file system: the block returned lies in the data area, was
  free and is in use afterwards, and the other blocks keep their status; 0 is returned
  exactly when no block is free.  Freeing the block again restores the disk bit for bit.\<close>

theorem bitmap_alloc_block_correct:
  assumes "fs_ok s H" and "data_bitmap_start (sb s) \<notin> H" and "bitmap_alloc_block s = Inr (b, t)"
  shows "fs_ok t H \<and> sb t = sb s \<and>
    (if free_blocks s = {} then b = 0 \<and> disk t = disk s
     else b \<in> free_blocks s \<and> free_blocks t = free_blocks s - {b} \<and> data_start (sb s) \<le> b \<and>
       (\<exists>u. bitmap_free_block b t = Inr u \<and> fs_ok u H \<and> disk u = disk s))"
  using assms(1,2)
proof (cases rule: bitmap_alloc_block_cases)
  case (full t')
  with assms(3) more_sb [of t s] show ?thesis by auto
next
  case (found k t')
  let ?m = "data_bitmap_start (sb s)"
  have e: "b = of_nat k + data_start (sb s)" "t' = t" "sb t = sb s" "sb_ok (sb s)"
    using found assms(1,3) more_sb [of t s] by (auto simp: fs_ok_def)
  have "b \<in> free_blocks s" using found e by (auto simp: free_blocks_def)
  moreover have "free_blocks t = free_blocks s - {b}"
    using free_blocks_upd(1) [OF assms(1) found(1), of t] found e by simp
  moreover have "data_start (sb s) \<le> b"
    using unat_data_block [OF e(4) found(1)] e(1) by (simp add: word_le_nat_alt)
  moreover obtain u where "bitmap_free_block b t = Inr u" "fs_ok u H"
      "disk u = (disk t)(?m := clear_bit_of k (disk t ?m))"
    using bitmap_free_block_data [of t H k] found e assms(2) by metis
  moreover have "clear_bit_of k (set_bit_of k (disk s ?m)) = disk s ?m"
    using found(1,2) assms(1) by (intro clear_set_bit) (auto simp: fs_ok_def cacheD(3) used_bits_def)
  ultimately show ?thesis using found e by auto
qed

theorem bitmap_alloc_block_correct_witness:
  "\<exists>(s :: fs_state) t. fs_ok s {} \<and> free_blocks s \<noteq> {} \<and>
     (\<exists>b. bitmap_alloc_block s = Inr (b, t) \<and> b \<in> free_blocks s \<and> b \<notin> free_blocks t)"
proof -
  obtain s :: fs_state where s: "fs_ok s {}" "disk s = (\<lambda>n. replicate BLOCK_SIZE 0)" "sb s = mkfs_sb"
    using fs_ready [of "\<lambda>n. replicate BLOCK_SIZE 0"] by auto
  have "used_bits (replicate BLOCK_SIZE 0) = {}" by (auto simp: used_bits_def bitmap_bit_def)
  then have f: "free_blocks s \<noteq> {}" using s by (simp add: free_blocks_def lessThan_empty_iff)
  obtain b t where a: "bitmap_alloc_block s = Inr (b, t)"
    using s(1) by (cases rule: bitmap_alloc_block_cases) auto
  show ?thesis using bitmap_alloc_block_correct [OF s(1) _ a] s(1) f a by auto
qed

text \<open>No block is handed out twice: as many allocations as there are free blocks succeed, and the blocks
  they return are distinct free blocks of the data area.\<close>

theorem bitmap_alloc_blocks_distinct:
  assumes "fs_ok s H" and "data_bitmap_start (sb s) \<notin> H" and "n \<le> card (free_blocks s)"
  shows "\<exists>bs t. block_pool.alloc_many n s = Some (bs, t) \<and> length bs = n \<and> distinct bs \<and>
    set bs \<subseteq> free_blocks s \<and> free_blocks t = free_blocks s - set bs \<and> fs_ok t H"
proof -
  have i: "block_inv H s" using assms by (simp add: block_inv_def)
  obtain bs t where b: "block_pool.alloc_many n s = Some (bs, t)"
    using block_pool.alloc_many_all [OF i assms(3)] by blast
  from block_pool.alloc_many_Some [OF i b] b show ?thesis by (auto simp: block_inv_def)
qed

theorem bitmap_alloc_blocks_distinct_witness:
  "\<exists>(s :: fs_state) bs t. fs_ok s {} \<and> block_pool.alloc_many N_BITS s = Some (bs, t) \<and> distinct bs \<and>
     length bs = N_BITS \<and> free_blocks t = free_blocks s - set bs"
proof -
  obtain s :: fs_state where s: "fs_ok s {}" "disk s = (\<lambda>n. replicate BLOCK_SIZE 0)" "sb s = mkfs_sb"
    using fs_ready [of "\<lambda>n. replicate BLOCK_SIZE 0"] by auto
  have "used_bits (replicate BLOCK_SIZE 0) = {}" by (auto simp: used_bits_def bitmap_bit_def)
  then have "card (free_blocks s) = N_BITS"
    using s card_image [OF data_block_inj [OF mkfs_sb_ok]] by (simp add: free_blocks_def)
  with s show ?thesis using bitmap_alloc_blocks_distinct [OF s(1), of N_BITS] by auto
qed

end
