(* ===== verification/Vmem.thy ===== *)
theory Vmem
  imports Strings Pmem
begin

text \<open>
  \<^verbatim>\<open>kernel/mem/kvm.c\<close>: three-level SV39 page tables in physical memory.  A page table is the address
  of its page, a \<^verbatim>\<open>pte_t*\<close> the address of the entry; 0 is NULL.  The kernel runs on identity
  mapped memory, so a physical address is used as a pointer.  \<^verbatim>\<open>etext\<close>, \<^verbatim>\<open>trampoline\<close> and
  \<^verbatim>\<open>ALLOC_BEGIN\<close>, which the linker sets, are arguments.
\<close>

section \<open>Definitions\<close>

abbreviation PTE_V :: u64 where "PTE_V \<equiv> 1"
abbreviation PTE_R :: u64 where "PTE_R \<equiv> 2"
abbreviation PTE_W :: u64 where "PTE_W \<equiv> 4"
abbreviation PTE_X :: u64 where "PTE_X \<equiv> 8"
abbreviation PTE_U :: u64 where "PTE_U \<equiv> 16"

abbreviation VA_MAX :: u64 where "VA_MAX \<equiv> 0x4000000000"

definition VA_TO_VPN :: "u64 \<Rightarrow> nat \<Rightarrow> u64" where
  "VA_TO_VPN va level = drop_bit (12 + 9 * level) va AND 0x1FF"

definition PA_TO_PTE :: "u64 \<Rightarrow> u64" where
  "PA_TO_PTE pa = push_bit 10 (drop_bit 12 pa)"

definition PTE_TO_PA :: "u64 \<Rightarrow> u64" where
  "PTE_TO_PA pte = push_bit 12 (drop_bit 10 pte)"

definition PTE_FLAGS :: "u64 \<Rightarrow> u64" where
  "PTE_FLAGS pte = pte AND 0x3FF"

definition PTE_CHECK :: "u64 \<Rightarrow> bool" where
  "PTE_CHECK pte \<longleftrightarrow> pte AND (PTE_R OR PTE_W OR PTE_X) = 0"

definition MAKE_SATP :: "u64 \<Rightarrow> u64" where
  "MAKE_SATP pagetable = push_bit 60 8 OR drop_bit 12 pagetable"

abbreviation TRAMPOLINE :: u64 where "TRAMPOLINE \<equiv> 0x4000000000 - PGSIZE"
abbreviation TRAPFRAME :: u64 where "TRAPFRAME \<equiv> TRAMPOLINE - PGSIZE"
abbreviation PHYSTOP :: u64 where "PHYSTOP \<equiv> 0x88000000"

definition KSTACK :: "u64 \<Rightarrow> u64" where
  "KSTACK p = TRAPFRAME - (p + 1) * 2 * PGSIZE"

definition alloc_pgtbl :: "pmem \<Rightarrow> (u64 \<times> pmem) res" where
  "alloc_pgtbl s =
     (let (p, s) = pmem_alloc True s
      in if p = 0 then Inr (0, s)
         else bindr (memset (mem s) p 0 4096) (\<lambda>m. Inr (p, s\<lparr>mem := m\<rparr>)))"

text \<open>The loop of \<^verbatim>\<open>vm_getpte\<close> from level \<open>l\<close> down.\<close>

primrec walk :: "nat \<Rightarrow> u64 \<Rightarrow> u64 \<Rightarrow> bool \<Rightarrow> pmem \<Rightarrow> (u64 \<times> pmem) res" where
  "walk 0 pgtbl va alloc s = Inr (pgtbl + 8 * VA_TO_VPN va 0, s)"
| "walk (Suc l) pgtbl va alloc s =
     (let pte = pgtbl + 8 * VA_TO_VPN va (Suc l)
      in if load64 (mem s) pte AND PTE_V \<noteq> 0 then walk l (PTE_TO_PA (load64 (mem s) pte)) va alloc s
         else if \<not> alloc then Inr (0, s)
         else bindr (alloc_pgtbl s) (\<lambda>(new, s).
           if new = 0 then Inr (0, s)
           else walk l new va alloc (s\<lparr>mem := store64 (mem s) pte (PA_TO_PTE new OR PTE_V)\<rparr>)))"

definition vm_getpte :: "u64 \<Rightarrow> u64 \<Rightarrow> bool \<Rightarrow> pmem \<Rightarrow> (u64 \<times> pmem) res" where
  "vm_getpte pgtbl va alloc s =
     (if VA_MAX \<le> va then Inl (Panic ''vm_getpte: va >= VA_MAX'') else walk 2 pgtbl va alloc s)"

lemma vm_getpte_bound: "vm_getpte pgtbl va alloc s = Inr x \<Longrightarrow> unat va < 0x4000000000"
  by (auto simp: vm_getpte_def word_le_nat_alt split: if_splits)

lemma unat_add_page:
  assumes "unat a < 0x4000000000"
  shows "unat (a + PGSIZE) = unat a + 4096"
proof -
  have "unat a + unat PGSIZE < 2 ^ LENGTH(64)" using assms by simp
  from iffD1 [OF unat_add_lem this] show ?thesis by simp
qed

text \<open>The loops over the pages of a range.  Both end: \<^verbatim>\<open>vm_getpte\<close> panics beyond \<^verbatim>\<open>VA_MAX\<close>.\<close>

function mappages_loop :: "u64 \<Rightarrow> u64 \<Rightarrow> u64 \<Rightarrow> u64 \<Rightarrow> u64 \<Rightarrow> pmem \<Rightarrow> pmem res" where
  "mappages_loop pgtbl a pa last_page perm s =
     bindr (vm_getpte pgtbl a True s) (\<lambda>(pte, s).
     if pte = 0 then Inl (Panic ''vm_mappages: out of memory'')
     else let s = s\<lparr>mem := store64 (mem s) pte (PA_TO_PTE pa OR perm OR PTE_V)\<rparr>
       in if a = last_page then Inr s else mappages_loop pgtbl (a + PGSIZE) (pa + PGSIZE) last_page perm s)"
  by pat_completeness auto
termination
  by (relation "measure (\<lambda>(_, a, _). 0x4000000000 + 4096 - unat a)")
     (auto simp: unat_add_page dest: vm_getpte_bound)

definition vm_mappages :: "u64 \<Rightarrow> u64 \<Rightarrow> u64 \<Rightarrow> u64 \<Rightarrow> u64 \<Rightarrow> pmem \<Rightarrow> pmem res" where
  "vm_mappages pgtbl va pa len perm s =
     (if len = 0 then Inl (Panic ''vm_mappages: len == 0'')
      else mappages_loop pgtbl (PG_ROUND_DOWN va) pa (PG_ROUND_DOWN (va + len - 1)) perm s)"

function unmappages_loop :: "u64 \<Rightarrow> u64 \<Rightarrow> u64 \<Rightarrow> u64 \<Rightarrow> bool \<Rightarrow> pmem \<Rightarrow> pmem res" where
  "unmappages_loop ALLOC_BEGIN pgtbl a end_va freeit s =
     (if a < end_va
      then bindr (vm_getpte pgtbl a False s) (\<lambda>(pte, s).
        if pte = 0 then Inl (Panic ''vm_unmappages: walk'')
        else let v = load64 (mem s) pte
          in if v AND PTE_V = 0 then Inl (Panic ''vm_unmappages: not mapped'')
             else if PTE_FLAGS v = PTE_V then Inl (Panic ''vm_unmappages: not a leaf'')
             else bindr (if freeit
                         then let pa = PTE_TO_PA v; kern_end = ALLOC_BEGIN + KERNEL_PAGES * PGSIZE
                           in pmem_free pa (ALLOC_BEGIN \<le> pa \<and> pa < kern_end) s
                         else Inr s) (\<lambda>s.
               unmappages_loop ALLOC_BEGIN pgtbl (a + PGSIZE) end_va freeit (s\<lparr>mem := store64 (mem s) pte 0\<rparr>)))
      else Inr s)"
  by pat_completeness auto
termination
  by (relation "measure (\<lambda>(_, _, a, _). 0x4000000000 + 4096 - unat a)")
     (auto simp: unat_add_page dest: vm_getpte_bound)

definition vm_unmappages :: "u64 \<Rightarrow> u64 \<Rightarrow> u64 \<Rightarrow> u64 \<Rightarrow> bool \<Rightarrow> pmem \<Rightarrow> pmem res" where
  "vm_unmappages ALLOC_BEGIN pgtbl va len freeit s =
     (if va mod PGSIZE \<noteq> 0 then Inl (Panic ''vm_unmappages: not aligned'')
      else unmappages_loop ALLOC_BEGIN pgtbl va (va + len) freeit s)"

declare mappages_loop.simps [simp del] unmappages_loop.simps [simp del]

text \<open>\<^verbatim>\<open>kvm_init\<close> returns the value of \<^verbatim>\<open>kernel_pgtbl\<close>, which \<^verbatim>\<open>kvm_get_kernel_pgtbl\<close> hands out; \<open>kvm_satp\<close>
  is what \<^verbatim>\<open>kvm_inithart\<close> writes to \<^verbatim>\<open>satp\<close>.\<close>

definition kvm_init :: "u64 \<Rightarrow> u64 \<Rightarrow> pmem \<Rightarrow> (u64 \<times> pmem) res" where
  "kvm_init etext trampoline s =
     bindr (alloc_pgtbl s) (\<lambda>(kernel_pgtbl, s).
     if kernel_pgtbl = 0 then Inl (Panic ''kvm_init: alloc failed'')
     else
       bindr (vm_mappages kernel_pgtbl 0x10000000 0x10000000 PGSIZE (PTE_R OR PTE_W) s) (\<lambda>s.
       bindr (vm_mappages kernel_pgtbl 0x10001000 0x10001000 PGSIZE (PTE_R OR PTE_W) s) (\<lambda>s.
       bindr (vm_mappages kernel_pgtbl 0x0C000000 0x0C000000 0x400000 (PTE_R OR PTE_W) s) (\<lambda>s.
       bindr (vm_mappages kernel_pgtbl 0x80000000 0x80000000 (etext - 0x80000000) (PTE_R OR PTE_X) s) (\<lambda>s.
       bindr (vm_mappages kernel_pgtbl etext etext (PHYSTOP - etext) (PTE_R OR PTE_W) s) (\<lambda>s.
       bindr (vm_mappages kernel_pgtbl TRAMPOLINE trampoline PGSIZE (PTE_R OR PTE_X) s) (\<lambda>s.
       let (pa, s) = pmem_alloc True s
       in if pa = 0 then Inl (Panic ''kvm_init: kstack alloc failed'')
          else bindr (vm_mappages kernel_pgtbl (KSTACK 0) pa PGSIZE (PTE_R OR PTE_W) s) (\<lambda>s.
            Inr (kernel_pgtbl, s)))))))))"

definition kvm_satp :: "u64 \<Rightarrow> u64" where
  "kvm_satp kernel_pgtbl = MAKE_SATP kernel_pgtbl"

text \<open>
  Abstraction.  \<open>table m root is\<close> is the table reached from \<open>root\<close> by following the valid entries
  with the indices \<open>is\<close>; \<open>pt_entry m root va\<close> is the leaf entry of \<open>va\<close>, 0 when a table is missing.
  The invariant \<open>pt_inv\<close>: the tables are page-aligned, no two of them coincide, none of them is a
  free page, and the page allocator is consistent.
\<close>

primrec table :: "mem \<Rightarrow> u64 \<Rightarrow> u64 list \<Rightarrow> u64 option" where
  "table m root [] = Some root"
| "table m root (i # is) =
     (if load64 m (root + 8 * i) AND PTE_V \<noteq> 0 then table m (PTE_TO_PA (load64 m (root + 8 * i))) is else None)"

definition pt_path :: "u64 list \<Rightarrow> bool" where
  "pt_path p \<longleftrightarrow> length p \<le> 2 \<and> (\<forall>i \<in> set p. i < 512)"

definition leaf_path :: "u64 \<Rightarrow> u64 list" where
  "leaf_path va = [VA_TO_VPN va 2, VA_TO_VPN va 1]"

definition pt_entry :: "mem \<Rightarrow> u64 \<Rightarrow> u64 \<Rightarrow> u64" where
  "pt_entry m root va =
     (case table m root (leaf_path va) of
        None \<Rightarrow> 0 | Some t \<Rightarrow> load64 m (t + 8 * VA_TO_VPN va 0))"

definition pt_tables :: "mem \<Rightarrow> u64 \<Rightarrow> u64 set" where
  "pt_tables m root = {t. \<exists>p. pt_path p \<and> table m root p = Some t}"

definition pt_tree :: "mem \<Rightarrow> u64 \<Rightarrow> bool" where
  "pt_tree m root \<longleftrightarrow>
     (\<forall>p t. pt_path p \<longrightarrow> table m root p = Some t \<longrightarrow> aligned 12 t \<and> t \<noteq> 0) \<and>
     (\<forall>p q t. pt_path p \<longrightarrow> pt_path q \<longrightarrow> table m root p = Some t \<longrightarrow> table m root q = Some t \<longrightarrow> p = q)"

definition pt_inv :: "pmem \<Rightarrow> u64 \<Rightarrow> bool" where
  "pt_inv s root \<longleftrightarrow> pmem_inv s \<and> pt_tree (mem s) root \<and>
     (\<forall>k. pt_tables (mem s) root \<inter> free_pages k s = {})"

text \<open>Two memories with the same bytes on a page.\<close>

definition same_page :: "u64 \<Rightarrow> mem \<Rightarrow> mem \<Rightarrow> bool" where
  "same_page t m m' \<longleftrightarrow> (\<forall>j < 4096. m' (t + of_nat j) = m (t + of_nat j))"

section \<open>Pages of memory\<close>

lemma same_page_refl [simp]: "same_page t m m" by (simp add: same_page_def)

lemma same_page_trans: "same_page t m m' \<Longrightarrow> same_page t m' m'' \<Longrightarrow> same_page t m m''"
  by (simp add: same_page_def)

text \<open>The byte offset of an entry.\<close>

lemma index_off:
  assumes "(i :: u64) < 512"
  obtains n where "8 * i = of_nat n" "n + 8 \<le> 4096" "unat i = n div 8"
  using assms by (intro that [of "8 * unat i"]) (auto simp: word_less_nat_alt)

lemma aligned_weaken: "aligned 12 (t :: u64) \<Longrightarrow> aligned 3 t"
proof -
  assume "aligned 12 t"
  then have "take_bit 3 (take_bit 12 t) = 0" by (simp add: aligned_def)
  then show ?thesis by (simp add: aligned_def)
qed

lemma aligned_index:
  assumes "aligned 12 t"
  shows "aligned 3 (t + 8 * i)"
proof -
  have "(2 :: u64) ^ 3 dvd t" using aligned_weaken [OF assms] by (simp add: aligned_def take_bit_eq_0_iff)
  moreover have "(2 :: u64) ^ 3 dvd 8 * i" by simp
  ultimately have "(2 :: u64) ^ 3 dvd t + 8 * i" by (rule dvd_add)
  then show ?thesis by (simp add: aligned_def take_bit_eq_0_iff)
qed

lemma index_inj:
  assumes "(i :: u64) < 512" and "j < 512" and "t + 8 * i = t + 8 * j"
  shows "i = j"
proof -
  obtain n where n: "8 * i = of_nat n" "n + 8 \<le> 4096" "unat i = n div 8" by (rule index_off [OF assms(1)])
  obtain k where k: "8 * j = of_nat k" "k + 8 \<le> 4096" "unat j = k div 8" by (rule index_off [OF assms(2)])
  have lt: "n < 2 ^ 64" "k < 2 ^ 64" using n(2) k(2) by simp_all
  have "(of_nat n :: u64) = of_nat k" using assms(3) unfolding n(1) k(1) by simp
  then have "unat (of_nat n :: u64) = unat (of_nat k :: u64)" by (rule arg_cong)
  then have "n = k" by (simp only: unat_of_nat64 [OF lt(1)] unat_of_nat64 [OF lt(2)])
  then have "unat i = unat j" using n(3) k(3) by simp
  then show ?thesis by (simp only: word_unat_eq_iff)
qed

lemma store_bytes_page:
  assumes "aligned 12 t" and "aligned 12 t'" and "t \<noteq> t'" and "off + length bs \<le> 4096"
  shows "same_page t' m (store_bytes m (t + of_nat off) bs)"
  unfolding same_page_def
proof (intro allI impI)
  fix j :: nat assume j: "j < 4096"
  have "\<not> unat (t' + of_nat j - (t + of_nat off)) < length bs"
  proof
    assume k: "unat (t' + of_nat j - (t + of_nat off)) < length bs"
    obtain k where kd: "k = unat (t' + of_nat j - (t + of_nat off))" by simp
    then have "of_nat k = t' + of_nat j - (t + of_nat off)" by simp
    then have "t' + of_nat j = t + of_nat (off + k)" by (simp add: algebra_simps)
    moreover have "off + k < 4096" using k kd assms(4) by simp
    ultimately show False using aligned_regions [of 12 t t' j "off + k"] assms(1-3) j by simp
  qed
  moreover have "length bs \<le> 2 ^ 64" using assms(4) by simp
  ultimately show "store_bytes m (t + of_nat off) bs (t' + of_nat j) = m (t' + of_nat j)"
    by (simp only: store_bytes_apply if_False)
qed

lemma store64_page:
  assumes "aligned 12 t" and "aligned 12 t'" and "t \<noteq> t'" and "i < 512"
  shows "same_page t' m (store64 m (t + 8 * i) v)"
proof -
  obtain n where n: "8 * i = of_nat n" "n + 8 \<le> 4096" by (rule index_off [OF assms(4)])
  then show ?thesis
    using store_bytes_page [OF assms(1-3), of n "le_bytes 8 v" m] by (simp add: store64_def)
qed

lemma same_page_load64:
  assumes "same_page t m m'" and "i < 512"
  shows "load64 m' (t + 8 * i) = load64 m (t + 8 * i)"
proof -
  obtain n where n: "8 * i = of_nat n" "n + 8 \<le> 4096" by (rule index_off [OF assms(2)])
  have "m' (t + 8 * i + of_nat j) = m (t + 8 * i + of_nat j)" if "j < 8" for j
    using assms(1) [unfolded same_page_def, rule_format, of "n + j"] that n(2)
    unfolding n(1) by (simp add: add.assoc)
  then show ?thesis by (auto simp: load64_def intro!: arg_cong [where f = le_word])
qed

lemma load64_zero_page:
  assumes "i < 512"
  shows "load64 (store_bytes m t (replicate 4096 0)) (t + 8 * i) = 0"
proof -
  obtain n where n: "8 * i = of_nat n" "n + 8 \<le> 4096" by (rule index_off [OF assms])
  have "store_bytes m t (replicate 4096 0) (t + 8 * i + of_nat j) = 0" if "j < 8" for j
  proof -
    have lt: "n + j < 4096" using n(2) that by simp
    then have "n + j < 2 ^ 64" by simp
    then have u: "unat (of_nat (n + j) :: u64) = n + j" by (rule unat_of_nat64)
    have "t + 8 * i + of_nat j - t = of_nat (n + j)" unfolding n(1) by simp
    then have "unat (t + 8 * i + of_nat j - t) = n + j" using u by (simp only:)
    moreover have "length (replicate 4096 (0 :: byte)) \<le> 2 ^ 64" by simp
    ultimately show ?thesis using lt by (simp only: store_bytes_apply length_replicate if_True nth_replicate)
  qed
  then have "map (\<lambda>j. store_bytes m t (replicate 4096 0) (t + 8 * i + of_nat j)) [0..<8] = map (\<lambda>j. 0) [0..<8]"
    by (intro map_cong) auto
  moreover have "le_word (map (\<lambda>j. 0) [0..<8]) = (0 :: u64)" by (simp add: upt_rec)
  ultimately show ?thesis by (simp only: load64_def)
qed

section \<open>Page tables as trees\<close>

lemma PTE_TO_PA_table: "aligned 12 p \<Longrightarrow> PTE_TO_PA (PA_TO_PTE p OR PTE_V) = p"
proof -
  assume "aligned 12 p"
  then have low: "\<not> bit p n" if "n < 12" for n
    using that by (metis aligned_def bit_0_eq bit_take_bit_iff bot_apply bot_bool_def)
  show ?thesis unfolding PTE_TO_PA_def PA_TO_PTE_def
  proof (rule bit_word_eqI)
    fix n assume "n < LENGTH(64)"
    then show "bit (push_bit 12 (drop_bit 10 (push_bit 10 (drop_bit 12 p) OR PTE_V))) n = bit p n"
      using low [of n] by (cases "n < 12") (auto simp: bit_simps)
  qed
qed

lemma pte_valid: "(x OR PTE_V) AND PTE_V \<noteq> 0"
proof
  assume "(x OR PTE_V) AND PTE_V = 0"
  then have "bit ((x OR PTE_V) AND PTE_V) 0 = bit (0 :: u64) 0" by (rule arg_cong)
  then show False by (simp add: bit_simps)
qed

lemma table_append: "table m root (p @ q) = (case table m root p of None \<Rightarrow> None | Some t \<Rightarrow> table m t q)"
  by (induction p arbitrary: root) (auto simp del: One_nat_def)

lemma table_same:
  assumes "\<And>q1 j q2 t. q = q1 @ j # q2 \<Longrightarrow> table m root q1 = Some t \<Longrightarrow> load64 m' (t + 8 * j) = load64 m (t + 8 * j)"
  shows "table m' root q = table m root q"
  using assms
proof (induction q arbitrary: root)
  case Nil
  then show ?case by simp
next
  case (Cons j q)
  have e: "load64 m' (root + 8 * j) = load64 m (root + 8 * j)" by (rule Cons.prems [of "[]" j q]) simp_all
  have "table m' r q = table m r q" if r: "r = PTE_TO_PA (load64 m (root + 8 * j))"
      "load64 m (root + 8 * j) AND PTE_V \<noteq> 0" for r
  proof (rule Cons.IH)
    fix q1 i q2 t
    assume "q = q1 @ i # q2" "table m r q1 = Some t"
    then show "load64 m' (t + 8 * i) = load64 m (t + 8 * i)"
      using r by (intro Cons.prems [of "j # q1" i q2]) auto
  qed
  then show ?case by (simp only: table.simps e refl if_True split: if_split) blast
qed

lemma pt_path_prefix: "pt_path (p @ q) \<Longrightarrow> pt_path p"
  by (simp add: pt_path_def)

lemma pt_treeD:
  assumes "pt_tree m root" and "pt_path p" and "table m root p = Some t"
  shows "aligned 12 t" "t \<noteq> 0" "\<And>q. pt_path q \<Longrightarrow> table m root q = Some t \<Longrightarrow> q = p"
  using assms unfolding pt_tree_def by blast+

text \<open>Storing a leaf entry leaves the tables alone.\<close>

lemma table_store_leaf:
  assumes tr: "pt_tree m root" and p: "pt_path p" "length p = 2" "table m root p = Some t" and i: "i < 512"
    and q: "pt_path q"
  shows "table (store64 m (t + 8 * i) v) root q = table m root q"
proof (rule table_same)
  fix q1 j q2 t1
  assume s: "q = q1 @ j # q2" "table m root q1 = Some t1"
  then have q1: "pt_path q1" "q1 \<noteq> p" "j < 512" using q p(2) by (auto simp: pt_path_def)
  then have "t \<noteq> t1" using pt_treeD(3) [OF tr p(1,3) q1(1)] s(2) by auto
  then have "same_page t1 m (store64 m (t + 8 * i) v)"
    using store64_page pt_treeD(1) [OF tr p(1,3)] pt_treeD(1) [OF tr q1(1) s(2)] i by blast
  then show "load64 (store64 m (t + 8 * i) v) (t1 + 8 * j) = load64 m (t1 + 8 * j)"
    using q1(3) by (rule same_page_load64)
qed

text \<open>Linking a zeroed page as a new table.\<close>

definition link_table :: "mem \<Rightarrow> u64 \<Rightarrow> u64 \<Rightarrow> u64 \<Rightarrow> mem" where
  "link_table m t i new = store64 (store_bytes m new (replicate 4096 0)) (t + 8 * i) (PA_TO_PTE new OR PTE_V)"

lemma link_table_page:
  assumes "aligned 12 new" and "aligned 12 t" and "i < 512" and "aligned 12 q" and "q \<noteq> new" and "q \<noteq> t"
  shows "same_page q m (link_table m t i new)"
proof -
  have "same_page q m (store_bytes m new (replicate 4096 0))"
    using store_bytes_page [of new q 0 "replicate 4096 0" m] assms by simp
  moreover have "same_page q (store_bytes m new (replicate 4096 0)) (link_table m t i new)"
    unfolding link_table_def using assms by (intro store64_page) auto
  ultimately show ?thesis by (rule same_page_trans)
qed

lemma link_table_entry:
  assumes n: "aligned 12 new" "aligned 12 t" "new \<noteq> t" and i: "i < 512" "j < 512"
  shows "load64 (link_table m t i new) (t + 8 * j) =
      (if j = i then PA_TO_PTE new OR PTE_V else load64 m (t + 8 * j))"
    and "load64 (link_table m t i new) (new + 8 * j) = 0"
proof -
  let ?m = "store_bytes m new (replicate 4096 0)"
  have "same_page t m ?m" using store_bytes_page [of new t 0 "replicate 4096 0" m] n by simp
  then have m: "load64 ?m (t + 8 * j) = load64 m (t + 8 * j)" using i(2) by (rule same_page_load64)
  show "load64 (link_table m t i new) (t + 8 * j) = (if j = i then PA_TO_PTE new OR PTE_V else load64 m (t + 8 * j))"
  proof (cases "j = i")
    case True
    then show ?thesis by (simp only: link_table_def load64_store64_same if_True refl)
  next
    case False
    then have "t + 8 * i \<noteq> t + 8 * j" using index_inj i by blast
    from load64_store64_other [OF aligned_index [OF n(2)] aligned_index [OF n(2)] this] False m
    show ?thesis by (simp only: link_table_def if_False)
  qed
  have "same_page new ?m (link_table m t i new)"
    unfolding link_table_def using n i by (intro store64_page) auto
  then have "load64 (link_table m t i new) (new + 8 * j) = load64 ?m (new + 8 * j)" using i(2) by (rule same_page_load64)
  then show "load64 (link_table m t i new) (new + 8 * j) = 0" using load64_zero_page [OF i(2)] by simp
qed

lemma table_link:
  assumes tr: "pt_tree m root" and p: "pt_path (p @ [i])" "table m root p = Some t"
    and inv: "load64 m (t + 8 * i) AND PTE_V = 0"
    and new: "aligned 12 new" "new \<notin> pt_tables m root" and q: "pt_path q"
  shows "table (link_table m t i new) root q = (if q = p @ [i] then Some new else table m root q)"
proof -
  let ?m = "link_table m t i new"
  have i: "i < 512" and pp: "pt_path p" using p(1) by (auto simp: pt_path_def)
  note t = pt_treeD [OF tr pp p(2)]
  have nt: "new \<noteq> t" using new(2) pp p(2) by (auto simp: pt_tables_def)
  have other: "table ?m root q' = table m root q'"
    if q': "pt_path q'" "\<nexists>r. q' = p @ i # r" for q'
  proof (rule table_same)
    fix q1 j q2 t1
    assume s: "q' = q1 @ j # q2" "table m root q1 = Some t1"
    have q1: "pt_path q1" "j < 512" using q'(1) s(1) by (auto simp: pt_path_def)
    note t1 = pt_treeD [OF tr q1(1) s(2)]
    have n1: "t1 \<noteq> new" using new(2) q1(1) s(2) by (auto simp: pt_tables_def)
    show "load64 ?m (t1 + 8 * j) = load64 m (t1 + 8 * j)"
    proof (cases "t1 = t")
      case True
      then have "q1 = p" using t(3) [OF q1(1)] s(2) by simp
      then have "j \<noteq> i" using s(1) q'(2) by auto
      then show ?thesis using link_table_entry(1) [OF new(1) t(1) nt i q1(2)] True by simp
    next
      case False
      have "same_page t1 m ?m" using link_table_page [OF new(1) t(1) i t1(1) n1 False] .
      then show ?thesis using q1(2) by (rule same_page_load64)
    qed
  qed
  show ?thesis
  proof (cases "\<exists>r. q = p @ i # r")
    case False
    then have "q \<noteq> p @ [i]" by auto
    with other [OF q] False show ?thesis by simp
  next
    case True
    then obtain r where r: "q = p @ i # r" by blast
    have tp: "table ?m root p = Some t" using other [OF pp] p(2) by simp
    have e: "load64 ?m (t + 8 * i) = PA_TO_PTE new OR PTE_V"
      using link_table_entry(1) [OF new(1) t(1) nt i i] by simp
    have step: "table ?m root q = table ?m new r"
      unfolding r table_append tp by (simp only: option.case table.simps e pte_valid if_True PTE_TO_PA_table [OF new(1)])
        (simp add: pte_valid)
    have old: "table m root q = None" unfolding r table_append p(2) using inv by simp
    show ?thesis
    proof (cases r)
      case Nil
      then show ?thesis using step r by simp
    next
      case (Cons j r')
      then have "j < 512" using q r by (simp add: pt_path_def)
      then show ?thesis using step old r Cons link_table_entry(2) [OF new(1) t(1) nt i] by simp
    qed
  qed
qed

section \<open>Walking with allocation\<close>

lemma vpn_take: "VA_TO_VPN va l = take_bit 9 (drop_bit (12 + 9 * l) va)"
  by (simp add: VA_TO_VPN_def take_bit_eq_mask mask_eq_exp_minus_1)

lemma vpn_lt [simp]: "VA_TO_VPN va l < 512"
proof -
  have "unat (take_bit 9 (drop_bit (12 + 9 * l) va)) = take_bit 9 (unat (drop_bit (12 + 9 * l) va))"
    by (rule unsigned_take_bit_eq)
  also have "\<dots> < 2 ^ 9" by (rule take_bit_nat_less_exp)
  finally show ?thesis by (simp add: vpn_take word_less_nat_alt)
qed

primrec vpn_path :: "nat \<Rightarrow> u64 \<Rightarrow> u64 list" where
  "vpn_path 0 va = []"
| "vpn_path (Suc l) va = VA_TO_VPN va (Suc l) # vpn_path l va"

lemma vpn_path_2: "vpn_path 2 va = leaf_path va"
  by (simp add: numeral_2_eq_2 leaf_path_def)

lemma pt_path_vpn: "pt_path (leaf_path va)" "length (leaf_path va) = 2"
  by (simp_all add: pt_path_def leaf_path_def)

text \<open>What a walk may change: it adds zeroed free pages as tables and touches nothing else.\<close>

definition pt_frame :: "u64 \<Rightarrow> pmem \<Rightarrow> pmem \<Rightarrow> bool" where
  "pt_frame root s t \<longleftrightarrow>
     (\<forall>va. pt_entry (mem t) root va = pt_entry (mem s) root va) \<and>
     pt_tables (mem s) root \<subseteq> pt_tables (mem t) root \<and>
     pt_tables (mem t) root - pt_tables (mem s) root \<subseteq> free_pages True s \<and>
     free_pages True t \<subseteq> free_pages True s \<and> free_pages False t = free_pages False s \<and>
     (\<forall>q. aligned 12 q \<longrightarrow> q \<notin> pt_tables (mem t) root \<longrightarrow> same_page q (mem s) (mem t))"

lemma pt_frame_refl: "pt_frame root s s"
  by (simp add: pt_frame_def)

lemma pt_frame_trans:
  assumes "pt_frame root s t" and "pt_frame root t u"
  shows "pt_frame root s u"
proof -
  note a = assms(1) [unfolded pt_frame_def] and b = assms(2) [unfolded pt_frame_def]
  have "same_page q (mem s) (mem u)" if "aligned 12 q" "q \<notin> pt_tables (mem u) root" for q
    using a b that by (meson same_page_trans subsetD)
  moreover have "pt_tables (mem u) root - pt_tables (mem s) root \<subseteq> free_pages True s" using a b by blast
  moreover have "pt_tables (mem s) root \<subseteq> pt_tables (mem u) root" "free_pages True u \<subseteq> free_pages True s"
    using a b by blast+
  ultimately show ?thesis using a b by (simp add: pt_frame_def)
qed

lemma free_page_aligned:
  assumes "pmem_inv s" and "p \<in> free_pages k s"
  shows "aligned 12 p" "p \<noteq> 0"
proof -
  obtain ps where "region_list (mem s) (region k s) ps" using pmem_inv_region [OF assms(1)] by blast
  moreover from this have "p \<in> set ps" using assms(2) free_pages_eq by blast
  ultimately have "p mod PGSIZE = 0" "p \<noteq> 0" by (auto simp: region_list_def page_ok_def)
  then show "aligned 12 p" "p \<noteq> 0" by (auto simp: aligned_def take_bit_eq_mod)
qed

text \<open>The free lists only depend on the free pages.\<close>

lemma page_list_cong:
  "page_list m a ps \<Longrightarrow> \<forall>p \<in> set ps. load64 m' p = load64 m p \<Longrightarrow> page_list m' a ps"
  by (induction ps arbitrary: a) auto

lemma pmem_mem_upd:
  assumes "pmem_inv s" and "\<And>k p. p \<in> free_pages k s \<Longrightarrow> same_page p (mem s) m"
  shows "pmem_inv (s\<lparr>mem := m\<rparr>)" "free_pages k (s\<lparr>mem := m\<rparr>) = free_pages k s"
proof -
  have rl: "region_list m (region k s) ps" if "region_list (mem s) (region k s) ps" for k ps
  proof -
    have "load64 m p = load64 (mem s) p" if "p \<in> set ps" for p
      using same_page_load64 [OF assms(2), of p k 0] free_pages_eq [OF \<open>region_list (mem s) (region k s) ps\<close>] that
      by simp
    then show ?thesis using that page_list_cong by (auto simp: region_list_def)
  qed
  obtain ps qs where l: "region_list (mem s) (region True s) ps" "region_list (mem s) (region False s) qs"
    using pmem_inv_region [OF assms(1)] by blast
  then show "pmem_inv (s\<lparr>mem := m\<rparr>)"
    using assms(1) rl [of True ps] rl [of False qs] by (auto simp: pmem_inv_def)
  have reg: "region k (s\<lparr>mem := m\<rparr>) = region k s" for k by (cases k) auto
  obtain xs where "region_list (mem s) (region k s) xs" using pmem_inv_region [OF assms(1)] by blast
  then show "free_pages k (s\<lparr>mem := m\<rparr>) = free_pages k s"
    using rl [of k xs] free_pages_eq [of "s\<lparr>mem := m\<rparr>" k xs] free_pages_eq [of s k xs] reg by simp
qed

lemma alloc_pgtbl_cases:
  assumes inv: "pmem_inv s"
  obtains (full) "free_pages True s = {}" "alloc_pgtbl s = Inr (0, s)"
  | (page) new t where "new \<in> free_pages True s" "alloc_pgtbl s = Inr (new, t)" "pmem_inv t"
      "free_pages True t = free_pages True s - {new}" "free_pages False t = free_pages False s"
      "mem t = store_bytes (mem s) new (replicate 4096 0)" "new \<notin> free_pages False s"
proof -
  obtain ps where ps: "region_list (mem s) (region True s) ps" using pmem_inv_region [OF inv] by blast
  obtain us where us: "region_list (mem s) (region False s) us" using pmem_inv_region [OF inv] by blast
  show thesis
  proof (cases ps)
    case Nil
    then show thesis using pmem_alloc_list [OF inv ps] ps free_pages_eq [OF ps]
      by (intro full) (auto simp: alloc_pgtbl_def)
  next
    case (Cons new qs)
    then obtain t where t: "pmem_alloc True s = (new, t)" "pmem_inv t" "region_list (mem t) (region True t) qs"
        "mem t = mem s" "region False t = region False s"
      using pmem_alloc_list [OF inv ps] by auto
    let ?m = "store_bytes (mem s) new (replicate 4096 0)"
    have fs: "free_pages True s = insert new (set qs)" using free_pages_eq [OF ps] Cons by simp
    have ft: "free_pages True t = set qs" by (rule free_pages_eq [OF t(3)])
    have fu: "free_pages False t = set us" "free_pages False s = set us"
      using free_pages_eq [of t False us] free_pages_eq [OF us] us t(4,5) by auto
    have nq: "new \<notin> set qs" using ps Cons by (simp add: region_list_def)
    have nu: "new \<notin> set us"
    proof
      assume "new \<in> set us"
      then have "page_ok (region False s) new" "page_ok (region True s) new"
        using us ps Cons by (auto simp: region_list_def)
      then show False using inv page_ok_disjoint [of "region True s" new "region False s"] by (auto simp: pmem_inv_def)
    qed
    have an: "aligned 12 new" "new \<noteq> 0" using free_page_aligned [OF inv, of new True] fs by auto
    have sp: "same_page p (mem t) ?m" if "p \<in> free_pages k t" for p k
    proof -
      have "aligned 12 p" using free_page_aligned [OF t(2) that] by simp
      moreover have "p \<noteq> new" using that ft fu nq nu by (cases k) auto
      ultimately show ?thesis using store_bytes_page [of new p 0 "replicate 4096 0" "mem s"] an t(4) by simp
    qed
    have al: "alloc_pgtbl s = Inr (new, t\<lparr>mem := ?m\<rparr>)"
      using t(1,4) an(2) by (simp add: alloc_pgtbl_def memset_def memset_loop_eq)
    show thesis
      using pmem_mem_upd [OF t(2) sp] fs ft fu nq nu al
      by (intro page [of new "t\<lparr>mem := ?m\<rparr>"]) auto
  qed
qed

lemma link_tree:
  assumes tr: "pt_tree m root" and p: "pt_path (p @ [i])" "table m root p = Some t"
    and inv: "load64 m (t + 8 * i) AND PTE_V = 0"
    and new: "aligned 12 new" "new \<noteq> 0" "new \<notin> pt_tables m root"
  shows "pt_tree (link_table m t i new) root"
    and "pt_tables (link_table m t i new) root = insert new (pt_tables m root)"
    and "pt_entry (link_table m t i new) root va = pt_entry m root va"
proof -
  let ?m = "link_table m t i new"
  note tl = table_link [OF tr p inv new(1,3)]
  have ne: "table m root q \<noteq> Some new" if "pt_path q" for q using new(3) that by (auto simp: pt_tables_def)
  have pp: "pt_path p" and i: "i < 512" using p(1) by (auto simp: pt_path_def)
  have none: "table m root (p @ [i]) = None" using inv p(2) by (simp add: table_append)
  show "pt_tree ?m root"
    unfolding pt_tree_def
  proof (intro conjI allI impI)
    fix q x assume q: "pt_path q" "table ?m root q = Some x"
    then show "aligned 12 x" "x \<noteq> 0"
      using tl [OF q(1)] new pt_treeD(1,2) [OF tr q(1), of x] by (auto split: if_splits)
  next
    fix q r x assume q: "pt_path q" "pt_path r" "table ?m root q = Some x" "table ?m root r = Some x"
    then show "q = r"
      using tl [OF q(1)] tl [OF q(2)] ne [OF q(1)] ne [OF q(2)] pt_treeD(3) [OF tr q(2) _ q(1), of x]
      by (auto split: if_splits)
  qed
  show "pt_tables ?m root = insert new (pt_tables m root)"
  proof (intro set_eqI iffI)
    fix x assume "x \<in> pt_tables ?m root"
    then show "x \<in> insert new (pt_tables m root)" using tl by (auto simp: pt_tables_def split: if_splits)
  next
    fix x assume "x \<in> insert new (pt_tables m root)"
    then consider "x = new" | q where "pt_path q" "table m root q = Some x" by (auto simp: pt_tables_def)
    then show "x \<in> pt_tables ?m root"
    proof cases
      case 1
      then show ?thesis using tl [OF p(1)] p(1) by (auto simp: pt_tables_def)
    next
      case 2
      then have "q \<noteq> p @ [i]" using none by auto
      with 2 show ?thesis using tl [of q] by (auto simp: pt_tables_def)
    qed
  qed
  show "pt_entry ?m root va = pt_entry m root va"
  proof (cases "leaf_path va = p @ [i]")
    case True
    have "table ?m root (leaf_path va) = Some new" using tl [OF pt_path_vpn(1), of va] True by simp
    moreover have "table m root (leaf_path va) = None" using none True by simp
    moreover have "load64 ?m (new + 8 * VA_TO_VPN va 0) = 0"
      using link_table_entry(2) [OF new(1) pt_treeD(1) [OF tr pp p(2)] _ i vpn_lt] ne [OF pp] p(2) by auto
    ultimately show ?thesis unfolding pt_entry_def by (simp only: option.case)
  next
    case False
    then have eq: "table ?m root (leaf_path va) = table m root (leaf_path va)"
      using tl [OF pt_path_vpn(1), of va] by simp
    show ?thesis
    proof (cases "table m root (leaf_path va)")
      case None
      then show ?thesis unfolding pt_entry_def eq by (simp only: option.case)
    next
      case (Some x)
      note x = pt_treeD [OF tr pt_path_vpn(1) Some]
      have "p \<noteq> leaf_path va" using p(1) pt_path_vpn(2) [of va] by (auto simp: pt_path_def)
      then have "x \<noteq> t" using x(3) [OF pp] p(2) by auto
      moreover have "x \<noteq> new" using ne [OF pt_path_vpn(1)] Some by auto
      ultimately have "same_page x m ?m" using link_table_page [OF new(1) pt_treeD(1) [OF tr pp p(2)] i x(1)] by blast
      then have "load64 ?m (x + 8 * VA_TO_VPN va 0) = load64 m (x + 8 * VA_TO_VPN va 0)"
        by (rule same_page_load64) simp
      then show ?thesis unfolding pt_entry_def eq Some by (simp only: option.case)
    qed
  qed
qed

lemma link_inv:
  assumes inv: "pt_inv s root" and p: "pt_path (p @ [i])" "table (mem s) root p = Some t"
    and e: "load64 (mem s) (t + 8 * i) AND PTE_V = 0" and a: "alloc_pgtbl s = Inr (new, s1)" "new \<noteq> 0"
    and s2: "s2 = s1\<lparr>mem := store64 (mem s1) (t + 8 * i) (PA_TO_PTE new OR PTE_V)\<rparr>"
  shows "pt_inv s2 root" "pt_frame root s s2" "table (mem s2) root (p @ [i]) = Some new"
    "free_pages True s2 = free_pages True s - {new}"
proof -
  have pm: "pmem_inv s" and tr: "pt_tree (mem s) root" and dis: "pt_tables (mem s) root \<inter> free_pages k s = {}" for k
    using inv by (auto simp: pt_inv_def)
  obtain x where n: "new \<in> free_pages True s" "pmem_inv s1" "free_pages True s1 = free_pages True s - {new}"
      "free_pages False s1 = free_pages False s" "mem s1 = store_bytes (mem s) new (replicate 4096 0)"
      "new \<notin> free_pages False s"
    using pm a by (cases rule: alloc_pgtbl_cases) auto
  have an: "aligned 12 new" using free_page_aligned [OF pm n(1)] by simp
  have nt: "new \<notin> pt_tables (mem s) root" using n(1) dis by blast
  have m2: "mem s2 = link_table (mem s) t i new" using s2 n(5) by (simp add: link_table_def)
  have i: "i < 512" and pp: "pt_path p" using p(1) by (auto simp: pt_path_def)
  have at: "aligned 12 t" using pt_treeD(1) [OF tr pp p(2)] .
  have tt: "t \<in> pt_tables (mem s) root" using pp p(2) by (auto simp: pt_tables_def)
  have fr: "free_pages k s1 = free_pages k s - {new}" for k using n(3,4,6) by (cases k) auto
  have sp: "same_page q (mem s1) (mem s2)" if "q \<in> free_pages k s1" for q k
  proof -
    have "q \<noteq> t" using that fr dis [of k] tt by blast
    moreover have "aligned 12 q" using free_page_aligned [OF n(2) that] by simp
    ultimately show ?thesis using store64_page [OF at _ _ i, of q] s2 by auto
  qed
  have s2': "s2 = s1\<lparr>mem := mem s2\<rparr>" using s2 by simp
  have "pmem_inv (s1\<lparr>mem := mem s2\<rparr>)" by (rule pmem_mem_upd(1) [OF n(2)]) (erule sp)
  moreover have "free_pages k (s1\<lparr>mem := mem s2\<rparr>) = free_pages k s1" for k
    by (rule pmem_mem_upd(2) [OF n(2)]) (erule sp)
  ultimately have f2: "pmem_inv s2" "free_pages k s2 = free_pages k s - {new}" for k
    by (simp_all only: s2' [symmetric] fr)
  show "free_pages True s2 = free_pages True s - {new}" by (rule f2(2))
  note lt = link_tree [OF tr p e an a(2) nt]
  show "table (mem s2) root (p @ [i]) = Some new"
    unfolding m2 using table_link [OF tr p e an nt p(1)] by simp
  have "pt_tables (mem s2) root \<inter> free_pages k s2 = {}" for k
    unfolding m2 lt(2) f2(2) using dis [of k] by blast
  then show "pt_inv s2 root" using f2(1) lt(1) by (simp add: pt_inv_def m2)
  have "same_page q (mem s) (mem s2)" if "aligned 12 q" "q \<notin> pt_tables (mem s2) root" for q
    unfolding m2 using that lt(2) tt m2 by (intro link_table_page an at i) auto
  then show "pt_frame root s s2"
    using f2 lt(2,3) n(1,6) by (auto simp: pt_frame_def m2)
qed

lemma entry_nonzero:
  assumes "aligned 12 t" and "t \<noteq> 0" and "i < 512"
  shows "t + 8 * i \<noteq> 0"
proof
  assume z: "t + 8 * i = 0"
  obtain n where n: "8 * i = of_nat n" "n + 8 \<le> 4096" by (rule index_off [OF assms(3)])
  have "aligned 12 (0 :: u64)" by (simp add: aligned_def)
  from aligned_regions [OF this assms(1) _, of n 0] assms(2) n z show False by simp
qed

lemma walk_alloc:
  assumes "pt_inv s root" and "pt_path (p @ vpn_path l va)" and "table (mem s) root p = Some t"
  shows "\<exists>a s'. walk l t va True s = Inr (a, s') \<and> pt_inv s' root \<and> pt_frame root s s' \<and>
    (if a = 0 then card (free_pages True s) < l
     else card (free_pages True s) \<le> card (free_pages True s') + l \<and>
       (\<exists>t'. table (mem s') root (p @ vpn_path l va) = Some t' \<and> a = t' + 8 * VA_TO_VPN va 0))"
  using assms
proof (induction l arbitrary: s p t)
  case 0
  then have "pt_path p" "pt_tree (mem s) root" by (auto simp: pt_inv_def)
  then have "t + 8 * VA_TO_VPN va 0 \<noteq> 0"
    using pt_treeD(1,2) [of "mem s" root p t] 0 by (intro entry_nonzero) auto
  with 0 pt_frame_refl show ?case by simp
next
  case (Suc l)
  let ?i = "VA_TO_VPN va (Suc l)"
  have path: "pt_path ((p @ [?i]) @ vpn_path l va)" using Suc.prems(2) by simp
  have pi: "pt_path (p @ [?i])" using pt_path_prefix [OF path] .
  show ?case
  proof (cases "load64 (mem s) (t + 8 * ?i) AND PTE_V \<noteq> 0")
    case True
    have "table (mem s) root (p @ [?i]) = Some (PTE_TO_PA (load64 (mem s) (t + 8 * ?i)))"
      using Suc.prems(3) True by (simp add: table_append)
    from Suc.IH [OF Suc.prems(1) path this] obtain a s' where
      w: "walk l (PTE_TO_PA (load64 (mem s) (t + 8 * ?i))) va True s = Inr (a, s')" "pt_inv s' root" "pt_frame root s s'"
        "if a = 0 then card (free_pages True s) < l
         else card (free_pages True s) \<le> card (free_pages True s') + l \<and>
           (\<exists>t'. table (mem s') root ((p @ [?i]) @ vpn_path l va) = Some t' \<and> a = t' + 8 * VA_TO_VPN va 0)"
      by blast
    have "walk (Suc l) t va True s = Inr (a, s')" using True w(1) by (simp add: Let_def)
    with w show ?thesis by (auto split: if_splits)
  next
    case False
    have pm: "pmem_inv s" using Suc.prems(1) by (simp add: pt_inv_def)
    from pm show ?thesis
    proof (cases rule: alloc_pgtbl_cases)
      case full
      then show ?thesis using False Suc.prems(1) pt_frame_refl by (simp add: Let_def)
    next
      case (page new s1)
      then have nz: "new \<noteq> 0" using free_page_aligned(2) [OF pm] by blast
      define s2 where "s2 = s1\<lparr>mem := store64 (mem s1) (t + 8 * ?i) (PA_TO_PTE new OR PTE_V)\<rparr>"
      from False have e: "load64 (mem s) (t + 8 * ?i) AND PTE_V = 0" by simp
      note l = link_inv [OF Suc.prems(1) pi Suc.prems(3) e page(2) nz s2_def]
      obtain a s' where w: "walk l new va True s2 = Inr (a, s')" "pt_inv s' root" "pt_frame root s2 s'"
          "if a = 0 then card (free_pages True s2) < l
           else card (free_pages True s2) \<le> card (free_pages True s') + l \<and>
             (\<exists>t'. table (mem s') root ((p @ [?i]) @ vpn_path l va) = Some t' \<and> a = t' + 8 * VA_TO_VPN va 0)"
        using Suc.IH [OF l(1) path l(3)] by blast
      have c: "card (free_pages True s) \<le> Suc (card (free_pages True s2))"
        using l(4) card_Suc_Diff1 [of "free_pages True s" new] page(1) by simp
      have "walk (Suc l) t va True s = Inr (a, s')"
        using e page(2) nz w(1) by (simp add: Let_def s2_def)
      with w c pt_frame_trans [OF l(2) w(3)] show ?thesis by (auto split: if_splits)
    qed
  qed
qed

lemma walk_read:
  "walk l t va False s = Inr (case table (mem s) t (vpn_path l va) of None \<Rightarrow> 0 | Some x \<Rightarrow> x + 8 * VA_TO_VPN va 0, s)"
  by (induction l arbitrary: t) (auto simp: Let_def)

section \<open>Mapping and unmapping\<close>

text \<open>The virtual page of an address, and the range of \<open>n\<close> pages from a page-aligned address.\<close>

definition vpage :: "u64 \<Rightarrow> u64" where
  "vpage va = take_bit 27 (drop_bit 12 va)"

lemma vpage_eq_iff: "vpage x = vpage y \<longleftrightarrow> (\<forall>l \<le> 2. VA_TO_VPN x l = VA_TO_VPN y l)"
proof
  assume e: "vpage x = vpage y"
  show "\<forall>l \<le> 2. VA_TO_VPN x l = VA_TO_VPN y l"
  proof (intro allI impI)
    fix l :: nat assume l: "l \<le> 2"
    show "VA_TO_VPN x l = VA_TO_VPN y l"
      unfolding vpn_take
    proof (rule bit_word_eqI)
      fix n :: nat
      have "bit (vpage x) (9 * l + n) = bit (vpage y) (9 * l + n)" using e by simp
      then show "bit (take_bit 9 (drop_bit (12 + 9 * l) x)) n = bit (take_bit 9 (drop_bit (12 + 9 * l) y)) n"
        using l by (cases "n < 9") (auto simp: vpage_def bit_simps add.assoc)
    qed
  qed
next
  assume e: "\<forall>l \<le> 2. VA_TO_VPN x l = VA_TO_VPN y l"
  show "vpage x = vpage y"
    unfolding vpage_def
  proof (rule bit_word_eqI)
    fix n :: nat
    show "bit (take_bit 27 (drop_bit 12 x)) n = bit (take_bit 27 (drop_bit 12 y)) n"
    proof (cases "n < 27")
      case True
      then have l: "n div 9 \<le> 2" and s: "12 + n = 12 + 9 * (n div 9) + n mod 9" by auto
      then have "bit (VA_TO_VPN x (n div 9)) (n mod 9) = bit (VA_TO_VPN y (n div 9)) (n mod 9)" using e by simp
      then have "bit x (12 + 9 * (n div 9) + n mod 9) = bit y (12 + 9 * (n div 9) + n mod 9)"
        by (simp add: vpn_take bit_simps)
      then show ?thesis using True s by (simp add: bit_simps add.commute)
    qed (simp add: bit_simps)
  qed
qed

lemma same_leaf: "leaf_path x = leaf_path y \<and> VA_TO_VPN x 0 = VA_TO_VPN y 0 \<longleftrightarrow> vpage x = vpage y"
  unfolding vpage_eq_iff leaf_path_def by (auto simp: le_Suc_eq numeral_2_eq_2)

lemma pt_entry_cong: "vpage x = vpage y \<Longrightarrow> pt_entry m root x = pt_entry m root y"
  using same_leaf [of x y] by (auto simp: pt_entry_def split: option.splits)

text \<open>Storing a leaf entry changes the entry of exactly one virtual page.\<close>

lemma leaf_store:
  assumes inv: "pt_inv s root" and t: "table (mem s) root (leaf_path va) = Some t"
    and s': "s' = s\<lparr>mem := store64 (mem s) (t + 8 * VA_TO_VPN va 0) v\<rparr>"
  shows "pt_inv s' root" "pt_tables (mem s') root = pt_tables (mem s) root" "free_pages k s' = free_pages k s"
    "pt_entry (mem s') root x = (if vpage x = vpage va then v else pt_entry (mem s) root x)"
    "aligned 12 q \<Longrightarrow> q \<notin> pt_tables (mem s) root \<Longrightarrow> same_page q (mem s) (mem s')"
proof -
  let ?m = "mem s'"
  have pm: "pmem_inv s" and tr: "pt_tree (mem s) root" and dis: "pt_tables (mem s) root \<inter> free_pages k s = {}" for k
    using inv by (auto simp: pt_inv_def)
  have m: "?m = store64 (mem s) (t + 8 * VA_TO_VPN va 0) v" using s' by simp
  note td = pt_treeD [OF tr pt_path_vpn(1) t]
  have tt: "t \<in> pt_tables (mem s) root" using t pt_path_vpn(1) [of va] by (auto simp: pt_tables_def)
  have tb: "table ?m root p = table (mem s) root p" if "pt_path p" for p
    unfolding m by (rule table_store_leaf [OF tr pt_path_vpn t vpn_lt that])
  then show tables: "pt_tables ?m root = pt_tables (mem s) root" by (auto simp: pt_tables_def)
  have tree: "pt_tree ?m root" using tr tb unfolding pt_tree_def by metis
  show sp: "same_page q (mem s) ?m" if "aligned 12 q" "q \<notin> pt_tables (mem s) root" for q
    unfolding m using that tt by (intro store64_page td(1)) auto
  have sf: "same_page q (mem s) ?m" if "q \<in> free_pages k s" for q k
    using free_page_aligned [OF pm that] dis [of k] that by (intro sp) auto
  have s'': "s\<lparr>mem := ?m\<rparr> = s'" using s' by simp
  have f: "free_pages k s' = free_pages k s" for k
    using pmem_mem_upd(2) [OF pm, of "?m" k] sf unfolding s'' by blast
  then show "free_pages k s' = free_pages k s" .
  have "pmem_inv s'" using pmem_mem_upd(1) [OF pm, of "?m"] sf unfolding s'' by blast
  then show "pt_inv s' root" using tree dis tables f by (simp add: pt_inv_def)
  show "pt_entry ?m root x = (if vpage x = vpage va then v else pt_entry (mem s) root x)"
  proof (cases "vpage x = vpage va")
    case True
    then have "pt_entry ?m root x = pt_entry ?m root va" by (rule pt_entry_cong)
    also have "\<dots> = v" using tb [OF pt_path_vpn(1), of va] t by (simp add: pt_entry_def) (simp add: m)
    finally show ?thesis using True by simp
  next
    case False
    show ?thesis
    proof (cases "table (mem s) root (leaf_path x)")
      case None
      then show ?thesis using False unfolding pt_entry_def tb [OF pt_path_vpn(1)] by simp
    next
      case (Some u)
      note ud = pt_treeD [OF tr pt_path_vpn(1) Some]
      have "load64 ?m (u + 8 * VA_TO_VPN x 0) = load64 (mem s) (u + 8 * VA_TO_VPN x 0)"
      proof (cases "u = t")
        case True
        then have "leaf_path va = leaf_path x" using ud(3) [OF pt_path_vpn(1)] t by simp
        then have "VA_TO_VPN x 0 \<noteq> VA_TO_VPN va 0" using False same_leaf [of x va] by auto
        then have "t + 8 * VA_TO_VPN va 0 \<noteq> t + 8 * VA_TO_VPN x 0" using index_inj [OF vpn_lt vpn_lt] by metis
        from load64_store64_other [OF aligned_index [OF td(1)] aligned_index [OF td(1)] this]
        show ?thesis unfolding m True .
      next
        case False
        then have "same_page u (mem s) ?m" unfolding m by (intro store64_page td(1) ud(1) vpn_lt) simp
        then show ?thesis by (rule same_page_load64) simp
      qed
      then show ?thesis using False Some unfolding pt_entry_def tb [OF pt_path_vpn(1)] by simp
    qed
  qed
qed

text \<open>What changes besides the entries.\<close>

definition pt_grow :: "u64 \<Rightarrow> pmem \<Rightarrow> pmem \<Rightarrow> bool" where
  "pt_grow root s t \<longleftrightarrow> pt_tables (mem s) root \<subseteq> pt_tables (mem t) root \<and>
     pt_tables (mem t) root - pt_tables (mem s) root \<subseteq> free_pages True s \<and>
     free_pages True t \<subseteq> free_pages True s \<and> free_pages False t = free_pages False s \<and>
     (\<forall>q. aligned 12 q \<longrightarrow> q \<notin> pt_tables (mem t) root \<longrightarrow> same_page q (mem s) (mem t))"

lemma pt_frame_grow: "pt_frame root s t \<Longrightarrow> pt_grow root s t"
  by (simp add: pt_frame_def pt_grow_def)

lemma pt_grow_trans:
  assumes "pt_grow root s t" and "pt_grow root t u"
  shows "pt_grow root s u"
proof -
  note a = assms(1) [unfolded pt_grow_def] and b = assms(2) [unfolded pt_grow_def]
  have "same_page q (mem s) (mem u)" if "aligned 12 q" "q \<notin> pt_tables (mem u) root" for q
    using a b that by (meson same_page_trans subsetD)
  moreover have "pt_tables (mem u) root - pt_tables (mem s) root \<subseteq> free_pages True s" using a b by blast
  moreover have "pt_tables (mem s) root \<subseteq> pt_tables (mem u) root" "free_pages True u \<subseteq> free_pages True s"
    using a b by blast+
  ultimately show ?thesis using a b by (simp add: pt_grow_def)
qed

lemma finite_free: "pmem_inv s \<Longrightarrow> finite (free_pages k s)"
  using pmem_inv_region [of s k] free_pages_eq [of s k] by auto

lemma unat_page_add:
  assumes "unat a + 4096 * k < 2 ^ 64"
  shows "unat (a + of_nat k * PGSIZE) = unat a + 4096 * k"
proof -
  have "(of_nat k * PGSIZE :: u64) = of_nat (4096 * k)" by simp
  moreover have "unat (of_nat (4096 * k) :: u64) = 4096 * k" using assms by (intro unat_of_nat64) simp
  ultimately have k: "unat (of_nat k * PGSIZE :: u64) = 4096 * k" by (simp only:)
  have "unat a + unat (of_nat k * PGSIZE :: u64) < 2 ^ LENGTH(64)" using assms k by simp
  from iffD1 [OF unat_add_lem this] show ?thesis by (simp only: k)
qed

lemma unat_vpage:
  assumes "unat x < 2 ^ 39"
  shows "unat (vpage x) = unat x div 4096"
proof -
  have t: "take_bit 64 (unat x) = unat x" by (rule take_bit_nat_eq_self [OF unat_lt64])
  have "unat (vpage x) = take_bit 27 (drop_bit 12 (unat x))"
    by (simp only: vpage_def unsigned_take_bit_eq unsigned_drop_bit_eq) (simp add: t)
  also have "\<dots> = unat x div 4096" using assms by (simp add: drop_bit_eq_div take_bit_nat_eq_self less_mult_imp_div_less)
  finally show ?thesis .
qed

lemma vpage_range:
  assumes "unat a + 4096 * n < 2 ^ 39" and "aligned 12 a" and "i \<le> n" and "j \<le> n"
    and "vpage (a + of_nat i * PGSIZE) = vpage (a + of_nat j * PGSIZE)"
  shows "i = j"
proof -
  have u: "unat (vpage (a + of_nat k * PGSIZE)) = (unat a + 4096 * k) div 4096" if "k \<le> n" for k
  proof -
    have "4096 * k \<le> 4096 * n" using that by simp
    with assms(1) have lt: "unat a + 4096 * k < 2 ^ 39" by linarith
    moreover have "(2 :: nat) ^ 39 < 2 ^ 64" by simp
    ultimately have "unat a + 4096 * k < 2 ^ 64" by linarith
    from unat_page_add [OF this] lt show ?thesis using unat_vpage [of "a + of_nat k * PGSIZE"] by (simp only:)
  qed
  have "(unat a + 4096 * i) div 4096 = (unat a + 4096 * j) div 4096"
    using u [OF assms(3)] u [OF assms(4)] assms(5) by (simp only:)
  then show ?thesis by simp
qed

text \<open>The tables a walk with allocation may have to add: none when the path is there already.  All addresses of a region
  of 2 MB share their path.\<close>

definition missing :: "pmem \<Rightarrow> u64 \<Rightarrow> u64 \<Rightarrow> nat" where
  "missing s root va = (if table (mem s) root (leaf_path va) = None then 2 else 0)"

lemma missing_le: "missing s root va \<le> 2" by (simp add: missing_def)

lemma walk_present:
  "table (mem s) t (vpn_path l va) = Some t' \<Longrightarrow> walk l t va al s = Inr (t' + 8 * VA_TO_VPN va 0, s)"
  by (induction l arbitrary: t) (auto simp: Let_def split: if_splits)

lemma leaf_path_region:
  assumes "unat x div 0x200000 = unat y div 0x200000"
  shows "leaf_path x = leaf_path y"
proof -
  have "unat (drop_bit 21 x) = unat (drop_bit 21 y)"
    using assms by (simp add: drop_bit_eq_div unat_div)
  then have d: "drop_bit 21 x = drop_bit 21 y" by (simp only: word_unat_eq_iff)
  have "drop_bit 30 x = drop_bit 9 (drop_bit 21 x)" "drop_bit 30 y = drop_bit 9 (drop_bit 21 y)" by simp_all
  then have "drop_bit 30 x = drop_bit 30 y" using d by (simp only:)
  then show ?thesis using d by (simp add: leaf_path_def vpn_take)
qed

lemma vm_getpte_alloc:
  assumes "pt_inv s root" and "\<not> VA_MAX \<le> va"
  shows "\<exists>a s'. vm_getpte root va True s = Inr (a, s') \<and> pt_inv s' root \<and> pt_frame root s s' \<and>
    (if a = 0 then card (free_pages True s) < missing s root va
     else card (free_pages True s) \<le> card (free_pages True s') + missing s root va \<and>
       (\<exists>t. table (mem s') root (leaf_path va) = Some t \<and> a = t + 8 * VA_TO_VPN va 0))"
proof -
  have g: "vm_getpte root va True s = walk 2 root va True s" using assms(2) by (simp add: vm_getpte_def)
  show ?thesis
  proof (cases "table (mem s) root (leaf_path va)")
    case None
    then have m: "missing s root va = 2" by (simp add: missing_def)
    from g walk_alloc [of s root "[]" 2 va root, unfolded vpn_path_2 append_Nil, OF assms(1) pt_path_vpn(1)]
    show ?thesis unfolding m by (simp only: table.simps)
  next
    case (Some t)
    then have w: "walk 2 root va True s = Inr (t + 8 * VA_TO_VPN va 0, s)" by (intro walk_present) (simp add: vpn_path_2)
    have "pt_tree (mem s) root" using assms(1) by (simp add: pt_inv_def)
    from pt_treeD(1,2) [OF this pt_path_vpn(1) Some] have "t + 8 * VA_TO_VPN va 0 \<noteq> 0" by (intro entry_nonzero) simp_all
    then show ?thesis using g w Some assms(1) pt_frame_refl by auto
  qed
qed

text \<open>One round of the mapping loop.\<close>

lemma map_page:
  assumes inv: "pt_inv s root" and va: "unat va < 0x4000000000"
  obtains (oom) s' where "vm_getpte root va True s = Inr (0, s')" "card (free_pages True s) < missing s root va"
  | (ok) pte s' where "vm_getpte root va True s = Inr (pte, s')" "pte \<noteq> 0"
      "pt_inv (s'\<lparr>mem := store64 (mem s') pte v\<rparr>) root" "pt_grow root s (s'\<lparr>mem := store64 (mem s') pte v\<rparr>)"
      "card (free_pages True s) \<le> card (free_pages True (s'\<lparr>mem := store64 (mem s') pte v\<rparr>)) + missing s root va"
      "\<And>x. pt_entry (mem (s'\<lparr>mem := store64 (mem s') pte v\<rparr>)) root x =
         (if vpage x = vpage va then v else pt_entry (mem s) root x)"
proof -
  have "\<not> VA_MAX \<le> va" using va by (simp add: word_le_nat_alt)
  from vm_getpte_alloc [OF inv this] obtain a s' where w: "vm_getpte root va True s = Inr (a, s')" "pt_inv s' root"
    "pt_frame root s s'" "if a = 0 then card (free_pages True s) < missing s root va
       else card (free_pages True s) \<le> card (free_pages True s') + missing s root va \<and>
         (\<exists>t. table (mem s') root (leaf_path va) = Some t \<and> a = t + 8 * VA_TO_VPN va 0)" by blast
  show thesis
  proof (cases "a = 0")
    case True
    then show thesis using w by (intro oom [of s']) simp_all
  next
    case False
    then obtain t where t: "table (mem s') root (leaf_path va) = Some t" "a = t + 8 * VA_TO_VPN va 0"
      "card (free_pages True s) \<le> card (free_pages True s') + missing s root va" using w(4) by auto
    define u where "u = s'\<lparr>mem := store64 (mem s') a v\<rparr>"
    have u': "u = s'\<lparr>mem := store64 (mem s') (t + 8 * VA_TO_VPN va 0) v\<rparr>" by (simp add: u_def t(2))
    note l = leaf_store [OF w(2) t(1) u']
    have "pt_grow root s' u" using l(2,3,5) by (simp add: pt_grow_def)
    then have g: "pt_grow root s u" using pt_grow_trans [OF pt_frame_grow [OF w(3)]] by blast
    have e: "pt_entry (mem u) root x = (if vpage x = vpage va then v else pt_entry (mem s) root x)" for x
      using l(4) w(3) by (simp add: pt_frame_def)
    show thesis
      using ok [OF w(1) False, folded u_def, OF l(1) g _ e] t(3) l(3) by simp
  qed
qed

text \<open>The entries of the \<open>n + 1\<close> pages from \<open>a\<close> are replaced, the others kept.\<close>

definition pages_set :: "u64 \<Rightarrow> nat \<Rightarrow> (nat \<Rightarrow> u64) \<Rightarrow> u64 \<Rightarrow> pmem \<Rightarrow> pmem \<Rightarrow> bool" where
  "pages_set a n f root s t \<longleftrightarrow>
     (\<forall>k \<le> n. \<forall>x. vpage x = vpage (a + of_nat k * PGSIZE) \<longrightarrow> pt_entry (mem t) root x = f k) \<and>
     (\<forall>x. (\<forall>k \<le> n. vpage x \<noteq> vpage (a + of_nat k * PGSIZE)) \<longrightarrow> pt_entry (mem t) root x = pt_entry (mem s) root x)"

lemma page_Suc: "a + PGSIZE + of_nat k * PGSIZE = a + of_nat (Suc k) * PGSIZE"
  by (simp add: algebra_simps)

lemma pages_set_Suc:
  assumes d: "\<And>k. k \<le> n \<Longrightarrow> vpage a \<noteq> vpage (a + of_nat (Suc k) * PGSIZE)"
    and s: "\<And>x. pt_entry (mem s') root x = (if vpage x = vpage a then f 0 else pt_entry (mem s) root x)"
    and t: "pages_set (a + PGSIZE) n (\<lambda>k. f (Suc k)) root s' t"
  shows "pages_set a (Suc n) f root s t"
  unfolding pages_set_def
proof (intro conjI allI impI)
  fix k x
  assume k: "k \<le> Suc n" and x: "vpage x = vpage (a + of_nat k * PGSIZE)"
  show "pt_entry (mem t) root x = f k"
  proof (cases k)
    case 0
    then have "\<forall>k \<le> n. vpage x \<noteq> vpage (a + PGSIZE + of_nat k * PGSIZE)"
      unfolding page_Suc using d x by simp
    then have "pt_entry (mem t) root x = pt_entry (mem s') root x" using t unfolding pages_set_def by blast
    then show ?thesis using s 0 x by simp
  next
    case (Suc k')
    then have "vpage x = vpage (a + PGSIZE + of_nat k' * PGSIZE)" unfolding page_Suc using x by simp
    then show ?thesis using t k Suc unfolding pages_set_def by auto
  qed
next
  fix x
  assume x: "\<forall>k \<le> Suc n. vpage x \<noteq> vpage (a + of_nat k * PGSIZE)"
  then have "\<forall>k \<le> n. vpage x \<noteq> vpage (a + PGSIZE + of_nat k * PGSIZE)" unfolding page_Suc by blast
  then have "pt_entry (mem t) root x = pt_entry (mem s') root x" using t unfolding pages_set_def by blast
  moreover have "vpage x \<noteq> vpage a" using x [rule_format, of 0] by simp
  ultimately show "pt_entry (mem t) root x = pt_entry (mem s) root x" using s by simp
qed

lemma pages_set_0:
  assumes "\<And>x. pt_entry (mem t) root x = (if vpage x = vpage a then f 0 else pt_entry (mem s) root x)"
  shows "pages_set a 0 f root s t"
  using assms by (simp add: pages_set_def)

text \<open>How often \<open>n\<close> further pages enter a new region of 2 MB.\<close>

definition regions_after :: "u64 \<Rightarrow> nat \<Rightarrow> nat" where
  "regions_after a n = (unat a + 4096 * n) div 0x200000 - unat a div 0x200000"

lemma pte_nonzero: "x OR p OR PTE_V \<noteq> 0"
proof
  assume "x OR p OR PTE_V = 0"
  then have "(x OR p) OR PTE_V = 0" by (simp only: or.assoc)
  with pte_valid [of "x OR p"] show False by simp
qed

lemma next_missing:
  assumes "pt_entry (mem t) root a \<noteq> 0" and "unat (a + PGSIZE) = unat a + 4096"
  shows "missing t root (a + PGSIZE) + 2 * regions_after (a + PGSIZE) n \<le> 2 * regions_after a (Suc n)"
proof -
  have r: "regions_after (a + PGSIZE) n = (unat a + 4096 * Suc n) div 0x200000 - (unat a + 4096) div 0x200000"
    unfolding regions_after_def assms(2) by (simp add: add.assoc)
  have e: "regions_after a (Suc n) = (unat a + 4096 * Suc n) div 0x200000 - unat a div 0x200000"
    by (simp add: regions_after_def)
  have le: "(unat a + 4096) div 0x200000 \<le> (unat a + 4096 * Suc n) div 0x200000" by (intro div_le_mono) simp
  show ?thesis
  proof (cases "(unat a + 4096) div 0x200000 = unat a div 0x200000")
    case True
    then have "leaf_path (a + PGSIZE) = leaf_path a" by (intro leaf_path_region) (simp only: assms(2))
    then have "missing t root (a + PGSIZE) = 0" using assms(1) by (auto simp: missing_def pt_entry_def split: option.splits)
    then show ?thesis unfolding r e True by simp
  next
    case False
    moreover have "unat a div 0x200000 \<le> (unat a + 4096) div 0x200000" by (intro div_le_mono) simp
    ultimately have "unat a div 0x200000 + 1 \<le> (unat a + 4096) div 0x200000" by linarith
    then show ?thesis unfolding r e using missing_le [of t root "a + PGSIZE"] le by linarith
  qed
qed

lemma mappages_loop_ok:
  assumes "pt_inv s root" and "aligned 12 a" and "unat a + 4096 * n < 0x4000000000"
  shows "(\<exists>t. mappages_loop root a pa (a + of_nat n * PGSIZE) perm s = Inr t \<and> pt_inv t root \<and> pt_grow root s t \<and>
      pages_set a n (\<lambda>k. PA_TO_PTE (pa + of_nat k * PGSIZE) OR perm OR PTE_V) root s t \<and>
      card (free_pages True s) \<le> card (free_pages True t) + (missing s root a + 2 * regions_after a n)) \<or>
    (mappages_loop root a pa (a + of_nat n * PGSIZE) perm s = Inl (Panic ''vm_mappages: out of memory'') \<and>
     card (free_pages True s) < missing s root a + 2 * regions_after a n)"
  using assms
proof (induction n arbitrary: a pa s)
  case 0
  then have a: "unat a < 0x4000000000" by simp
  from 0(1) a show ?case
  proof (cases rule: map_page [where v = "PA_TO_PTE pa OR perm OR PTE_V"])
    case (oom s')
    then show ?thesis by (subst (2) mappages_loop.simps) simp
  next
    case (ok pte s')
    let ?t = "s'\<lparr>mem := store64 (mem s') pte (PA_TO_PTE pa OR perm OR PTE_V)\<rparr>"
    have "pages_set a 0 (\<lambda>k. PA_TO_PTE (pa + of_nat k * PGSIZE) OR perm OR PTE_V) root s ?t"
      by (rule pages_set_0) (use ok(6) in simp)
    moreover have "mappages_loop root a pa (a + of_nat 0 * PGSIZE) perm s = Inr ?t"
      using ok(1,2) by (subst mappages_loop.simps) simp
    ultimately show ?thesis using ok(3-5) by auto
  qed
next
  case (Suc n)
  have a: "unat a < 0x4000000000" using Suc.prems(3) by simp
  have ap: "unat (a + PGSIZE) = unat a + 4096" by (rule unat_add_page [OF a])
  have al: "aligned 12 (a + PGSIZE)"
    using Suc.prems(2) by (simp add: aligned_def take_bit_eq_0_iff)
  have lt: "unat a + 4096 * Suc n < 2 ^ 39" using Suc.prems(3) by simp
  have d: "vpage a \<noteq> vpage (a + of_nat (Suc k) * PGSIZE)" if "k \<le> n" for k
    using vpage_range [OF lt Suc.prems(2), of 0 "Suc k"] that by auto
  have ne: "a \<noteq> a + of_nat (Suc n) * PGSIZE" using d [of n] by auto
  from Suc.prems(1) a show ?case
  proof (cases rule: map_page [where v = "PA_TO_PTE pa OR perm OR PTE_V"])
    case (oom s')
    then show ?thesis by (subst (2) mappages_loop.simps) simp
  next
    case (ok pte s')
    let ?t = "s'\<lparr>mem := store64 (mem s') pte (PA_TO_PTE pa OR perm OR PTE_V)\<rparr>"
    have step: "mappages_loop root a pa (a + of_nat (Suc n) * PGSIZE) perm s =
        mappages_loop root (a + PGSIZE) (pa + PGSIZE) (a + PGSIZE + of_nat n * PGSIZE) perm ?t"
      unfolding page_Suc using ok(1,2) ne by (subst mappages_loop.simps) (simp add: Let_def)
    have "unat (a + PGSIZE) + 4096 * n < 0x4000000000" using Suc.prems(3) ap by simp
    note IH = Suc.IH [OF ok(3) al this, of "pa + PGSIZE"]
    have "pt_entry (mem ?t) root a \<noteq> 0" unfolding ok(6) by (simp add: pte_nonzero)
    from next_missing [OF this ap, of n] have c: "missing ?t root (a + PGSIZE) + 2 * regions_after (a + PGSIZE) n \<le> 2 * regions_after a (Suc n)" .
    from IH show ?thesis
    proof (elim disjE exE conjE)
      fix t
      assume t: "mappages_loop root (a + PGSIZE) (pa + PGSIZE) (a + PGSIZE + of_nat n * PGSIZE) perm ?t = Inr t"
        "pt_inv t root" "pt_grow root ?t t"
        "pages_set (a + PGSIZE) n (\<lambda>k. PA_TO_PTE (pa + PGSIZE + of_nat k * PGSIZE) OR perm OR PTE_V) root ?t t"
        "card (free_pages True ?t) \<le> card (free_pages True t) + (missing ?t root (a + PGSIZE) + 2 * regions_after (a + PGSIZE) n)"
      have "pages_set a (Suc n) (\<lambda>k. PA_TO_PTE (pa + of_nat k * PGSIZE) OR perm OR PTE_V) root s t"
        by (rule pages_set_Suc [OF d _ t(4) [unfolded page_Suc]]) (use ok(6) in simp_all)
      moreover have "card (free_pages True s) \<le> card (free_pages True t) + (missing s root a + 2 * regions_after a (Suc n))"
        using t(5) ok(5) c by linarith
      ultimately show ?thesis using step t(1,2) pt_grow_trans [OF ok(4) t(3)] by auto
    next
      assume t: "mappages_loop root (a + PGSIZE) (pa + PGSIZE) (a + PGSIZE + of_nat n * PGSIZE) perm ?t =
          Inl (Panic ''vm_mappages: out of memory'')" "card (free_pages True ?t) < missing ?t root (a + PGSIZE) + 2 * regions_after (a + PGSIZE) n"
      then have "card (free_pages True s) < missing s root a + 2 * regions_after a (Suc n)" using ok(5) c by linarith
      then show ?thesis using step t(1) by simp
    qed
  qed
qed

lemma round_down_plus: "PG_ROUND_DOWN x = x - take_bit 12 x"
proof -
  have "PG_ROUND_DOWN x = push_bit 12 (drop_bit 12 x)"
  proof (rule bit_word_eqI)
    fix n :: nat assume n: "n < LENGTH(64)"
    have m: "PGSIZE - 1 = mask 12" by (simp add: mask_eq_exp_minus_1)
    show "bit (PG_ROUND_DOWN x) n = bit (push_bit 12 (drop_bit 12 x)) n"
      unfolding PG_ROUND_DOWN_def m using n by (auto simp: bit_simps)
  qed
  moreover have "push_bit 12 (drop_bit 12 x) + take_bit 12 x = x" by (rule bits_ident)
  ultimately show ?thesis by (simp add: algebra_simps)
qed

lemma unat_round_down: "unat (PG_ROUND_DOWN x) = 4096 * (unat x div 4096)"
proof -
  have t: "unat (take_bit 12 x) = unat x mod 4096"
    by (simp only: unsigned_take_bit_eq) (simp add: take_bit_eq_mod)
  have "take_bit 12 x \<le> x" unfolding word_le_nat_alt t by simp
  then have "unat (PG_ROUND_DOWN x) = unat x - unat x mod 4096" by (simp only: round_down_plus unat_sub t)
  then show ?thesis by (simp add: minus_mod_eq_mult_div)
qed

lemma aligned_round_down: "aligned 12 (PG_ROUND_DOWN x)"
proof -
  have m: "PGSIZE - 1 = mask 12" by (simp add: mask_eq_exp_minus_1)
  show ?thesis unfolding aligned_def PG_ROUND_DOWN_def m
    by (rule bit_word_eqI) (auto simp: bit_simps)
qed

text \<open>A byte range as a number of pages.\<close>

lemma range_pages:
  assumes "len \<noteq> 0" and "unat va + unat len \<le> 0x4000000000"
  defines "n \<equiv> (unat va + unat len - 1) div 4096 - unat va div 4096"
  shows "PG_ROUND_DOWN (va + len - 1) = PG_ROUND_DOWN va + of_nat n * PGSIZE"
    and "unat (PG_ROUND_DOWN va) + 4096 * n < 0x4000000000"
proof -
  have l: "0 < unat len" using assms(1) by (simp add: unat_gt_0)
  have "unat va + unat len < 2 ^ LENGTH(64)" using assms(2) by simp
  from iffD1 [OF unat_add_lem this] have s: "unat (va + len) = unat va + unat len" .
  then have "va + len \<noteq> 0" using l by auto
  from unat_minus_one [OF this] have e: "unat (va + len - 1) = unat va + unat len - 1" by (simp only: s)
  have le: "unat va div 4096 \<le> (unat va + unat len - 1) div 4096" using l by (intro div_le_mono) simp
  have eq: "unat (PG_ROUND_DOWN va) + 4096 * n = 4096 * ((unat va + unat len - 1) div 4096)"
    unfolding unat_round_down n_def using le by (simp add: algebra_simps diff_mult_distrib2)
  then show b: "unat (PG_ROUND_DOWN va) + 4096 * n < 0x4000000000" using l assms(2) by simp
  then have "unat (PG_ROUND_DOWN va) + 4096 * n < 2 ^ 64" by simp
  from unat_page_add [OF this] eq have "unat (PG_ROUND_DOWN va + of_nat n * PGSIZE) = unat (PG_ROUND_DOWN (va + len - 1))"
    unfolding unat_round_down [of "va + len - 1"] e by (rule trans)
  then show "PG_ROUND_DOWN (va + len - 1) = PG_ROUND_DOWN va + of_nat n * PGSIZE"
    by (simp only: word_unat_eq_iff)
qed

lemma vpage_range_iff:
  assumes "aligned 12 a" and "unat a + 4096 * n < 0x4000000000" and "k \<le> n" and "unat x < 2 ^ 39"
  shows "vpage x = vpage (a + of_nat k * PGSIZE) \<longleftrightarrow> unat x div 4096 = unat a div 4096 + k"
proof -
  have "4096 * k \<le> 4096 * n" using assms(3) by simp
  with assms(2) have lt: "unat a + 4096 * k < 0x4000000000" by linarith
  then have "unat a + 4096 * k < 2 ^ 64" by simp
  from unat_page_add [OF this] have u: "unat (a + of_nat k * PGSIZE) = unat a + 4096 * k" .
  have "unat (vpage (a + of_nat k * PGSIZE)) = unat a div 4096 + k"
    using unat_vpage [of "a + of_nat k * PGSIZE"] lt unfolding u by simp
  then show ?thesis using unat_vpage [OF assms(4)] by (metis word_unat_eq_iff)
qed

lemma range_regions:
  assumes "len \<noteq> 0"
  shows "regions_after (PG_ROUND_DOWN va) ((unat va + unat len - 1) div 4096 - unat va div 4096) =
    (unat va + unat len - 1) div 0x200000 - unat va div 0x200000"
proof -
  have "unat va div 4096 \<le> (unat va + unat len - 1) div 4096" using unat_gt_0 [of len] assms by (intro div_le_mono) linarith
  then have s: "4096 * (unat va div 4096) + 4096 * ((unat va + unat len - 1) div 4096 - unat va div 4096) = 4096 * ((unat va + unat len - 1) div 4096)"
    by linarith
  have d: "4096 * (x div 4096) div 0x200000 = x div 0x200000" for x :: nat
    using div_mult2_eq [of x 4096 512] div_mult2_eq [of "4096 * (x div 4096)" 4096 512] by simp
  show ?thesis unfolding regions_after_def unat_round_down s d ..
qed

lemma vm_mappages_pages:
  assumes "pt_inv s root" and "len \<noteq> 0" and "unat va + unat len \<le> 0x4000000000"
  defines "n \<equiv> (unat va + unat len - 1) div 4096 - unat va div 4096"
    and "c \<equiv> (unat va + unat len - 1) div 0x200000 - unat va div 0x200000 + 1"
  shows "(\<exists>t. vm_mappages root va pa len perm s = Inr t \<and> pt_inv t root \<and> pt_grow root s t \<and>
      pages_set (PG_ROUND_DOWN va) n (\<lambda>k. PA_TO_PTE (pa + of_nat k * PGSIZE) OR perm OR PTE_V) root s t \<and>
      card (free_pages True s) \<le> card (free_pages True t) + 2 * c) \<or>
    (vm_mappages root va pa len perm s = Inl (Panic ''vm_mappages: out of memory'') \<and>
     card (free_pages True s) < 2 * c)"
proof -
  note r = range_pages [OF assms(2,3), folded n_def]
  have "m + 2 * d \<le> 2 * (d + 1)" if "m \<le> 2" for m d :: nat using that by simp
  from this [OF missing_le] have "missing s root (PG_ROUND_DOWN va) + 2 * regions_after (PG_ROUND_DOWN va) n \<le> 2 * c"
    unfolding c_def n_def range_regions [OF assms(2)] .
  then have c: "x \<le> y + (missing s root (PG_ROUND_DOWN va) + 2 * regions_after (PG_ROUND_DOWN va) n) \<Longrightarrow> x \<le> y + 2 * c"
    "x < missing s root (PG_ROUND_DOWN va) + 2 * regions_after (PG_ROUND_DOWN va) n \<Longrightarrow> x < 2 * c" for x y by linarith+
  have "vm_mappages root va pa len perm s = mappages_loop root (PG_ROUND_DOWN va) pa (PG_ROUND_DOWN va + of_nat n * PGSIZE) perm s"
    using assms(2) by (simp only: vm_mappages_def r(1) if_False)
  with mappages_loop_ok [OF assms(1) aligned_round_down r(2), of pa perm] show ?thesis
    using c by (elim disjE exE conjE) auto
qed

lemma vm_mappages_ok:
  assumes "pt_inv s root" and "len \<noteq> 0" and "unat va + unat len \<le> 0x4000000000"
    and "2 * ((unat va + unat len - 1) div 0x200000 - unat va div 0x200000 + 1) \<le> card (free_pages True s)"
  shows "\<exists>t. vm_mappages root va pa len perm s = Inr t \<and> pt_inv t root \<and> pt_grow root s t \<and>
    card (free_pages True s) \<le> card (free_pages True t) + 2 * ((unat va + unat len - 1) div 0x200000 - unat va div 0x200000 + 1) \<and>
    (\<forall>x. unat x < 2 ^ 39 \<longrightarrow> pt_entry (mem t) root x =
       (if unat va div 4096 \<le> unat x div 4096 \<and> unat x div 4096 \<le> (unat va + unat len - 1) div 4096
        then PA_TO_PTE (pa + of_nat (unat x div 4096 - unat va div 4096) * PGSIZE) OR perm OR PTE_V
        else pt_entry (mem s) root x))"
proof -
  define n where "n = (unat va + unat len - 1) div 4096 - unat va div 4096"
  obtain t where t: "vm_mappages root va pa len perm s = Inr t" "pt_inv t root" "pt_grow root s t"
      "pages_set (PG_ROUND_DOWN va) n (\<lambda>k. PA_TO_PTE (pa + of_nat k * PGSIZE) OR perm OR PTE_V) root s t"
      "card (free_pages True s) \<le> card (free_pages True t) + 2 * ((unat va + unat len - 1) div 0x200000 - unat va div 0x200000 + 1)"
    using vm_mappages_pages [OF assms(1-3), of pa perm] assms(4) n_def by fastforce
  note r = range_pages(2) [OF assms(2,3), folded n_def]
  have iff: "vpage x = vpage (PG_ROUND_DOWN va + of_nat k * PGSIZE) \<longleftrightarrow> unat x div 4096 = unat va div 4096 + k"
    if "k \<le> n" "unat x < 2 ^ 39" for x k
    using vpage_range_iff [OF aligned_round_down r that] by (simp add: unat_round_down)
  have "pt_entry (mem t) root x =
       (if unat va div 4096 \<le> unat x div 4096 \<and> unat x div 4096 \<le> (unat va + unat len - 1) div 4096
        then PA_TO_PTE (pa + of_nat (unat x div 4096 - unat va div 4096) * PGSIZE) OR perm OR PTE_V
        else pt_entry (mem s) root x)" (is "_ = (if ?in then _ else _)") if x: "unat x < 2 ^ 39" for x
  proof (cases ?in)
    case True
    define k where "k = unat x div 4096 - unat va div 4096"
    have k: "k \<le> n" "unat x div 4096 = unat va div 4096 + k" using True unfolding k_def n_def by linarith+
    then have "pt_entry (mem t) root x = PA_TO_PTE (pa + of_nat k * PGSIZE) OR perm OR PTE_V"
      using t(4) iff [OF k(1) x] unfolding pages_set_def by blast
    then show ?thesis using True by (simp only: k_def if_True simp_thms)
  next
    case False
    have "vpage x \<noteq> vpage (PG_ROUND_DOWN va + of_nat k * PGSIZE)" if "k \<le> n" for k
    proof
      assume "vpage x = vpage (PG_ROUND_DOWN va + of_nat k * PGSIZE)"
      then have "unat x div 4096 = unat va div 4096 + k" using iff [OF that x] by blast
      moreover have "unat va div 4096 \<le> (unat va + unat len - 1) div 4096"
        using unat_gt_0 [of len] assms(2) by (intro div_le_mono) linarith
      ultimately show False using False that unfolding n_def by linarith
    qed
    then have "pt_entry (mem t) root x = pt_entry (mem s) root x" using t(4) unfolding pages_set_def by blast
    then show ?thesis using False by (simp only: if_False)
  qed
  then show ?thesis using t(1-3,5) by blast
qed

section \<open>Properties\<close>

text \<open>C22. Mapping refines an update of the address space.  On a well-formed page table with two free kernel
  pages for each region of 2 MB that the range meets, \<^verbatim>\<open>vm_mappages\<close> succeeds for any byte range below \<^verbatim>\<open>VA_MAX\<close>: exactly the
  pages that meet the range get the entries of the consecutive physical pages with the
  permissions asked for, every other address keeps its entry, the page table stays
  well formed, and no memory outside the page tables changes.\<close>

theorem vm_mappages_correct:
  assumes "pt_inv s root" and "len \<noteq> 0" and "unat va + unat len \<le> 0x4000000000"
    and "2 * ((unat va + unat len - 1) div 0x200000 - unat va div 0x200000 + 1) \<le> card (free_pages True s)"
  shows "\<exists>t. vm_mappages root va pa len perm s = Inr t \<and> pt_inv t root \<and>
    (\<forall>x. unat x < 2 ^ 39 \<longrightarrow> pt_entry (mem t) root x =
       (if unat va div 4096 \<le> unat x div 4096 \<and> unat x div 4096 \<le> (unat va + unat len - 1) div 4096
        then PA_TO_PTE (pa + of_nat (unat x div 4096 - unat va div 4096) * PGSIZE) OR perm OR PTE_V
        else pt_entry (mem s) root x)) \<and>
    (\<forall>q. aligned 12 q \<longrightarrow> q \<notin> pt_tables (mem t) root \<longrightarrow> same_page q (mem s) (mem t))"
  using vm_mappages_ok [OF assms, of pa perm] unfolding pt_grow_def by blast

text \<open>A page table with no entries at \<open>0x1000\<close>, two free kernel pages and one free user page.\<close>

definition vm_small :: pmem where
  "vm_small = \<lparr>mem = (\<lambda>a. if a = 0x2001 then 0x30 else 0),
     kern_region = \<lparr>r_begin = 0x2000, r_end = 0x4000, allocable = 2, list_head = 0x2000\<rparr>,
     user_region = \<lparr>r_begin = 0x4000, r_end = 0x5000, allocable = 1, list_head = 0x4000\<rparr>\<rparr>"

lemma vm_small_lists:
  "region_list (mem vm_small) (region True vm_small) [0x2000, 0x3000]"
  "region_list (mem vm_small) (region False vm_small) [0x4000]"
  by (simp_all add: region_list_def vm_small_def page_ok_def load64_def upt_rec)

lemma vm_small_free: "free_pages True vm_small = {0x2000, 0x3000}" "free_pages False vm_small = {0x4000}"
  using vm_small_lists by (simp_all add: free_pages_eq del: region_cases)

lemma vm_small_entry:
  assumes "i < 512"
  shows "load64 (mem vm_small) (0x1000 + 8 * i) = 0"
proof -
  obtain n where n: "8 * i = of_nat n" "n + 8 \<le> 4096" by (rule index_off [OF assms])
  have "mem vm_small (0x1000 + 8 * i + of_nat j) = 0" if "j < 8" for j
  proof -
    have a: "aligned 12 (0x1000 :: u64)" "aligned 12 (0x2000 :: u64)" by (simp_all add: aligned_def take_bit_eq_mod)
    have "n + j < 2 ^ 12" using n(2) that by simp
    from aligned_regions [OF a(2,1) _ this, of 1] have "(0x1000 :: u64) + of_nat (n + j) \<noteq> 0x2000 + of_nat 1" by simp
    then show ?thesis unfolding n(1) by (simp add: vm_small_def add.assoc)
  qed
  then have "map (\<lambda>j. mem vm_small (0x1000 + 8 * i + of_nat j)) [0..<8] = map (\<lambda>j. 0) [0..<8]"
    by (intro map_cong) auto
  moreover have "le_word (map (\<lambda>j. 0) [0..<8]) = (0 :: u64)" by (simp add: upt_rec)
  ultimately show ?thesis by (simp only: load64_def)
qed

lemma vm_small_tables:
  assumes "pt_path p" and "table (mem vm_small) 0x1000 p = Some t"
  shows "p = [] \<and> t = 0x1000"
  using assms vm_small_entry by (cases p) (auto simp: pt_path_def)

lemma vm_small_inv: "pt_inv vm_small 0x1000"
proof -
  have "pmem_inv vm_small" using vm_small_lists by (auto simp: pmem_inv_def) (simp_all add: vm_small_def)
  moreover have "pt_tree (mem vm_small) 0x1000"
    unfolding pt_tree_def
  proof (intro conjI allI impI)
    fix p t assume "pt_path p" "table (mem vm_small) 0x1000 p = Some t"
    from vm_small_tables [OF this] show "aligned 12 t" "t \<noteq> 0" by (simp_all add: aligned_def take_bit_eq_mod)
  next
    fix p q t
    assume "pt_path p" "pt_path q" "table (mem vm_small) 0x1000 p = Some t" "table (mem vm_small) 0x1000 q = Some t"
    then show "p = q" using vm_small_tables by metis
  qed
  moreover have "pt_tables (mem vm_small) 0x1000 \<subseteq> {0x1000}" using vm_small_tables by (auto simp: pt_tables_def)
  then have "pt_tables (mem vm_small) 0x1000 \<inter> free_pages k vm_small = {}" for k
    using vm_small_free by (cases k) auto
  ultimately show ?thesis by (simp add: pt_inv_def)
qed

theorem vm_mappages_correct_witness:
  "\<exists>t. vm_mappages 0x1000 0x5123 0x4000 16 (PTE_R OR PTE_U) vm_small = Inr t \<and> pt_inv t 0x1000 \<and>
     pt_entry (mem t) 0x1000 0x5FFF = PA_TO_PTE 0x4000 OR (PTE_R OR PTE_U) OR PTE_V"
proof -
  have "\<exists>t. vm_mappages 0x1000 0x5123 0x4000 16 (PTE_R OR PTE_U) vm_small = Inr t \<and> pt_inv t 0x1000 \<and>
    (\<forall>x. unat x < 2 ^ 39 \<longrightarrow> pt_entry (mem t) 0x1000 x =
       (if unat (0x5123 :: u64) div 4096 \<le> unat x div 4096 \<and> unat x div 4096 \<le> (unat (0x5123 :: u64) + unat (16 :: u64) - 1) div 4096
        then PA_TO_PTE (0x4000 + of_nat (unat x div 4096 - unat (0x5123 :: u64) div 4096) * PGSIZE) OR (PTE_R OR PTE_U) OR PTE_V
        else pt_entry (mem vm_small) 0x1000 x)) \<and>
    (\<forall>q. aligned 12 q \<longrightarrow> q \<notin> pt_tables (mem t) 0x1000 \<longrightarrow> same_page q (mem vm_small) (mem t))"
    by (rule vm_mappages_correct [OF vm_small_inv]) (simp_all add: vm_small_free)
  then show ?thesis by (auto dest!: spec [of _ "0x5FFF"])
qed

section \<open>Unmapping\<close>

lemma vm_getpte_read:
  assumes "unat va < 0x4000000000"
  shows "vm_getpte root va False s =
    Inr (case table (mem s) root (leaf_path va) of None \<Rightarrow> 0 | Some x \<Rightarrow> x + 8 * VA_TO_VPN va 0, s)"
proof -
  have "\<not> VA_MAX \<le> va" using assms by (simp add: word_le_nat_alt)
  then show ?thesis by (simp add: vm_getpte_def walk_read vpn_path_2)
qed

lemma pt_entry_valid:
  assumes "pt_entry m root va AND PTE_V \<noteq> 0"
  obtains t where "table m root (leaf_path va) = Some t" "pt_entry m root va = load64 m (t + 8 * VA_TO_VPN va 0)"
  using assms by (cases "table m root (leaf_path va)") (auto simp: pt_entry_def)

text \<open>Freeing a page that is not a table.\<close>

definition freeable :: "u64 \<Rightarrow> pmem \<Rightarrow> u64 \<Rightarrow> u64 \<Rightarrow> bool" where
  "freeable ALLOC_BEGIN s root pa \<longleftrightarrow>
     (let k = (ALLOC_BEGIN \<le> pa \<and> pa < ALLOC_BEGIN + KERNEL_PAGES * PGSIZE)
      in page_ok (region k s) pa \<and> pa \<notin> pt_tables (mem s) root) \<and> pa \<notin> free_pages True s \<and> pa \<notin> free_pages False s"

lemma pmem_free_pt:
  assumes inv: "pt_inv s root" and p: "page_ok (region k s) p" "p \<notin> free_pages k s" "p \<notin> pt_tables (mem s) root"
  obtains t where "pmem_free p k s = Inr t" "pt_inv t root" "free_pages k t = insert p (free_pages k s)"
    "free_pages (\<not> k) t = free_pages (\<not> k) s"
    "pt_tables (mem t) root = pt_tables (mem s) root" "\<And>x. pt_entry (mem t) root x = pt_entry (mem s) root x"
    "\<And>x. pt_path x \<Longrightarrow> table (mem t) root x = table (mem s) root x"
    "\<And>j. r_begin (region j t) = r_begin (region j s) \<and> r_end (region j t) = r_end (region j s)"
    "\<And>q. aligned 12 q \<Longrightarrow> q \<noteq> p \<Longrightarrow> same_page q (mem s) (mem t)"
proof -
  have pm: "pmem_inv s" and tr: "pt_tree (mem s) root" and dis: "pt_tables (mem s) root \<inter> free_pages j s = {}" for j
    using inv by (auto simp: pt_inv_def)
  obtain ps where ps: "region_list (mem s) (region k s) ps" using pmem_inv_region [OF pm] by blast
  obtain us where us: "region_list (mem s) (region (\<not> k) s) us" using pmem_inv_region [OF pm] by blast
  have np: "p \<notin> set ps" using p(2) free_pages_eq [OF ps] by simp
  obtain t where t: "pmem_free p k s = Inr t" "pmem_inv t" "region_list (mem t) (region k t) (p # ps)"
      "r_begin (region k t) = r_begin (region k s)" "r_end (region k t) = r_end (region k s)"
      "region_list (mem t) (region (\<not> k) t) us"
    using pmem_free_list [OF pm ps p(1) np] us by blast
  have m: "mem t = store64 (mem s) p (list_head (region k s))" "region (\<not> k) t = region (\<not> k) s"
    using t(1) p(1) by (auto simp: pmem_free_def region_free_page_def page_ok_def region_def Let_def split: if_splits)
  have ap: "aligned 12 p" using p(1) by (simp add: page_ok_def aligned_def take_bit_eq_mod)
  have sp: "same_page q (mem s) (mem t)" if "aligned 12 q" "q \<noteq> p" for q
    using store64_page [of p q 0 "mem s"] ap that m(1) by auto
  have tb: "table (mem t) root x = table (mem s) root x" if x: "pt_path x" for x
  proof (rule table_same)
    fix q1 j q2 u assume s: "x = q1 @ j # q2" "table (mem s) root q1 = Some u"
    then have q1: "pt_path q1" "j < 512" using x by (auto simp: pt_path_def)
    then have "u \<in> pt_tables (mem s) root" using s(2) by (auto simp: pt_tables_def)
    then have "same_page u (mem s) (mem t)" using p(3) pt_treeD(1) [OF tr q1(1) s(2)] by (intro sp) auto
    then show "load64 (mem t) (u + 8 * j) = load64 (mem s) (u + 8 * j)" using q1(2) by (rule same_page_load64)
  qed
  have tables: "pt_tables (mem t) root = pt_tables (mem s) root" using tb by (auto simp: pt_tables_def)
  have tree: "pt_tree (mem t) root" using tr tb unfolding pt_tree_def by metis
  have f: "free_pages k t = insert p (free_pages k s)" "free_pages (\<not> k) t = free_pages (\<not> k) s"
    using free_pages_eq [OF t(3)] free_pages_eq [OF ps] free_pages_eq [OF t(6)] free_pages_eq [OF us] by simp_all
  have "pt_tables (mem t) root \<inter> free_pages j t = {}" for j
    unfolding tables using f dis [of j] p(3) by (cases "j = k") auto
  then have "pt_inv t root" using t(2) tree by (simp add: pt_inv_def)
  moreover have "pt_entry (mem t) root x = pt_entry (mem s) root x" for x
  proof (cases "table (mem s) root (leaf_path x)")
    case None
    then show ?thesis using tb [OF pt_path_vpn(1)] by (simp add: pt_entry_def)
  next
    case (Some u)
    then have "u \<in> pt_tables (mem s) root" using pt_path_vpn(1) [of x] by (auto simp: pt_tables_def)
    then have "same_page u (mem s) (mem t)" using p(3) pt_treeD(1) [OF tr pt_path_vpn(1) Some] by (intro sp) auto
    then have "load64 (mem t) (u + 8 * VA_TO_VPN x 0) = load64 (mem s) (u + 8 * VA_TO_VPN x 0)"
      by (rule same_page_load64) simp
    then show ?thesis using tb [OF pt_path_vpn(1), of x] Some by (simp add: pt_entry_def)
  qed
  moreover have "r_begin (region j t) = r_begin (region j s) \<and> r_end (region j t) = r_end (region j s)" for j
    using t(4,5) m(2) by (cases "j = k") auto
  ultimately show thesis using that t(1) f tables tb sp by blast
qed

text \<open>The pages of a range that can be unmapped: mapped as leaves and, when they are to be freed, pages of
  the pool of their region that are in use and all different.\<close>

definition unmappable :: "u64 \<Rightarrow> u64 \<Rightarrow> u64 \<Rightarrow> nat \<Rightarrow> bool \<Rightarrow> pmem \<Rightarrow> bool" where
  "unmappable ALLOC_BEGIN root a n freeit s \<longleftrightarrow>
     (\<forall>k < n. let v = pt_entry (mem s) root (a + of_nat k * PGSIZE)
        in v AND PTE_V \<noteq> 0 \<and> PTE_FLAGS v \<noteq> PTE_V \<and> (freeit \<longrightarrow> freeable ALLOC_BEGIN s root (PTE_TO_PA v))) \<and>
     (freeit \<longrightarrow> inj_on (\<lambda>k. PTE_TO_PA (pt_entry (mem s) root (a + of_nat k * PGSIZE))) {..<n})"

lemma unmap_page:
  assumes inv: "pt_inv s root" and va: "unat a < 0x4000000000"
    and v: "v = pt_entry (mem s) root a" "v AND PTE_V \<noteq> 0" "PTE_FLAGS v \<noteq> PTE_V" "freeit \<longrightarrow> freeable AB s root (PTE_TO_PA v)"
  obtains u where "a < e \<Longrightarrow> unmappages_loop AB root a e freeit s = unmappages_loop AB root (a + PGSIZE) e freeit u"
    "pt_inv u root" "pt_tables (mem u) root = pt_tables (mem s) root"
    "\<And>x. pt_entry (mem u) root x = (if vpage x = vpage a then 0 else pt_entry (mem s) root x)"
    "\<And>j. r_begin (region j u) = r_begin (region j s) \<and> r_end (region j u) = r_end (region j s)"
    "free_pages True u \<union> free_pages False u =
      (if freeit then {PTE_TO_PA v} else {}) \<union> (free_pages True s \<union> free_pages False s)"
proof -
  obtain t where t: "table (mem s) root (leaf_path a) = Some t" "v = load64 (mem s) (t + 8 * VA_TO_VPN a 0)"
    using v(1,2) pt_entry_valid by blast
  let ?pte = "t + 8 * VA_TO_VPN a 0" and ?k = "AB \<le> PTE_TO_PA v \<and> PTE_TO_PA v < AB + KERNEL_PAGES * PGSIZE"
  have tr: "pt_tree (mem s) root" using inv by (simp add: pt_inv_def)
  note td = pt_treeD [OF tr pt_path_vpn(1) t(1)]
  have nz: "?pte \<noteq> 0" using entry_nonzero [OF td(1,2)] by simp
  obtain f where f: "(if freeit then pmem_free (PTE_TO_PA v) ?k s else Inr s) = Inr f" "pt_inv f root"
      "free_pages True f \<union> free_pages False f =
        (if freeit then {PTE_TO_PA v} else {}) \<union> (free_pages True s \<union> free_pages False s)"
      "\<And>x. pt_path x \<Longrightarrow> table (mem f) root x = table (mem s) root x" "pt_tables (mem f) root = pt_tables (mem s) root"
      "\<And>x. pt_entry (mem f) root x = pt_entry (mem s) root x"
      "\<And>j. r_begin (region j f) = r_begin (region j s) \<and> r_end (region j f) = r_end (region j s)"
  proof (cases freeit)
    case False
    then show thesis using that [of s] inv by simp
  next
    case True
    then have p: "page_ok (region ?k s) (PTE_TO_PA v)" "PTE_TO_PA v \<notin> free_pages ?k s" "PTE_TO_PA v \<notin> pt_tables (mem s) root"
      using v(4) by (cases ?k; auto simp: freeable_def Let_def)+
    obtain f where f: "pmem_free (PTE_TO_PA v) ?k s = Inr f" "pt_inv f root"
        "free_pages ?k f = insert (PTE_TO_PA v) (free_pages ?k s)" "free_pages (\<not> ?k) f = free_pages (\<not> ?k) s"
        "pt_tables (mem f) root = pt_tables (mem s) root" "\<And>x. pt_entry (mem f) root x = pt_entry (mem s) root x"
        "\<And>x. pt_path x \<Longrightarrow> table (mem f) root x = table (mem s) root x"
        "\<And>j. r_begin (region j f) = r_begin (region j s) \<and> r_end (region j f) = r_end (region j s)"
      by (rule pmem_free_pt [OF inv p]) blast
    have "free_pages True f \<union> free_pages False f = {PTE_TO_PA v} \<union> (free_pages True s \<union> free_pages False s)"
      using f(3,4) by (cases ?k) auto
    then show thesis using that [of f] f True by simp
  qed
  define u where "u = f\<lparr>mem := store64 (mem f) ?pte 0\<rparr>"
  have tf: "table (mem f) root (leaf_path a) = Some t" using f(4) [OF pt_path_vpn(1)] t(1) by simp
  note l = leaf_store [OF f(2) tf u_def]
  have reg: "region j u = region j f" for j by (cases j) (simp_all add: u_def)
  have step: "unmappages_loop AB root a e freeit s = unmappages_loop AB root (a + PGSIZE) e freeit u" if "a < e"
    using that f(1) v(2,3) nz t
    by (cases freeit; subst unmappages_loop.simps; simp add: vm_getpte_read [OF va] u_def Let_def)
  show thesis
    by (rule that [of u, OF step l(1)]) (use l(2-4) f(3,5-7) reg in simp_all)
qed

lemma inj_on_shift: "inj_on f {..<Suc n} \<Longrightarrow> inj_on (\<lambda>k. f (Suc k)) {..<n}"
  by (auto simp: inj_on_def)

lemma unmappages_loop_ok:
  assumes "pt_inv s root" and "aligned 12 a" and "unat a + 4096 * n \<le> 0x4000000000"
    and "unmappable AB root a n freeit s"
  shows "\<exists>t. unmappages_loop AB root a (a + of_nat n * PGSIZE) freeit s = Inr t \<and> pt_inv t root \<and>
    pt_tables (mem t) root = pt_tables (mem s) root \<and>
    (\<forall>x. pt_entry (mem t) root x =
       (if \<exists>k < n. vpage x = vpage (a + of_nat k * PGSIZE) then 0 else pt_entry (mem s) root x)) \<and>
    free_pages True t \<union> free_pages False t = free_pages True s \<union> free_pages False s \<union>
      (if freeit then (\<lambda>k. PTE_TO_PA (pt_entry (mem s) root (a + of_nat k * PGSIZE))) ` {..<n} else {})"
  using assms
proof (induction n arbitrary: a s)
  case 0
  then show ?case by (subst unmappages_loop.simps) simp
next
  case (Suc n)
  let ?e = "\<lambda>s k. pt_entry (mem s) root (a + of_nat k * PGSIZE)"
  have a: "unat a < 0x4000000000" using Suc.prems(3) by simp
  have ap: "unat (a + PGSIZE) = unat a + 4096" by (rule unat_add_page [OF a])
  have al: "aligned 12 (a + PGSIZE)" using Suc.prems(2) by (simp add: aligned_def take_bit_eq_0_iff)
  have "unat a + 4096 * Suc n < 2 ^ 39" using Suc.prems(3) by simp
  note d = vpage_range [OF this Suc.prems(2), of 0]
  have v: "pt_entry (mem s) root a AND PTE_V \<noteq> 0" "PTE_FLAGS (pt_entry (mem s) root a) \<noteq> PTE_V"
      "freeit \<longrightarrow> freeable AB s root (PTE_TO_PA (pt_entry (mem s) root a))"
    using Suc.prems(4) by (auto simp: unmappable_def Let_def dest: spec [of _ 0])
  obtain u where u: "a < a + of_nat (Suc n) * PGSIZE \<Longrightarrow> unmappages_loop AB root a (a + of_nat (Suc n) * PGSIZE) freeit s =
        unmappages_loop AB root (a + PGSIZE) (a + of_nat (Suc n) * PGSIZE) freeit u"
      "pt_inv u root" "pt_tables (mem u) root = pt_tables (mem s) root"
      "\<And>x. pt_entry (mem u) root x = (if vpage x = vpage a then 0 else pt_entry (mem s) root x)"
      "\<And>j. r_begin (region j u) = r_begin (region j s) \<and> r_end (region j u) = r_end (region j s)"
      "free_pages True u \<union> free_pages False u =
        (if freeit then {PTE_TO_PA (pt_entry (mem s) root a)} else {}) \<union> (free_pages True s \<union> free_pages False s)"
    by (rule unmap_page [OF Suc.prems(1) a refl v, of "a + of_nat (Suc n) * PGSIZE"]) blast
  have ue: "?e u (Suc k) = ?e s (Suc k)" if "k < n" for k
    using u(4) [of "a + of_nat (Suc k) * PGSIZE"] d [of "Suc k"] that by auto
  have fr: "freeable AB u root (PTE_TO_PA (?e s (Suc k)))" if "k < n" freeit for k
  proof -
    have f: "freeable AB s root (PTE_TO_PA (?e s (Suc k)))"
      using Suc.prems(4) that unfolding unmappable_def Let_def by auto
    have "PTE_TO_PA (?e s (Suc k)) \<noteq> PTE_TO_PA (?e s 0)"
    proof
      assume e: "PTE_TO_PA (?e s (Suc k)) = PTE_TO_PA (?e s 0)"
      have i: "inj_on (\<lambda>k. PTE_TO_PA (?e s k)) {..<Suc n}"
        using Suc.prems(4) that(2) unfolding unmappable_def by blast
      have "Suc k = 0" by (rule inj_onD [OF i e]) (use that(1) in auto)
      then show False by simp
    qed
    then have "PTE_TO_PA (?e s (Suc k)) \<notin> free_pages True u \<union> free_pages False u"
      using f u(6) that(2) by (simp add: freeable_def)
    then show ?thesis using f u(3,5) by (auto simp: freeable_def Let_def page_ok_def)
  qed
  have un: "unmappable AB root (a + PGSIZE) n freeit u"
    unfolding unmappable_def page_Suc
  proof (intro conjI allI impI)
    fix k assume k: "k < n"
    then show "let v = ?e u (Suc k) in v AND PTE_V \<noteq> 0 \<and> PTE_FLAGS v \<noteq> PTE_V \<and> (freeit \<longrightarrow> freeable AB u root (PTE_TO_PA v))"
      using Suc.prems(4) fr unfolding ue [OF k] unmappable_def Let_def by auto
  next
    assume freeit
    then have "inj_on (\<lambda>k. PTE_TO_PA (?e s k)) {..<Suc n}" using Suc.prems(4) unfolding unmappable_def by blast
    then have "inj_on (\<lambda>k. PTE_TO_PA (?e s (Suc k))) {..<n}" by (rule inj_on_shift)
    then show "inj_on (\<lambda>k. PTE_TO_PA (?e u (Suc k))) {..<n}" using ue by (simp add: inj_on_def)
  qed
  have "unat (a + PGSIZE) + 4096 * n \<le> 0x4000000000" using Suc.prems(3) ap by simp
  from Suc.IH [OF u(2) al this un, unfolded page_Suc] obtain t where
    t: "unmappages_loop AB root (a + PGSIZE) (a + of_nat (Suc n) * PGSIZE) freeit u = Inr t" "pt_inv t root"
      "pt_tables (mem t) root = pt_tables (mem u) root"
      "\<And>x. pt_entry (mem t) root x =
         (if \<exists>k < n. vpage x = vpage (a + of_nat (Suc k) * PGSIZE) then 0 else pt_entry (mem u) root x)"
      "free_pages True t \<union> free_pages False t = free_pages True u \<union> free_pages False u \<union>
        (if freeit then (\<lambda>k. PTE_TO_PA (?e u (Suc k))) ` {..<n} else {})" by blast
  have "unat a + 4096 * Suc n < 2 ^ 64" using Suc.prems(3) by simp
  then have "a < a + of_nat (Suc n) * PGSIZE" unfolding word_less_nat_alt by (simp only: unat_page_add) simp
  with u(1) t(1) have run: "unmappages_loop AB root a (a + of_nat (Suc n) * PGSIZE) freeit s = Inr t" by simp
  have split: "(\<exists>k < Suc n. P k) \<longleftrightarrow> P 0 \<or> (\<exists>k < n. P (Suc k))" for P :: "nat \<Rightarrow> bool"
    by (simp add: Ex_less_Suc2)
  have ent: "pt_entry (mem t) root x =
      (if \<exists>k < Suc n. vpage x = vpage (a + of_nat k * PGSIZE) then 0 else pt_entry (mem s) root x)" for x
    using t(4) [of x] u(4) [of x] unfolding split by (cases "vpage x = vpage a") (auto simp del: of_nat_Suc)
  have img: "(\<lambda>k. PTE_TO_PA (?e u (Suc k))) ` {..<n} = (\<lambda>k. PTE_TO_PA (?e s (Suc k))) ` {..<n}" using ue by auto
  have ins: "(\<lambda>k. PTE_TO_PA (?e s k)) ` {..<Suc n} = insert (PTE_TO_PA (?e s 0)) ((\<lambda>k. PTE_TO_PA (?e s (Suc k))) ` {..<n})"
    unfolding lessThan_Suc_eq_insert_0 image_insert image_image by simp
  have "free_pages True t \<union> free_pages False t = free_pages True s \<union> free_pages False s \<union>
      (if freeit then (\<lambda>k. PTE_TO_PA (?e s k)) ` {..<Suc n} else {})"
    unfolding ins t(5) u(6) img by auto
  with run t(2,3) u(3) ent show ?case by auto
qed

text \<open>C24. Unmapping refines the removal from the address space.  When the pages of a page-aligned range
  below \<^verbatim>\<open>VA_MAX\<close> are all mapped as leaves (and, when they are to be freed, are distinct pages in
  use of their pools), \<^verbatim>\<open>vm_unmappages\<close> succeeds: exactly those pages lose their entries, the page
  table stays well formed with the same tables, and exactly the pages they were mapped to become
  free, if asked for.\<close>

theorem vm_unmappages_correct:
  assumes "pt_inv s root" and "va mod PGSIZE = 0" and "unat va + 4096 * n \<le> 0x4000000000"
    and "unmappable AB root va n freeit s"
  shows "\<exists>t. vm_unmappages AB root va (of_nat n * PGSIZE) freeit s = Inr t \<and> pt_inv t root \<and>
    pt_tables (mem t) root = pt_tables (mem s) root \<and>
    (\<forall>x. unat x < 2 ^ 39 \<longrightarrow> pt_entry (mem t) root x =
       (if unat va div 4096 \<le> unat x div 4096 \<and> unat x div 4096 < unat va div 4096 + n then 0
        else pt_entry (mem s) root x)) \<and>
    free_pages True t \<union> free_pages False t = free_pages True s \<union> free_pages False s \<union>
      (if freeit then (\<lambda>k. PTE_TO_PA (pt_entry (mem s) root (va + of_nat k * PGSIZE))) ` {..<n} else {})"
proof -
  have al: "aligned 12 va" using assms(2) by (simp add: aligned_def take_bit_eq_mod)
  obtain t where t: "unmappages_loop AB root va (va + of_nat n * PGSIZE) freeit s = Inr t" "pt_inv t root"
      "pt_tables (mem t) root = pt_tables (mem s) root"
      "\<And>x. pt_entry (mem t) root x =
         (if \<exists>k < n. vpage x = vpage (va + of_nat k * PGSIZE) then 0 else pt_entry (mem s) root x)"
      "free_pages True t \<union> free_pages False t = free_pages True s \<union> free_pages False s \<union>
        (if freeit then (\<lambda>k. PTE_TO_PA (pt_entry (mem s) root (va + of_nat k * PGSIZE))) ` {..<n} else {})"
    using unmappages_loop_ok [OF assms(1) al assms(3,4)] by blast
  have "(\<exists>k < n. vpage x = vpage (va + of_nat k * PGSIZE)) \<longleftrightarrow>
      unat va div 4096 \<le> unat x div 4096 \<and> unat x div 4096 < unat va div 4096 + n" if x: "unat x < 2 ^ 39" for x
  proof -
    have "vpage x = vpage (va + of_nat k * PGSIZE) \<longleftrightarrow> unat x div 4096 = unat va div 4096 + k" if k: "k < n" for k
    proof -
      have "unat va + 4096 * (n - 1) < 0x4000000000" using k assms(3) by (cases n) auto
      from vpage_range_iff [OF al this _ x, of k] k show ?thesis by simp
    qed
    then have "(\<exists>k < n. vpage x = vpage (va + of_nat k * PGSIZE)) \<longleftrightarrow>
        (\<exists>k < n. unat x div 4096 = unat va div 4096 + k)" by auto
    also have "\<dots> \<longleftrightarrow> unat va div 4096 \<le> unat x div 4096 \<and> unat x div 4096 < unat va div 4096 + n"
      by (auto intro: exI [of _ "unat x div 4096 - unat va div 4096"])
    finally show ?thesis .
  qed
  then show ?thesis using t assms(2) by (auto simp: vm_unmappages_def)
qed

theorem vm_unmappages_correct_witness:
  "\<exists>s t. pt_inv s 0x1000 \<and> pt_entry (mem s) 0x1000 0x5000 \<noteq> 0 \<and>
     vm_unmappages 0 0x1000 0x5000 PGSIZE False s = Inr t \<and> pt_entry (mem t) 0x1000 0x5000 = 0"
proof -
  have "\<not> (card (free_pages True vm_small) < 2 *
      (((unat (0x5000 :: u64) + unat PGSIZE - 1) div 4096 - unat (0x5000 :: u64) div 4096) + 1))"
    by (simp add: vm_small_free)
  then obtain s where s: "pt_inv s 0x1000"
      "pages_set (PG_ROUND_DOWN 0x5000) 0 (\<lambda>k. PA_TO_PTE (0x4000 + of_nat k * PGSIZE) OR PTE_R OR PTE_V) 0x1000 vm_small s"
    using vm_mappages_pages [OF vm_small_inv, of PGSIZE "0x5000" "0x4000" PTE_R] by auto
  have "PG_ROUND_DOWN 0x5000 = 0x5000" by (simp add: PG_ROUND_DOWN_def)
  then have e: "pt_entry (mem s) 0x1000 0x5000 = 0x1003"
    using s(2) by (simp add: pages_set_def PA_TO_PTE_def)
  have "unmappable 0 0x1000 0x5000 1 False s"
    by (simp add: unmappable_def Let_def e PTE_FLAGS_def)
  from vm_unmappages_correct [OF s(1) _ _ this] obtain t where
    "vm_unmappages 0 0x1000 0x5000 PGSIZE False s = Inr t" "pt_entry (mem t) 0x1000 0x5000 = 0"
    by (auto dest!: spec [of _ "0x5000"])
  with e s(1) show ?thesis by auto
qed

end
