(* ===== verification/Uvm.thy ===== *)
theory Uvm
  imports Vmem Mmap
begin

text \<open>
  \<^verbatim>\<open>kernel/mem/uvm.c\<close>: user address spaces.  Copying and destroying page tables, the heap, the mmap
  regions of a process and the copies between user and kernel memory.  The list of the mmap
  regions of a process is linked by the inner \<^verbatim>\<open>next\<close> of the descriptors; its head is \<^verbatim>\<open>p->mmap\<close>,
  which \<open>uvm_mmap\<close> and \<open>uvm_munmap\<close> take and return with the page table \<^verbatim>\<open>p->pgtbl\<close> as an argument.
  Products of a \<^verbatim>\<open>uint32\<close> page count with \<^verbatim>\<open>PGSIZE\<close> are 32-bit, as in the code.  Writing through a
  NULL pointer is \<open>Undefined\<close>.
\<close>

section \<open>Definitions\<close>

abbreviation pages_bytes :: "u32 \<Rightarrow> u64" where
  "pages_bytes n \<equiv> ucast (n * 4096)"

text \<open>The copy of one page into a fresh user page that is mapped at the same address.\<close>

definition copy_page :: "u64 \<Rightarrow> u64 \<Rightarrow> u64 \<Rightarrow> pmem \<Rightarrow> pmem res" where
  "copy_page new va pte_val s =
     (let pa = PTE_TO_PA pte_val; flags = PTE_FLAGS pte_val; (page, s) = pmem_alloc False s
      in if page = 0 then Inl Undefined
         else vm_mappages new va page PGSIZE flags (s\<lparr>mem := memmove (mem s) page pa 4096\<rparr>))"

function copy_range :: "u64 \<Rightarrow> u64 \<Rightarrow> u64 \<Rightarrow> u64 \<Rightarrow> pmem \<Rightarrow> pmem res" where
  "copy_range old new va end_va s =
     (if va < end_va
      then bindr (vm_getpte old va False s) (\<lambda>(pte, s).
           bindr (assert_that (pte \<noteq> 0) ''uvm_copy_pgtbl: pte == NULL'') (\<lambda>_.
           bindr (assert_that (load64 (mem s) pte AND PTE_V \<noteq> 0) ''uvm_copy_pgtbl: pte not valid'') (\<lambda>_.
           bindr (copy_page new va (load64 (mem s) pte) s) (\<lambda>s.
           copy_range old new (va + PGSIZE) end_va s))))
      else Inr s)"
  by pat_completeness auto
termination
  by (relation "measure (\<lambda>(_, _, va, _). 0x4000000000 + 4096 - unat va)")
     (auto simp: unat_add_page dest: vm_getpte_bound)

text \<open>The heap: only the mapped pages are copied.\<close>

function copy_heap :: "u64 \<Rightarrow> u64 \<Rightarrow> u64 \<Rightarrow> u64 \<Rightarrow> pmem \<Rightarrow> pmem res" where
  "copy_heap old new va end_va s =
     (if va < end_va
      then bindr (vm_getpte old va False s) (\<lambda>(pte, s).
           bindr (if pte \<noteq> 0 \<and> load64 (mem s) pte AND PTE_V \<noteq> 0
                  then copy_page new va (load64 (mem s) pte) s else Inr s) (\<lambda>s.
           copy_heap old new (va + PGSIZE) end_va s))
      else Inr s)"
  by pat_completeness auto
termination
  by (relation "measure (\<lambda>(_, _, va, _). 0x4000000000 + 4096 - unat va)")
     (auto simp: unat_add_page dest: vm_getpte_bound)

declare copy_range.simps [simp del] copy_heap.simps [simp del]

text \<open>The regions of the process.  Its list has at most \<^verbatim>\<open>N_MMAP\<close> nodes; a longer run means a cycle.\<close>

fun copy_regions :: "nat \<Rightarrow> u64 \<Rightarrow> u64 \<Rightarrow> mmap_store \<Rightarrow> nat option \<Rightarrow> pmem \<Rightarrow> pmem res" where
  "copy_regions fuel old new mm None s = Inr s"
| "copy_regions 0 old new mm (Some tmp) s = Inl Hang"
| "copy_regions (Suc fuel) old new mm (Some tmp) s =
     (let r = regions mm tmp
      in bindr (copy_range old new (m_begin r) (m_begin r + pages_bytes (npages r)) s) (\<lambda>s.
         copy_regions fuel old new mm (m_next r) s))"

definition uvm_copy_pgtbl ::
    "u64 \<Rightarrow> u64 \<Rightarrow> u64 \<Rightarrow> u64 \<Rightarrow> u32 \<Rightarrow> nat option \<Rightarrow> mmap_store \<Rightarrow> pmem \<Rightarrow> pmem res" where
  "uvm_copy_pgtbl old new heap_top ustack_base ustack_pages mmap mm s =
     bindr (copy_range old new 0 PGSIZE s) (\<lambda>s.
     bindr (if PGSIZE < heap_top then copy_heap old new PGSIZE (PG_ROUND_UP heap_top) s else Inr s) (\<lambda>s.
     bindr (if 0 < ustack_pages
            then copy_range old new ustack_base (ustack_base + pages_bytes ustack_pages) s else Inr s) (\<lambda>s.
     copy_regions N_MMAP old new mm mmap s)))"

text \<open>\<^verbatim>\<open>mmap_merge\<close>; NULL arguments are excluded by its caller, so both are node numbers.\<close>

definition mmap_merge :: "nat \<Rightarrow> nat \<Rightarrow> bool \<Rightarrow> mmap_store \<Rightarrow> mmap_store res" where
  "mmap_merge m1 m2 keep_mmap_1 mm =
     (let r1 = regions mm m1; r2 = regions mm m2
      in bindr (assert_that (m_begin r1 + pages_bytes (npages r1) = m_begin r2) ''mmap_merge: check fail'') (\<lambda>_.
         Inr (if keep_mmap_1
              then mmap_region_free m2
                     (mm\<lparr>regions := (regions mm)(m1 := r1\<lparr>npages := npages r1 + npages r2\<rparr>)\<rparr>)
              else mmap_region_free m1
                     (mm\<lparr>regions := (regions mm)(m2 := r2\<lparr>m_begin := m_begin r2 - pages_bytes (npages r1),
                                                     npages := npages r2 + npages r1\<rparr>)\<rparr>))))"

text \<open>\<^verbatim>\<open>destroy_pgtbl\<close>: the loops over the 512 entries of a table.\<close>

primrec each_entry :: "(nat \<Rightarrow> pmem \<Rightarrow> pmem res) \<Rightarrow> nat \<Rightarrow> pmem \<Rightarrow> pmem res" where
  "each_entry f 0 s = Inr s"
| "each_entry f (Suc i) s = bindr (each_entry f i s) (f i)"

primrec destroy_pgtbl :: "nat \<Rightarrow> u64 \<Rightarrow> pmem \<Rightarrow> pmem res" where
  "destroy_pgtbl 0 pgtbl s =
     each_entry (\<lambda>i s. let pte = load64 (mem s) (pgtbl + 8 * of_nat i)
       in if pte AND PTE_V \<noteq> 0 \<and> \<not> PTE_CHECK pte then pmem_free (PTE_TO_PA pte) False s else Inr s) 512 s"
| "destroy_pgtbl (Suc level) pgtbl s =
     each_entry (\<lambda>i s. let pte = load64 (mem s) (pgtbl + 8 * of_nat i)
       in if pte AND PTE_V \<noteq> 0 \<and> PTE_CHECK pte
          then bindr (destroy_pgtbl level (PTE_TO_PA pte) s) (pmem_free (PTE_TO_PA pte) True) else Inr s) 512 s"

definition clear_pte :: "u64 \<Rightarrow> u64 \<Rightarrow> pmem \<Rightarrow> pmem res" where
  "clear_pte pgtbl va s =
     bindr (vm_getpte pgtbl va False s) (\<lambda>(pte, s).
     Inr (if pte \<noteq> 0 then s\<lparr>mem := store64 (mem s) pte 0\<rparr> else s))"

definition uvm_destroy_pgtbl :: "u64 \<Rightarrow> pmem \<Rightarrow> pmem res" where
  "uvm_destroy_pgtbl pgtbl s =
     bindr (clear_pte pgtbl TRAMPOLINE s) (\<lambda>s.
     bindr (clear_pte pgtbl TRAPFRAME s) (\<lambda>s.
     bindr (destroy_pgtbl 2 pgtbl s) (\<lambda>s.
     pmem_free pgtbl False s)))"

text \<open>\<^verbatim>\<open>uvm_mmap\<close>: the region goes to the front of the list, then its pages are mapped.\<close>

primrec mmap_pages :: "nat \<Rightarrow> u32 \<Rightarrow> u64 \<Rightarrow> u64 \<Rightarrow> u64 \<Rightarrow> pmem \<Rightarrow> pmem res" where
  "mmap_pages 0 i pgtbl begin perm s = Inr s"
| "mmap_pages (Suc k) i pgtbl begin perm s =
     (let va = begin + pages_bytes i; (pa, s) = pmem_alloc False s
      in bindr (assert_that (pa \<noteq> 0) ''uvm_mmap: out of memory'') (\<lambda>_.
         bindr (vm_mappages pgtbl va pa PGSIZE (perm OR PTE_U) s) (\<lambda>s.
         mmap_pages k (i + 1) pgtbl begin perm s)))"

definition uvm_mmap ::
    "u64 \<Rightarrow> u32 \<Rightarrow> u64 \<Rightarrow> u64 \<Rightarrow> nat option \<Rightarrow> mmap_store \<Rightarrow> pmem \<Rightarrow> (nat option \<times> mmap_store \<times> pmem) res" where
  "uvm_mmap begin n perm pgtbl mmap mm s =
     (if n = 0 then Inr (mmap, mm, s)
      else bindr (assert_that (begin mod PGSIZE = 0) ''uvm_mmap: begin not aligned'') (\<lambda>_.
        bindr (mmap_region_alloc mm) (\<lambda>(new_region, mm).
        let mm = mm\<lparr>regions := (regions mm)(new_region := \<lparr>m_begin = begin, npages = n, m_next = mmap\<rparr>)\<rparr>
        in bindr (mmap_pages (unat n) 0 pgtbl begin perm s) (\<lambda>s.
           Inr (Some new_region, mm, s)))))"

text \<open>
  \<^verbatim>\<open>uvm_munmap\<close>: the walk along the list with \<^verbatim>\<open>prev_ptr\<close>, which points to \<^verbatim>\<open>p->mmap\<close> (\<open>None\<close>) or to the
  \<^verbatim>\<open>next\<close> of a region.
\<close>

definition set_link :: "nat option \<Rightarrow> nat option \<Rightarrow> nat option \<times> mmap_store \<Rightarrow> nat option \<times> mmap_store" where
  "set_link prev v = (\<lambda>(head, mm).
     case prev of None \<Rightarrow> (v, mm)
     | Some q \<Rightarrow> (head, mm\<lparr>regions := (regions mm)(q := (regions mm q)\<lparr>m_next := v\<rparr>)\<rparr>))"

definition set_region :: "nat \<Rightarrow> mmap_region \<Rightarrow> mmap_store \<Rightarrow> mmap_store" where
  "set_region i r mm = mm\<lparr>regions := (regions mm)(i := r)\<rparr>"

fun munmap_walk ::
    "nat \<Rightarrow> u64 \<Rightarrow> u64 \<Rightarrow> nat option \<Rightarrow> nat option \<Rightarrow> nat option \<times> mmap_store \<Rightarrow> (nat option \<times> mmap_store) res" where
  "munmap_walk fuel begin en prev None l = Inr l"
| "munmap_walk 0 begin en prev (Some cur) l = Inl Hang"
| "munmap_walk (Suc fuel) begin en prev (Some cur) (head, mm) =
     (let r = regions mm cur; curr_begin = m_begin r; curr_end = curr_begin + pages_bytes (npages r)
      in if curr_end \<le> begin \<or> en \<le> curr_begin
         then munmap_walk fuel begin en (Some cur) (m_next r) (head, mm)
         else if begin \<le> curr_begin \<and> curr_end \<le> en
         then let (head, mm) = set_link prev (m_next r) (head, mm);
                  mm = mmap_region_free cur mm
           in munmap_walk fuel begin en prev (m_next r) (head, mm)
         else if curr_begin < begin \<and> en < curr_end
         then let npages_before = ucast ((begin - curr_begin) div PGSIZE);
                  npages_after = ucast ((curr_end - en) div PGSIZE);
                  mm = set_region cur (r\<lparr>npages := npages_before\<rparr>) mm
           in bindr (mmap_region_alloc mm) (\<lambda>(new_region, mm).
              let nxt = m_next (regions mm cur);
                  mm = set_region new_region \<lparr>m_begin = en, npages = npages_after, m_next = nxt\<rparr> mm;
                  mm = set_region cur ((regions mm cur)\<lparr>m_next := Some new_region\<rparr>) mm
              in munmap_walk fuel begin en (Some new_region) (m_next (regions mm new_region)) (head, mm))
         else if curr_begin < begin
         then munmap_walk fuel begin en (Some cur) (m_next r)
                (head, set_region cur (r\<lparr>npages := ucast ((begin - curr_begin) div PGSIZE)\<rparr>) mm)
         else munmap_walk fuel begin en (Some cur) (m_next r)
                (head, set_region cur (r\<lparr>m_begin := en, npages := ucast ((curr_end - en) div PGSIZE)\<rparr>) mm))"

text \<open>The second loop merges neighbours.  A merge does not unlink the region it frees, so the loop goes on with
  the same \<^verbatim>\<open>curr\<close>; a region of 0 pages would be merged for ever.\<close>

fun merge_walk :: "nat \<Rightarrow> nat option \<Rightarrow> mmap_store \<Rightarrow> mmap_store res" where
  "merge_walk fuel None mm = Inr mm"
| "merge_walk 0 (Some cur) mm = Inl Hang"
| "merge_walk (Suc fuel) (Some cur) mm =
     (let r = regions mm cur
      in case m_next r of None \<Rightarrow> Inr mm
         | Some n \<Rightarrow>
             if m_begin r + pages_bytes (npages r) = m_begin (regions mm n)
             then bindr (mmap_merge cur n True mm) (merge_walk fuel (Some cur))
             else merge_walk fuel (Some n) mm)"

definition uvm_munmap ::
    "u64 \<Rightarrow> u64 \<Rightarrow> u32 \<Rightarrow> u64 \<Rightarrow> nat option \<Rightarrow> mmap_store \<Rightarrow> pmem \<Rightarrow> (nat option \<times> mmap_store \<times> pmem) res" where
  "uvm_munmap ALLOC_BEGIN begin n pgtbl mmap mm s =
     (if n = 0 then Inr (mmap, mm, s)
      else bindr (assert_that (begin mod PGSIZE = 0) ''uvm_munmap: begin not aligned'') (\<lambda>_.
        let en = begin + pages_bytes n
        in bindr (munmap_walk (2 * N_MMAP) begin en None mmap (mmap, mm)) (\<lambda>(mmap, mm).
           bindr (merge_walk (2 * N_MMAP) mmap mm) (\<lambda>mm.
           bindr (vm_unmappages ALLOC_BEGIN pgtbl begin (pages_bytes n) True s) (\<lambda>s.
           Inr (mmap, mm, s))))))"

text \<open>The heap.\<close>

primrec heap_pages :: "nat \<Rightarrow> u32 \<Rightarrow> u64 \<Rightarrow> u64 \<Rightarrow> pmem \<Rightarrow> pmem res" where
  "heap_pages 0 i pgtbl old_top s = Inr s"
| "heap_pages (Suc k) i pgtbl old_top s =
     (let va = old_top + pages_bytes i; (pa, s) = pmem_alloc False s
      in bindr (assert_that (pa \<noteq> 0) ''uvm_heap_grow: out of memory'') (\<lambda>_.
         bindr (memset (mem s) pa 0 4096) (\<lambda>m.
         bindr (vm_mappages pgtbl va pa PGSIZE (PTE_R OR PTE_W OR PTE_U) (s\<lparr>mem := m\<rparr>)) (\<lambda>s.
         heap_pages k (i + 1) pgtbl old_top s))))"

definition uvm_heap_grow :: "u64 \<Rightarrow> u64 \<Rightarrow> u32 \<Rightarrow> pmem \<Rightarrow> (u64 \<times> pmem) res" where
  "uvm_heap_grow pgtbl heap_top len s =
     (let new_heap_top = heap_top + ucast len
      in bindr (assert_that (new_heap_top < TRAPFRAME) ''uvm_heap_grow: heap grows too large'') (\<lambda>_.
         let old_top_aligned = PG_ROUND_UP heap_top; new_top_aligned = PG_ROUND_UP new_heap_top
         in bindr (if old_top_aligned < new_top_aligned
                   then heap_pages (unat (ucast ((new_top_aligned - old_top_aligned) div PGSIZE) :: u32)) 0
                          pgtbl old_top_aligned s
                   else Inr s) (\<lambda>s.
            Inr (new_heap_top, s))))"

definition uvm_heap_ungrow :: "u64 \<Rightarrow> u64 \<Rightarrow> u64 \<Rightarrow> u32 \<Rightarrow> pmem \<Rightarrow> (u64 \<times> pmem) res" where
  "uvm_heap_ungrow ALLOC_BEGIN pgtbl heap_top len s =
     (let new_heap_top = heap_top - ucast len
      in bindr (assert_that (PGSIZE \<le> new_heap_top) ''uvm_heap_ungrow: heap shrinks too much'') (\<lambda>_.
         let new_top_aligned = PG_ROUND_UP new_heap_top; old_top_aligned = PG_ROUND_UP heap_top
         in bindr (if new_top_aligned < old_top_aligned
                   then vm_unmappages ALLOC_BEGIN pgtbl new_top_aligned (old_top_aligned - new_top_aligned) True s
                   else Inr s) (\<lambda>s.
            Inr (new_heap_top, s))))"

text \<open>The copies.  A round copies what is left on the current page.\<close>

lemma page_offset: "src - PG_ROUND_DOWN src = take_bit 12 src"
  by (simp add: round_down_plus)

lemma page_offset_lt: "unat (src - PG_ROUND_DOWN src) < 4096"
proof -
  have "unat (take_bit 12 src) = take_bit 12 (unat src)" by (rule unsigned_take_bit_eq)
  also have "\<dots> < 2 ^ 12" by (rule take_bit_nat_less_exp)
  finally show ?thesis by (simp add: page_offset)
qed

definition page_part :: "u64 \<Rightarrow> nat \<Rightarrow> nat" where
  "page_part a len = min (4096 - unat (a - PG_ROUND_DOWN a)) len"

lemma page_part_pos [simp]: "0 < len \<Longrightarrow> 0 < page_part a len"
  using page_offset_lt [of a] by (simp add: page_part_def)

lemma page_part_le: "page_part a len \<le> len" "unat (a - PG_ROUND_DOWN a) + page_part a len \<le> 4096"
  using page_offset_lt [of a] by (simp_all add: page_part_def)

function copyin_loop :: "u64 \<Rightarrow> u64 \<Rightarrow> u64 \<Rightarrow> nat \<Rightarrow> pmem \<Rightarrow> pmem res" where
  "copyin_loop pgtbl dst src len s =
     (if 0 < len
      then let va = PG_ROUND_DOWN src
        in bindr (vm_getpte pgtbl va False s) (\<lambda>(pte, s).
           bindr (assert_that (pte \<noteq> 0) ''uvm_copyin: pte is NULL'') (\<lambda>_.
           bindr (assert_that (load64 (mem s) pte AND PTE_V \<noteq> 0) ''uvm_copyin: page not present'') (\<lambda>_.
           let pa = PTE_TO_PA (load64 (mem s) pte); n = page_part src len
           in copyin_loop pgtbl (dst + of_nat n) (src + of_nat n) (len - n)
                (s\<lparr>mem := memmove (mem s) dst (pa + (src - va)) (of_nat n)\<rparr>))))
      else Inr s)"
  by pat_completeness auto
termination by (relation "measure (\<lambda>(_, _, _, len, _). len)") auto

definition uvm_copyin :: "u64 \<Rightarrow> u64 \<Rightarrow> u64 \<Rightarrow> u32 \<Rightarrow> pmem \<Rightarrow> pmem res" where
  "uvm_copyin pgtbl dst src len s = copyin_loop pgtbl dst src (unat len) s"

function copyout_loop :: "u64 \<Rightarrow> u64 \<Rightarrow> u64 \<Rightarrow> nat \<Rightarrow> pmem \<Rightarrow> pmem res" where
  "copyout_loop pgtbl dst src len s =
     (if 0 < len
      then let va = PG_ROUND_DOWN dst
        in bindr (vm_getpte pgtbl va False s) (\<lambda>(pte, s).
           bindr (assert_that (pte \<noteq> 0) ''uvm_copyout: pte is NULL'') (\<lambda>_.
           bindr (assert_that (load64 (mem s) pte AND PTE_V \<noteq> 0) ''uvm_copyout: page not present'') (\<lambda>_.
           let pa = PTE_TO_PA (load64 (mem s) pte); n = page_part dst len
           in copyout_loop pgtbl (dst + of_nat n) (src + of_nat n) (len - n)
                (s\<lparr>mem := memmove (mem s) (pa + (dst - va)) src (of_nat n)\<rparr>))))
      else Inr s)"
  by pat_completeness auto
termination by (relation "measure (\<lambda>(_, _, _, len, _). len)") auto

definition uvm_copyout :: "u64 \<Rightarrow> u64 \<Rightarrow> u64 \<Rightarrow> u32 \<Rightarrow> pmem \<Rightarrow> pmem res" where
  "uvm_copyout pgtbl dst src len s = copyout_loop pgtbl dst src (unat len) s"

text \<open>The same copies where the kernel side is a buffer that is modelled as a list of bytes (the data of a
  cached disk block) and not as part of the byte memory.\<close>

function copyin_bytes :: "u64 \<Rightarrow> u64 \<Rightarrow> nat \<Rightarrow> pmem \<Rightarrow> byte list res" where
  "copyin_bytes pgtbl src len s =
     (if 0 < len
      then let va = PG_ROUND_DOWN src
        in bindr (vm_getpte pgtbl va False s) (\<lambda>(pte, s).
           bindr (assert_that (pte \<noteq> 0) ''uvm_copyin: pte is NULL'') (\<lambda>_.
           bindr (assert_that (load64 (mem s) pte AND PTE_V \<noteq> 0) ''uvm_copyin: page not present'') (\<lambda>_.
           let pa = PTE_TO_PA (load64 (mem s) pte); n = page_part src len
           in bindr (copyin_bytes pgtbl (src + of_nat n) (len - n) s) (\<lambda>bs.
              Inr (load_bytes (mem s) (pa + (src - va)) n @ bs)))))
      else Inr [])"
  by pat_completeness auto
termination by (relation "measure (\<lambda>(_, _, len, _). len)") auto

function copyout_bytes :: "u64 \<Rightarrow> u64 \<Rightarrow> byte list \<Rightarrow> pmem \<Rightarrow> pmem res" where
  "copyout_bytes pgtbl dst bs s =
     (if bs \<noteq> []
      then let va = PG_ROUND_DOWN dst
        in bindr (vm_getpte pgtbl va False s) (\<lambda>(pte, s).
           bindr (assert_that (pte \<noteq> 0) ''uvm_copyout: pte is NULL'') (\<lambda>_.
           bindr (assert_that (load64 (mem s) pte AND PTE_V \<noteq> 0) ''uvm_copyout: page not present'') (\<lambda>_.
           let pa = PTE_TO_PA (load64 (mem s) pte); n = page_part dst (length bs)
           in copyout_bytes pgtbl (dst + of_nat n) (drop n bs)
                (s\<lparr>mem := store_bytes (mem s) (pa + (dst - va)) (take n bs)\<rparr>))))
      else Inr s)"
  by pat_completeness auto
termination by (relation "measure (\<lambda>(_, _, bs, _). length bs)") auto

text \<open>\<^verbatim>\<open>uvm_copyin_str\<close>: the inner loop over the bytes of a page also says whether it met the NUL.\<close>

primrec str_bytes :: "nat \<Rightarrow> mem \<Rightarrow> u64 \<Rightarrow> u64 \<Rightarrow> mem \<times> bool" where
  "str_bytes 0 m dst_ptr src_ptr = (m, False)"
| "str_bytes (Suc k) m dst_ptr src_ptr =
     (let m = m(dst_ptr := m src_ptr)
      in if m src_ptr = 0 then (m, True) else str_bytes k m (dst_ptr + 1) (src_ptr + 1))"

function copyin_str_loop :: "u64 \<Rightarrow> u64 \<Rightarrow> u64 \<Rightarrow> nat \<Rightarrow> pmem \<Rightarrow> (bool \<times> pmem) res" where
  "copyin_str_loop pgtbl dst_ptr src maxlen s =
     (if 0 < maxlen
      then let va = PG_ROUND_DOWN src
        in bindr (vm_getpte pgtbl va False s) (\<lambda>(pte, s).
           bindr (assert_that (pte \<noteq> 0) ''uvm_copyin_str: pte is NULL'') (\<lambda>_.
           bindr (assert_that (load64 (mem s) pte AND PTE_V \<noteq> 0) ''uvm_copyin_str: page not present'') (\<lambda>_.
           let pa = PTE_TO_PA (load64 (mem s) pte); n = page_part src maxlen;
               (m, found_null) = str_bytes n (mem s) dst_ptr (pa + (src - va))
           in if found_null then Inr (True, s\<lparr>mem := m\<rparr>)
              else copyin_str_loop pgtbl (dst_ptr + of_nat n) (src + of_nat n) (maxlen - n) (s\<lparr>mem := m\<rparr>))))
      else Inr (False, s))"
  by pat_completeness auto
termination by (relation "measure (\<lambda>(_, _, _, maxlen, _). maxlen)") auto

definition uvm_copyin_str :: "u64 \<Rightarrow> u64 \<Rightarrow> u64 \<Rightarrow> u32 \<Rightarrow> pmem \<Rightarrow> pmem res" where
  "uvm_copyin_str pgtbl dst src maxlen s =
     bindr (copyin_str_loop pgtbl dst src (unat maxlen) s) (\<lambda>(found_null, s).
     Inr (if \<not> found_null then s\<lparr>mem := (mem s)(dst - 1 := 0)\<rparr> else s))"

declare copyin_loop.simps [simp del] copyout_loop.simps [simp del] copyin_bytes.simps [simp del]
  copyout_bytes.simps [simp del] copyin_str_loop.simps [simp del]

text \<open>
  Abstraction: the physical address behind a user address, the bytes of a user range, and the bytes
  that page tables occupy.
\<close>

definition translate :: "mem \<Rightarrow> u64 \<Rightarrow> u64 \<Rightarrow> u64" where
  "translate m root va = PTE_TO_PA (pt_entry m root va) + (va - PG_ROUND_DOWN va)"

definition user_bytes :: "mem \<Rightarrow> u64 \<Rightarrow> u64 \<Rightarrow> nat \<Rightarrow> byte list" where
  "user_bytes m root va n = map (\<lambda>i. m (translate m root (va + of_nat i))) [0..<n]"

definition user_mapped :: "mem \<Rightarrow> u64 \<Rightarrow> u64 \<Rightarrow> nat \<Rightarrow> bool" where
  "user_mapped m root va n \<longleftrightarrow> unat va + n \<le> 0x4000000000 \<and>
     (\<forall>i < n. pt_entry m root (va + of_nat i) AND PTE_V \<noteq> 0)"

definition pt_bytes :: "mem \<Rightarrow> u64 \<Rightarrow> u64 set" where
  "pt_bytes m root = {t + of_nat k | t k. t \<in> pt_tables m root \<and> k < 4096}"

section \<open>Translation\<close>

lemma round_down_drop: "PG_ROUND_DOWN x = push_bit 12 (drop_bit 12 x)"
proof (rule bit_word_eqI)
  fix n :: nat assume n: "n < LENGTH(64)"
  have m: "PGSIZE - 1 = mask 12" by (simp add: mask_eq_exp_minus_1)
  show "bit (PG_ROUND_DOWN x) n = bit (push_bit 12 (drop_bit 12 x)) n"
    unfolding PG_ROUND_DOWN_def m using n by (auto simp: bit_simps)
qed

lemma page_part_drop:
  assumes "unat (va - PG_ROUND_DOWN va) + k < 4096"
  shows "drop_bit 12 (va + of_nat k) = drop_bit 12 va"
proof -
  obtain p where p: "va = PG_ROUND_DOWN va + of_nat p" "p + k < 4096"
    using assms by (intro that [of "unat (va - PG_ROUND_DOWN va)"]) simp_all
  note al = drop_bit_aligned_add [OF aligned_round_down [of va]]
  have "va + of_nat k = PG_ROUND_DOWN va + of_nat (p + k)" using p(1) by (simp add: add.assoc [symmetric])
  moreover have "drop_bit 12 (PG_ROUND_DOWN va + of_nat (p + k)) = drop_bit 12 (PG_ROUND_DOWN va)"
    using p(2) by (intro al) simp
  moreover have "drop_bit 12 (PG_ROUND_DOWN va + of_nat p) = drop_bit 12 (PG_ROUND_DOWN va)"
    using p(2) by (intro al) simp
  ultimately show ?thesis using p(1) by (simp only:)
qed

lemma page_part_same:
  assumes "k < page_part va len"
  shows "pt_entry m root (va + of_nat k) = pt_entry m root va"
    and "translate m root (va + of_nat k) = translate m root va + of_nat k"
proof -
  have d: "drop_bit 12 (va + of_nat k) = drop_bit 12 va"
    using assms page_part_le(2) [of va len] by (intro page_part_drop) simp
  then show e: "pt_entry m root (va + of_nat k) = pt_entry m root va"
    by (intro pt_entry_cong) (simp add: vpage_def)
  have "PG_ROUND_DOWN (va + of_nat k) = PG_ROUND_DOWN va" by (simp add: round_down_drop d)
  with e show "translate m root (va + of_nat k) = translate m root va + of_nat k"
    by (simp add: translate_def)
qed

lemma pt_entry_round_down: "pt_entry m root (PG_ROUND_DOWN va) = pt_entry m root va"
proof (rule pt_entry_cong)
  have "drop_bit 12 (push_bit 12 (drop_bit 12 va)) = drop_bit 12 va"
    by (rule bit_word_eqI) (auto simp: bit_simps dest: bit_imp_le_length)
  then show "vpage (PG_ROUND_DOWN va) = vpage va" by (simp add: vpage_def round_down_drop)
qed

text \<open>The walk of a copy round finds the entry.\<close>

lemma user_pte:
  assumes tr: "pt_tree (mem s) root" and "unat va < 0x4000000000" and v: "pt_entry (mem s) root va AND PTE_V \<noteq> 0"
  obtains pte where "vm_getpte root (PG_ROUND_DOWN va) False s = Inr (pte, s)" "pte \<noteq> 0"
    "load64 (mem s) pte = pt_entry (mem s) root va"
proof -
  obtain t where t: "table (mem s) root (leaf_path (PG_ROUND_DOWN va)) = Some t"
      "pt_entry (mem s) root (PG_ROUND_DOWN va) = load64 (mem s) (t + 8 * VA_TO_VPN (PG_ROUND_DOWN va) 0)"
    using v pt_entry_valid [of "mem s" root "PG_ROUND_DOWN va"] by (auto simp: pt_entry_round_down)
  have "unat (PG_ROUND_DOWN va) < 0x4000000000" using assms(2) by (simp add: unat_round_down)
  note r = vm_getpte_read [OF this]
  show thesis
    using pt_treeD(1,2) [OF tr pt_path_vpn(1) t(1)] t r [of root s]
    by (intro that [of "t + 8 * VA_TO_VPN (PG_ROUND_DOWN va) 0"])
       (auto simp: pt_entry_round_down dest: entry_nonzero [OF _ _ vpn_lt])
qed

lemma user_bytes_split: "user_bytes m root va (n + k) = user_bytes m root va n @ user_bytes m root (va + of_nat n) k"
proof -
  have "[0..<n + k] = [0..<n] @ map (\<lambda>i. n + i) [0..<k]"
    using upt_add_eq_append [of 0 n k] map_add_upt [of n k] by (simp add: add.commute)
  then show ?thesis by (simp add: user_bytes_def add.assoc)
qed

lemma load_bytes_append: "load_bytes m a (n + k) = load_bytes m a n @ load_bytes m (a + of_nat n) k"
proof -
  have "[0..<n + k] = [0..<n] @ map (\<lambda>i. n + i) [0..<k]"
    using upt_add_eq_append [of 0 n k] map_add_upt [of n k] by (simp add: add.commute)
  then show ?thesis by (simp add: load_bytes_def add.assoc)
qed

lemma user_bytes_page:
  "n \<le> page_part va len \<Longrightarrow> user_bytes m root va n = load_bytes m (translate m root va) n"
  by (auto simp: user_bytes_def load_bytes_def page_part_same(2) [where len = len])

lemma user_mapped_head:
  assumes "user_mapped m root va n" and "0 < n"
  shows "unat va < 0x4000000000" "pt_entry m root va AND PTE_V \<noteq> 0"
  using assms by (auto simp: user_mapped_def dest: spec [of _ 0])

lemma user_mapped_drop:
  assumes "user_mapped m root va n" and "k \<le> n"
  shows "user_mapped m root (va + of_nat k) (n - k)"
proof -
  have "unat va + k \<le> 0x4000000000" using assms by (simp add: user_mapped_def)
  then have lt: "unat va + k < 2 ^ 64" "k < 2 ^ 64" by simp_all
  have uk: "unat (of_nat k :: u64) = k" by (rule unat_of_nat64 [OF lt(2)])
  have "unat va + unat (of_nat k :: u64) < 2 ^ LENGTH(64)" unfolding uk using lt(1) by simp
  from iffD1 [OF unat_add_lem this] have u: "unat (va + of_nat k) = unat va + k" by (simp only: uk)
  have "pt_entry m root (va + of_nat k + of_nat i) AND PTE_V \<noteq> 0" if "i < n - k" for i
    using assms that unfolding user_mapped_def by (auto simp: add.assoc dest: spec [of _ "k + i"])
  then show ?thesis using assms u by (simp add: user_mapped_def)
qed

section \<open>Copying from user space\<close>

lemma copyin_bytes_eq:
  assumes "pt_tree (mem s) root" and "user_mapped (mem s) root src len"
  shows "copyin_bytes root src len s = Inr (user_bytes (mem s) root src len)"
  using assms(2)
proof (induction len arbitrary: src rule: less_induct)
  case (less len)
  show ?case
  proof (cases "0 < len")
    case False
    then show ?thesis by (subst copyin_bytes.simps) (simp add: user_bytes_def)
  next
    case True
    let ?n = "page_part src len"
    note h = user_mapped_head [OF less.prems True]
    obtain pte where pte: "vm_getpte root (PG_ROUND_DOWN src) False s = Inr (pte, s)" "pte \<noteq> 0"
        "load64 (mem s) pte = pt_entry (mem s) root src"
      by (rule user_pte [OF assms(1) h])
    have "copyin_bytes root (src + of_nat ?n) (len - ?n) s = Inr (user_bytes (mem s) root (src + of_nat ?n) (len - ?n))"
      using page_part_pos [OF True, of src] page_part_le(1) [of src len] True
      by (intro less.IH user_mapped_drop [OF less.prems]) auto
    then have "copyin_bytes root src len s =
        Inr (load_bytes (mem s) (translate (mem s) root src) ?n @ user_bytes (mem s) root (src + of_nat ?n) (len - ?n))"
      using pte h True by (subst copyin_bytes.simps) (simp add: Let_def translate_def)
    also have "\<dots> = Inr (user_bytes (mem s) root src len)"
      using user_bytes_split [of "mem s" root src ?n "len - ?n"] user_bytes_page [of ?n src len "mem s" root]
        page_part_le(1) [of src len] by simp
    finally show ?thesis .
  qed
qed

text \<open>Stores outside the page tables keep the translation.\<close>

lemma pt_bytes_same_page:
  "(\<And>a. a \<in> pt_bytes m root \<Longrightarrow> m' a = m a) \<Longrightarrow> t \<in> pt_tables m root \<Longrightarrow> same_page t m m'"
  by (auto simp: same_page_def pt_bytes_def)

lemma pt_outside:
  assumes "\<And>a. a \<in> pt_bytes m root \<Longrightarrow> m' a = m a"
  shows "pt_path p \<Longrightarrow> table m' root p = table m root p" "pt_entry m' root x = pt_entry m root x"
    "pt_tables m' root = pt_tables m root" "pt_tree m root \<Longrightarrow> pt_tree m' root" "pt_bytes m' root = pt_bytes m root"
proof -
  have sp: "same_page t m m'" if "t \<in> pt_tables m root" for t
    using assms that by (rule pt_bytes_same_page)
  have tb: "table m' root p = table m root p" if p: "pt_path p" for p
  proof (rule table_same)
    fix q1 j q2 t assume s: "p = q1 @ j # q2" "table m root q1 = Some t"
    then have q1: "pt_path q1" "j < 512" using p by (auto simp: pt_path_def)
    then have "t \<in> pt_tables m root" using s(2) by (auto simp: pt_tables_def)
    from same_page_load64 [OF sp [OF this] q1(2)] show "load64 m' (t + 8 * j) = load64 m (t + 8 * j)" .
  qed
  then show "pt_path p \<Longrightarrow> table m' root p = table m root p" .
  show tables: "pt_tables m' root = pt_tables m root" using tb by (auto simp: pt_tables_def)
  show "pt_tree m root \<Longrightarrow> pt_tree m' root" unfolding pt_tree_def using tb by metis
  show "pt_bytes m' root = pt_bytes m root" by (simp add: pt_bytes_def tables)
  show "pt_entry m' root x = pt_entry m root x"
  proof (cases "table m root (leaf_path x)")
    case None
    then show ?thesis using tb [OF pt_path_vpn(1)] by (simp add: pt_entry_def)
  next
    case (Some t)
    then have "t \<in> pt_tables m root" using pt_path_vpn(1) [of x] by (auto simp: pt_tables_def)
    from same_page_load64 [OF sp [OF this] vpn_lt] Some show ?thesis
      using tb [OF pt_path_vpn(1), of x] by (simp add: pt_entry_def)
  qed
qed

lemma translate_outside:
  "(\<And>a. a \<in> pt_bytes m root \<Longrightarrow> m' a = m a) \<Longrightarrow> translate m' root x = translate m root x"
  using pt_outside(2) [of m root m'] by (simp add: translate_def)

lemma user_mapped_outside:
  "(\<And>a. a \<in> pt_bytes m root \<Longrightarrow> m' a = m a) \<Longrightarrow> user_mapped m' root va n = user_mapped m root va n"
  using pt_outside(2) [of m root m'] by (simp add: user_mapped_def)

lemma store_bytes_not_in:
  assumes "length bs \<le> 2 ^ 64" and "\<And>j. j < length bs \<Longrightarrow> a \<noteq> d + of_nat j"
  shows "store_bytes m d bs a = m a"
proof -
  have "\<not> unat (a - d) < length bs"
  proof
    assume "unat (a - d) < length bs"
    then have "a \<noteq> d + of_nat (unat (a - d))" by (rule assms(2))
    then show False by simp
  qed
  then show ?thesis using assms(1) by (simp only: store_bytes_apply if_False)
qed

text \<open>The kernel range of a copy: it meets neither the page tables nor the user bytes.\<close>

definition kernel_range :: "mem \<Rightarrow> u64 \<Rightarrow> u64 \<Rightarrow> u64 \<Rightarrow> nat \<Rightarrow> bool" where
  "kernel_range m root k va n \<longleftrightarrow>
     (\<forall>j < n. k + of_nat j \<notin> pt_bytes m root \<and> (\<forall>i < n. k + of_nat j \<noteq> translate m root (va + of_nat i)))"

lemma kernel_range_drop:
  assumes "kernel_range m root k va n" and "c \<le> n"
  shows "kernel_range m root (k + of_nat c) (va + of_nat c) (n - c)"
  unfolding kernel_range_def
proof (intro allI impI conjI)
  fix j assume j: "j < n - c"
  then have "c + j < n" by simp
  then have *: "k + of_nat (c + j) \<notin> pt_bytes m root \<and> (\<forall>i < n. k + of_nat (c + j) \<noteq> translate m root (va + of_nat i))"
    using assms(1) unfolding kernel_range_def by blast
  then show "k + of_nat c + of_nat j \<notin> pt_bytes m root" by (simp add: add.assoc)
  fix i assume "i < n - c"
  then have "c + i < n" by simp
  then have "k + of_nat (c + j) \<noteq> translate m root (va + of_nat (c + i))" using * by blast
  then show "k + of_nat c + of_nat j \<noteq> translate m root (va + of_nat c + of_nat i)" by (simp add: add.assoc)
qed

lemma copyin_loop_eq:
  assumes "pt_tree (mem s) root" and "user_mapped (mem s) root src len" and "kernel_range (mem s) root dst src len"
    and "len < 2 ^ 32"
  shows "copyin_loop root dst src len s = Inr (s\<lparr>mem := store_bytes (mem s) dst (user_bytes (mem s) root src len)\<rparr>)"
  using assms
proof (induction len arbitrary: src dst s rule: less_induct)
  case (less len)
  show ?case
  proof (cases "0 < len")
    case False
    then show ?thesis by (subst copyin_loop.simps) (simp add: user_bytes_def)
  next
    case True
    define n where "n = page_part src len"
    have n: "0 < n" "n \<le> len" "n \<le> page_part src len" using True page_part_le(1) [of src len] by (auto simp: n_def)
    note h = user_mapped_head [OF less.prems(2) True]
    obtain pte where pte: "vm_getpte root (PG_ROUND_DOWN src) False s = Inr (pte, s)" "pte \<noteq> 0"
        "load64 (mem s) pte = pt_entry (mem s) root src"
      by (rule user_pte [OF less.prems(1) h])
    define m where "m = store_bytes (mem s) dst (user_bytes (mem s) root src n)"
    have un: "unat (of_nat n :: u32) = n"
      using n(2) less.prems(4) by (simp add: unat_of_nat take_bit_nat_eq_self)
    have tr: "translate (mem s) root (src + of_nat j) = translate (mem s) root src + of_nat j" if "j < n" for j
      using page_part_same(2) that n(3) by (meson order.strict_trans2)
    have ds: "dst + of_nat i \<noteq> translate (mem s) root src + of_nat j" if "i < n" "j < n" for i j
      using less.prems(3) tr [OF that(2)] that n(2) unfolding kernel_range_def by (metis order.strict_trans2)
    have mv: "memmove (mem s) dst (translate (mem s) root src) (of_nat n) = m"
    proof -
      have "memmove (mem s) dst (translate (mem s) root src) (of_nat n) =
          store_bytes (mem s) dst (load_bytes (mem s) (translate (mem s) root src) (unat (of_nat n :: u32)))"
      proof (rule memmove_disjoint)
        fix j assume "j < unat (of_nat n :: u32)"
        then have j: "j < n" by (simp only: un)
        show "dst \<noteq> translate (mem s) root src + of_nat j" using ds [OF n(1) j] by simp
        show "translate (mem s) root src \<noteq> dst + of_nat j" using ds [OF j n(1)] by simp
      qed
      then show ?thesis by (simp only: un m_def user_bytes_page [OF n(3)])
    qed
    have len_ub: "length (user_bytes (mem s) root src n) = n" by (simp add: user_bytes_def)
    have same: "m a = mem s a" if "\<And>j. j < n \<Longrightarrow> a \<noteq> dst + of_nat j" for a
      unfolding m_def using that n(2) less.prems(4) by (intro store_bytes_not_in) (auto simp: len_ub)
    have pb: "m a = mem s a" if "a \<in> pt_bytes (mem s) root" for a
    proof (rule same)
      fix j assume "j < n"
      then show "a \<noteq> dst + of_nat j" using less.prems(3) that n(2) unfolding kernel_range_def by auto
    qed
    have src_same: "m (translate (mem s) root (src + of_nat i)) = mem s (translate (mem s) root (src + of_nat i))" if "i < len" for i
    proof (rule same)
      fix j assume "j < n"
      then show "translate (mem s) root (src + of_nat i) \<noteq> dst + of_nat j"
        using less.prems(3) that n(2) unfolding kernel_range_def by (metis order.strict_trans2)
    qed
    note po = pt_outside [where m = "mem s" and m' = m and root = root, OF pb]
    have tm: "translate m root x = translate (mem s) root x" for x by (rule translate_outside) (rule pb)
    have "m (translate (mem s) root (src + of_nat n + of_nat i)) = mem s (translate (mem s) root (src + of_nat n + of_nat i))"
      if "i < len - n" for i
      using src_same [of "n + i"] that by (simp add: add.assoc)
    then have rest: "user_bytes m root (src + of_nat n) (len - n) = user_bytes (mem s) root (src + of_nat n) (len - n)"
      by (simp add: user_bytes_def tm)
    have "kernel_range m root (dst + of_nat n) (src + of_nat n) (len - n)"
      using kernel_range_drop [OF less.prems(3) n(2)] po(5) tm by (simp add: kernel_range_def)
    moreover have "user_mapped m root (src + of_nat n) (len - n)"
      using user_mapped_drop [OF less.prems(2) n(2)] po(2) by (simp add: user_mapped_def)
    moreover have "pt_tree m root" using po(4) less.prems(1) by blast
    ultimately have "copyin_loop root (dst + of_nat n) (src + of_nat n) (len - n) (s\<lparr>mem := m\<rparr>) =
        Inr (s\<lparr>mem := store_bytes m (dst + of_nat n) (user_bytes m root (src + of_nat n) (len - n))\<rparr>)"
      using less.IH [of "len - n" "s\<lparr>mem := m\<rparr>"] n True less.prems(4) by simp
    moreover have "copyin_loop root dst src len s = copyin_loop root (dst + of_nat n) (src + of_nat n) (len - n) (s\<lparr>mem := m\<rparr>)"
      using pte h True mv by (subst copyin_loop.simps) (simp add: Let_def translate_def n_def)
    moreover have "store_bytes m (dst + of_nat n) (user_bytes (mem s) root (src + of_nat n) (len - n)) =
        store_bytes (mem s) dst (user_bytes (mem s) root src len)"
      unfolding m_def using store_bytes_append [of "mem s" dst "user_bytes (mem s) root src n"]
        user_bytes_split [of "mem s" root src n "len - n"] n(2) len_ub by simp
    ultimately show ?thesis by (simp only: rest)
  qed
qed

section \<open>Copying to user space\<close>

text \<open>The target of a copy: mapped pages that are no page tables, no two of them the same.\<close>

definition user_target :: "mem \<Rightarrow> u64 \<Rightarrow> u64 \<Rightarrow> nat \<Rightarrow> bool" where
  "user_target m root va n \<longleftrightarrow> user_mapped m root va n \<and>
     (\<forall>i < n. translate m root (va + of_nat i) \<notin> pt_bytes m root) \<and>
     inj_on (\<lambda>i. translate m root (va + of_nat i)) {..<n}"

lemma user_target_drop:
  assumes "user_target m root va n" and "k \<le> n"
  shows "user_target m root (va + of_nat k) (n - k)"
proof -
  have i: "inj_on (\<lambda>i. translate m root (va + of_nat i)) {..<n}" using assms(1) by (simp add: user_target_def)
  have e: "va + of_nat k + of_nat i = va + of_nat (k + i)" for i by (simp add: add.assoc)
  have "inj_on (\<lambda>i. translate m root (va + of_nat k + of_nat i)) {..<n - k}"
  proof (rule inj_onI)
    fix x y assume x: "x \<in> {..<n - k}" "y \<in> {..<n - k}"
      "translate m root (va + of_nat k + of_nat x) = translate m root (va + of_nat k + of_nat y)"
    have "k + x = k + y" by (rule inj_onD [OF i x(3) [unfolded e]]) (use x in auto)
    then show "x = y" by simp
  qed
  moreover have "translate m root (va + of_nat k + of_nat i) \<notin> pt_bytes m root" if "i < n - k" for i
  proof -
    have "k + i < n" using that by simp
    then show ?thesis using assms(1) unfolding e user_target_def by blast
  qed
  ultimately show ?thesis
    using assms user_mapped_drop [of m root va n k] by (simp add: user_target_def)
qed

lemma copyout_bytes_ok:
  assumes "pt_tree (mem s) root" and "user_target (mem s) root dst (length bs)" and "length bs < 2 ^ 32"
  shows "\<exists>m. copyout_bytes root dst bs s = Inr (s\<lparr>mem := m\<rparr>) \<and>
    (\<forall>i < length bs. m (translate (mem s) root (dst + of_nat i)) = bs ! i) \<and>
    (\<forall>a. (\<forall>i < length bs. a \<noteq> translate (mem s) root (dst + of_nat i)) \<longrightarrow> m a = mem s a)"
  using assms
proof (induction "length bs" arbitrary: bs dst s rule: less_induct)
  case less
  show ?case
  proof (cases "bs = []")
    case True
    then show ?thesis by (subst copyout_bytes.simps) (auto intro!: exI [of _ "mem s"])
  next
    case False
    let ?t = "\<lambda>i. translate (mem s) root (dst + of_nat i)"
    have um: "user_mapped (mem s) root dst (length bs)" using less.prems(2) by (simp add: user_target_def)
    define n where "n = page_part dst (length bs)"
    have n: "0 < n" "n \<le> length bs" "n \<le> page_part dst (length bs)"
      using False page_part_le(1) [of dst "length bs"] by (auto simp: n_def)
    from False have "0 < length bs" by simp
    note h = user_mapped_head [OF um this]
    obtain pte where pte: "vm_getpte root (PG_ROUND_DOWN dst) False s = Inr (pte, s)" "pte \<noteq> 0"
        "load64 (mem s) pte = pt_entry (mem s) root dst"
      by (rule user_pte [OF less.prems(1) h])
    have tr: "?t j = ?t 0 + of_nat j" if "j < n" for j
      using page_part_same(2) [of j dst "length bs" "mem s" root] that n(3) by simp
    define m where "m = store_bytes (mem s) (?t 0) (take n bs)"
    have same: "m a = mem s a" if "\<And>j. j < n \<Longrightarrow> a \<noteq> ?t j" for a
      unfolding m_def using that tr n(2) less.prems(3) by (intro store_bytes_not_in) auto
    have wr: "m (?t j) = bs ! j" if "j < n" for j
    proof -
      have "j < 2 ^ 64" using that n(2) less.prems(3) by simp
      then have "unat (?t j - ?t 0) = j" using tr [OF that] unat_of_nat64 by simp
      moreover have "length (take n bs) \<le> 2 ^ 64" using less.prems(3) by simp
      ultimately show ?thesis using that n(2) by (simp add: m_def store_bytes_apply)
    qed
    have pb: "m a = mem s a" if "a \<in> pt_bytes (mem s) root" for a
      using less.prems(2) that n(2) by (intro same) (auto simp: user_target_def)
    note po = pt_outside [where m = "mem s" and m' = m and root = root, OF pb]
    have tm: "translate m root x = translate (mem s) root x" for x by (rule translate_outside) (rule pb)
    have ut: "user_target m root (dst + of_nat n) (length (drop n bs))"
      using user_target_drop [OF less.prems(2) n(2)] po(2,5) tm by (simp add: user_target_def user_mapped_def)
    have e: "dst + of_nat n + of_nat i = dst + of_nat (n + i)" for i by (simp add: add.assoc)
    have ih: "\<exists>m'. copyout_bytes root (dst + of_nat n) (drop n bs) (s\<lparr>mem := m\<rparr>) = Inr ((s\<lparr>mem := m\<rparr>)\<lparr>mem := m'\<rparr>) \<and>
        (\<forall>i < length (drop n bs). m' (translate (mem (s\<lparr>mem := m\<rparr>)) root (dst + of_nat n + of_nat i)) = drop n bs ! i) \<and>
        (\<forall>a. (\<forall>i < length (drop n bs). a \<noteq> translate (mem (s\<lparr>mem := m\<rparr>)) root (dst + of_nat n + of_nat i)) \<longrightarrow>
          m' a = mem (s\<lparr>mem := m\<rparr>) a)"
      by (rule less.hyps) (use n False ut po(4) less.prems(1,3) in auto)
    obtain m' where m': "copyout_bytes root (dst + of_nat n) (drop n bs) (s\<lparr>mem := m\<rparr>) = Inr (s\<lparr>mem := m'\<rparr>)"
        "\<And>i. i < length bs - n \<Longrightarrow> m' (?t (n + i)) = bs ! (n + i)"
        "\<And>a. (\<And>i. i < length bs - n \<Longrightarrow> a \<noteq> ?t (n + i)) \<Longrightarrow> m' a = m a"
      using ih [unfolded e] n(2) by (auto simp: tm simp del: of_nat_add)
    have step: "copyout_bytes root dst bs s = Inr (s\<lparr>mem := m'\<rparr>)"
      using pte h False m'(1) unfolding m_def
      by (subst copyout_bytes.simps) (simp add: Let_def translate_def n_def)
    have inj: "inj_on ?t {..<length bs}" using less.prems(2) by (simp add: user_target_def)
    have lo: "m' (?t i) = bs ! i" if i: "i < length bs" for i
    proof (cases "i < n")
      case True
      have "?t i \<noteq> ?t (n + j)" if "j < length bs - n" for j
      proof -
        have "n + j < length bs" using that by simp
        then show ?thesis using inj_onD [OF inj, of i "n + j"] i True by auto
      qed
      then have "m' (?t i) = m (?t i)" by (rule m'(3))
      then show ?thesis using wr [OF True] by simp
    next
      case False
      then show ?thesis using m'(2) [of "i - n"] i by simp
    qed
    have "m' a = mem s a" if a: "\<forall>i < length bs. a \<noteq> ?t i" for a
    proof -
      have "m' a = m a" by (rule m'(3), rule a [rule_format]) simp
      moreover have "m a = mem s a" by (rule same, rule a [rule_format]) (use n(2) in simp)
      ultimately show ?thesis by simp
    qed
    with step lo show ?thesis by blast
  qed
qed

lemma copyout_loop_bytes:
  assumes "pt_tree (mem s) root" and "user_target (mem s) root dst len" and "kernel_range (mem s) root src dst len"
    and "len < 2 ^ 32"
  shows "copyout_loop root dst src len s = copyout_bytes root dst (load_bytes (mem s) src len) s"
  using assms
proof (induction len arbitrary: src dst s rule: less_induct)
  case (less len)
  show ?case
  proof (cases "0 < len")
    case False
    then show ?thesis by (subst copyout_loop.simps, subst copyout_bytes.simps) (simp add: load_bytes_def)
  next
    case True
    let ?t = "\<lambda>i. translate (mem s) root (dst + of_nat i)"
    have um: "user_mapped (mem s) root dst len" using less.prems(2) by (simp add: user_target_def)
    define n where "n = page_part dst len"
    have n: "0 < n" "n \<le> len" "n \<le> page_part dst len" using True page_part_le(1) [of dst len] by (auto simp: n_def)
    note h = user_mapped_head [OF um True]
    obtain pte where pte: "vm_getpte root (PG_ROUND_DOWN dst) False s = Inr (pte, s)" "pte \<noteq> 0"
        "load64 (mem s) pte = pt_entry (mem s) root dst"
      by (rule user_pte [OF less.prems(1) h])
    have un: "unat (of_nat n :: u32) = n"
      using n(2) less.prems(4) by (simp add: unat_of_nat take_bit_nat_eq_self)
    have tr: "?t j = ?t 0 + of_nat j" if "j < n" for j
      using page_part_same(2) [of j dst len "mem s" root] that n(3) by simp
    have ds: "src + of_nat i \<noteq> ?t j" if "i < len" "j < len" for i j
      using less.prems(3) that unfolding kernel_range_def by blast
    define m where "m = store_bytes (mem s) (?t 0) (load_bytes (mem s) src n)"
    have mv: "memmove (mem s) (?t 0) src (of_nat n) = m"
    proof -
      have "memmove (mem s) (?t 0) src (of_nat n) = store_bytes (mem s) (?t 0) (load_bytes (mem s) src (unat (of_nat n :: u32)))"
      proof (rule memmove_disjoint)
        fix j assume "j < unat (of_nat n :: u32)"
        then have j: "j < n" by (simp only: un)
        show "?t 0 \<noteq> src + of_nat j" using ds [of j 0] j n(2) True by auto
        show "src \<noteq> ?t 0 + of_nat j" using ds [of 0 j] tr [OF j] j n(2) True by auto
      qed
      then show ?thesis by (simp only: un m_def)
    qed
    have same: "m a = mem s a" if "\<And>j. j < n \<Longrightarrow> a \<noteq> ?t j" for a
      unfolding m_def using that tr n(2) less.prems(4) by (intro store_bytes_not_in) auto
    have pb: "m a = mem s a" if "a \<in> pt_bytes (mem s) root" for a
      using less.prems(2) that n(2) by (intro same) (auto simp: user_target_def)
    note po = pt_outside [where m = "mem s" and m' = m and root = root, OF pb]
    have tm: "translate m root x = translate (mem s) root x" for x by (rule translate_outside) (rule pb)
    have "m (src + of_nat n + of_nat i) = mem s (src + of_nat n + of_nat i)" if "i < len - n" for i
      using same [of "src + of_nat (n + i)"] ds [of "n + i"] that n(2) by (simp add: add.assoc)
    then have rest: "load_bytes m (src + of_nat n) (len - n) = load_bytes (mem s) (src + of_nat n) (len - n)"
      by (simp add: load_bytes_def)
    have spl: "load_bytes (mem s) src len = load_bytes (mem s) src n @ load_bytes (mem s) (src + of_nat n) (len - n)"
      using load_bytes_append [of "mem s" src n "len - n"] n(2) by simp
    have "copyout_loop root (dst + of_nat n) (src + of_nat n) (len - n) (s\<lparr>mem := m\<rparr>) =
        copyout_bytes root (dst + of_nat n) (load_bytes m (src + of_nat n) (len - n)) (s\<lparr>mem := m\<rparr>)"
    proof -
      have "kernel_range m root (src + of_nat n) (dst + of_nat n) (len - n)"
        using kernel_range_drop [OF less.prems(3) n(2)] po(5) tm by (simp add: kernel_range_def)
      moreover have "user_target m root (dst + of_nat n) (len - n)"
        using user_target_drop [OF less.prems(2) n(2)] po(2,5) tm by (simp add: user_target_def user_mapped_def)
      ultimately show ?thesis
        using less.IH [of "len - n" "s\<lparr>mem := m\<rparr>"] n True less.prems(1,4) po(4) by simp
    qed
    moreover have "copyout_loop root dst src len s = copyout_loop root (dst + of_nat n) (src + of_nat n) (len - n) (s\<lparr>mem := m\<rparr>)"
      using pte h True mv by (subst copyout_loop.simps) (simp add: Let_def translate_def n_def)
    moreover have "copyout_bytes root dst (load_bytes (mem s) src len) s =
        copyout_bytes root (dst + of_nat n) (load_bytes (mem s) (src + of_nat n) (len - n)) (s\<lparr>mem := m\<rparr>)"
      using pte h True spl n unfolding m_def
      by (subst copyout_bytes.simps) (auto simp: Let_def translate_def n_def [symmetric] load_bytes_def)
    ultimately show ?thesis by (simp only: rest)
  qed
qed

text \<open>One user page mapped at \<open>0x5000\<close> to the physical page \<open>0x4000\<close>.\<close>

lemma vm_small_user:
  obtains s where "pt_inv s 0x1000" "pt_tables (mem s) 0x1000 \<subseteq> {0x1000, 0x2000, 0x3000}"
    "\<And>i. i < 4096 \<Longrightarrow> pt_entry (mem s) 0x1000 (0x5000 + of_nat i) = 0x1003"
proof -
  have "\<not> (card (free_pages True vm_small) < 2 *
      (((unat (0x5000 :: u64) + unat PGSIZE - 1) div 4096 - unat (0x5000 :: u64) div 4096) + 1))"
    by (simp add: vm_small_free)
  then obtain s where s: "pt_inv s 0x1000" "pt_grow 0x1000 vm_small s"
      "pages_set (PG_ROUND_DOWN 0x5000) 0 (\<lambda>k. PA_TO_PTE (0x4000 + of_nat k * PGSIZE) OR PTE_R OR PTE_V) 0x1000 vm_small s"
    using vm_mappages_pages [OF vm_small_inv, of PGSIZE "0x5000" "0x4000" PTE_R] by auto
  have rd: "PG_ROUND_DOWN 0x5000 = 0x5000" by (simp add: PG_ROUND_DOWN_def)
  have "pt_tables (mem vm_small) 0x1000 \<subseteq> {0x1000}" using vm_small_tables by (auto simp: pt_tables_def)
  then have t: "pt_tables (mem s) 0x1000 \<subseteq> {0x1000, 0x2000, 0x3000}"
    using s(2) vm_small_free by (auto simp: pt_grow_def)
  have "pt_entry (mem s) 0x1000 (0x5000 + of_nat i) = 0x1003" if "i < 4096" for i
  proof -
    have "i < page_part 0x5000 4096" using that by (simp add: page_part_def rd)
    then have "pt_entry (mem s) 0x1000 (0x5000 + of_nat i) = pt_entry (mem s) 0x1000 0x5000"
      by (rule page_part_same(1))
    then show ?thesis using s(3) by (simp add: pages_set_def rd PA_TO_PTE_def)
  qed
  with s(1) t that show thesis by blast
qed

lemma vm_small_translate:
  assumes "\<And>i. i < 4096 \<Longrightarrow> pt_entry m 0x1000 (0x5000 + of_nat i) = 0x1003" and "i < 4096"
  shows "translate m 0x1000 (0x5000 + of_nat i) = 0x4000 + of_nat i"
proof -
  have rd: "PG_ROUND_DOWN 0x5000 = 0x5000" by (simp add: PG_ROUND_DOWN_def)
  have "i < page_part 0x5000 4096" using assms(2) by (simp add: page_part_def rd)
  then have "translate m 0x1000 (0x5000 + of_nat i) = translate m 0x1000 0x5000 + of_nat i"
    by (rule page_part_same(2))
  moreover have "translate m 0x1000 0x5000 = 0x4000"
    using assms(1) [of 0] by (simp add: translate_def rd PTE_TO_PA_def)
  ultimately show ?thesis by simp
qed

section \<open>Properties\<close>

text \<open>\<^verbatim>\<open>uvm_copyin\<close> puts into the kernel buffer exactly the bytes the user range has through the page
  table, page boundaries included, and changes nothing else; the user range must be mapped and
  the buffer must not overlap it or the page tables.\<close>

theorem uvm_copyin_correct:
  assumes "pt_inv s root" and "user_mapped (mem s) root src (unat len)"
    and "kernel_range (mem s) root dst src (unat len)"
  shows "uvm_copyin root dst src len s =
    Inr (s\<lparr>mem := store_bytes (mem s) dst (user_bytes (mem s) root src (unat len))\<rparr>)"
  unfolding uvm_copyin_def
  using assms unat_lt32 [of len] by (intro copyin_loop_eq) (simp_all add: pt_inv_def)


lemma vm_small_ranges:
  assumes e: "\<And>i. i < 4096 \<Longrightarrow> pt_entry m 0x1000 (0x5000 + of_nat i) = 0x1003"
    and t: "pt_tables m 0x1000 \<subseteq> {0x1000, 0x2000, 0x3000}"
  shows "user_target m 0x1000 0x5000 4" "kernel_range m 0x1000 0x9000 0x5000 4"
proof -
  note tr = vm_small_translate [OF e]
  have lt: "unat (a :: u64) < 0x4000" if ab: "a \<in> pt_bytes m 0x1000" for a
  proof -
    obtain p k where a: "a = p + of_nat k" "p \<in> {0x1000, 0x2000, 0x3000}" "k < 4096"
      using ab t by (auto simp: pt_bytes_def)
    then obtain q where q: "p = of_nat q" "q \<in> {0x1000, 0x2000, 0x3000}" by force
    have "a = of_nat (q + k)" "q + k < 0x4000" using a q by auto
    then show ?thesis using unat_of_nat64 [of "q + k"] by simp
  qed
  have small: "i \<in> {0, 1, 2, 3}" if "i < 4" for i :: nat using that by auto
  have "unat ((0x4000 :: u64) + of_nat i) = 0x4000 + i" "unat ((0x9000 :: u64) + of_nat i) = 0x9000 + i" if "i < 4" for i
    using small [OF that] by auto
  note u = this
  show "user_target m 0x1000 0x5000 4"
    unfolding user_target_def user_mapped_def
  proof (intro conjI allI impI)
    fix i :: nat assume i: "i < 4"
    show "pt_entry m 0x1000 (0x5000 + of_nat i) AND PTE_V \<noteq> 0" using e [of i] i by simp
    show "translate m 0x1000 (0x5000 + of_nat i) \<notin> pt_bytes m 0x1000"
      using tr [of i] lt u(1) [OF i] i by fastforce
  next
    show "inj_on (\<lambda>i. translate m 0x1000 (0x5000 + of_nat i)) {..<4}"
    proof (rule inj_onI)
      fix x y :: nat assume a: "x \<in> {..<4}" "y \<in> {..<4}"
        "translate m 0x1000 (0x5000 + of_nat x) = translate m 0x1000 (0x5000 + of_nat y)"
      then have "(0x4000 :: u64) + of_nat x = 0x4000 + of_nat y" using tr [of x] tr [of y] by simp
      then have "unat ((0x4000 :: u64) + of_nat x) = unat ((0x4000 :: u64) + of_nat y)" by (rule arg_cong)
      then show "x = y" using a u(1) by simp
    qed
  qed simp
  show "kernel_range m 0x1000 0x9000 0x5000 4"
    unfolding kernel_range_def
  proof (intro allI impI conjI)
    fix j :: nat assume j: "j < 4"
    show "0x9000 + of_nat j \<notin> pt_bytes m 0x1000" using lt u(2) [OF j] by fastforce
    fix i :: nat assume i: "i < 4"
    have "unat ((0x9000 :: u64) + of_nat j) \<noteq> unat ((0x4000 :: u64) + of_nat i)" using u(1) [OF i] u(2) [OF j] i by simp
    then show "0x9000 + of_nat j \<noteq> translate m 0x1000 (0x5000 + of_nat i)" using tr [of i] i by fastforce
  qed
qed

theorem uvm_copyin_correct_witness:
  "\<exists>s. pt_inv s 0x1000 \<and> uvm_copyin 0x1000 0x9000 0x5000 4 s =
     Inr (s\<lparr>mem := store_bytes (mem s) 0x9000 (user_bytes (mem s) 0x1000 0x5000 4)\<rparr>)"
proof -
  obtain s where s: "pt_inv s 0x1000" "pt_tables (mem s) 0x1000 \<subseteq> {0x1000, 0x2000, 0x3000}"
      "\<And>i. i < 4096 \<Longrightarrow> pt_entry (mem s) 0x1000 (0x5000 + of_nat i) = 0x1003"
    by (rule vm_small_user) blast
  from vm_small_ranges [OF s(3,2)] uvm_copyin_correct [OF s(1), of "0x5000" 4 "0x9000"] s(1) show ?thesis
    by (auto simp: user_target_def)
qed


end
