(* ===== verification/Inode.thy ===== *)
theory Inode
  imports Bitmap
begin

text \<open>
  \<^verbatim>\<open>kernel/fs/inode.c\<close>: inodes, their cache and the data they manage.  The state of the file system is
  extended by the array \<^verbatim>\<open>icache\<close>; an \<^verbatim>\<open>inode_t*\<close> is the index of its entry.  The lock of an inode
  (\<open>islk\<close>) is held across calls and part of the state; \<^verbatim>\<open>lk_icache\<close> is taken and released inside
  each operation.  A pointer to a block number (the \<^verbatim>\<open>entry\<close> of \<^verbatim>\<open>locate_block\<close>) is passed by
  value and returned, and its owner stores it.  Where the data of a file is copied to or from
  is a parameter: \<open>put\<close> stores a piece at an offset of the destination, \<open>get\<close> reads one of the source.
  So the same definitions serve kernel memory and the pages of a process.
\<close>

section \<open>Definitions\<close>

abbreviation N_INODE :: nat where "N_INODE \<equiv> 32"
abbreviation INODE_DISK_SIZE :: nat where "INODE_DISK_SIZE \<equiv> 64"
abbreviation INODE_NUM_UNUSED :: u16 where "INODE_NUM_UNUSED \<equiv> 0xFFFF"
abbreviation INODE_ROOT :: u16 where "INODE_ROOT \<equiv> 0"
abbreviation N_ADDRS :: nat where "N_ADDRS \<equiv> 13"
abbreviation ENTRY_PER_BLOCK :: u32 where "ENTRY_PER_BLOCK \<equiv> 256"
abbreviation INODE_MAXSIZE :: u32 where "INODE_MAXSIZE \<equiv> (10 + 2 * 256 + 256 * 256) * 1024"
abbreviation FT_UNUSED :: u16 where "FT_UNUSED \<equiv> 0"
abbreviation FT_DIR :: u16 where "FT_DIR \<equiv> 1"
abbreviation FT_FILE :: u16 where "FT_FILE \<equiv> 2"
abbreviation FT_DEVICE :: u16 where "FT_DEVICE \<equiv> 3"

text \<open>The part of an inode that is on disk, and the cached inode around it.\<close>

record dinode =
  itype :: u16
  imajor :: u16
  iminor :: u16
  nlink :: u16
  isize :: u32
  addrs :: "u32 list"

record inode =
  dpart :: dinode
  inode_num :: u16
  iref :: u32
  valid :: bool
  islk :: spinlock

record inode_state = fs_state +
  icache :: "inode list"

definition dinode_bytes :: "dinode \<Rightarrow> byte list" where
  "dinode_bytes d = le_bytes 2 (itype d) @ le_bytes 2 (imajor d) @ le_bytes 2 (iminor d) @ le_bytes 2 (nlink d) @
     le_bytes 4 (isize d) @ concat (map (le_bytes 4) (addrs d))"

definition dinode_of_bytes :: "byte list \<Rightarrow> dinode" where
  "dinode_of_bytes bs = \<lparr>itype = le_word (slice 0 2 bs), imajor = le_word (slice 2 2 bs), iminor = le_word (slice 4 2 bs),
     nlink = le_word (slice 6 2 bs), isize = le_word (slice 8 4 bs),
     addrs = map (\<lambda>k. le_word (slice (12 + 4 * k) 4 bs)) [0..<N_ADDRS]\<rparr>"

definition set_inode :: "nat \<Rightarrow> inode \<Rightarrow> 'a inode_state_scheme \<Rightarrow> 'a inode_state_scheme" where
  "set_inode i ip s = s\<lparr>icache := (icache s)[i := ip]\<rparr>"

abbreviation inode_at :: "'a inode_state_scheme \<Rightarrow> nat \<Rightarrow> inode" where
  "inode_at s i \<equiv> icache s ! i"

definition inode_init :: "'a inode_state_scheme \<Rightarrow> 'a inode_state_scheme" where
  "inode_init s = s\<lparr>icache := map (\<lambda>ip. ip\<lparr>islk := spinlock_init ''inode'', inode_num := INODE_NUM_UNUSED,
                                        iref := 0, valid := False\<rparr>) (icache s)\<rparr>"

text \<open>Block and offset of an inode on disk.\<close>

definition inode_block :: "super_block \<Rightarrow> u16 \<Rightarrow> u32" where
  "inode_block b num = ucast num div 16 + inode_start b"

definition inode_offset :: "u16 \<Rightarrow> nat" where
  "inode_offset num = unat num mod 16 * INODE_DISK_SIZE"

definition inode_rw :: "nat \<Rightarrow> bool \<Rightarrow> 'a inode_state_scheme \<Rightarrow> 'a inode_state_scheme res" where
  "inode_rw i wr s =
     (let num = inode_num (inode_at s i); offset = inode_offset num
      in bindr (buf_read (inode_block (sb s) num) s) (\<lambda>(b, s).
         if wr
         then bindr (buf_write b (set_data b (overwrite (buf_data b s) offset (dinode_bytes (dpart (inode_at s i)))) s))
                    (buf_release b)
         else buf_release b (set_inode i ((inode_at s i)\<lparr>dpart :=
                dinode_of_bytes (slice offset INODE_DISK_SIZE (buf_data b s))\<rparr>) s)))"

text \<open>The loop of \<^verbatim>\<open>inode_alloc\<close>: the entry with the number, and the first unreferenced entry before it.\<close>

primrec icache_search :: "u16 \<Rightarrow> inode list \<Rightarrow> nat list \<Rightarrow> nat option \<Rightarrow> nat option \<times> nat option" where
  "icache_search num ics [] vacant = (None, vacant)"
| "icache_search num ics (i # is) vacant =
     (if inode_num (ics ! i) = num then (Some i, vacant)
      else icache_search num ics is (if vacant = None \<and> iref (ics ! i) = 0 then Some i else vacant))"

definition inode_alloc :: "u16 \<Rightarrow> 'a inode_state_scheme \<Rightarrow> (nat \<times> 'a inode_state_scheme) res" where
  "inode_alloc num s =
     (case icache_search num (icache s) [0..<N_INODE] None of
        (Some i, _) \<Rightarrow> Inr (i, set_inode i ((inode_at s i)\<lparr>iref := iref (inode_at s i) + 1\<rparr>) s)
      | (None, None) \<Rightarrow> Inl (Panic ''inode_alloc: no inodes'')
      | (None, Some i) \<Rightarrow>
          Inr (i, set_inode i ((inode_at s i)\<lparr>inode_num := num, iref := 1, valid := False\<rparr>) s))"

definition lock_inode :: "nat \<Rightarrow> 'a inode_state_scheme \<Rightarrow> 'a inode_state_scheme res" where
  "lock_inode i s = bindr (lock_take 0 (islk (inode_at s i))) (\<lambda>l.
     Inr (set_inode i ((inode_at s i)\<lparr>islk := l\<rparr>) s))"

definition inode_unlock :: "nat \<Rightarrow> 'a inode_state_scheme \<Rightarrow> 'a inode_state_scheme res" where
  "inode_unlock i s = bindr (lock_drop 0 (islk (inode_at s i))) (\<lambda>l.
     Inr (set_inode i ((inode_at s i)\<lparr>islk := l\<rparr>) s))"

definition inode_create :: "u16 \<Rightarrow> u16 \<Rightarrow> u16 \<Rightarrow> 'a inode_state_scheme \<Rightarrow> (nat option \<times> 'a inode_state_scheme) res" where
  "inode_create ty maj mnr s =
     bindr (bitmap_alloc_inode s) (\<lambda>(inum, s).
     if inum = 0xFFFF then Inr (None, s)
     else bindr (inode_alloc inum s) (\<lambda>(i, s).
       bindr (lock_inode i s) (\<lambda>s.
       let s = set_inode i ((inode_at s i)\<lparr>dpart := \<lparr>itype = ty, imajor = maj, iminor = mnr, nlink = 1, isize = 0,
                                                addrs = replicate N_ADDRS 0\<rparr>, valid := True\<rparr>) s
       in bindr (inode_rw i True s) (\<lambda>s.
          bindr (inode_unlock i s) (\<lambda>s.
          Inr (Some i, s))))))"

definition inode_dup :: "nat \<Rightarrow> 'a inode_state_scheme \<Rightarrow> 'a inode_state_scheme" where
  "inode_dup i s = set_inode i ((inode_at s i)\<lparr>iref := iref (inode_at s i) + 1\<rparr>) s"

definition inode_lock :: "nat \<Rightarrow> 'a inode_state_scheme \<Rightarrow> 'a inode_state_scheme res" where
  "inode_lock i s =
     bindr (lock_inode i s) (\<lambda>s.
     if \<not> valid (inode_at s i)
     then bindr (inode_rw i False s) (\<lambda>s. Inr (set_inode i ((inode_at s i)\<lparr>valid := True\<rparr>) s))
     else Inr s)"

text \<open>A table of block numbers in the data of a block.\<close>

definition block_entry :: "byte list \<Rightarrow> nat \<Rightarrow> u32" where
  "block_entry d k = le_word (slice (4 * k) 4 d)"

definition set_block_entry :: "byte list \<Rightarrow> nat \<Rightarrow> u32 \<Rightarrow> byte list" where
  "set_block_entry d k v = overwrite d (4 * k) (le_bytes 4 v)"

text \<open>\<^verbatim>\<open>locate_block\<close> returns the block, the new value of \<^verbatim>\<open>*entry\<close> and the state.  The table block is
  changed in its buffer and released without being written.\<close>

function locate_block :: "u32 \<Rightarrow> u32 \<Rightarrow> u32 \<Rightarrow> 'a fs_state_scheme \<Rightarrow> (u32 \<times> u32 \<times> 'a fs_state_scheme) res" where
  "locate_block entry bn sz s =
     bindr (if entry = 0 then bitmap_alloc_block s else Inr (entry, s)) (\<lambda>(entry, s).
     if sz = 1 then Inr (entry, entry, s)
     else let next_size = sz div ENTRY_PER_BLOCK
       in if next_size = 0 then Inl Undefined
          else let next_bn = bn mod next_size; idx = unat (bn div next_size)
            in bindr (buf_read entry s) (\<lambda>(b, s).
               if \<not> idx < unat ENTRY_PER_BLOCK then Inl Undefined
               else bindr (locate_block (block_entry (buf_data b s) idx) next_bn next_size s) (\<lambda>(ret, next_entry, s).
                 bindr (buf_release b (set_data b (set_block_entry (buf_data b s) idx next_entry) s)) (\<lambda>s.
                 Inr (ret, entry, s)))))"
  by pat_completeness auto
termination
proof (relation "measure (\<lambda>(_, _, sz, _). unat sz)", goal_cases)
  case 1
  show ?case by simp
next
  case (2 entry bn sz s x a b next_size next_bn idx y c d)
  then have ne: "sz div ENTRY_PER_BLOCK \<noteq> 0" by simp
  have "sz div ENTRY_PER_BLOCK < sz"
  proof -
    have "unat (sz div ENTRY_PER_BLOCK) = unat sz div 256" by (simp add: unat_div)
    moreover have "unat sz \<noteq> 0" using ne by (auto simp: unat_eq_0)
    ultimately show ?thesis unfolding word_less_nat_alt by simp
  qed
  then show ?case using 2 by (simp add: word_less_nat_alt)
qed

declare locate_block.simps [simp del]

text \<open>An entry of \<^verbatim>\<open>addrs\<close> of inode \<open>i\<close> as the starting point.\<close>

definition locate_addr :: "nat \<Rightarrow> nat \<Rightarrow> u32 \<Rightarrow> u32 \<Rightarrow> 'a inode_state_scheme \<Rightarrow> (u32 \<times> 'a inode_state_scheme) res" where
  "locate_addr i k bn sz s =
     bindr (locate_block (addrs (dpart (inode_at s i)) ! k) bn sz s) (\<lambda>(ret, e, s).
     let ip = inode_at s i
     in Inr (ret, set_inode i (ip\<lparr>dpart := (dpart ip)\<lparr>addrs := (addrs (dpart ip))[k := e]\<rparr>\<rparr>) s))"

definition inode_locate_block :: "nat \<Rightarrow> u32 \<Rightarrow> 'a inode_state_scheme \<Rightarrow> (u32 \<times> 'a inode_state_scheme) res" where
  "inode_locate_block i bn s =
     (if bn < 10 then locate_addr i (unat bn) bn 1 s
      else let bn = bn - 10
        in if bn < 2 * ENTRY_PER_BLOCK
           then let sz = ENTRY_PER_BLOCK
             in locate_addr i (10 + unat (bn div sz)) (bn mod sz) sz s
           else let bn = bn - 2 * ENTRY_PER_BLOCK
             in if bn < ENTRY_PER_BLOCK * ENTRY_PER_BLOCK
                then let sz = ENTRY_PER_BLOCK * ENTRY_PER_BLOCK
                  in locate_addr i (12 + unat (bn div sz)) (bn mod sz) sz s
                else Inl (Panic ''inode_locate_block: overflow''))"

text \<open>The loops over the blocks of a range; \<open>left\<close> is \<^verbatim>\<open>len - total\<close>.\<close>

function read_loop ::
    "nat \<Rightarrow> (nat \<Rightarrow> byte list \<Rightarrow> 'm \<Rightarrow> 'm res) \<Rightarrow> u32 \<Rightarrow> nat \<Rightarrow> nat \<Rightarrow> 'a inode_state_scheme \<Rightarrow> 'm \<Rightarrow>
     (nat \<times> 'a inode_state_scheme \<times> 'm) res" where
  "read_loop i put offset tot left s mm =
     (if 0 < left
      then let off = unat (offset mod 1024); m = min (BLOCK_SIZE - off) left
        in bindr (inode_locate_block i (offset div 1024) s) (\<lambda>(blk, s).
           bindr (buf_read blk s) (\<lambda>(b, s).
           bindr (put tot (slice off m (buf_data b s)) mm) (\<lambda>mm.
           bindr (buf_release b s) (\<lambda>s.
           read_loop i put (offset + of_nat m) (tot + m) (left - m) s mm))))
      else Inr (tot, s, mm))"
  by pat_completeness auto

lemma mod1024_lt: "unat ((x :: u32) mod 1024) < 1024"
  by (simp add: unat_mod)

termination read_loop
  using mod1024_lt by (relation "measure (\<lambda>(_, _, _, _, left, _). left)") auto

function write_loop ::
    "nat \<Rightarrow> (nat \<Rightarrow> nat \<Rightarrow> byte list res) \<Rightarrow> u32 \<Rightarrow> nat \<Rightarrow> nat \<Rightarrow> 'a inode_state_scheme \<Rightarrow>
     (u32 \<times> nat \<times> 'a inode_state_scheme) res" where
  "write_loop i get offset tot left s =
     (if 0 < left
      then let off = unat (offset mod 1024); m = min (BLOCK_SIZE - off) left
        in bindr (inode_locate_block i (offset div 1024) s) (\<lambda>(blk, s).
           bindr (buf_read blk s) (\<lambda>(b, s).
           bindr (get tot m) (\<lambda>bs.
           bindr (buf_write b (set_data b (overwrite (buf_data b s) off bs) s)) (\<lambda>s.
           bindr (buf_release b s) (\<lambda>s.
           write_loop i get (offset + of_nat m) (tot + m) (left - m) s)))))
      else Inr (offset, tot, s))"
  by pat_completeness auto
termination
  using mod1024_lt by (relation "measure (\<lambda>(_, _, _, _, left, _). left)") auto

declare read_loop.simps [simp del] write_loop.simps [simp del]

definition inode_read_data ::
    "nat \<Rightarrow> u32 \<Rightarrow> u32 \<Rightarrow> (nat \<Rightarrow> byte list \<Rightarrow> 'm \<Rightarrow> 'm res) \<Rightarrow> 'a inode_state_scheme \<Rightarrow> 'm \<Rightarrow>
     (u32 \<times> 'a inode_state_scheme \<times> 'm) res" where
  "inode_read_data i offset len put s mm =
     (let sz = isize (dpart (inode_at s i))
      in if sz < offset then Inr (0, s, mm)
         else let len = (if sz < offset + len then sz - offset else len)
           in bindr (read_loop i put offset 0 (unat len) s mm) (\<lambda>(tot, s, mm). Inr (of_nat tot, s, mm)))"

definition inode_write_data ::
    "nat \<Rightarrow> u32 \<Rightarrow> u32 \<Rightarrow> (nat \<Rightarrow> nat \<Rightarrow> byte list res) \<Rightarrow> 'a inode_state_scheme \<Rightarrow>
     (u32 \<times> 'a inode_state_scheme) res" where
  "inode_write_data i offset len get s =
     (if INODE_MAXSIZE < offset + len then Inr (0, s)
      else bindr (write_loop i get offset 0 (unat len) s) (\<lambda>(offset, tot, s).
        let ip = inode_at s i
        in if isize (dpart ip) < offset
           then bindr (inode_rw i True (set_inode i (ip\<lparr>dpart := (dpart ip)\<lparr>isize := offset\<rparr>\<rparr>) s)) (\<lambda>s.
             Inr (of_nat tot, s))
           else Inr (of_nat tot, s)))"

text \<open>\<^verbatim>\<open>data_free\<close>: the loop over the entries of a table block stops at the first 0.\<close>

primrec free_each :: "(u32 \<Rightarrow> 's \<Rightarrow> 's res) \<Rightarrow> u32 list \<Rightarrow> 's \<Rightarrow> 's res" where
  "free_each f [] s = Inr s"
| "free_each f (a # as) s = (if a = 0 then Inr s else bindr (f a s) (free_each f as))"

primrec data_free :: "nat \<Rightarrow> u32 \<Rightarrow> 'a fs_state_scheme \<Rightarrow> 'a fs_state_scheme res" where
  "data_free 0 bn s =
     bindr (assert_that (bn \<noteq> 0) ''data_free: block_num = 0'') (\<lambda>_. bitmap_free_block bn s)"
| "data_free (Suc level) bn s =
     bindr (assert_that (bn \<noteq> 0) ''data_free: block_num = 0'') (\<lambda>_.
     bindr (buf_read bn s) (\<lambda>(b, s).
     bindr (free_each (data_free level) (map (block_entry (buf_data b s)) [0..<unat ENTRY_PER_BLOCK]) s) (\<lambda>s.
     bindr (buf_release b s) (\<lambda>s.
     bitmap_free_block bn s))))"

text \<open>One round of the loops of \<^verbatim>\<open>inode_free_data\<close>.\<close>

definition free_addr :: "nat \<Rightarrow> (u32 \<Rightarrow> 'a inode_state_scheme \<Rightarrow> 'a inode_state_scheme res) \<Rightarrow> nat \<Rightarrow>
    'a inode_state_scheme \<Rightarrow> 'a inode_state_scheme res" where
  "free_addr i f k s =
     (let a = addrs (dpart (inode_at s i)) ! k
      in if a \<noteq> 0
         then bindr (f a s) (\<lambda>s. let ip = inode_at s i
           in Inr (set_inode i (ip\<lparr>dpart := (dpart ip)\<lparr>addrs := (addrs (dpart ip))[k := 0]\<rparr>\<rparr>) s))
         else Inr s)"

primrec each_addr :: "('k \<Rightarrow> 's \<Rightarrow> 's res) \<Rightarrow> 'k list \<Rightarrow> 's \<Rightarrow> 's res" where
  "each_addr f [] s = Inr s"
| "each_addr f (k # ks) s = bindr (f k s) (each_addr f ks)"

definition inode_free_data :: "nat \<Rightarrow> 'a inode_state_scheme \<Rightarrow> 'a inode_state_scheme res" where
  "inode_free_data i s =
     bindr (each_addr (free_addr i bitmap_free_block) [0..<10] s) (\<lambda>s.
     bindr (each_addr (free_addr i (data_free 1)) [10..<12] s) (\<lambda>s.
     bindr (each_addr (free_addr i (data_free 2)) [12..<13] s) (\<lambda>s.
     let ip = inode_at s i
     in Inr (set_inode i (ip\<lparr>dpart := (dpart ip)\<lparr>isize := 0\<rparr>\<rparr>) s))))"

definition inode_destroy :: "nat \<Rightarrow> 'a inode_state_scheme \<Rightarrow> 'a inode_state_scheme res" where
  "inode_destroy i s =
     bindr (lock_inode i s) (\<lambda>s.
     bindr (inode_free_data i s) (\<lambda>s.
     let ip = inode_at s i;
         s = set_inode i (ip\<lparr>dpart := (dpart ip)\<lparr>itype := FT_UNUSED, isize := 0, nlink := 0\<rparr>\<rparr>) s
     in bindr (inode_rw i True s) (\<lambda>s.
        bindr (inode_unlock i s) (\<lambda>s.
        bindr (bitmap_free_inode (inode_num (inode_at s i)) s) (\<lambda>s.
        Inr (set_inode i ((inode_at s i)\<lparr>inode_num := INODE_NUM_UNUSED, valid := False\<rparr>) s))))))"

definition inode_free :: "nat \<Rightarrow> 'a inode_state_scheme \<Rightarrow> 'a inode_state_scheme res" where
  "inode_free i s =
     (let s = set_inode i ((inode_at s i)\<lparr>iref := iref (inode_at s i) - 1\<rparr>) s
      in if iref (inode_at s i) = 0 \<and> nlink (dpart (inode_at s i)) = 0 then inode_destroy i s else Inr s)"

definition inode_unlock_free :: "nat \<Rightarrow> 'a inode_state_scheme \<Rightarrow> 'a inode_state_scheme res" where
  "inode_unlock_free i s = bindr (inode_unlock i s) (inode_free i)"

section \<open>Layout on disk\<close>

lemma length_concat_le: "length (concat (map (le_bytes 4) xs)) = 4 * length xs"
  by (induction xs) auto

lemma slice_concat_le:
  "k < length xs \<Longrightarrow> slice (4 * k) 4 (concat (map (le_bytes 4) xs)) = le_bytes 4 (xs ! k)"
proof (induction xs arbitrary: k)
  case Nil
  then show ?case by simp
next
  case (Cons x xs)
  show ?case
  proof (cases k)
    case 0
    then show ?thesis by (simp add: slice_def)
  next
    case (Suc j)
    have "4 * Suc j = length (le_bytes 4 x) + 4 * j" by simp
    then have "slice (4 * Suc j) 4 (le_bytes 4 x @ concat (map (le_bytes 4) xs)) = slice (4 * j) 4 (concat (map (le_bytes 4) xs))"
      by (simp only: slice_def drop_append) simp
    with Cons Suc show ?thesis by simp
  qed
qed

lemma slice_append_drop: "length xs \<le> p \<Longrightarrow> slice p n (xs @ ys) = slice (p - length xs) n ys"
  by (simp add: slice_def)

lemma slice_append_take: "p + n \<le> length xs \<Longrightarrow> slice p n (xs @ ys) = slice p n xs"
  by (simp add: slice_def)

lemma length_dinode_bytes: "length (addrs d) = N_ADDRS \<Longrightarrow> length (dinode_bytes d) = INODE_DISK_SIZE"
  by (simp add: dinode_bytes_def length_concat_le)

lemma dinode_roundtrip:
  assumes "length (addrs d) = N_ADDRS"
  shows "dinode_of_bytes (dinode_bytes d) = d"
proof -
  have "map (\<lambda>k. le_word (slice (12 + 4 * k) 4 (dinode_bytes d))) [0..<N_ADDRS] = addrs d"
  proof (rule nth_equalityI)
    fix k assume "k < length (map (\<lambda>k. le_word (slice (12 + 4 * k) 4 (dinode_bytes d)) :: u32) [0..<N_ADDRS])"
    then have k: "k < N_ADDRS" by simp
    have "slice (12 + 4 * k) 4 (dinode_bytes d) = slice (4 * k) 4 (concat (map (le_bytes 4) (addrs d)))"
      by (simp add: dinode_bytes_def slice_append_drop)
    also have "\<dots> = le_bytes 4 (addrs d ! k)" using k assms by (intro slice_concat_le) simp
    finally show "map (\<lambda>k. le_word (slice (12 + 4 * k) 4 (dinode_bytes d))) [0..<N_ADDRS] ! k = addrs d ! k"
      using k by (simp del: upt_Suc)
  qed (simp add: assms)
  moreover have "slice 0 2 (dinode_bytes d) = le_bytes 2 (itype d)" "slice 2 2 (dinode_bytes d) = le_bytes 2 (imajor d)"
      "slice 4 2 (dinode_bytes d) = le_bytes 2 (iminor d)" "slice 6 2 (dinode_bytes d) = le_bytes 2 (nlink d)"
      "slice 8 4 (dinode_bytes d) = le_bytes 4 (isize d)"
    by (simp_all add: dinode_bytes_def slice_append_drop slice_append_take)
  ultimately show ?thesis by (cases d) (simp add: dinode_of_bytes_def del: upt_Suc)
qed

interpretation dinode_layout: record_layout INODE_DISK_SIZE dinode_bytes dinode_of_bytes "\<lambda>d. length (addrs d) = N_ADDRS"
  by unfold_locales (simp_all add: length_dinode_bytes dinode_roundtrip)

interpretation entry_layout: record_layout 4 "le_bytes 4" "le_word :: byte list \<Rightarrow> u32" "\<lambda>_. True"
  by unfold_locales simp_all

text \<open>The inode with a number, as the disk has it.\<close>

definition disk_inode :: "'a fs_state_scheme \<Rightarrow> u16 \<Rightarrow> dinode" where
  "disk_inode s num = dinode_of_bytes (slice (inode_offset num) INODE_DISK_SIZE (disk s (inode_block (sb s) num)))"

text \<open>Inode numbers the inode area has room for, and the blocks it occupies.\<close>

definition inode_num_ok :: "super_block \<Rightarrow> u16 \<Rightarrow> bool" where
  "inode_num_ok b num \<longleftrightarrow> unat num div 16 < unat (inode_blocks b)"

definition inode_area :: "super_block \<Rightarrow> u32 set" where
  "inode_area b = {n. unat (inode_start b) \<le> unat n \<and> unat n < unat (inode_start b) + unat (inode_blocks b)}"

lemma inode_offset_bound: "inode_offset num + INODE_DISK_SIZE \<le> BLOCK_SIZE"
proof -
  have "unat num mod 16 < 16" by simp
  then have "unat num mod 16 \<le> 15" by linarith
  then show ?thesis by (simp add: inode_offset_def)
qed

lemma unat_inode_block:
  assumes "sb_ok b" and "inode_num_ok b num"
  shows "unat (inode_block b num) = unat num div 16 + unat (inode_start b)"
proof -
  have d: "unat (ucast num div 16 :: u32) = unat num div 16" by (simp add: unat_div)
  have "unat num div 16 + unat (inode_start b) < 2 ^ 32"
    using assms by (simp add: sb_ok_def inode_num_ok_def word_less_nat_alt)
  then have "unat (ucast num div 16 :: u32) + unat (inode_start b) < 2 ^ LENGTH(32)" unfolding d by simp
  from iffD1 [OF unat_add_lem this] show ?thesis unfolding inode_block_def d .
qed

lemma inode_block_area: "sb_ok b \<Longrightarrow> inode_num_ok b num \<Longrightarrow> inode_block b num \<in> inode_area b"
  using unat_inode_block [of b num] by (simp add: inode_area_def inode_num_ok_def)

text \<open>Two inodes never share bytes of the disk.\<close>

lemma inode_place_inj:
  assumes "sb_ok b" and "inode_num_ok b x" and "inode_num_ok b y" and "x \<noteq> y"
  shows "inode_block b x \<noteq> inode_block b y \<or> inode_offset x + INODE_DISK_SIZE \<le> inode_offset y \<or>
    inode_offset y + INODE_DISK_SIZE \<le> inode_offset x"
proof (cases "inode_block b x = inode_block b y")
  case True
  then have "unat x div 16 = unat y div 16"
    using unat_inode_block [OF assms(1,2)] unat_inode_block [OF assms(1,3)] by simp
  moreover have "unat x \<noteq> unat y" using assms(4) by (simp add: word_unat_eq_iff)
  ultimately have "unat x mod 16 \<noteq> unat y mod 16" by (metis div_mult_mod_eq)
  then show ?thesis by (auto simp: inode_offset_def nat_neq_iff)
qed simp

section \<open>Reading and writing inodes\<close>

lemma more_icache:
  "buf_state.more t = buf_state.more s \<Longrightarrow> sb t = sb s \<and> icache t = icache s \<and> inode_state.more t = inode_state.more s"
  by (cases s; cases t) simp

lemma set_inode_simps [simp]:
  "disk (set_inode i ip s) = disk s" "bufs (set_inode i ip s) = bufs s" "nxt (set_inode i ip s) = nxt s"
  "prv (set_inode i ip s) = prv s" "sb (set_inode i ip s) = sb s" "icache (set_inode i ip s) = (icache s)[i := ip]"
  "inode_state.more (set_inode i ip s) = inode_state.more s"
  by (simp_all add: set_inode_def)

lemma set_inode_cache [simp]:
  "cache (set_inode i ip s) H = cache s H" "fs_ok (set_inode i ip s) H = fs_ok s H"
  "holds (set_inode i ip s) j n d = holds s j n d"
  "free_blocks (set_inode i ip s) = free_blocks s" "buf_data j (set_inode i ip s) = buf_data j s"
  "disk_inode (set_inode i ip s) num = disk_inode s num"
  by (simp_all add: cache_def fs_ok_def holds_def lru_def buf_ok_def buf_data_def free_blocks_def disk_inode_def)

lemma inode_block_unused:
  assumes "sb_ok b" and "inode_num_ok b num"
  shows "inode_block b num \<noteq> BLOCK_NUM_UNUSED" "inode_block b num \<noteq> data_bitmap_start b"
    "inode_block b num \<noteq> inode_bitmap_start b" "inode_block b num \<noteq> 0"
    "unat (inode_block b num) < unat (data_start b)"
proof -
  have n: "unat (inode_block b num) < unat (data_bitmap_start b)" "unat (inode_start b) \<le> unat (inode_block b num)"
    using unat_inode_block [OF assms] assms by (auto simp: sb_ok_def inode_num_ok_def)
  have o: "unat (data_bitmap_start b) < unat (data_start b)" "unat (data_start b) + N_BITS < 2 ^ 32"
    "unat (inode_bitmap_start b) < unat (inode_start b)"
    using assms(1) by (simp_all add: sb_ok_def word_less_nat_alt)
  have u: "unat BLOCK_NUM_UNUSED = 2 ^ 32 - 1" by simp
  have "unat (inode_block b num) \<noteq> unat BLOCK_NUM_UNUSED" using n(1) o u by linarith
  then show "inode_block b num \<noteq> BLOCK_NUM_UNUSED" by metis
  show "inode_block b num \<noteq> data_bitmap_start b" "inode_block b num \<noteq> inode_bitmap_start b" "inode_block b num \<noteq> 0"
    using n o by (auto simp: unat_eq_0)
  show "unat (inode_block b num) < unat (data_start b)" using n(1) o(1) by simp
qed

lemma inode_rw_write:
  assumes "fs_ok s H" and "inode_num_ok (sb s) (inode_num (inode_at s i))"
    and "inode_block (sb s) (inode_num (inode_at s i)) \<notin> H" and "length (addrs (dpart (inode_at s i))) = N_ADDRS"
  obtains t where "inode_rw i True s = Inr t" "fs_ok t H" "buf_state.more t = buf_state.more s"
    "disk t = (disk s)(inode_block (sb s) (inode_num (inode_at s i)) :=
       overwrite (disk s (inode_block (sb s) (inode_num (inode_at s i)))) (inode_offset (inode_num (inode_at s i)))
         (dinode_bytes (dpart (inode_at s i))))"
    "\<forall>j m d. m \<in> H \<longrightarrow> holds s j m d \<longrightarrow> holds t j m d"
proof -
  let ?num = "inode_num (inode_at s i)"
  let ?n = "inode_block (sb s) ?num"
  let ?e = "overwrite (disk s ?n) (inode_offset ?num) (dinode_bytes (dpart (inode_at s i)))"
  have c: "cache s H" "sb_ok (sb s)" "card H < N_BLOCK_BUF" using assms(1) by (auto simp: fs_ok_def)
  have "length ?e = BLOCK_SIZE"
    using cacheD(3) [OF c(1)] length_dinode_bytes [OF assms(4)] inode_offset_bound [of ?num] by simp
  from bcache.update_ok [OF c(1) assms(3) inode_block_unused(1) [OF c(2) assms(2)] c(3) this]
  obtain b t u v where r: "buf_read ?n s = Inr (b, t)" "buf_data b t = disk s ?n" "buf_write b (set_data b ?e t) = Inr u"
    "buf_release b u = Inr v" "cache v H" "disk v = (disk s)(?n := ?e)" "buf_state.more v = buf_state.more s"
    "buf_state.more t = buf_state.more s" "\<forall>j m d. m \<in> H \<longrightarrow> holds s j m d \<longrightarrow> holds v j m d" by metis
  have "inode_rw i True s = Inr v"
    using r more_icache [OF r(8)] by (simp add: inode_rw_def Let_def)
  with r c more_icache [OF r(7)] show thesis by (intro that [of v]) (auto simp: fs_ok_def)
qed

lemma inode_rw_read:
  assumes "fs_ok s H" and "inode_num_ok (sb s) (inode_num (inode_at s i))"
    and "inode_block (sb s) (inode_num (inode_at s i)) \<notin> H"
  obtains t where "inode_rw i False s = Inr t" "fs_ok t H" "disk t = disk s" "sb t = sb s"
    "inode_state.more t = inode_state.more s"
    "icache t = (icache s)[i := (inode_at s i)\<lparr>dpart := disk_inode s (inode_num (inode_at s i))\<rparr>]"
    "\<forall>j m d. m \<in> H \<longrightarrow> holds s j m d \<longrightarrow> holds t j m d"
proof -
  let ?num = "inode_num (inode_at s i)"
  let ?n = "inode_block (sb s) ?num"
  have c: "cache s H" "sb_ok (sb s)" "card H < N_BLOCK_BUF" using assms(1) by (auto simp: fs_ok_def)
  obtain b t where r: "buf_read ?n s = Inr (b, t)" "cache t (insert ?n H)" "holds t b ?n (disk s ?n)"
    "disk t = disk s" "buf_state.more t = buf_state.more s" "\<forall>j m d. m \<in> H \<longrightarrow> holds s j m d \<longrightarrow> holds t j m d"
    using bcache.rd_ok [OF c(1) assms(3) inode_block_unused(1) [OF c(2) assms(2)] c(3)] by blast
  note m = more_icache [OF r(5)]
  let ?ip = "(inode_at s i)\<lparr>dpart := disk_inode s ?num\<rparr>"
  let ?t = "set_inode i ?ip t"
  have d: "buf_data b t = disk s ?n" using r(3) by (simp add: holds_def)
  have "cache ?t (insert ?n H)" "holds ?t b ?n (disk ?t ?n)" using r(2,3,4) by simp_all
  from bcache.rel_ok [OF this(1) _ this(2)] obtain u where u: "buf_release b ?t = Inr u" "cache u (insert ?n H - {?n})"
    "disk u = disk ?t" "buf_state.more u = buf_state.more ?t"
    "\<forall>j m d. m \<in> insert ?n H \<longrightarrow> m \<noteq> ?n \<longrightarrow> holds ?t j m d \<longrightarrow> holds u j m d" by blast
  have "inode_rw i False s = Inr u"
    using r(1) d m u(1) by (simp add: inode_rw_def Let_def disk_inode_def)
  moreover have "insert ?n H - {?n} = H" using assms(3) by simp
  moreover have "\<forall>j m d. m \<in> H \<longrightarrow> holds s j m d \<longrightarrow> holds u j m d"
    using r(6) u(5) assms(3) by (metis insertCI set_inode_cache(3))
  ultimately show thesis using u r m c more_icache [OF u(4)] by (intro that [of u]) (auto simp: fs_ok_def)
qed

text \<open>What \<^verbatim>\<open>inode_rw\<close> leaves on the disk: this inode, and every other inode as it was.\<close>

lemma disk_inode_written:
  assumes "sb_ok (sb s)" "sb t = sb s" "inode_num_ok (sb s) x" "length (addrs ip) = N_ADDRS" "\<And>n. length (disk s n) = BLOCK_SIZE"
    and d: "disk t = (disk s)(inode_block (sb s) x := overwrite (disk s (inode_block (sb s) x)) (inode_offset x) (dinode_bytes ip))"
  shows "disk_inode t x = ip"
    and "inode_num_ok (sb s) y \<Longrightarrow> y \<noteq> x \<Longrightarrow> disk_inode t y = disk_inode s y"
proof -
  note b = inode_offset_bound
  show "disk_inode t x = ip"
    using assms b [of x] by (simp add: disk_inode_def dinode_layout.read_written)
  assume y: "inode_num_ok (sb s) y" "y \<noteq> x"
  show "disk_inode t y = disk_inode s y"
  proof (cases "inode_block (sb s) y = inode_block (sb s) x")
    case True
    then have "inode_offset y + INODE_DISK_SIZE \<le> inode_offset x \<or> inode_offset x + INODE_DISK_SIZE \<le> inode_offset y"
      using inode_place_inj [OF assms(1) y(1) assms(3) y(2)] by simp
    then show ?thesis
      using assms b [of x] b [of y] True by (simp add: disk_inode_def dinode_layout.read_other)
  qed (simp add: disk_inode_def d assms(2))
qed

section \<open>The inode cache\<close>

text \<open>No inode has two entries.\<close>

definition icache_unique :: "'a inode_state_scheme \<Rightarrow> bool" where
  "icache_unique s \<longleftrightarrow> length (icache s) = N_INODE \<and>
     (\<forall>i < N_INODE. \<forall>j < N_INODE. inode_num (inode_at s i) = inode_num (inode_at s j) \<longrightarrow>
        inode_num (inode_at s i) \<noteq> INODE_NUM_UNUSED \<longrightarrow> i = j)"

lemma icache_search_Some:
  "icache_search num ics xs v = (Some i, w) \<Longrightarrow> i \<in> set xs \<and> inode_num (ics ! i) = num"
  by (induction xs arbitrary: v) (auto split: if_splits)

lemma icache_search_vacant:
  "icache_search num ics xs v = (None, w) \<Longrightarrow> (\<forall>i \<in> set xs. inode_num (ics ! i) \<noteq> num) \<and>
     (case w of None \<Rightarrow> v = None \<and> (\<forall>i \<in> set xs. iref (ics ! i) \<noteq> 0)
      | Some k \<Rightarrow> v = Some k \<or> v = None \<and> k \<in> set xs \<and> iref (ics ! k) = 0)"
proof (induction xs arbitrary: v)
  case Nil
  then show ?case by (auto split: option.splits)
next
  case (Cons a xs)
  let ?v = "if v = None \<and> iref (ics ! a) = 0 then Some a else v"
  have "inode_num (ics ! a) \<noteq> num" "icache_search num ics xs ?v = (None, w)"
    using Cons.prems by (auto split: if_splits)
  with Cons.IH [OF this(2)] show ?case by (cases w) (auto split: if_splits)
qed

lemma inode_alloc_cases:
  obtains (hit) i where "i < N_INODE" "inode_num (inode_at s i) = num"
      "inode_alloc num s = Inr (i, set_inode i ((inode_at s i)\<lparr>iref := iref (inode_at s i) + 1\<rparr>) s)"
  | (miss) i where "i < N_INODE" "\<forall>k < N_INODE. inode_num (inode_at s k) \<noteq> num" "iref (inode_at s i) = 0"
      "inode_alloc num s = Inr (i, set_inode i ((inode_at s i)\<lparr>inode_num := num, iref := 1, valid := False\<rparr>) s)"
  | (full) "\<forall>k < N_INODE. inode_num (inode_at s k) \<noteq> num \<and> iref (inode_at s k) \<noteq> 0"
      "inode_alloc num s = Inl (Panic ''inode_alloc: no inodes'')"
proof (cases "icache_search num (icache s) [0..<N_INODE] None")
  case (Pair x w)
  show thesis
  proof (cases x)
    case (Some i)
    with icache_search_Some [of num "icache s" "[0..<N_INODE]" None i w] Pair show thesis
      by (intro hit [of i]) (auto simp: inode_alloc_def simp del: upt_Suc)
  next
    case None
    note v = icache_search_vacant [OF Pair [unfolded None]]
    with Pair None show thesis
    proof (cases w)
      case (Some i)
      with v Pair None show thesis by (intro miss [of i]) (auto simp: inode_alloc_def simp del: upt_Suc)
    next
      case None
      with v Pair \<open>x = None\<close> show thesis by (intro full) (auto simp: inode_alloc_def simp del: upt_Suc)
    qed
  qed
qed

lemma icache_unique_set:
  assumes "icache_unique s" "i < N_INODE"
    and "inode_num ip = inode_num (inode_at s i) \<or> (\<forall>k < N_INODE. inode_num (inode_at s k) \<noteq> inode_num ip) \<or> inode_num ip = INODE_NUM_UNUSED"
  shows "icache_unique (set_inode i ip s)"
proof -
  have len: "length (icache s) = N_INODE" using assms(1) by (simp add: icache_unique_def)
  have "a = b" if ab: "a < N_INODE" "b < N_INODE"
    "inode_num ((icache s)[i := ip] ! a) = inode_num ((icache s)[i := ip] ! b)"
    "inode_num ((icache s)[i := ip] ! a) \<noteq> INODE_NUM_UNUSED" for a b
    using ab assms len unfolding icache_unique_def by (cases "a = i"; cases "b = i"; simp) metis+
  then show ?thesis using len by (simp add: icache_unique_def)
qed

section \<open>Properties of inodes\<close>

text \<open>A state of the file system with the entry \<open>ip\<close> in slot 0 of the inode cache, for examples.\<close>

definition inode_bss :: "(u32 \<Rightarrow> byte list) \<Rightarrow> inode list \<Rightarrow> inode_state" where
  "inode_bss d ics = \<lparr>disk = d, bufs = bufs (buf_bss d), nxt = (\<lambda>_. None), prv = (\<lambda>_. None), sb = mkfs_sb, icache = ics\<rparr>"

lemma inode_ready:
  assumes "\<And>n. length (d n) = BLOCK_SIZE"
  shows "\<exists>s :: inode_state. fs_ok s {} \<and> disk s = d \<and> sb s = mkfs_sb \<and> icache s = ics"
proof -
  obtain t where "cache t {}" "disk t = d" "buf_state.more t = buf_state.more (inode_bss d ics)"
    using buf_init_cache [of "inode_bss d ics"] assms by (auto simp: inode_bss_def buf_bss_def)
  moreover from this have "sb t = mkfs_sb" "icache t = ics"
    using more_icache [of t "inode_bss d ics"] by (simp_all add: inode_bss_def)
  ultimately show ?thesis using mkfs_sb_ok by (intro exI [of _ t]) (simp add: fs_ok_def)
qed

definition blank_inode :: inode where
  "blank_inode = \<lparr>dpart = \<lparr>itype = FT_FILE, imajor = 0, iminor = 0, nlink = 1, isize = 0, addrs = replicate N_ADDRS 0\<rparr>,
     inode_num = 5, iref = 1, valid = True, islk = spinlock_init ''inode''\<rparr>"

lemma blank_num_ok: "inode_num_ok mkfs_sb 5"
  by (simp add: inode_num_ok_def mkfs_sb_def)

text \<open>C20. Writing an inode puts exactly its 64 bytes on the disk: the inode reads back from the disk as it was in memory
  (also through another cache entry), every other inode and every other block keep their contents, and
  the cache stays consistent.\<close>

theorem inode_rw_roundtrip:
  assumes "fs_ok s H" and "i < length (icache s)" and "j < length (icache s)"
    and "inode_num_ok (sb s) (inode_num (inode_at s i))" and "inode_num (inode_at s j) = inode_num (inode_at s i)"
    and "inode_block (sb s) (inode_num (inode_at s i)) \<notin> H" and "length (addrs (dpart (inode_at s i))) = N_ADDRS"
  shows "\<exists>t u. inode_rw i True s = Inr t \<and> fs_ok t H \<and> icache t = icache s \<and>
    disk_inode t (inode_num (inode_at s i)) = dpart (inode_at s i) \<and>
    (\<forall>y. inode_num_ok (sb s) y \<longrightarrow> y \<noteq> inode_num (inode_at s i) \<longrightarrow> disk_inode t y = disk_inode s y) \<and>
    (\<forall>n. n \<noteq> inode_block (sb s) (inode_num (inode_at s i)) \<longrightarrow> disk t n = disk s n) \<and>
    inode_rw j False t = Inr u \<and> fs_ok u H \<and> disk u = disk t \<and> dpart (inode_at u j) = dpart (inode_at s i)"
proof -
  have c: "sb_ok (sb s)" "\<And>n. length (disk s n) = BLOCK_SIZE" using assms(1) cacheD(3) by (auto simp: fs_ok_def)
  obtain t where t: "inode_rw i True s = Inr t" "fs_ok t H" "buf_state.more t = buf_state.more s"
    "disk t = (disk s)(inode_block (sb s) (inode_num (inode_at s i)) :=
       overwrite (disk s (inode_block (sb s) (inode_num (inode_at s i)))) (inode_offset (inode_num (inode_at s i)))
         (dinode_bytes (dpart (inode_at s i))))"
    using inode_rw_write [OF assms(1,4,6,7)] by metis
  note m = more_icache [OF t(3)]
  note d = disk_inode_written [OF c(1) conjunct1 [OF m] assms(4,7) c(2) t(4)]
  obtain u where u: "inode_rw j False t = Inr u" "fs_ok u H" "disk u = disk t"
    "icache u = (icache t)[j := (inode_at t j)\<lparr>dpart := disk_inode t (inode_num (inode_at t j))\<rparr>]"
    using inode_rw_read [OF t(2), of j] m assms(4,5,6) by metis
  show ?thesis
    using t u m d assms(3,5) by (intro exI [of _ t] exI [of _ u]) auto
qed

theorem inode_rw_roundtrip_witness:
  "\<exists>(s :: inode_state) t u. fs_ok s {} \<and> inode_rw 0 True s = Inr t \<and> disk_inode t 5 = dpart blank_inode \<and>
     disk_inode t 6 = disk_inode s 6 \<and> inode_rw 0 False t = Inr u \<and> dpart (inode_at u 0) = dpart blank_inode"
proof -
  obtain s :: inode_state where s: "fs_ok s {}" "sb s = mkfs_sb" "icache s = [blank_inode]"
    using inode_ready [of "\<lambda>_. replicate BLOCK_SIZE 0" "[blank_inode]"] by auto
  have n: "inode_num (inode_at s 0) = 5" "length (addrs (dpart (inode_at s 0))) = N_ADDRS"
    using s(3) by (simp_all add: blank_inode_def)
  have "inode_num_ok mkfs_sb 6" by (simp add: inode_num_ok_def mkfs_sb_def)
  then show ?thesis
    using inode_rw_roundtrip [OF s(1), of 0 0] s n blank_num_ok by - (rule exI [of _ s], fastforce)
qed

text \<open>C21. Looking up an inode number in the cache: if some entry has the number, that entry is returned with one more
  reference and its contents untouched; otherwise an unreferenced entry is taken over, with one reference and marked
  invalid; the other entries keep their values and no inode ever has two entries.  The call panics only when every
  entry is referenced and none has the number.\<close>

theorem inode_alloc_correct:
  assumes "icache_unique s" and "num \<noteq> INODE_NUM_UNUSED"
  shows "case inode_alloc num s of
      Inl e \<Rightarrow> e = Panic ''inode_alloc: no inodes'' \<and> (\<forall>k < N_INODE. inode_num (inode_at s k) \<noteq> num \<and> iref (inode_at s k) \<noteq> 0)
    | Inr (i, t) \<Rightarrow> i < N_INODE \<and> inode_num (inode_at t i) = num \<and> icache_unique t \<and>
        (\<forall>k. k \<noteq> i \<longrightarrow> inode_at t k = inode_at s k) \<and> disk t = disk s \<and>
        (if \<exists>k < N_INODE. inode_num (inode_at s k) = num
         then inode_at t i = (inode_at s i)\<lparr>iref := iref (inode_at s i) + 1\<rparr>
         else iref (inode_at s i) = 0 \<and> iref (inode_at t i) = 1 \<and> \<not> valid (inode_at t i))"
proof (cases rule: inode_alloc_cases [of s num])
  case (hit i)
  have "length (icache s) = N_INODE" using assms(1) by (simp add: icache_unique_def)
  with hit icache_unique_set [OF assms(1) hit(1), of "(inode_at s i)\<lparr>iref := iref (inode_at s i) + 1\<rparr>"] show ?thesis
    by auto
next
  case (miss i)
  have "length (icache s) = N_INODE" using assms(1) by (simp add: icache_unique_def)
  with miss icache_unique_set [OF assms(1) miss(1), of "(inode_at s i)\<lparr>inode_num := num, iref := 1, valid := False\<rparr>"]
  show ?thesis by auto
next
  case full
  then show ?thesis by simp
qed

theorem inode_alloc_correct_witness:
  "\<exists>(s :: inode_state) i t. icache_unique s \<and> inode_alloc 7 s = Inr (i, t) \<and> inode_num (inode_at t i) = 7 \<and>
     iref (inode_at t i) = 1 \<and> icache_unique t"
proof -
  let ?ics = "replicate N_INODE (blank_inode\<lparr>inode_num := INODE_NUM_UNUSED, iref := 0\<rparr>)"
  let ?s = "inode_bss (\<lambda>_. []) ?ics"
  have u: "icache_unique ?s" by (simp add: icache_unique_def inode_bss_def)
  have n: "inode_num (inode_at ?s k) = INODE_NUM_UNUSED" "iref (inode_at ?s k) = 0" if "k < N_INODE" for k
    using that by (simp_all add: inode_bss_def)
  note c = inode_alloc_correct [OF u, of 7]
  show ?thesis
  proof (cases "inode_alloc 7 ?s")
    case (Inl e)
    with c have "iref (inode_at ?s 0) \<noteq> 0" by simp
    with n show ?thesis by simp
  next
    case (Inr p)
    with c n u show ?thesis by - (rule exI [of _ ?s], auto split: if_splits)
  qed
qed

end
