(* ===== verification/Dirs.thy ===== *)
theory Dirs
  imports Inode Strings
begin

text \<open>
  \<^verbatim>\<open>kernel/fs/dir.c\<close>: directories and paths.  A directory is a file of 32-byte entries; an entry whose name
  is empty is free.  A name buffer (\<^verbatim>\<open>char name[30]\<close>) is the list of its bytes, which the string routines of
  \<^verbatim>\<open>str.c\<close> read through a view; a path is the list of the bytes before its NUL, so that a moving
  \<^verbatim>\<open>char*\<close> is a suffix of it.  The current directory of the calling process is an argument
  (\<open>None\<close> is the null pointer), and an operation that changes it returns the new one.
\<close>

section \<open>Definitions\<close>

abbreviation DIR_NAME_LEN :: nat where "DIR_NAME_LEN \<equiv> 30"
abbreviation DIRENT_SIZE :: u32 where "DIRENT_SIZE \<equiv> 32"
abbreviation DIR_FULL :: u32 where "DIR_FULL \<equiv> 1024" \<comment> \<open>\<^verbatim>\<open>BLOCK_SIZE\<close> as a return value\<close>
abbreviation slash :: byte where "slash \<equiv> 47"
abbreviation MINUS1 :: u32 where "MINUS1 \<equiv> 0xFFFFFFFF"

record dirent =
  dnum :: u16
  dname :: "byte list"

definition dirent_bytes :: "dirent \<Rightarrow> byte list" where
  "dirent_bytes de = le_bytes 2 (dnum de) @ dname de"

definition dirent_of_bytes :: "byte list \<Rightarrow> dirent" where
  "dirent_of_bytes bs = \<lparr>dnum = le_word (take 2 bs), dname = drop 2 bs\<rparr>"

text \<open>Reading and writing a buffer of the kernel, the \<^verbatim>\<open>memmove\<close> branch of the inode routines.\<close>

definition buf_put :: "nat \<Rightarrow> byte list \<Rightarrow> byte list \<Rightarrow> byte list res" where
  "buf_put tot bs mm = Inr (overwrite mm tot bs)"

definition buf_get :: "byte list \<Rightarrow> nat \<Rightarrow> nat \<Rightarrow> byte list res" where
  "buf_get bs tot m = Inr (slice tot m bs)"

text \<open>A byte buffer as a pointer.  \<^verbatim>\<open>strlen\<close> of a buffer without NUL runs past its end.\<close>

definition bview :: "byte list \<Rightarrow> nat \<Rightarrow> byte" where
  "bview bs i = nth_default 0 bs i"

definition strlen_buf :: "byte list \<Rightarrow> nat res" where
  "strlen_buf bs = (if 0 \<in> set bs then strlen (bview bs) else Inl Undefined)"

definition name_match :: "byte list \<Rightarrow> dirent \<Rightarrow> bool" where
  "name_match nm de \<longleftrightarrow> bview (dname de) 0 \<noteq> 0 \<and> strncmp (bview nm) (bview (dname de)) (of_nat DIR_NAME_LEN) = 0"

text \<open>Read the entry at an offset of directory \<open>i\<close>; the first result is the number of bytes read.\<close>

definition read_dirent :: "nat \<Rightarrow> u32 \<Rightarrow> 'a inode_state_scheme \<Rightarrow> (u32 \<times> dirent \<times> 'a inode_state_scheme) res" where
  "read_dirent i offset s =
     bindr (inode_read_data i offset DIRENT_SIZE buf_put s (replicate 32 0)) (\<lambda>(n, s, bs).
     Inr (n, dirent_of_bytes bs, s))"

definition write_dirent :: "nat \<Rightarrow> u32 \<Rightarrow> dirent \<Rightarrow> string \<Rightarrow> 'a inode_state_scheme \<Rightarrow> 'a inode_state_scheme res" where
  "write_dirent i offset de msg s =
     bindr (inode_write_data i offset DIRENT_SIZE (buf_get (dirent_bytes de)) s) (\<lambda>(n, s).
     bindr (assert_that (n = DIRENT_SIZE) msg) (\<lambda>_. Inr s))"

text \<open>The loop of the search: offset, number and state of the first entry with the name.  It is shared by
  \<^verbatim>\<open>dir_search_entry\<close> and \<^verbatim>\<open>dir_delete_entry\<close>, which differ in the message of the panic.  A
  counter that wraps around to 0 would repeat the loop for ever.\<close>

function entry_loop :: "string \<Rightarrow> nat \<Rightarrow> byte list \<Rightarrow> u32 \<Rightarrow> 'a inode_state_scheme \<Rightarrow>
    ((u32 \<times> u16) option \<times> 'a inode_state_scheme) res" where
  "entry_loop msg i nm offset s =
     (if offset < isize (dpart (inode_at s i))
      then bindr (read_dirent i offset s) (\<lambda>(n, de, s).
        bindr (assert_that (n = DIRENT_SIZE) msg) (\<lambda>_.
        if name_match nm de then Inr (Some (offset, dnum de), s)
        else if offset < offset + DIRENT_SIZE then entry_loop msg i nm (offset + DIRENT_SIZE) s
        else Inl Hang))
      else Inr (None, s))"
  by pat_completeness auto

lemma wrap_measure: "(x :: u32) < y \<Longrightarrow> 2 ^ 32 - unat y < 2 ^ 32 - unat x"
  using unat_lt32 [of y] by (intro diff_less_mono2) (auto simp only: word_less_nat_alt)

termination entry_loop
  using wrap_measure by (relation "measure (\<lambda>(_, _, _, offset, _). 2 ^ 32 - unat offset)") (auto simp del: One_nat_def)

declare entry_loop.simps [simp del]

definition check_dir :: "string \<Rightarrow> nat \<Rightarrow> 'a inode_state_scheme \<Rightarrow> unit res" where
  "check_dir fn i s =
     bindr (assert_that (spinlock_holding 0 (islk (inode_at s i))) (fn @ '': lock'')) (\<lambda>_.
     assert_that (itype (dpart (inode_at s i)) = FT_DIR) (fn @ '': not dir''))"

definition dir_search_entry :: "nat \<Rightarrow> byte list \<Rightarrow> 'a inode_state_scheme \<Rightarrow> (u16 \<times> 'a inode_state_scheme) res" where
  "dir_search_entry i nm s =
     bindr (check_dir ''dir_search_entry'' i s) (\<lambda>_.
     bindr (entry_loop ''dir_search_entry: read failed'' i nm 0 s) (\<lambda>(r, s).
     Inr (case r of Some (_, num) \<Rightarrow> (num, s) | None \<Rightarrow> (INODE_NUM_UNUSED, s))))"

text \<open>The loop for a free slot.\<close>

function slot_loop :: "nat \<Rightarrow> u32 \<Rightarrow> 'a inode_state_scheme \<Rightarrow> (u32 \<times> 'a inode_state_scheme) res" where
  "slot_loop i offset s =
     (if offset < DIR_FULL
      then if offset < isize (dpart (inode_at s i))
        then bindr (read_dirent i offset s) (\<lambda>(n, de, s).
          bindr (assert_that (n = DIRENT_SIZE) ''dir_add_entry: read failed'') (\<lambda>_.
          if bview (dname de) 0 = 0 then Inr (offset, s) else slot_loop i (offset + DIRENT_SIZE) s))
        else Inr (offset, s)
      else Inr (offset, s))"
  by pat_completeness auto

lemma slot_measure:
  assumes "(offset :: u32) < DIR_FULL"
  shows "1024 - unat (offset + DIRENT_SIZE) < 1024 - unat offset"
proof -
  have lt: "unat offset < 1024" using assms by (simp add: word_less_nat_alt)
  then have "unat offset + unat DIRENT_SIZE < 2 ^ LENGTH(32)" by simp
  from iffD1 [OF unat_add_lem this] lt show ?thesis by simp
qed

termination slot_loop
  using slot_measure by (relation "measure (\<lambda>(_, offset, _). 1024 - unat offset)") auto

declare slot_loop.simps [simp del]

definition dir_add_entry :: "nat \<Rightarrow> u16 \<Rightarrow> byte list \<Rightarrow> 'a inode_state_scheme \<Rightarrow> (u32 \<times> 'a inode_state_scheme) res" where
  "dir_add_entry i num nm s =
     bindr (check_dir ''dir_add_entry'' i s) (\<lambda>_.
     bindr (strlen_buf nm) (\<lambda>len.
     if DIR_NAME_LEN \<le> len then Inr (DIR_FULL, s)
     else bindr (dir_search_entry i nm s) (\<lambda>(found, s).
       if found \<noteq> INODE_NUM_UNUSED then Inr (DIR_FULL, s)
       else bindr (slot_loop i 0 s) (\<lambda>(offset, s).
         if DIR_FULL \<le> offset then Inr (DIR_FULL, s)
         else let de = \<lparr>dnum = num, dname = strncpy_bytes (bview nm) (DIR_NAME_LEN - 1) @ [0]\<rparr>
           in bindr (write_dirent i offset de ''dir_add_entry: write failed'' s) (\<lambda>s. Inr (offset, s))))))"

definition dir_delete_entry :: "nat \<Rightarrow> byte list \<Rightarrow> 'a inode_state_scheme \<Rightarrow> (u16 \<times> 'a inode_state_scheme) res" where
  "dir_delete_entry i nm s =
     bindr (check_dir ''dir_delete_entry'' i s) (\<lambda>_.
     bindr (entry_loop ''dir_delete_entry: read failed'' i nm 0 s) (\<lambda>(r, s).
     case r of
       Some (offset, num) \<Rightarrow>
         bindr (write_dirent i offset \<lparr>dnum = 0, dname = replicate DIR_NAME_LEN 0\<rparr> ''dir_delete_entry: write failed'' s)
           (\<lambda>s. Inr (num, s))
     | None \<Rightarrow> Inr (INODE_NUM_UNUSED, s)))"

text \<open>\<^verbatim>\<open>dir_get_entries\<close>: a read that fails ends the loop.  \<open>put\<close> is the copy to the destination, as in
  \<^verbatim>\<open>inode_read_data\<close>.\<close>

function entries_loop :: "nat \<Rightarrow> u32 \<Rightarrow> (nat \<Rightarrow> byte list \<Rightarrow> 'm \<Rightarrow> 'm res) \<Rightarrow> u32 \<Rightarrow> u32 \<Rightarrow> 'a inode_state_scheme \<Rightarrow> 'm \<Rightarrow>
    (u32 \<times> 'a inode_state_scheme \<times> 'm) res" where
  "entries_loop i len put offset tot s mm =
     (if offset < isize (dpart (inode_at s i)) \<and> unat tot + 32 \<le> unat len
      then bindr (read_dirent i offset s) (\<lambda>(n, de, s).
        if n \<noteq> DIRENT_SIZE then Inr (tot, s, mm)
        else bindr (if bview (dname de) 0 \<noteq> 0
                    then bindr (put (unat tot) (dirent_bytes de) mm) (\<lambda>mm. Inr (tot + DIRENT_SIZE, mm))
                    else Inr (tot, mm)) (\<lambda>(tot, mm).
          if offset < offset + DIRENT_SIZE then entries_loop i len put (offset + DIRENT_SIZE) tot s mm
          else Inl Hang))
      else Inr (tot, s, mm))"
  by pat_completeness auto
termination
  using wrap_measure by (relation "measure (\<lambda>(_, _, _, offset, _, _, _). 2 ^ 32 - unat offset)") auto

declare entries_loop.simps [simp del]

definition dir_get_entries :: "nat \<Rightarrow> u32 \<Rightarrow> (nat \<Rightarrow> byte list \<Rightarrow> 'm \<Rightarrow> 'm res) \<Rightarrow> 'a inode_state_scheme \<Rightarrow> 'm \<Rightarrow>
    (u32 \<times> 'a inode_state_scheme \<times> 'm) res" where
  "dir_get_entries i len put s mm =
     bindr (check_dir ''dir_get_entries'' i s) (\<lambda>_. entries_loop i len put 0 0 s mm)"

text \<open>What \<^verbatim>\<open>dir_print\<close> prints, and the state after it.\<close>

definition dir_print :: "nat \<Rightarrow> 'a inode_state_scheme \<Rightarrow> ((u16 \<times> byte list) list \<times> 'a inode_state_scheme) res" where
  "dir_print i s =
     bindr (assert_that (spinlock_holding 0 (islk (inode_at s i))) ''dir_print: lock'') (\<lambda>_.
     bindr (buf_read (addrs (dpart (inode_at s i)) ! 0) s) (\<lambda>(b, s).
     let des = map (\<lambda>k. dirent_of_bytes (slice (32 * k) 32 (buf_data b s))) [0..<32];
         out = map (\<lambda>de. (dnum de, dname de)) (filter (\<lambda>de. bview (dname de) 0 \<noteq> 0) des)
     in bindr (buf_release b s) (\<lambda>s. Inr (out, s))))"

text \<open>Paths.  \<^verbatim>\<open>skip_element\<close> returns the rest of the path and the new contents of the name buffer.\<close>

definition skip_element :: "byte list \<Rightarrow> byte list \<Rightarrow> (byte list \<times> byte list) option" where
  "skip_element path nm =
     (let path = dropWhile (\<lambda>c. c = slash) path
      in if path = [] then None
         else let elem = takeWhile (\<lambda>c. c \<noteq> slash) path;
                  path = dropWhile (\<lambda>c. c \<noteq> slash) path;
                  nm = (if DIR_NAME_LEN \<le> length elem then overwrite nm 0 (take DIR_NAME_LEN elem)
                        else overwrite nm 0 (elem @ [0]))
           in Some (dropWhile (\<lambda>c. c = slash) path, nm))"

lemma skip_element_shorter: "skip_element path nm = Some (rest, nm') \<Longrightarrow> length rest < length path"
proof -
  assume a: "skip_element path nm = Some (rest, nm')"
  let ?p = "dropWhile (\<lambda>c. c = slash) path"
  have ne: "?p \<noteq> []" using a by (auto simp: skip_element_def Let_def split: if_splits)
  then have h: "hd ?p \<noteq> slash" using hd_dropWhile by blast
  have "rest = dropWhile (\<lambda>c. c = slash) (dropWhile (\<lambda>c. c \<noteq> slash) ?p)"
    using a by (auto simp: skip_element_def Let_def split: if_splits)
  then have "length rest \<le> length (dropWhile (\<lambda>c. c \<noteq> slash) ?p)" by (simp add: length_dropWhile_le)
  also have "\<dots> < length ?p" using ne h by (cases ?p) (auto simp: length_dropWhile_le less_Suc_eq_le)
  also have "\<dots> \<le> length path" by (rule length_dropWhile_le)
  finally show ?thesis .
qed

function search_loop :: "nat \<Rightarrow> byte list \<Rightarrow> byte list \<Rightarrow> bool \<Rightarrow> 'a inode_state_scheme \<Rightarrow>
    (nat option \<times> byte list \<times> 'a inode_state_scheme) res" where
  "search_loop ip path nm find_parent s =
     (case skip_element path nm of
        None \<Rightarrow> if find_parent then bindr (inode_free ip s) (\<lambda>s. Inr (None, nm, s)) else Inr (Some ip, nm, s)
      | Some (path', nm) \<Rightarrow>
          bindr (inode_lock ip s) (\<lambda>s.
          if itype (dpart (inode_at s ip)) \<noteq> FT_DIR
          then bindr (inode_unlock_free ip s) (\<lambda>s. Inr (None, nm, s))
          else if find_parent \<and> path' = []
          then bindr (inode_unlock ip s) (\<lambda>s. Inr (Some ip, nm, s))
          else bindr (dir_search_entry ip nm s) (\<lambda>(inum, s).
            if inum = INODE_NUM_UNUSED
            then bindr (inode_unlock_free ip s) (\<lambda>s. Inr (None, nm, s))
            else bindr (inode_unlock ip s) (\<lambda>s.
              bindr (inode_alloc inum s) (\<lambda>(nxt, s).
              bindr (inode_free ip s) (\<lambda>s.
              search_loop nxt path' nm find_parent s))))))"
  by pat_completeness auto
termination
  using skip_element_shorter by (relation "measure (\<lambda>(_, path, _). length path)") auto

declare search_loop.simps [simp del]

definition search_inode :: "nat option \<Rightarrow> byte list \<Rightarrow> byte list \<Rightarrow> bool \<Rightarrow> 'a inode_state_scheme \<Rightarrow>
    (nat option \<times> byte list \<times> 'a inode_state_scheme) res" where
  "search_inode cwd path nm find_parent s =
     bindr (if path \<noteq> [] \<and> hd path = slash then inode_alloc INODE_ROOT s
            else case cwd of None \<Rightarrow> Inl Undefined | Some c \<Rightarrow> Inr (c, inode_dup c s)) (\<lambda>(ip, s).
     search_loop ip path nm find_parent s)"

text \<open>A name buffer on the stack has arbitrary contents at first: the argument \<open>junk\<close>.\<close>

definition path_to_inode :: "byte list \<Rightarrow> nat option \<Rightarrow> byte list \<Rightarrow> 'a inode_state_scheme \<Rightarrow>
    (nat option \<times> 'a inode_state_scheme) res" where
  "path_to_inode junk cwd path s = bindr (search_inode cwd path junk False s) (\<lambda>(ip, _, s). Inr (ip, s))"

definition path_to_pinode :: "nat option \<Rightarrow> byte list \<Rightarrow> byte list \<Rightarrow> 'a inode_state_scheme \<Rightarrow>
    (nat option \<times> byte list \<times> 'a inode_state_scheme) res" where
  "path_to_pinode cwd path nm s = search_inode cwd path nm True s"

text \<open>Change the link count of an inode and write it to the disk.\<close>

definition set_nlink :: "nat \<Rightarrow> u16 \<Rightarrow> 'a inode_state_scheme \<Rightarrow> 'a inode_state_scheme" where
  "set_nlink i n s = set_inode i ((inode_at s i)\<lparr>dpart := (dpart (inode_at s i))\<lparr>nlink := n\<rparr>\<rparr>) s"

definition add_nlink :: "nat \<Rightarrow> u16 \<Rightarrow> 'a inode_state_scheme \<Rightarrow> 'a inode_state_scheme res" where
  "add_nlink i d s = inode_rw i True (set_nlink i (nlink (dpart (inode_at s i)) + d) s)"

text \<open>Strings of the source as name buffers.\<close>

definition lit :: "string \<Rightarrow> byte list" where
  "lit str = map of_char str @ [0]"

definition dot_entries :: "nat \<Rightarrow> nat \<Rightarrow> 'a inode_state_scheme \<Rightarrow> 'a inode_state_scheme res" where
  "dot_entries ip pip s =
     bindr (add_nlink ip 1 s) (\<lambda>s.
     bindr (dir_add_entry ip (inode_num (inode_at s ip)) (lit ''.'') s) (\<lambda>(r, s).
     bindr (assert_that (r \<noteq> DIR_FULL) ''path_create_inode: . failed'') (\<lambda>_.
     bindr (dir_add_entry ip (inode_num (inode_at s pip)) (lit ''..'') s) (\<lambda>(r, s).
     bindr (assert_that (r \<noteq> DIR_FULL) ''path_create_inode: .. failed'') (\<lambda>_.
     Inr s)))))"

definition path_create_inode :: "byte list \<Rightarrow> nat option \<Rightarrow> byte list \<Rightarrow> u16 \<Rightarrow> u16 \<Rightarrow> u16 \<Rightarrow> 'a inode_state_scheme \<Rightarrow>
    (nat option \<times> 'a inode_state_scheme) res" where
  "path_create_inode junk cwd path ty maj mnr s =
     bindr (path_to_pinode cwd path junk s) (\<lambda>(p, nm, s).
     case p of
       None \<Rightarrow> Inr (None, s)
     | Some pip \<Rightarrow>
         bindr (inode_lock pip s) (\<lambda>s.
         bindr (dir_search_entry pip nm s) (\<lambda>(inum, s).
         if inum \<noteq> INODE_NUM_UNUSED
         then bindr (inode_unlock pip s) (\<lambda>s.
              bindr (inode_free pip s) (\<lambda>s.
              bindr (inode_alloc inum s) (\<lambda>(ip, s). Inr (Some ip, s))))
         else bindr (inode_create ty maj mnr s) (\<lambda>(c, s).
           case c of
             None \<Rightarrow> bindr (inode_unlock_free pip s) (\<lambda>s. Inr (None, s))
           | Some ip \<Rightarrow>
               bindr (inode_lock ip s) (\<lambda>s.
               bindr (if ty = FT_DIR then dot_entries ip pip s else Inr s) (\<lambda>s.
               bindr (dir_add_entry pip (inode_num (inode_at s ip)) nm s) (\<lambda>(r, s).
               if r = DIR_FULL
               then bindr (inode_unlock_free ip (set_nlink ip 0 s)) (\<lambda>s.
                    bindr (inode_unlock_free pip s) (\<lambda>s.
                    Inr (None, s)))
               else bindr (if ty = FT_DIR then add_nlink pip 1 s else Inr s) (\<lambda>s.
                    bindr (inode_unlock_free pip s) (\<lambda>s.
                    bindr (inode_unlock ip s) (\<lambda>s.
                    Inr (Some ip, s)))))))))))"

text \<open>The label \<^verbatim>\<open>bad\<close> of \<^verbatim>\<open>path_link\<close>.\<close>

definition link_bad :: "nat \<Rightarrow> 'a inode_state_scheme \<Rightarrow> (u32 \<times> 'a inode_state_scheme) res" where
  "link_bad ip s =
     bindr (inode_lock ip s) (\<lambda>s.
     bindr (add_nlink ip (- 1) s) (\<lambda>s.
     bindr (inode_unlock_free ip s) (\<lambda>s. Inr (MINUS1, s))))"

definition path_link :: "byte list \<Rightarrow> nat option \<Rightarrow> byte list \<Rightarrow> byte list \<Rightarrow> 'a inode_state_scheme \<Rightarrow>
    (u32 \<times> 'a inode_state_scheme) res" where
  "path_link junk cwd old_path new_path s =
     bindr (path_to_inode junk cwd old_path s) (\<lambda>(p, s).
     case p of
       None \<Rightarrow> Inr (MINUS1, s)
     | Some ip \<Rightarrow>
         bindr (inode_lock ip s) (\<lambda>s.
         if itype (dpart (inode_at s ip)) = FT_DIR
         then bindr (inode_unlock_free ip s) (\<lambda>s. Inr (MINUS1, s))
         else bindr (add_nlink ip 1 s) (\<lambda>s.
           bindr (inode_unlock ip s) (\<lambda>s.
           bindr (path_to_pinode cwd new_path junk s) (\<lambda>(q, nm, s).
           case q of
             None \<Rightarrow> link_bad ip s
           | Some pip \<Rightarrow>
               bindr (inode_lock pip s) (\<lambda>s.
               bindr (dir_add_entry pip (inode_num (inode_at s ip)) nm s) (\<lambda>(r, s).
               bindr (inode_unlock_free pip s) (\<lambda>s.
               if r = DIR_FULL then link_bad ip s
               else bindr (inode_free ip s) (\<lambda>s. Inr (0, s))))))))))"

definition check_unlink :: "nat \<Rightarrow> 'a inode_state_scheme \<Rightarrow> (bool \<times> 'a inode_state_scheme) res" where
  "check_unlink ip s =
     bindr (assert_that (spinlock_holding 0 (islk (inode_at s ip))) ''check_unlink: slk'') (\<lambda>_.
     bindr (dir_get_entries ip (DIRENT_SIZE * 3) buf_put s (replicate 96 0)) (\<lambda>(read_len, s, _).
     if read_len = DIRENT_SIZE * 3 then Inr (False, s)
     else if read_len = DIRENT_SIZE * 2 then Inr (True, s)
     else Inl (Panic ''check_unlink: read_len'')))"

definition path_unlink :: "byte list \<Rightarrow> nat option \<Rightarrow> byte list \<Rightarrow> 'a inode_state_scheme \<Rightarrow>
    (u32 \<times> 'a inode_state_scheme) res" where
  "path_unlink junk cwd path s =
     bindr (path_to_pinode cwd path junk s) (\<lambda>(p, nm, s).
     case p of
       None \<Rightarrow> Inr (MINUS1, s)
     | Some pip \<Rightarrow>
         bindr (inode_lock pip s) (\<lambda>s.
         if strncmp (bview nm) (bview (lit ''.'')) (of_nat DIR_NAME_LEN) = 0 \<or>
            strncmp (bview nm) (bview (lit ''..'')) (of_nat DIR_NAME_LEN) = 0
         then bindr (inode_unlock_free pip s) (\<lambda>s. Inr (MINUS1, s))
         else bindr (dir_search_entry pip nm s) (\<lambda>(inum, s).
           if inum = INODE_NUM_UNUSED
           then bindr (inode_unlock_free pip s) (\<lambda>s. Inr (MINUS1, s))
           else bindr (inode_alloc inum s) (\<lambda>(ip, s).
             bindr (inode_lock ip s) (\<lambda>s.
             bindr (if itype (dpart (inode_at s ip)) = FT_DIR then check_unlink ip s else Inr (True, s)) (\<lambda>(okay, s).
             if \<not> okay
             then bindr (inode_unlock_free ip s) (\<lambda>s.
                  bindr (inode_unlock_free pip s) (\<lambda>s. Inr (MINUS1, s)))
             else bindr (if itype (dpart (inode_at s ip)) = FT_DIR then add_nlink pip (- 1) s else Inr s) (\<lambda>s.
                  bindr (dir_delete_entry pip nm s) (\<lambda>(r, s).
                  bindr (assert_that (r \<noteq> INODE_NUM_UNUSED) ''path_unlink: delete_entry failed'') (\<lambda>_.
                  bindr (inode_unlock_free pip s) (\<lambda>s.
                  bindr (add_nlink ip (- 1) s) (\<lambda>s.
                  bindr (inode_unlock_free ip s) (\<lambda>s.
                  Inr (0, s)))))))))))))"

text \<open>\<^verbatim>\<open>dir_change\<close> returns the new current directory with its result.\<close>

definition dir_change :: "byte list \<Rightarrow> nat option \<Rightarrow> byte list \<Rightarrow> 'a inode_state_scheme \<Rightarrow>
    (u32 \<times> nat option \<times> 'a inode_state_scheme) res" where
  "dir_change junk cwd path s =
     bindr (path_to_inode junk cwd path s) (\<lambda>(p, s).
     case p of
       None \<Rightarrow> Inr (MINUS1, cwd, s)
     | Some ip \<Rightarrow>
         bindr (inode_lock ip s) (\<lambda>s.
         if itype (dpart (inode_at s ip)) \<noteq> FT_DIR
         then bindr (inode_unlock_free ip s) (\<lambda>s. Inr (MINUS1, cwd, s))
         else bindr (inode_unlock ip s) (\<lambda>s.
           bindr (case cwd of Some c \<Rightarrow> inode_free c s | None \<Rightarrow> Inr s) (\<lambda>s.
           Inr (0, Some ip, s)))))"

end
