(* ===== verification/Fs_Init.thy ===== *)
theory Fs_Init
  imports Dirs
begin

text \<open>
  \<^verbatim>\<open>kernel/fs/fs.c\<close>: reading the super block, and the exercise of the root directory that \<^verbatim>\<open>fs_init\<close> runs
  afterwards.  The function ends in \<^verbatim>\<open>while (1);\<close> (the result \<open>Hang\<close>); \<open>fs_selftest\<close> is the part before that
  loop.
\<close>

section \<open>Definitions\<close>

abbreviation FS_MAGIC :: u32 where "FS_MAGIC \<equiv> 0x12345678"
abbreviation SB_BLOCK_NUM :: u32 where "SB_BLOCK_NUM \<equiv> 0"

definition sb_of_bytes :: "byte list \<Rightarrow> super_block" where
  "sb_of_bytes d =
     (let w = (\<lambda>k. le_word (slice (4 * k) 4 d))
      in \<lparr>magic = w 0, block_size = w 1, inode_bitmap_start = w 2, inode_start = w 3, data_bitmap_start = w 4,
          data_start = w 5, inode_blocks = w 6, data_blocks = w 7, total_blocks = w 8\<rparr>)"

definition fs_mount :: "'a inode_state_scheme \<Rightarrow> 'a inode_state_scheme res" where
  "fs_mount s =
     bindr (buf_init s) (\<lambda>s.
     bindr (buf_read SB_BLOCK_NUM s) (\<lambda>(b, s).
     let s = s\<lparr>sb := sb_of_bytes (buf_data b s)\<rparr>
     in bindr (assert_that (magic (sb s) = FS_MAGIC) ''fs_init: magic'') (\<lambda>_.
        bindr (assert_that (block_size (sb s) = 1024) ''fs_init: block size'') (\<lambda>_.
        bindr (buf_release b s) (\<lambda>s.
        Inr (inode_init s))))))"

definition fs_selftest :: "'a inode_state_scheme \<Rightarrow> 'a inode_state_scheme res" where
  "fs_selftest s =
     bindr (inode_alloc INODE_ROOT s) (\<lambda>(ip, s).
     bindr (inode_lock ip s) (\<lambda>s.
     bindr (dir_print ip s) (\<lambda>(_, s).
     bindr (dir_add_entry ip 1 (lit ''a.txt'') s) (\<lambda>(_, s).
     bindr (dir_add_entry ip 2 (lit ''b.txt'') s) (\<lambda>(_, s).
     bindr (dir_add_entry ip 3 (lit ''c.txt'') s) (\<lambda>(_, s).
     bindr (dir_print ip s) (\<lambda>(_, s).
     bindr (dir_search_entry ip (lit ''b.txt'') s) (\<lambda>(r, s).
     bindr (assert_that (r = 2) ''error-1'') (\<lambda>_.
     bindr (dir_delete_entry ip (lit ''a.txt'') s) (\<lambda>(_, s).
     bindr (dir_print ip s) (\<lambda>(_, s).
     bindr (dir_add_entry ip 1 (lit ''d.txt'') s) (\<lambda>(_, s).
     bindr (dir_print ip s) (\<lambda>(_, s).
     bindr (dir_add_entry ip 4 (lit ''d.txt'') s) (\<lambda>(r, s).
     bindr (assert_that (r = DIR_FULL) ''error-2'') (\<lambda>_.
     inode_unlock ip s)))))))))))))))"

definition fs_init :: "'a inode_state_scheme \<Rightarrow> unit res" where
  "fs_init s = bindr (fs_mount s) (\<lambda>s. bindr (fs_selftest s) (\<lambda>_. Inl Hang))"

end
