(* ===== verification/Files.thy ===== *)
theory Files
  imports Dirs Uvm
begin

text \<open>
  \<^verbatim>\<open>kernel/fs/file.c\<close>: open files.  The file system state is extended by the table \<^verbatim>\<open>ftable\<close> and the device table
  \<^verbatim>\<open>devlist\<close>; a \<^verbatim>\<open>file_t*\<close> is the index of its entry, a device routine the address of its code (0 is the
  null pointer), and \<open>call\<close> stands for the indirect call.  Copies from and to user space go through the page table
  \<open>pgtbl\<close> of the calling process, in the physical memory \<open>pm\<close>.
\<close>

section \<open>Definitions\<close>

abbreviation N_FILE :: nat where "N_FILE \<equiv> 32"
abbreviation N_DEV :: nat where "N_DEV \<equiv> 10"
abbreviation FD_UNUSED :: u16 where "FD_UNUSED \<equiv> 0"
abbreviation FD_DIR :: u16 where "FD_DIR \<equiv> 1"
abbreviation FD_FILE :: u16 where "FD_FILE \<equiv> 2"
abbreviation FD_DEVICE :: u16 where "FD_DEVICE \<equiv> 3"
abbreviation MODE_CREATE :: u32 where "MODE_CREATE \<equiv> 1"
abbreviation MODE_READ :: u32 where "MODE_READ \<equiv> 2"
abbreviation MODE_WRITE :: u32 where "MODE_WRITE \<equiv> 4"

record file_t =
  ftype :: u16
  readable :: bool
  writable :: bool
  fref :: u32
  fmajor :: u16
  foffset :: u32
  fip :: "nat option"

record dev =
  dread :: u64
  dwrite :: u64

record file_state = inode_state +
  ftable :: "file_t list"
  devlist :: "dev list"

abbreviation file_at :: "'a file_state_scheme \<Rightarrow> nat \<Rightarrow> file_t" where
  "file_at s f \<equiv> ftable s ! f"

definition set_file :: "nat \<Rightarrow> file_t \<Rightarrow> 'a file_state_scheme \<Rightarrow> 'a file_state_scheme" where
  "set_file f v s = s\<lparr>ftable := (ftable s)[f := v]\<rparr>"

definition file_init :: "'a file_state_scheme \<Rightarrow> 'a file_state_scheme" where
  "file_init s = s\<lparr>ftable := map (\<lambda>f. f\<lparr>fref := 0, ftype := FD_UNUSED\<rparr>) (ftable s),
                   devlist := map (\<lambda>d. d\<lparr>dread := 0, dwrite := 0\<rparr>) (devlist s)\<rparr>"

definition file_alloc :: "'a file_state_scheme \<Rightarrow> (nat \<times> 'a file_state_scheme) res" where
  "file_alloc s =
     (case find (\<lambda>i. fref (file_at s i) = 0) [0..<N_FILE] of
        Some i \<Rightarrow> Inr (i, set_file i ((file_at s i)\<lparr>fref := 1\<rparr>) s)
      | None \<Rightarrow> Inl (Panic ''file_alloc: no free file''))"

definition file_create_dev :: "byte list \<Rightarrow> nat option \<Rightarrow> byte list \<Rightarrow> u16 \<Rightarrow> u16 \<Rightarrow> 'a file_state_scheme \<Rightarrow>
    (nat option \<times> 'a file_state_scheme) res" where
  "file_create_dev junk cwd path maj mnr s =
     bindr (path_create_inode junk cwd path FT_DEVICE maj mnr s) (\<lambda>(ip, s).
     if ip = None then Inr (None, s)
     else bindr (file_alloc s) (\<lambda>(f, s).
       Inr (Some f, set_file f ((file_at s f)\<lparr>ftype := FD_DEVICE, readable := True, writable := True, fmajor := maj,
                                   foffset := 0, fip := ip\<rparr>) s)))"

definition file_open :: "byte list \<Rightarrow> nat option \<Rightarrow> byte list \<Rightarrow> u32 \<Rightarrow> 'a file_state_scheme \<Rightarrow>
    (nat option \<times> 'a file_state_scheme) res" where
  "file_open junk cwd path open_mode s =
     bindr (if open_mode AND MODE_CREATE \<noteq> 0 then path_create_inode junk cwd path FT_FILE 0 0 s
            else path_to_inode junk cwd path s) (\<lambda>(p, s).
     case p of
       None \<Rightarrow> Inr (None, s)
     | Some ip \<Rightarrow>
         bindr (inode_lock ip s) (\<lambda>s.
         bindr (file_alloc s) (\<lambda>(f, s).
         let ty = itype (dpart (inode_at s ip)); fl = file_at s f
         in bindr (if ty = FT_DIR then Inr (fl\<lparr>ftype := FD_DIR\<rparr>)
                   else if ty = FT_FILE then Inr (fl\<lparr>ftype := FD_FILE\<rparr>)
                   else if ty = FT_DEVICE then Inr (fl\<lparr>ftype := FD_DEVICE, fmajor := imajor (dpart (inode_at s ip))\<rparr>)
                   else Inl (Panic ''file_open: unknown type'')) (\<lambda>fl.
            let s = set_file f (fl\<lparr>readable := open_mode AND MODE_READ \<noteq> 0, writable := open_mode AND MODE_WRITE \<noteq> 0,
                                   foffset := 0, fip := Some ip\<rparr>) s
            in bindr (inode_unlock ip s) (\<lambda>s. Inr (Some f, s))))))"

text \<open>\<^verbatim>\<open>inode_free\<close> of the pointer of a file; a null pointer is dereferenced there.\<close>

definition with_ip :: "nat option \<Rightarrow> (nat \<Rightarrow> 'b res) \<Rightarrow> 'b res" where
  "with_ip p k = (case p of Some ip \<Rightarrow> k ip | None \<Rightarrow> Inl Undefined)"

definition file_close :: "nat \<Rightarrow> 'a file_state_scheme \<Rightarrow> 'a file_state_scheme res" where
  "file_close f s =
     (let fl = file_at s f
      in if fref fl < 1 then Inl (Panic ''file_close: ref < 1'')
         else let fl = fl\<lparr>fref := fref fl - 1\<rparr>
           in if fref fl = 0
              then let s = set_file f (fl\<lparr>ftype := FD_UNUSED, readable := False, writable := False, foffset := 0, fip := None\<rparr>) s
                in if ftype fl = FD_FILE \<or> ftype fl = FD_DIR \<or> ftype fl = FD_DEVICE
                   then with_ip (fip fl) (\<lambda>ip. inode_free ip s)
                   else Inr s
              else Inr (set_file f fl s))"

text \<open>The two branches of the copies of \<^verbatim>\<open>inode_read_data\<close> and \<^verbatim>\<open>inode_write_data\<close>.\<close>

definition copy_to :: "bool \<Rightarrow> u64 \<Rightarrow> u64 \<Rightarrow> nat \<Rightarrow> byte list \<Rightarrow> pmem \<Rightarrow> pmem res" where
  "copy_to user pgtbl dst tot bs pm =
     (if user then copyout_bytes pgtbl (dst + of_nat tot) bs pm
      else Inr (pm\<lparr>mem := store_bytes (mem pm) (dst + of_nat tot) bs\<rparr>))"

definition copy_from :: "bool \<Rightarrow> u64 \<Rightarrow> u64 \<Rightarrow> pmem \<Rightarrow> nat \<Rightarrow> nat \<Rightarrow> byte list res" where
  "copy_from user pgtbl src pm tot m =
     (if user then copyin_bytes pgtbl (src + of_nat tot) m pm
      else Inr (load_bytes (mem pm) (src + of_nat tot) m))"

type_synonym dev_call = "u64 \<Rightarrow> u32 \<Rightarrow> u64 \<Rightarrow> bool \<Rightarrow> pmem \<Rightarrow> (u32 \<times> pmem) res"

definition move_offset :: "nat \<Rightarrow> u32 \<Rightarrow> 'a file_state_scheme \<Rightarrow> 'a file_state_scheme" where
  "move_offset f r s = set_file f ((file_at s f)\<lparr>foffset := foffset (file_at s f) + r\<rparr>) s"

definition file_read :: "dev_call \<Rightarrow> u64 \<Rightarrow> nat \<Rightarrow> u32 \<Rightarrow> u64 \<Rightarrow> bool \<Rightarrow> 'a file_state_scheme \<Rightarrow> pmem \<Rightarrow>
    (u32 \<times> 'a file_state_scheme \<times> pmem) res" where
  "file_read call pgtbl f len dst user s pm =
     (let fl = file_at s f; put = copy_to user pgtbl dst
      in if \<not> readable fl then Inr (MINUS1, s, pm)
         else if ftype fl = FD_DEVICE
         then if N_DEV \<le> unat (fmajor fl) \<or> dread (devlist s ! unat (fmajor fl)) = 0 then Inr (MINUS1, s, pm)
              else bindr (call (dread (devlist s ! unat (fmajor fl))) len dst user pm) (\<lambda>(r, pm). Inr (r, s, pm))
         else if ftype fl = FD_FILE
         then with_ip (fip fl) (\<lambda>ip.
              bindr (inode_lock ip s) (\<lambda>s.
              bindr (inode_read_data ip (foffset fl) len put s pm) (\<lambda>(r, s, pm).
              bindr (inode_unlock ip (move_offset f r s)) (\<lambda>s. Inr (r, s, pm)))))
         else if ftype fl = FD_DIR
         then with_ip (fip fl) (\<lambda>ip.
              bindr (inode_lock ip s) (\<lambda>s.
              bindr (dir_get_entries ip len put s pm) (\<lambda>(r, s, pm).
              bindr (inode_unlock ip s) (\<lambda>s. Inr (r, s, pm)))))
         else Inr (MINUS1, s, pm))"

definition file_write :: "dev_call \<Rightarrow> u64 \<Rightarrow> nat \<Rightarrow> u32 \<Rightarrow> u64 \<Rightarrow> bool \<Rightarrow> 'a file_state_scheme \<Rightarrow> pmem \<Rightarrow>
    (u32 \<times> 'a file_state_scheme \<times> pmem) res" where
  "file_write call pgtbl f len src user s pm =
     (let fl = file_at s f
      in if \<not> writable fl then Inr (MINUS1, s, pm)
         else if ftype fl = FD_DEVICE
         then if N_DEV \<le> unat (fmajor fl) \<or> dwrite (devlist s ! unat (fmajor fl)) = 0 then Inr (MINUS1, s, pm)
              else bindr (call (dwrite (devlist s ! unat (fmajor fl))) len src user pm) (\<lambda>(r, pm). Inr (r, s, pm))
         else if ftype fl = FD_FILE
         then with_ip (fip fl) (\<lambda>ip.
              bindr (inode_lock ip s) (\<lambda>s.
              bindr (inode_write_data ip (foffset fl) len (copy_from user pgtbl src pm) s) (\<lambda>(w, s).
              bindr (inode_unlock ip (move_offset f w s)) (\<lambda>s. Inr (w, s, pm)))))
         else Inr (MINUS1, s, pm))"

text \<open>\<^verbatim>\<open>LSEEK_SET\<close>, \<^verbatim>\<open>LSEEK_ADD\<close> and \<^verbatim>\<open>LSEEK_SUB\<close> are 0, 1 and 2.\<close>

definition seek_target :: "u32 \<Rightarrow> u32 \<Rightarrow> int \<Rightarrow> u32 option" where
  "seek_target cur offset flags =
     (if flags = 0 then Some offset
      else if flags = 1 then Some (cur + offset)
      else if flags = 2 then Some (if cur < offset then 0 else cur - offset)
      else None)"

definition file_lseek :: "nat \<Rightarrow> u32 \<Rightarrow> int \<Rightarrow> 'a file_state_scheme \<Rightarrow> (u32 \<times> 'a file_state_scheme) res" where
  "file_lseek f offset flags s =
     (if ftype (file_at s f) \<noteq> FD_FILE then Inr (MINUS1, s)
      else with_ip (fip (file_at s f)) (\<lambda>ip.
        bindr (inode_lock ip s) (\<lambda>s.
        case seek_target (foffset (file_at s f)) offset flags of
          None \<Rightarrow> bindr (inode_unlock ip s) (\<lambda>s. Inr (MINUS1, s))
        | Some new_offset \<Rightarrow>
            if isize (dpart (inode_at s ip)) < new_offset
            then bindr (inode_unlock ip s) (\<lambda>s. Inr (MINUS1, s))
            else bindr (inode_unlock ip (set_file f ((file_at s f)\<lparr>foffset := new_offset\<rparr>) s)) (\<lambda>s. Inr (0, s)))))"

definition file_dup :: "nat \<Rightarrow> 'a file_state_scheme \<Rightarrow> (nat \<times> 'a file_state_scheme) res" where
  "file_dup f s =
     bindr (assert_that (0 < fref (file_at s f)) ''file_dup: ref'') (\<lambda>_.
     Inr (f, set_file f ((file_at s f)\<lparr>fref := fref (file_at s f) + 1\<rparr>) s))"

text \<open>The bytes of a \<^verbatim>\<open>file_state_t\<close>; \<open>pad\<close> are the two bytes of padding before \<^verbatim>\<open>size\<close>.\<close>

definition stat_bytes :: "byte list \<Rightarrow> inode \<Rightarrow> byte list" where
  "stat_bytes pad ip = le_bytes 2 (itype (dpart ip)) @ le_bytes 2 (inode_num ip) @ le_bytes 2 (nlink (dpart ip)) @ pad @
     le_bytes 4 (isize (dpart ip))"

definition file_stat :: "byte list \<Rightarrow> u64 \<Rightarrow> nat \<Rightarrow> u64 \<Rightarrow> 'a file_state_scheme \<Rightarrow> pmem \<Rightarrow>
    (u32 \<times> 'a file_state_scheme \<times> pmem) res" where
  "file_stat pad pgtbl f addr s pm =
     (if ftype (file_at s f) = FD_FILE \<or> ftype (file_at s f) = FD_DIR
      then with_ip (fip (file_at s f)) (\<lambda>ip.
        bindr (inode_lock ip s) (\<lambda>s.
        let st = stat_bytes pad (inode_at s ip)
        in bindr (inode_unlock ip s) (\<lambda>s.
           bindr (copyout_bytes pgtbl addr st pm) (\<lambda>pm.
           Inr (MINUS1, s, pm)))))
      else Inr (MINUS1, s, pm))"

end
