(* ===== verification/Procs.thy ===== *)
theory Procs
  imports Uvm Spinlock
begin

text \<open>
  \<^verbatim>\<open>kernel/proc/proc.c\<close>: the process table, fork, exit, wait, sleep, wakeup and the scheduler, which runs on hart
  0 only.  A \<^verbatim>\<open>proc_t*\<close> is the index of its slot.  The kernel state holds the memory, the region
  store, the table, the locks and the bookkeeping of the hart.  Addresses the linker or the compiler
  chooses are in an \<open>image\<close>.

  A context switch splits a function in the part before \<^verbatim>\<open>swtch\<close> and the part that runs when the process is
  resumed; what a suspended process will do next is its saved context, of which the model keeps the
  meaning in \<open>kont\<close>.  \<open>ctl\<close> says who has the hart: the scheduler, about to look at a slot, or a process.
\<close>

section \<open>Data\<close>

abbreviation NPROC :: nat where "NPROC \<equiv> 64"
abbreviation FILE_PER_PROC :: nat where "FILE_PER_PROC \<equiv> 16"

datatype proc_state = UNUSED | RUNNABLE | RUNNING | SLEEPING | ZOMBIE

text \<open>What a process can sleep on: a process (in \<^verbatim>\<open>proc_wait\<close>), the system timer, the free descriptors of the disk
  or a buffer of it.\<close>

datatype chan = ChanProc nat | ChanTimer | ChanDesc | ChanBuf nat

datatype lockid = WaitLock | TimerLock

text \<open>Where a process continues when the scheduler switches to it: at the start of a new process, in
  \<^verbatim>\<open>proc_yield\<close>, or in \<^verbatim>\<open>proc_sleep\<close> with the lock to take again and the caller to return to.\<close>

datatype caller = InWait u64 | InSleep u64
datatype kont = ForkReturn | ForkRet | AfterYield | AfterSleep lockid caller | Gone

record context_t =
  ctx_ra :: u64
  ctx_sp :: u64
  ctx_s :: "u64 list"

record proc =
  plk :: spinlock
  pid :: int
  pstate :: proc_state
  parent :: "nat option"
  exit_state :: int
  sleep_space :: "chan option"
  pgtbl :: u64
  heap_top :: u64
  ustack_base :: u64
  ustack_pages :: u64
  pmmap :: "nat option"
  tf :: u64
  kstack :: u64
  ctx :: context_t
  cwd :: "nat option"
  filelist :: "nat option list"
  kont :: kont

datatype ctl = Scheduler nat | Process nat

record kernel =
  pm :: pmem
  mms :: mmap_store
  procs :: "proc list"
  proczero :: "nat option"
  global_pid :: int
  first :: bool
  kernel_pgtbl :: u64
  wait_lock :: spinlock
  ticks :: u64
  timer_lk :: spinlock
  cpu :: hart
  cur :: "nat option"
  ctl :: ctl

record image =
  trampoline :: u64
  ALLOC_BEGIN :: u64
  fork_return_pc :: u64
  forkret_pc :: u64
  initcode :: "byte list"

abbreviation proc_at :: "kernel \<Rightarrow> nat \<Rightarrow> proc" where
  "proc_at s i \<equiv> procs s ! i"

definition upd :: "nat \<Rightarrow> (proc \<Rightarrow> proc) \<Rightarrow> kernel \<Rightarrow> kernel" where
  "upd i f s = s\<lparr>procs := (procs s)[i := f (proc_at s i)]\<rparr>"

section \<open>Locks\<close>

text \<open>Acquire and release with the bookkeeping of hart 0.\<close>

definition acquire_proc :: "nat \<Rightarrow> kernel \<Rightarrow> kernel res" where
  "acquire_proc i s = bindr (spinlock_acquire 0 (cpu s) (plk (proc_at s i))) (\<lambda>(c, l).
     Inr (upd i (plk_update (\<lambda>_. l)) (s\<lparr>cpu := c\<rparr>)))"

definition release_proc :: "nat \<Rightarrow> kernel \<Rightarrow> kernel res" where
  "release_proc i s = bindr (spinlock_release 0 (cpu s) (plk (proc_at s i))) (\<lambda>(c, l).
     Inr (upd i (plk_update (\<lambda>_. l)) (s\<lparr>cpu := c\<rparr>)))"

primrec get_lock :: "lockid \<Rightarrow> kernel \<Rightarrow> spinlock" where
  "get_lock WaitLock s = wait_lock s"
| "get_lock TimerLock s = timer_lk s"

primrec set_lock :: "lockid \<Rightarrow> spinlock \<Rightarrow> kernel \<Rightarrow> kernel" where
  "set_lock WaitLock l s = s\<lparr>wait_lock := l\<rparr>"
| "set_lock TimerLock l s = s\<lparr>timer_lk := l\<rparr>"

definition acquire :: "lockid \<Rightarrow> kernel \<Rightarrow> kernel res" where
  "acquire k s = bindr (spinlock_acquire 0 (cpu s) (get_lock k s)) (\<lambda>(c, l). Inr (set_lock k l (s\<lparr>cpu := c\<rparr>)))"

definition release :: "lockid \<Rightarrow> kernel \<Rightarrow> kernel res" where
  "release k s = bindr (spinlock_release 0 (cpu s) (get_lock k s)) (\<lambda>(c, l). Inr (set_lock k l (s\<lparr>cpu := c\<rparr>)))"

section \<open>Process slots\<close>

text \<open>\<^verbatim>\<open>global_pid++\<close> overflows a 32-bit \<^verbatim>\<open>int\<close> at its maximum.\<close>

definition alloc_pid :: "kernel \<Rightarrow> (int \<times> kernel) res" where
  "alloc_pid s =
     bindr (assert_that (0 \<le> global_pid s) ''alloc_pid: overflow'') (\<lambda>_.
     if global_pid s = 2 ^ 31 - 1 then Inl Undefined
     else Inr (global_pid s, s\<lparr>global_pid := global_pid s + 1\<rparr>))"

definition lift_pm :: "(pmem \<Rightarrow> pmem res) \<Rightarrow> kernel \<Rightarrow> kernel res" where
  "lift_pm f s = bindr (f (pm s)) (\<lambda>p. Inr (s\<lparr>pm := p\<rparr>))"

definition proc_pgtbl_init :: "image \<Rightarrow> u64 \<Rightarrow> pmem \<Rightarrow> (u64 \<times> pmem) res" where
  "proc_pgtbl_init im trapframe s =
     (let (root, s) = pmem_alloc False s
      in if root = 0 then Inr (0, s)
         else bindr (memset (mem s) root 0 4096) (\<lambda>m.
           bindr (vm_getpte root TRAMPOLINE True (s\<lparr>mem := m\<rparr>)) (\<lambda>(pte, s).
           if pte = 0 then bindr (uvm_destroy_pgtbl root s) (\<lambda>s. Inr (0, s))
           else bindr (vm_mappages root TRAMPOLINE (trampoline im) PGSIZE (PTE_R OR PTE_X) s) (\<lambda>s.
             bindr (vm_getpte root TRAPFRAME True s) (\<lambda>(pte, s).
             if pte = 0
             then bindr (vm_unmappages (ALLOC_BEGIN im) root TRAMPOLINE PGSIZE False s) (\<lambda>s.
                  bindr (uvm_destroy_pgtbl root s) (\<lambda>s. Inr (0, s)))
             else bindr (vm_mappages root TRAPFRAME trapframe PGSIZE (PTE_R OR PTE_W) s) (\<lambda>s.
               Inr (root, s)))))))"

definition reset_proc :: "proc \<Rightarrow> proc" where
  "reset_proc p = p\<lparr>tf := 0, pgtbl := 0, pmmap := None, pid := 0, parent := None, exit_state := 0, sleep_space := None,
     heap_top := 0, ustack_base := 0, ustack_pages := 0, pstate := UNUSED\<rparr>"

definition proc_free :: "image \<Rightarrow> nat \<Rightarrow> kernel \<Rightarrow> kernel res" where
  "proc_free im i s =
     (let p = proc_at s i
      in bindr (if tf p \<noteq> 0 then lift_pm (pmem_free (tf p) True) s else Inr s) (\<lambda>s.
         bindr (if pgtbl p \<noteq> 0 then lift_pm (uvm_destroy_pgtbl (pgtbl p)) s else Inr s) (\<lambda>s.
         bindr (if kstack p \<noteq> 0
                then lift_pm (vm_unmappages (ALLOC_BEGIN im) (kernel_pgtbl s) (kstack p) PGSIZE True) s else Inr s) (\<lambda>s.
         let s = (case pmmap p of Some r \<Rightarrow> s\<lparr>mms := mmap_region_free r (mms s)\<rparr> | None \<Rightarrow> s)
         in Inr (upd i reset_proc s)))))"

definition free_and_fail :: "image \<Rightarrow> nat \<Rightarrow> kernel \<Rightarrow> (nat option \<times> kernel) res" where
  "free_and_fail im i s = bindr (proc_free im i s) (\<lambda>s. bindr (release_proc i s) (\<lambda>s. Inr (None, s)))"

text \<open>From the label \<^verbatim>\<open>found\<close> on; the slot is locked.\<close>

definition proc_setup :: "image \<Rightarrow> nat \<Rightarrow> kernel \<Rightarrow> (nat option \<times> kernel) res" where
  "proc_setup im i s =
     bindr (alloc_pid s) (\<lambda>(n, s).
     let s = upd i (\<lambda>p. p\<lparr>pid := n, pstate := RUNNABLE\<rparr>) s;
         (pa, m) = pmem_alloc True (pm s);
         s = upd i (\<lambda>p. p\<lparr>tf := pa\<rparr>) (s\<lparr>pm := m\<rparr>)
     in if pa = 0 then free_and_fail im i s
        else bindr (proc_pgtbl_init im pa (pm s)) (\<lambda>(root, m).
          let s = upd i (\<lambda>p. p\<lparr>pgtbl := root\<rparr>) (s\<lparr>pm := m\<rparr>)
          in if root = 0 then free_and_fail im i s
             else let (ks, m) = pmem_alloc True (pm s); s = s\<lparr>pm := m\<rparr>
               in if ks = 0 then free_and_fail im i s
                  else bindr (lift_pm (vm_mappages (kernel_pgtbl s) (kstack (proc_at s i)) ks PGSIZE (PTE_R OR PTE_W)) s) (\<lambda>s.
                    Inr (Some i, upd i (\<lambda>p. p\<lparr>ctx := \<lparr>ctx_ra = fork_return_pc im, ctx_sp = kstack p + PGSIZE,
                                                      ctx_s = replicate 12 0\<rparr>, kont := ForkReturn\<rparr>) s))))"

primrec proc_alloc_loop :: "image \<Rightarrow> nat list \<Rightarrow> kernel \<Rightarrow> (nat option \<times> kernel) res" where
  "proc_alloc_loop im [] s = Inr (None, s)"
| "proc_alloc_loop im (i # is) s =
     bindr (acquire_proc i s) (\<lambda>s.
     if pstate (proc_at s i) = UNUSED then proc_setup im i s
     else bindr (release_proc i s) (proc_alloc_loop im is))"

definition proc_alloc :: "image \<Rightarrow> kernel \<Rightarrow> (nat option \<times> kernel) res" where
  "proc_alloc im s = proc_alloc_loop im [0..<NPROC] s"

definition proc_init :: "kernel \<Rightarrow> kernel" where
  "proc_init s = s\<lparr>wait_lock := spinlock_init ''wait_lock'',
     procs := map (\<lambda>i. (proc_at s i)\<lparr>plk := spinlock_init ''proc'', pstate := UNUSED, kstack := KSTACK (of_nat i)\<rparr>)
                [0..<NPROC]\<rparr>"

section \<open>Switching\<close>

text \<open>\<^verbatim>\<open>proc_sched\<close> up to and including \<^verbatim>\<open>swtch\<close>, and then the scheduler's code after its own \<^verbatim>\<open>swtch\<close>: it clears
  \<^verbatim>\<open>c->proc\<close>, releases the slot and goes to the next one.  \<open>k\<close> is where the process will go on.\<close>

definition proc_sched :: "nat \<Rightarrow> kont \<Rightarrow> kernel \<Rightarrow> kernel res" where
  "proc_sched i k s =
     bindr (assert_that (spinlock_holding 0 (plk (proc_at s i))) ''proc_sched: lock'') (\<lambda>_.
     bindr (assert_that (0 < noff (cpu s)) ''proc_sched: interrupts enabled'') (\<lambda>_.
     bindr (assert_that (pstate (proc_at s i) \<noteq> RUNNING) ''proc_sched: running'') (\<lambda>_.
     bindr (release_proc i (upd i (\<lambda>p. p\<lparr>kont := k\<rparr>) (s\<lparr>cur := None\<rparr>))) (\<lambda>s.
     Inr (s\<lparr>ctl := Scheduler (Suc i)\<rparr>)))))"

text \<open>One round of the scheduler's loop at slot \<open>i\<close>.  When the slot is runnable the hart goes to the process, with
  the slot still locked; at the end of the table interrupts are enabled and the loop starts again.\<close>

definition proc_scheduler :: "nat \<Rightarrow> kernel \<Rightarrow> kernel res" where
  "proc_scheduler i s =
     (if NPROC \<le> i then Inr (s\<lparr>cpu := (cpu s)\<lparr>sie := True\<rparr>, ctl := Scheduler 0\<rparr>)
      else bindr (acquire_proc i s) (\<lambda>s.
        if pstate (proc_at s i) = RUNNABLE
        then Inr (upd i (\<lambda>p. p\<lparr>pstate := RUNNING\<rparr>) (s\<lparr>cur := Some i, ctl := Process i\<rparr>))
        else bindr (release_proc i s) (\<lambda>s. Inr (s\<lparr>ctl := Scheduler (Suc i)\<rparr>))))"

definition proc_yield :: "nat \<Rightarrow> kernel \<Rightarrow> kernel res" where
  "proc_yield i s =
     bindr (acquire_proc i s) (\<lambda>s.
     proc_sched i AfterYield (upd i (\<lambda>p. p\<lparr>pstate := RUNNABLE\<rparr>) s))"

definition proc_sleep :: "nat \<Rightarrow> chan \<Rightarrow> lockid \<Rightarrow> caller \<Rightarrow> kernel \<Rightarrow> kernel res" where
  "proc_sleep i c k who s =
     bindr (acquire_proc i s) (\<lambda>s.
     bindr (release k s) (\<lambda>s.
     proc_sched i (AfterSleep k who) (upd i (\<lambda>p. p\<lparr>sleep_space := Some c, pstate := SLEEPING\<rparr>) s)))"

text \<open>The rest of \<^verbatim>\<open>proc_sleep\<close>, when the process is resumed.\<close>

definition sleep_resume :: "nat \<Rightarrow> lockid \<Rightarrow> kernel \<Rightarrow> kernel res" where
  "sleep_resume i k s =
     bindr (release_proc i (upd i (\<lambda>p. p\<lparr>sleep_space := None\<rparr>) s)) (acquire k)"

primrec wakeup_loop :: "chan option \<Rightarrow> nat list \<Rightarrow> kernel \<Rightarrow> kernel res" where
  "wakeup_loop c [] s = Inr s"
| "wakeup_loop c (i # is) s =
     bindr (if cur s \<noteq> Some i
            then bindr (acquire_proc i s) (\<lambda>s.
                 release_proc i (if pstate (proc_at s i) = SLEEPING \<and> sleep_space (proc_at s i) = c
                                 then upd i (\<lambda>p. p\<lparr>pstate := RUNNABLE\<rparr>) s else s))
            else Inr s)
       (wakeup_loop c is)"

definition proc_wakeup :: "chan option \<Rightarrow> kernel \<Rightarrow> kernel res" where
  "proc_wakeup c s = wakeup_loop c [0..<NPROC] s"

section \<open>The life of a process\<close>

text \<open>Fields of a trapframe by their offsets in \<^verbatim>\<open>trapframe_t\<close>, whose size is 288.\<close>

abbreviation TF_EPC :: u64 where "TF_EPC \<equiv> 24"
abbreviation TF_SP :: u64 where "TF_SP \<equiv> 48"
abbreviation TF_A0 :: u64 where "TF_A0 \<equiv> 112"

definition tf_get :: "nat \<Rightarrow> u64 \<Rightarrow> kernel \<Rightarrow> u64" where
  "tf_get i off s = load64 (mem (pm s)) (tf (proc_at s i) + off)"

definition tf_set :: "nat \<Rightarrow> u64 \<Rightarrow> u64 \<Rightarrow> kernel \<Rightarrow> kernel" where
  "tf_set i off v s = s\<lparr>pm := (pm s)\<lparr>mem := store64 (mem (pm s)) (tf (proc_at s i) + off) v\<rparr>\<rparr>"

text \<open>A zeroed user page mapped at \<open>va\<close> of process \<open>i\<close>.\<close>

definition map_zero_page :: "nat \<Rightarrow> u64 \<Rightarrow> u64 \<Rightarrow> string \<Rightarrow> kernel \<Rightarrow> (u64 \<times> kernel) res" where
  "map_zero_page i va perm msg s =
     (let (pa, m) = pmem_alloc False (pm s)
      in bindr (assert_that (pa \<noteq> 0) msg) (\<lambda>_.
         bindr (memset (mem m) pa 0 4096) (\<lambda>mm.
         bindr (vm_mappages (pgtbl (proc_at s i)) va pa PGSIZE perm (m\<lparr>mem := mm\<rparr>)) (\<lambda>m.
         Inr (pa, s\<lparr>pm := m\<rparr>)))))"

definition proc_make_first :: "image \<Rightarrow> kernel \<Rightarrow> kernel res" where
  "proc_make_first im s =
     bindr (proc_alloc im s) (\<lambda>(p, s).
     case p of
       None \<Rightarrow> Inl (Panic ''proc_make_first: proc_alloc'')
     | Some i \<Rightarrow>
         let s = upd i (\<lambda>p. p\<lparr>ctx := (ctx p)\<lparr>ctx_ra := forkret_pc im\<rparr>, kont := ForkRet\<rparr>) (s\<lparr>proczero := Some i\<rparr>)
         in bindr (map_zero_page i 0 (PTE_R OR PTE_W OR PTE_X OR PTE_U) ''proc_make_first: pmem_alloc'' s) (\<lambda>(pa, s).
            let s = s\<lparr>pm := (pm s)\<lparr>mem := store_bytes (mem (pm s)) pa (initcode im)\<rparr>\<rparr>;
                s = upd i (\<lambda>p. p\<lparr>heap_top := PGSIZE, ustack_base := 0x10000, ustack_pages := 1\<rparr>) s
            in bindr (map_zero_page i 0x10000 (PTE_R OR PTE_W OR PTE_U) ''proc_make_first: pmem_alloc for stack'' s) (\<lambda>(_, s).
               let s = tf_set i TF_EPC 0 s;
                   s = tf_set i TF_SP (ustack_base (proc_at s i) + PGSIZE) s;
                   s = upd i (\<lambda>p. p\<lparr>pstate := RUNNABLE\<rparr>) s
               in bindr (release_proc i s) (\<lambda>s.
                  Inr (s\<lparr>cur := None, ctl := Scheduler NPROC\<rparr>)))))"

text \<open>The copy of the region list in \<^verbatim>\<open>proc_fork\<close>.  \<^verbatim>\<open>mmap_region_alloc\<close> panics rather than return NULL, so the branch for
  NULL is never taken.  Each round takes a region from the store, so \<^verbatim>\<open>N_MMAP\<close> rounds are enough.\<close>

fun fork_regions :: "nat \<Rightarrow> nat option \<Rightarrow> nat option \<Rightarrow> nat option \<Rightarrow> mmap_store \<Rightarrow> (nat option \<times> mmap_store) res" where
  "fork_regions fuel None head tail mm = Inr (head, mm)"
| "fork_regions 0 (Some src) head tail mm = Inl Hang"
| "fork_regions (Suc fuel) (Some src) head tail mm =
     bindr (mmap_region_alloc mm) (\<lambda>(n, mm).
     let r = regions mm src;
         mm = set_region n \<lparr>m_begin = m_begin r, npages = npages r, m_next = None\<rparr> mm;
         (head, mm) = (case head of
             None \<Rightarrow> (Some n, mm)
           | Some h \<Rightarrow> (Some h, case tail of Some t \<Rightarrow> set_region t ((regions mm t)\<lparr>m_next := Some n\<rparr>) mm | None \<Rightarrow> mm))
     in fork_regions fuel (m_next (regions mm src)) head (Some n) mm)"

definition proc_fork :: "image \<Rightarrow> nat \<Rightarrow> kernel \<Rightarrow> (int \<times> kernel) res" where
  "proc_fork im i s =
     bindr (proc_alloc im s) (\<lambda>(q, s).
     case q of
       None \<Rightarrow> Inr (- 1, s)
     | Some np \<Rightarrow>
         let p = proc_at s i
         in bindr (lift_pm (uvm_copy_pgtbl (pgtbl p) (pgtbl (proc_at s np)) (heap_top p) (ustack_base p)
                     (ucast (ustack_pages p)) (pmmap p) (mms s)) s) (\<lambda>s.
            bindr (fork_regions N_MMAP (pmmap p) None None (mms s)) (\<lambda>(head, mm).
            let s = upd np (\<lambda>q. q\<lparr>heap_top := heap_top p, ustack_base := ustack_base p, ustack_pages := ustack_pages p,
                                  pmmap := head\<rparr>) (s\<lparr>mms := mm\<rparr>);
                m = mem (pm s);
                s = s\<lparr>pm := (pm s)\<lparr>mem := store_bytes m (tf (proc_at s np)) (load_bytes m (tf p) 288)\<rparr>\<rparr>;
                s = tf_set np TF_A0 0 s;
                s = upd np (\<lambda>q. q\<lparr>parent := Some i, pstate := RUNNABLE\<rparr>) s
            in bindr (release_proc np s) (\<lambda>s. Inr (pid (proc_at s np), s)))))"

text \<open>An operation returns to its caller or gives up the hart.\<close>

datatype outcome = Returned int | Switched

datatype wait_result = Reaped int | Children | NoChildren

text \<open>The scan of \<^verbatim>\<open>proc_wait\<close>, with \<^verbatim>\<open>wait_lock\<close> held.\<close>

primrec wait_scan :: "image \<Rightarrow> nat \<Rightarrow> u64 \<Rightarrow> nat list \<Rightarrow> bool \<Rightarrow> kernel \<Rightarrow> (wait_result \<times> kernel) res" where
  "wait_scan im i addr [] havekids s = Inr (if havekids then Children else NoChildren, s)"
| "wait_scan im i addr (j # js) havekids s =
     (if parent (proc_at s j) = Some i
      then bindr (acquire_proc j s) (\<lambda>s.
        if pstate (proc_at s j) = ZOMBIE
        then let n = pid (proc_at s j); ex = le_bytes 4 (word_of_int (exit_state (proc_at s j)) :: u32)
          in bindr (if addr \<noteq> 0 then lift_pm (copyout_bytes (pgtbl (proc_at s i)) addr ex) s else Inr s) (\<lambda>s.
             bindr (proc_free im j s) (\<lambda>s.
             bindr (release_proc j s) (\<lambda>s. Inr (Reaped n, s))))
        else bindr (release_proc j s) (wait_scan im i addr js True))
      else wait_scan im i addr js havekids s)"

definition wait_round :: "image \<Rightarrow> nat \<Rightarrow> u64 \<Rightarrow> kernel \<Rightarrow> (outcome \<times> kernel) res" where
  "wait_round im i addr s =
     bindr (wait_scan im i addr [0..<NPROC] False s) (\<lambda>(r, s).
     case r of
       Reaped n \<Rightarrow> bindr (release WaitLock s) (\<lambda>s. Inr (Returned n, s))
     | NoChildren \<Rightarrow> bindr (release WaitLock s) (\<lambda>s. Inr (Returned (- 1), s))
     | Children \<Rightarrow> bindr (proc_sleep i (ChanProc i) WaitLock (InWait addr) s) (\<lambda>s. Inr (Switched, s)))"

definition proc_wait :: "image \<Rightarrow> nat \<Rightarrow> u64 \<Rightarrow> kernel \<Rightarrow> (outcome \<times> kernel) res" where
  "proc_wait im i addr s = bindr (acquire WaitLock s) (wait_round im i addr)"

primrec reparent_loop :: "nat \<Rightarrow> nat list \<Rightarrow> kernel \<Rightarrow> kernel res" where
  "reparent_loop i [] s = Inr s"
| "reparent_loop i (j # js) s =
     bindr (if parent (proc_at s j) = Some i
            then proc_wakeup (map_option ChanProc (proczero s)) (upd j (\<lambda>p. p\<lparr>parent := proczero s\<rparr>) s)
            else Inr s)
       (reparent_loop i js)"

definition proc_reparent :: "nat \<Rightarrow> kernel \<Rightarrow> kernel res" where
  "proc_reparent i s = reparent_loop i [0..<NPROC] s"

definition proc_exit :: "nat \<Rightarrow> int \<Rightarrow> kernel \<Rightarrow> kernel res" where
  "proc_exit i st s =
     bindr (assert_that (proczero s \<noteq> Some i) ''proc_exit: proczero exit'') (\<lambda>_.
     bindr (acquire WaitLock s) (\<lambda>s.
     bindr (proc_reparent i s) (\<lambda>s.
     bindr (proc_wakeup (map_option ChanProc (parent (proc_at s i))) s) (\<lambda>s.
     bindr (acquire_proc i s) (\<lambda>s.
     bindr (release WaitLock (upd i (\<lambda>p. p\<lparr>exit_state := st, pstate := ZOMBIE\<rparr>) s)) (\<lambda>s.
     proc_sched i Gone s))))))"

section \<open>The timer\<close>

definition timer_create :: "kernel \<Rightarrow> kernel" where
  "timer_create s = s\<lparr>ticks := 0, timer_lk := spinlock_init ''sys_timer''\<rparr>"

definition timer_update :: "kernel \<Rightarrow> kernel res" where
  "timer_update s =
     bindr (acquire TimerLock s) (\<lambda>s.
     bindr (proc_wakeup (Some ChanTimer) (s\<lparr>ticks := ticks s + 1\<rparr>)) (\<lambda>s.
     release TimerLock s))"

definition timer_get_ticks :: "kernel \<Rightarrow> (u64 \<times> kernel) res" where
  "timer_get_ticks s = bindr (acquire TimerLock s) (\<lambda>s. bindr (release TimerLock s) (\<lambda>t. Inr (ticks s, t)))"

text \<open>The loop of \<^verbatim>\<open>sys_sleep\<close>.\<close>

definition sleep_until :: "nat \<Rightarrow> u64 \<Rightarrow> kernel \<Rightarrow> (outcome \<times> kernel) res" where
  "sleep_until i target s =
     (if ticks s < target
      then bindr (proc_sleep i ChanTimer TimerLock (InSleep target) s) (\<lambda>s. Inr (Switched, s))
      else Inr (Returned 0, s))"

section \<open>Resuming a process\<close>

text \<open>What runs after the scheduler has switched to process \<open>i\<close>.  \<open>fs\<close> stands for \<^verbatim>\<open>fs_init\<close>, which the first
  process calls.\<close>

definition fork_return :: "nat \<Rightarrow> kernel \<Rightarrow> kernel res" where
  "fork_return i s = release_proc i s"

definition proc_forkret :: "(kernel \<Rightarrow> kernel res) \<Rightarrow> nat \<Rightarrow> kernel \<Rightarrow> kernel res" where
  "proc_forkret fs i s =
     bindr (release_proc i s) (\<lambda>s. if first s then fs (s\<lparr>first := False\<rparr>) else Inr s)"

definition proc_resume :: "image \<Rightarrow> (kernel \<Rightarrow> kernel res) \<Rightarrow> nat \<Rightarrow> kernel \<Rightarrow> (outcome \<times> kernel) res" where
  "proc_resume im fs i s =
     (case kont (proc_at s i) of
        ForkReturn \<Rightarrow> bindr (fork_return i s) (\<lambda>s. Inr (Returned 0, s))
      | ForkRet \<Rightarrow> bindr (proc_forkret fs i s) (\<lambda>s. Inr (Returned 0, s))
      | AfterYield \<Rightarrow> bindr (release_proc i s) (\<lambda>s. Inr (Returned 0, s))
      | AfterSleep k who \<Rightarrow>
          bindr (sleep_resume i k s) (\<lambda>s.
          case who of InWait addr \<Rightarrow> wait_round im i addr s | InSleep target \<Rightarrow> sleep_until i target s)
      | Gone \<Rightarrow> Inl (Panic ''proc_exit: zombie exit''))"

end
