(* ===== verification/Print.thy ===== *)
theory Print
  imports Kernel_Prelude
begin

text \<open>
  \<^verbatim>\<open>kernel/lib/print.c\<close> and \<^verbatim>\<open>kernel/dev/uart.c\<close>: formatted output to the serial line.  A format string is the list of
  the bytes before its NUL, an argument list a list of tagged values; reading an argument that is not there or has
  another type is undefined in C.  The result is the sequence of bytes given to \<^verbatim>\<open>uart_putc_sync\<close>.
  The print lock is taken and released around the whole of a \<^verbatim>\<open>printf\<close>.
\<close>

section \<open>Definitions\<close>

datatype arg = ArgInt u32 | ArgPtr u64 | ArgStr "byte list option"

definition chars :: "string \<Rightarrow> byte list" where
  "chars str = map of_char str"

definition digit :: "nat \<Rightarrow> byte" where
  "digit n = of_char (''0123456789abcdef'' ! n)"

text \<open>The \<^verbatim>\<open>do\<close>/\<^verbatim>\<open>while\<close> loop that fills \<^verbatim>\<open>buf\<close>, for a base of at least 2: the digits in the order they are
  stored.\<close>

function digit_loop :: "u32 \<Rightarrow> u32 \<Rightarrow> byte list" where
  "digit_loop base x =
     digit (unat (x mod base)) # (if x div base \<noteq> 0 \<and> 1 < base then digit_loop base (x div base) else [])"
  by pat_completeness auto

lemma digit_loop_decr:
  assumes "(x :: u32) div base \<noteq> 0" and "1 < base"
  shows "unat (x div base) < unat x"
proof -
  have "unat x \<noteq> 0" using assms(1) by (auto simp: unat_eq_0)
  moreover have "1 < unat base" using assms(2) by (simp add: word_less_nat_alt)
  ultimately show ?thesis by (simp add: unat_div)
qed

termination digit_loop
  using digit_loop_decr by (relation "measure (\<lambda>(_, x). unat x)") auto

declare digit_loop.simps [simp del]

text \<open>\<^verbatim>\<open>%d\<close>: the buffer with the sign, printed backwards.  \<open>xx\<close> is the pattern of the \<^verbatim>\<open>int\<close>; negating the
  smallest \<^verbatim>\<open>int\<close> gives its own pattern.\<close>

definition dec_buf :: "u32 \<Rightarrow> byte list" where
  "dec_buf xx =
     (let neg = sint xx < 0; x = (if neg then - xx else xx)
      in digit_loop 10 x @ (if neg then chars ''-'' else []))"

definition print_dec :: "u32 \<Rightarrow> byte list" where
  "print_dec xx = rev (dec_buf xx)"

definition print_hex :: "u32 \<Rightarrow> byte list" where
  "print_hex xx = rev (digit_loop 16 xx)"

primrec ptr_loop :: "nat \<Rightarrow> u64 \<Rightarrow> byte list" where
  "ptr_loop 0 x = []"
| "ptr_loop (Suc k) x = digit (unat (drop_bit 60 x)) # ptr_loop k (push_bit 4 x)"

definition print_ptr :: "u64 \<Rightarrow> byte list" where
  "print_ptr x = chars ''0x'' @ ptr_loop 16 x"

text \<open>One conversion: the output and the arguments left.\<close>

definition convert :: "byte \<Rightarrow> arg list \<Rightarrow> (byte list \<times> arg list) res" where
  "convert c args =
     (if c = of_char CHR ''d'' then (case args of ArgInt x # as \<Rightarrow> Inr (print_dec x, as) | _ \<Rightarrow> Inl Undefined)
      else if c = of_char CHR ''x'' then (case args of ArgInt x # as \<Rightarrow> Inr (print_hex x, as) | _ \<Rightarrow> Inl Undefined)
      else if c = of_char CHR ''p'' then (case args of ArgPtr x # as \<Rightarrow> Inr (print_ptr x, as) | _ \<Rightarrow> Inl Undefined)
      else if c = of_char CHR ''s''
      then (case args of
              ArgStr (Some str) # as \<Rightarrow> Inr (str, as)
            | ArgStr None # as \<Rightarrow> Inr (chars ''(null)'', as)
            | _ \<Rightarrow> Inl Undefined)
      else if c = of_char CHR ''%'' then Inr (chars ''%'', args)
      else Inr (chars ''%'' @ [c], args))"

abbreviation percent :: byte where "percent \<equiv> 37"
abbreviation newline :: byte where "newline \<equiv> 10"
abbreviation creturn :: byte where "creturn \<equiv> 13"

fun printf_loop :: "byte list \<Rightarrow> arg list \<Rightarrow> byte list res" where
  "printf_loop [] args = Inr []"
| "printf_loop [c] args =
     (if c \<noteq> percent then Inr ((if c = newline then [creturn] else []) @ [c]) else Inr [])"
| "printf_loop (c # d # fmt) args =
     (if c \<noteq> percent
      then bindr (printf_loop (d # fmt) args) (\<lambda>out. Inr ((if c = newline then [creturn] else []) @ c # out))
      else bindr (convert d args) (\<lambda>(o1, args).
        bindr (printf_loop fmt args) (\<lambda>out. Inr (o1 @ out))))"

definition printf :: "byte list \<Rightarrow> arg list \<Rightarrow> byte list res" where
  "printf fmt args = printf_loop fmt args"

text \<open>What \<^verbatim>\<open>panic\<close> prints before it stops; the message is used as a format.\<close>

definition panic_output :: "byte list \<Rightarrow> byte list res" where
  "panic_output msg =
     bindr (printf (chars ''panic: '') []) (\<lambda>a.
     bindr (printf msg []) (\<lambda>b.
     bindr (printf [newline] []) (\<lambda>c. Inr (a @ b @ c))))"

text \<open>The UART as its receive queue and the bytes sent.  \<^verbatim>\<open>uart_getc_sync\<close> returns \<open>-1\<close> when nothing is
  waiting; the interrupt handler echoes what is waiting.\<close>

record uart =
  rx :: "byte list"
  tx :: "byte list"

definition uart_putc_sync :: "byte \<Rightarrow> uart \<Rightarrow> uart" where
  "uart_putc_sync c u = u\<lparr>tx := tx u @ [c]\<rparr>"

definition uart_getc_sync :: "uart \<Rightarrow> int \<times> uart" where
  "uart_getc_sync u = (case rx u of [] \<Rightarrow> (- 1, u) | c # cs \<Rightarrow> (uint c, u\<lparr>rx := cs\<rparr>))"

function uart_intr :: "uart \<Rightarrow> uart" where
  "uart_intr u =
     (let (c, v) = uart_getc_sync u
      in if c = - 1 then v else uart_intr (uart_putc_sync (word_of_int c) v))"
  by pat_completeness auto
termination
  by (relation "measure (\<lambda>u. length (rx u))") (auto simp: uart_getc_sync_def uart_putc_sync_def split: list.splits)

declare uart_intr.simps [simp del]

section \<open>Properties of numbers\<close>

text \<open>The value of a digit, and of a sequence of digits with the most significant one first.\<close>

definition digit_value :: "byte \<Rightarrow> nat" where
  "digit_value c = (if c < 58 then unat c - 48 else unat c - 87)"

definition number :: "nat \<Rightarrow> byte list \<Rightarrow> nat" where
  "number base ds = foldl (\<lambda>n c. base * n + digit_value c) 0 ds"

lemma digit_value_digit: "n < 16 \<Longrightarrow> digit_value (digit n) = n"
  by (auto simp: numeral_eq_Suc less_Suc_eq) (simp_all add: digit_value_def digit_def)

lemma number_rev_Cons: "number base (rev (c # cs)) = base * number base (rev cs) + digit_value c"
  by (simp add: number_def)

lemma number_digit_loop:
  assumes "1 < base" and "base \<le> 16"
  shows "number (unat base) (rev (digit_loop base x)) = unat x"
proof (induction "unat x" arbitrary: x rule: less_induct)
  case less
  have "0 < unat base" "unat base \<le> 16" using assms by (simp_all add: word_less_nat_alt word_le_nat_alt)
  then have "unat x mod unat base < 16" by (meson less_le_trans mod_less_divisor)
  then have d: "digit_value (digit (unat (x mod base))) = unat x mod unat base"
    by (simp add: unat_mod digit_value_digit)
  show ?case
  proof (cases "x div base = 0")
    case True
    then have "unat x div unat base = 0" by (metis unat_div unat_0)
    then have "unat x mod unat base = unat x" by (metis div_mult_mod_eq mult_zero_left add_0)
    with True d show ?thesis by (subst digit_loop.simps) (simp add: number_def)
  next
    case False
    have "number (unat base) (rev (digit_loop base (x div base))) = unat (x div base)"
      using less False assms digit_loop_decr by blast
    moreover have "digit_loop base x = digit (unat (x mod base)) # digit_loop base (x div base)"
      using False assms by (subst digit_loop.simps) simp
    ultimately show ?thesis using d by (simp only: number_rev_Cons) (simp add: unat_div)
  qed
qed

lemma length_digit_loop:
  assumes "1 < base" and "unat x < unat base ^ n" and "0 < n"
  shows "length (digit_loop base x) \<le> n"
  using assms(2,3)
proof (induction n arbitrary: x)
  case (Suc n)
  show ?case
  proof (cases "x div base = 0")
    case True
    then show ?thesis by (subst digit_loop.simps) simp
  next
    case False
    have lt: "unat (x div base) < unat base ^ n"
      using Suc.prems(1) by (simp add: unat_div div_less_iff_less_mult less_mult_imp_div_less mult.commute)
    moreover have "n \<noteq> 0" using lt False by (metis less_one power_0 unat_eq_0)
    ultimately have "length (digit_loop base (x div base)) \<le> n" using Suc.IH by simp
    then show ?thesis using False by (subst digit_loop.simps) simp
  qed
qed simp

lemma length_ptr_loop [simp]: "length (ptr_loop k x) = k"
  by (induction k arbitrary: x) auto

lemma foldl_number:
  "foldl (\<lambda>n c. base * n + digit_value c) a cs = a * base ^ length cs + number base cs"
proof (induction cs arbitrary: a)
  case (Cons c cs)
  have "foldl (\<lambda>n c. base * n + digit_value c) a (c # cs) = (base * a + digit_value c) * base ^ length cs + number base cs"
    using Cons [of "base * a + digit_value c"] by simp
  moreover have "number base (c # cs) = digit_value c * base ^ length cs + number base cs"
    using Cons [of "digit_value c"] by (simp add: number_def)
  ultimately show ?case by (simp add: algebra_simps)
qed (simp add: number_def)

lemma number_Cons: "number base (c # cs) = digit_value c * base ^ length cs + number base cs"
  using foldl_number [of base "digit_value c" cs] by (simp add: number_def)

lemma number_ptr_loop: "k \<le> 16 \<Longrightarrow> number 16 (ptr_loop k x) = unat (drop_bit (64 - 4 * k) x)"
proof (induction k arbitrary: x)
  case 0
  then show ?case by (simp add: number_def drop_bit_eq_zero_iff_not_bit_last)
next
  case (Suc k)
  let ?m = "60 - 4 * k" and ?y = "drop_bit (60 - 4 * k) x"
  have k: "4 * k \<le> 60" "64 - 4 * Suc k = ?m" "64 - 4 * k = ?m + 4" using Suc.prems by simp_all
  have "unat (drop_bit 60 x) = unat x div 2 ^ 60" by (simp add: drop_bit_eq_div unat_div)
  also have "\<dots> < 16" using unat_lt64 [of x] by simp
  finally have d: "digit_value (digit (unat (drop_bit 60 x))) = unat (drop_bit 60 x)" by (rule digit_value_digit)
  have top: "drop_bit 60 x = drop_bit (4 * k) ?y" using k(1) by (simp add: drop_bit_drop_bit)
  have low: "drop_bit (?m + 4) (push_bit 4 x) = take_bit (4 * k) ?y"
  proof (rule bit_word_eqI)
    fix n assume "n < LENGTH(64)"
    then show "bit (drop_bit (?m + 4) (push_bit 4 x)) n = bit (take_bit (4 * k) ?y) n"
      using k(1) by (auto simp: bit_drop_bit_eq bit_take_bit_iff bit_push_bit_iff add.commute)
  qed
  have IH: "number 16 (ptr_loop k (push_bit 4 x)) = unat (drop_bit (64 - 4 * k) (push_bit 4 x))"
    using Suc.prems by (intro Suc.IH) simp
  have "number 16 (ptr_loop (Suc k) x) = unat (drop_bit 60 x) * 16 ^ k + unat (drop_bit (?m + 4) (push_bit 4 x))"
    by (simp only: ptr_loop.simps number_Cons length_ptr_loop d IH k(3))
  also have "\<dots> = unat ?y div 2 ^ (4 * k) * 16 ^ k + unat ?y mod 2 ^ (4 * k)"
    unfolding top low unat_drop_bit_eq unsigned_take_bit_eq by (simp only: drop_bit_eq_div take_bit_eq_mod)
  also have "\<dots> = unat ?y" using div_mult_mod_eq [of "unat ?y" "2 ^ (4 * k)"] by (simp add: power_mult)
  finally show ?case by (simp only: k(2))
qed

lemma sint_nonneg_unat:
  assumes "0 \<le> sint (xx :: u32)"
  shows "unat xx = nat (sint xx)"
proof -
  have b: "sint xx < 2 ^ 31" using sint_lt [of xx] by simp
  have "uint (word_of_int (sint xx) :: u32) = take_bit 32 (sint xx)" by (simp only: uint_word_of_int) (simp add: take_bit_eq_mod)
  also have "\<dots> = sint xx" using assms b by (intro take_bit_int_eq_self) simp_all
  finally show ?thesis by (simp add: unat_eq_nat_uint)
qed

lemma sint_neg_unat:
  assumes "sint (xx :: u32) < 0"
  shows "unat (- xx) = nat (- sint xx)" "unat (- xx) \<le> 2 ^ 31"
proof -
  have b: "- sint xx \<le> 2 ^ 31" using sint_ge [of xx] by simp
  have "- xx = word_of_int (- sint xx)" by simp
  then have "uint (- xx) = take_bit 32 (- sint xx)" by (simp only: uint_word_of_int) (simp add: take_bit_eq_mod)
  also have "\<dots> = - sint xx" using assms b by (intro take_bit_int_eq_self) simp_all
  finally have u: "uint (- xx) = - sint xx" .
  then show "unat (- xx) = nat (- sint xx)" by (simp only: unat_eq_nat_uint)
  then show "unat (- xx) \<le> 2 ^ 31" using b by simp
qed

section \<open>Properties\<close>

text \<open>The \<^verbatim>\<open>%d\<close> conversion prints the decimal digits of the absolute value, with a minus sign exactly when the
  number is negative, for every 32-bit \<^verbatim>\<open>int\<close> including the smallest; and the buffer of 16 bytes is never
  overrun.\<close>

theorem print_dec_correct:
  "length (dec_buf xx) \<le> 11 \<and>
   (if sint xx < 0 then hd (print_dec xx) = 45 \<and> number 10 (tl (print_dec xx)) = nat (- sint xx)
    else number 10 (print_dec xx) = nat (sint xx))"
proof (cases "sint xx < 0")
  case True
  note n = sint_neg_unat [OF True]
  have "unat (- xx) < unat (10 :: u32) ^ 10" using n(2) by simp
  then have "length (digit_loop 10 (- xx)) \<le> 10" by (rule length_digit_loop [rotated]) simp_all
  moreover have "number 10 (rev (digit_loop 10 (- xx))) = nat (- sint xx)"
    using number_digit_loop [of 10 "- xx"] n(1) by simp
  ultimately show ?thesis using True by (simp add: print_dec_def dec_buf_def chars_def)
next
  case False
  have "unat xx < unat (10 :: u32) ^ 10" using unat_lt32 [of xx] by simp
  then have "length (digit_loop 10 xx) \<le> 10" by (rule length_digit_loop [rotated]) simp_all
  moreover have "unat xx = nat (sint xx)"
    using False by (intro sint_nonneg_unat) simp
  moreover have "number 10 (rev (digit_loop 10 xx)) = unat xx"
    using number_digit_loop [of 10 xx] by simp
  ultimately show ?thesis using False by (simp add: print_dec_def dec_buf_def chars_def)
qed

text \<open>The \<^verbatim>\<open>%x\<close> and \<^verbatim>\<open>%p\<close> conversions print the number in base 16; \<^verbatim>\<open>%p\<close> always prints the prefix \<open>0x\<close> and 16
  digits.\<close>

theorem print_hex_correct:
  "number 16 (print_hex x) = unat x \<and> length (digit_loop 16 x) \<le> 8 \<and>
   take 2 (print_ptr y) = chars ''0x'' \<and> length (print_ptr y) = 18 \<and> number 16 (drop 2 (print_ptr y)) = unat y"
proof -
  have "unat x < unat (16 :: u32) ^ 8" using unat_lt32 [of x] by simp
  then have "length (digit_loop 16 x) \<le> 8" by (rule length_digit_loop [rotated]) simp_all
  moreover have "number 16 (rev (digit_loop 16 x)) = unat x" using number_digit_loop [of 16 x] by simp
  moreover have "number 16 (ptr_loop 16 y) = unat y" using number_ptr_loop [of 16 y] by simp
  ultimately show ?thesis by (simp add: print_hex_def print_ptr_def chars_def del: ptr_loop.simps)
qed

lemma uart_intr_eq: "uart_intr u = u\<lparr>rx := [], tx := tx u @ rx u\<rparr>"
proof (induction "rx u" arbitrary: u)
  case Nil
  then show ?case by (subst uart_intr.simps) (simp add: uart_getc_sync_def)
next
  case (Cons c cs)
  have ne: "uint c \<noteq> - 1" using uint_ge_0 [of c] by linarith
  have "uart_intr (uart_putc_sync c (u\<lparr>rx := cs\<rparr>)) = u\<lparr>rx := [], tx := tx u @ c # cs\<rparr>"
    using Cons(1) [of "uart_putc_sync c (u\<lparr>rx := cs\<rparr>)"] by (simp add: uart_putc_sync_def)
  moreover have "uart_intr u = uart_intr (uart_putc_sync c (u\<lparr>rx := cs\<rparr>))"
    using Cons(2) [symmetric] ne by (subst uart_intr.simps) (simp add: uart_getc_sync_def Let_def)
  ultimately show ?case using Cons(2) by simp
qed

end
