(* ===== verification/Syscalls.thy ===== *)
theory Syscalls
  imports Files Procs Print
begin

text \<open>
  \<^verbatim>\<open>kernel/syscall\<close>: the arguments and the dispatch of system calls (\<^verbatim>\<open>syscall.c\<close>), those on memory and processes
  (\<^verbatim>\<open>sysfunc.c\<close>), on files (\<^verbatim>\<open>sysfile.c\<close>), and \<^verbatim>\<open>exec\<close> (\<^verbatim>\<open>sysproc.c\<close>).  The state joins the kernel state
  of the processes, that of the file system and the console output; \<open>i\<close> is the slot of the calling process.  Local
  buffers are byte lists: a path that does not end within its buffer makes \<^verbatim>\<open>uvm_copyin_str\<close> write before the
  buffer, which is undefined.  Debug output of the calls is not modelled.
\<close>

section \<open>State and arguments\<close>

record sys =
  ker :: kernel
  fsys :: file_state
  con :: "byte list"

record env =
  img :: image
  call :: dev_call
  junk :: "byte list"
  pad :: "byte list"

abbreviation DIR_PATH_LEN :: nat where "DIR_PATH_LEN \<equiv> 128"
abbreviation ERR :: u64 where "ERR \<equiv> 0xFFFFFFFFFFFFFFFF"

definition arg_raw :: "nat \<Rightarrow> nat \<Rightarrow> sys \<Rightarrow> u64 res" where
  "arg_raw i n s = (if n \<le> 5 then Inr (tf_get i (TF_A0 + 8 * of_nat n) (ker s)) else Inl (Panic ''arg_raw: illegal arg num''))"

definition arg_uint32 :: "nat \<Rightarrow> nat \<Rightarrow> sys \<Rightarrow> u32 res" where
  "arg_uint32 i n s = bindr (arg_raw i n s) (\<lambda>v. Inr (ucast v))"

definition arg_uint64 :: "nat \<Rightarrow> nat \<Rightarrow> sys \<Rightarrow> u64 res" where
  "arg_uint64 i n s = arg_raw i n s"

text \<open>\<^verbatim>\<open>uvm_copyin_str\<close> into a local buffer of \<open>maxlen\<close> bytes: the string, and whether its NUL was found.\<close>

function strin_bytes :: "u64 \<Rightarrow> u64 \<Rightarrow> nat \<Rightarrow> pmem \<Rightarrow> (byte list \<times> bool) res" where
  "strin_bytes root src maxlen s =
     (if 0 < maxlen
      then let va = PG_ROUND_DOWN src
        in bindr (vm_getpte root va False s) (\<lambda>(pte, s).
           bindr (assert_that (pte \<noteq> 0) ''uvm_copyin_str: pte is NULL'') (\<lambda>_.
           bindr (assert_that (load64 (mem s) pte AND PTE_V \<noteq> 0) ''uvm_copyin_str: page not present'') (\<lambda>_.
           let n = page_part src maxlen;
               bs = load_bytes (mem s) (PTE_TO_PA (load64 (mem s) pte) + (src - va)) n
           in if 0 \<in> set bs then Inr (takeWhile (\<lambda>b. b \<noteq> 0) bs, True)
              else bindr (strin_bytes root (src + of_nat n) (maxlen - n) s) (\<lambda>(r, found). Inr (bs @ r, found)))))
      else Inr ([], False))"
  by pat_completeness auto
termination by (relation "measure (\<lambda>(_, _, maxlen, _). maxlen)") auto

declare strin_bytes.simps [simp del]

definition user_str :: "nat \<Rightarrow> u64 \<Rightarrow> nat \<Rightarrow> sys \<Rightarrow> byte list res" where
  "user_str i addr maxlen s =
     bindr (strin_bytes (pgtbl (proc_at (ker s) i)) addr maxlen (pm (ker s))) (\<lambda>(str, found).
     if found then Inr str else Inl Undefined)"

definition arg_str :: "nat \<Rightarrow> nat \<Rightarrow> nat \<Rightarrow> sys \<Rightarrow> byte list res" where
  "arg_str i n maxlen s = bindr (arg_uint64 i n s) (\<lambda>addr. user_str i addr maxlen s)"

section \<open>Memory and processes\<close>

text \<open>A call returns a value or gives up the hart.\<close>

datatype sysret = Ret u64 | Blocked

definition sys_brk :: "env \<Rightarrow> nat \<Rightarrow> sys \<Rightarrow> (sysret \<times> sys) res" where
  "sys_brk e i s =
     bindr (arg_uint64 i 0 s) (\<lambda>new_heap_top.
     let p = proc_at (ker s) i; old = heap_top p;
         commit = (\<lambda>r m. s\<lparr>ker := upd i (\<lambda>p. p\<lparr>heap_top := r\<rparr>) ((ker s)\<lparr>pm := m\<rparr>)\<rparr>)
     in if new_heap_top = 0 then Inr (Ret old, s)
        else if old < new_heap_top
        then bindr (uvm_heap_grow (pgtbl p) old (ucast (new_heap_top - old)) (pm (ker s))) (\<lambda>(r, m).
             if r = 0 then Inr (Ret ERR, s\<lparr>ker := (ker s)\<lparr>pm := m\<rparr>\<rparr>) else Inr (Ret r, commit r m))
        else if new_heap_top < old
        then bindr (uvm_heap_ungrow (ALLOC_BEGIN (img e)) (pgtbl p) old (ucast (old - new_heap_top)) (pm (ker s))) (\<lambda>(r, m).
             Inr (Ret r, commit r m))
        else Inr (Ret old, s))"

definition set_maps :: "nat \<Rightarrow> nat option \<times> mmap_store \<times> pmem \<Rightarrow> sys \<Rightarrow> sys" where
  "set_maps i = (\<lambda>(head, mm, m) s. s\<lparr>ker := upd i (\<lambda>p. p\<lparr>pmmap := head\<rparr>) ((ker s)\<lparr>mms := mm, pm := m\<rparr>)\<rparr>)"

definition sys_mmap :: "nat \<Rightarrow> sys \<Rightarrow> (sysret \<times> sys) res" where
  "sys_mmap i s =
     bindr (arg_uint64 i 0 s) (\<lambda>start.
     bindr (arg_uint32 i 1 s) (\<lambda>len.
     if len mod 4096 \<noteq> 0 then Inr (Ret ERR, s)
     else let p = proc_at (ker s) i
       in bindr (uvm_mmap start (len div 4096) (PTE_R OR PTE_W OR PTE_U) (pgtbl p) (pmmap p) (mms (ker s)) (pm (ker s))) (\<lambda>r.
          Inr (Ret start, set_maps i r s))))"

definition sys_munmap :: "env \<Rightarrow> nat \<Rightarrow> sys \<Rightarrow> (sysret \<times> sys) res" where
  "sys_munmap e i s =
     bindr (arg_uint64 i 0 s) (\<lambda>start.
     bindr (arg_uint32 i 1 s) (\<lambda>len.
     if len mod 4096 \<noteq> 0 then Inr (Ret ERR, s)
     else let p = proc_at (ker s) i
       in bindr (uvm_munmap (ALLOC_BEGIN (img e)) start (len div 4096) (pgtbl p) (pmmap p) (mms (ker s)) (pm (ker s))) (\<lambda>r.
          Inr (Ret 0, set_maps i r s))))"

definition sys_print :: "nat \<Rightarrow> sys \<Rightarrow> (sysret \<times> sys) res" where
  "sys_print i s =
     bindr (arg_uint64 i 0 s) (\<lambda>addr.
     bindr (user_str i addr 256 s) (\<lambda>str.
     bindr (printf (chars ''%s'') [ArgStr (Some str)]) (\<lambda>out.
     Inr (Ret 0, s\<lparr>con := con s @ out\<rparr>))))"

text \<open>An \<^verbatim>\<open>int\<close> result is sign-extended to the 64 bits of the return register.\<close>

definition ret_int :: "outcome \<times> kernel \<Rightarrow> sys \<Rightarrow> sysret \<times> sys" where
  "ret_int r s = (case r of (Returned n, k) \<Rightarrow> (Ret (word_of_int n), s\<lparr>ker := k\<rparr>) | (Switched, k) \<Rightarrow> (Blocked, s\<lparr>ker := k\<rparr>))"

definition sys_fork :: "env \<Rightarrow> nat \<Rightarrow> sys \<Rightarrow> (sysret \<times> sys) res" where
  "sys_fork e i s = bindr (proc_fork (img e) i (ker s)) (\<lambda>(n, k). Inr (Ret (word_of_int n), s\<lparr>ker := k\<rparr>))"

definition sys_wait :: "env \<Rightarrow> nat \<Rightarrow> sys \<Rightarrow> (sysret \<times> sys) res" where
  "sys_wait e i s =
     bindr (arg_uint64 i 0 s) (\<lambda>addr.
     bindr (proc_wait (img e) i addr (ker s)) (\<lambda>r. Inr (ret_int r s)))"

definition sys_exit :: "nat \<Rightarrow> sys \<Rightarrow> (sysret \<times> sys) res" where
  "sys_exit i s =
     bindr (arg_uint32 i 0 s) (\<lambda>st.
     bindr (proc_exit i (sint st) (ker s)) (\<lambda>k. Inr (Blocked, s\<lparr>ker := k\<rparr>)))"

definition sys_sleep :: "nat \<Rightarrow> sys \<Rightarrow> (sysret \<times> sys) res" where
  "sys_sleep i s =
     bindr (arg_uint32 i 0 s) (\<lambda>seconds.
     bindr (sleep_until i (ticks (ker s) + ucast seconds) (ker s)) (\<lambda>r. Inr (ret_int r s)))"

section \<open>Files\<close>

definition arg_fd :: "nat \<Rightarrow> nat \<Rightarrow> sys \<Rightarrow> (nat \<times> nat) option res" where
  "arg_fd i n s =
     bindr (arg_uint32 i n s) (\<lambda>v.
     let fd = sint v
     in if fd < 0 \<or> int FILE_PER_PROC \<le> fd then Inr None
        else Inr (map_option (\<lambda>f. (nat fd, f)) (filelist (proc_at (ker s) i) ! nat fd)))"

definition set_fd :: "nat \<Rightarrow> nat \<Rightarrow> nat option \<Rightarrow> sys \<Rightarrow> sys" where
  "set_fd i fd v s = s\<lparr>ker := upd i (\<lambda>p. p\<lparr>filelist := (filelist p)[fd := v]\<rparr>) (ker s)\<rparr>"

definition fd_alloc :: "nat \<Rightarrow> nat \<Rightarrow> sys \<Rightarrow> int \<times> sys" where
  "fd_alloc i f s =
     (case find (\<lambda>fd. filelist (proc_at (ker s) i) ! fd = None) [0..<FILE_PER_PROC] of
        Some fd \<Rightarrow> (int fd, set_fd i fd (Some f) s)
      | None \<Rightarrow> (- 1, s))"

definition proc_cwd :: "nat \<Rightarrow> sys \<Rightarrow> nat option" where
  "proc_cwd i s = cwd (proc_at (ker s) i)"

definition sys_open :: "env \<Rightarrow> nat \<Rightarrow> sys \<Rightarrow> (sysret \<times> sys) res" where
  "sys_open e i s =
     bindr (arg_str i 0 DIR_PATH_LEN s) (\<lambda>path.
     bindr (arg_uint32 i 1 s) (\<lambda>open_mode.
     bindr (file_open (junk e) (proc_cwd i s) path open_mode (fsys s)) (\<lambda>(f, fs).
     let s = s\<lparr>fsys := fs\<rparr>
     in case f of
          None \<Rightarrow> Inr (Ret ERR, s)
        | Some f \<Rightarrow>
            let (fd, s) = fd_alloc i f s
            in bindr (if fd = - 1 then file_close f (fsys s) else Inr (fsys s)) (\<lambda>fs.
               Inr (Ret (word_of_int fd), s\<lparr>fsys := fs\<rparr>)))))"

definition with_fd :: "nat \<Rightarrow> sys \<Rightarrow> (nat \<Rightarrow> nat \<Rightarrow> (sysret \<times> sys) res) \<Rightarrow> (sysret \<times> sys) res" where
  "with_fd i s k = bindr (arg_fd i 0 s) (\<lambda>r. case r of None \<Rightarrow> Inr (Ret ERR, s) | Some (fd, f) \<Rightarrow> k fd f)"

definition sys_close :: "nat \<Rightarrow> sys \<Rightarrow> (sysret \<times> sys) res" where
  "sys_close i s = with_fd i s (\<lambda>fd f.
     let s = set_fd i fd None s
     in bindr (file_close f (fsys s)) (\<lambda>fs. Inr (Ret 0, s\<lparr>fsys := fs\<rparr>)))"

text \<open>A \<^verbatim>\<open>uint32\<close> result is zero-extended, so the \<^verbatim>\<open>-1\<close> of the file layer becomes \<open>0xFFFFFFFF\<close>.\<close>

definition ret_fs :: "u32 \<times> file_state \<times> pmem \<Rightarrow> sys \<Rightarrow> sysret \<times> sys" where
  "ret_fs = (\<lambda>(r, fs, m) s. (Ret (ucast r), s\<lparr>fsys := fs, ker := (ker s)\<lparr>pm := m\<rparr>\<rparr>))"

definition sys_read :: "env \<Rightarrow> nat \<Rightarrow> sys \<Rightarrow> (sysret \<times> sys) res" where
  "sys_read e i s = with_fd i s (\<lambda>_ f.
     bindr (arg_uint32 i 1 s) (\<lambda>len.
     bindr (arg_uint64 i 2 s) (\<lambda>addr.
     bindr (file_read (call e) (pgtbl (proc_at (ker s) i)) f len addr True (fsys s) (pm (ker s))) (\<lambda>r.
     Inr (ret_fs r s)))))"

definition sys_write :: "env \<Rightarrow> nat \<Rightarrow> sys \<Rightarrow> (sysret \<times> sys) res" where
  "sys_write e i s = with_fd i s (\<lambda>_ f.
     bindr (arg_uint32 i 1 s) (\<lambda>len.
     bindr (arg_uint64 i 2 s) (\<lambda>addr.
     bindr (file_write (call e) (pgtbl (proc_at (ker s) i)) f len addr True (fsys s) (pm (ker s))) (\<lambda>r.
     Inr (ret_fs r s)))))"

definition sys_lseek :: "nat \<Rightarrow> sys \<Rightarrow> (sysret \<times> sys) res" where
  "sys_lseek i s = with_fd i s (\<lambda>_ f.
     bindr (arg_uint32 i 1 s) (\<lambda>offset.
     bindr (arg_uint32 i 2 s) (\<lambda>flags.
     bindr (file_lseek f offset (sint flags) (fsys s)) (\<lambda>(r, fs). Inr (Ret (ucast r), s\<lparr>fsys := fs\<rparr>)))))"

definition sys_dup :: "nat \<Rightarrow> sys \<Rightarrow> (sysret \<times> sys) res" where
  "sys_dup i s = with_fd i s (\<lambda>_ f.
     let (new_fd, s) = fd_alloc i f s
     in bindr (file_dup f (fsys s)) (\<lambda>(_, fs). Inr (Ret (word_of_int new_fd), s\<lparr>fsys := fs\<rparr>)))"

definition sys_fstat :: "env \<Rightarrow> nat \<Rightarrow> sys \<Rightarrow> (sysret \<times> sys) res" where
  "sys_fstat e i s = with_fd i s (\<lambda>_ f.
     bindr (arg_uint64 i 1 s) (\<lambda>addr.
     bindr (file_stat (pad e) (pgtbl (proc_at (ker s) i)) f addr (fsys s) (pm (ker s))) (\<lambda>(r, fs, m).
     Inr (Ret (scast r), s\<lparr>fsys := fs, ker := (ker s)\<lparr>pm := m\<rparr>\<rparr>))))"

definition sys_getdir :: "nat \<Rightarrow> sys \<Rightarrow> (sysret \<times> sys) res" where
  "sys_getdir i s = with_fd i s (\<lambda>_ f.
     bindr (arg_uint64 i 1 s) (\<lambda>addr.
     bindr (arg_uint32 i 2 s) (\<lambda>len.
     if ftype (file_at (fsys s) f) \<noteq> FD_DIR then Inr (Ret ERR, s)
     else case fip (file_at (fsys s) f) of
       None \<Rightarrow> Inr (Ret ERR, s)
     | Some ip \<Rightarrow>
         bindr (inode_lock ip (fsys s)) (\<lambda>fs.
         bindr (dir_get_entries ip len (copy_to True (pgtbl (proc_at (ker s) i)) addr) fs (pm (ker s))) (\<lambda>(r, fs, m).
         bindr (inode_unlock ip fs) (\<lambda>fs. Inr (ret_fs (r, fs, m) s)))))))"

definition sys_mkdir :: "env \<Rightarrow> nat \<Rightarrow> sys \<Rightarrow> (sysret \<times> sys) res" where
  "sys_mkdir e i s =
     bindr (arg_str i 0 DIR_PATH_LEN s) (\<lambda>path.
     bindr (path_create_inode (junk e) (proc_cwd i s) path FT_DIR 0 0 (fsys s)) (\<lambda>(ip, fs).
     Inr (Ret (if ip = None then ERR else 0), s\<lparr>fsys := fs\<rparr>)))"

definition sys_chdir :: "env \<Rightarrow> nat \<Rightarrow> sys \<Rightarrow> (sysret \<times> sys) res" where
  "sys_chdir e i s =
     bindr (arg_str i 0 DIR_PATH_LEN s) (\<lambda>path.
     bindr (dir_change (junk e) (proc_cwd i s) path (fsys s)) (\<lambda>(r, c, fs).
     Inr (Ret (ucast r), s\<lparr>fsys := fs, ker := upd i (\<lambda>p. p\<lparr>cwd := c\<rparr>) (ker s)\<rparr>)))"

definition sys_link :: "env \<Rightarrow> nat \<Rightarrow> sys \<Rightarrow> (sysret \<times> sys) res" where
  "sys_link e i s =
     bindr (arg_str i 0 DIR_PATH_LEN s) (\<lambda>old_path.
     bindr (arg_str i 1 DIR_PATH_LEN s) (\<lambda>new_path.
     bindr (path_link (junk e) (proc_cwd i s) old_path new_path (fsys s)) (\<lambda>(r, fs).
     Inr (Ret (ucast r), s\<lparr>fsys := fs\<rparr>))))"

definition sys_unlink :: "env \<Rightarrow> nat \<Rightarrow> sys \<Rightarrow> (sysret \<times> sys) res" where
  "sys_unlink e i s =
     bindr (arg_str i 0 DIR_PATH_LEN s) (\<lambda>path.
     bindr (path_unlink (junk e) (proc_cwd i s) path (fsys s)) (\<lambda>(r, fs).
     Inr (Ret (ucast r), s\<lparr>fsys := fs\<rparr>)))"

end
