(* ===== verification/Exec.thy ===== *)
theory Exec
  imports Syscalls
begin

text \<open>
  \<^verbatim>\<open>kernel/syscall/sysproc.c\<close>: \<^verbatim>\<open>sys_exec\<close>, which replaces the image of a process by an ELF file, and the
  dispatch table of \<^verbatim>\<open>syscall.c\<close>.  Of the ELF structures (\<^verbatim>\<open>include/fs/elf.h\<close>) the fields the code reads are kept.
  Jumps to the label \<^verbatim>\<open>bad\<close> are calls of \<open>exec_bad\<close> with the page table, the inode and the argument pages
  that exist at that point.
\<close>

section \<open>ELF headers\<close>

abbreviation ELF_MAGIC :: u32 where "ELF_MAGIC \<equiv> 0x464C457F"
abbreviation ELF_PROG_LOAD :: u32 where "ELF_PROG_LOAD \<equiv> 1"
abbreviation ELF_MAXARGS :: nat where "ELF_MAXARGS \<equiv> 32"

record elfhdr =
  e_magic :: u32
  e_entry :: u64
  e_phoff :: u64
  e_phnum :: u16

record proghdr =
  p_type :: u32
  p_flags :: u32
  p_off :: u64
  p_vaddr :: u64
  p_filesz :: u64
  p_memsz :: u64

definition elfhdr_of_bytes :: "byte list \<Rightarrow> elfhdr" where
  "elfhdr_of_bytes bs = \<lparr>e_magic = le_word (slice 0 4 bs), e_entry = le_word (slice 24 8 bs), e_phoff = le_word (slice 32 8 bs),
     e_phnum = le_word (slice 56 2 bs)\<rparr>"

definition proghdr_of_bytes :: "byte list \<Rightarrow> proghdr" where
  "proghdr_of_bytes bs = \<lparr>p_type = le_word (slice 0 4 bs), p_flags = le_word (slice 4 4 bs), p_off = le_word (slice 8 8 bs),
     p_vaddr = le_word (slice 16 8 bs), p_filesz = le_word (slice 32 8 bs), p_memsz = le_word (slice 40 8 bs)\<rparr>"

definition flags2perm :: "u32 \<Rightarrow> u64" where
  "flags2perm flags =
     (let perm = (if flags AND 1 \<noteq> 0 then PTE_X else 0);
          perm = (if flags AND 2 \<noteq> 0 then perm OR PTE_W else perm)
      in if flags AND 4 \<noteq> 0 then perm OR PTE_R else perm)"

section \<open>Loading a segment\<close>

text \<open>The copy of file data to a physical address.\<close>

definition phys_put :: "u64 \<Rightarrow> nat \<Rightarrow> byte list \<Rightarrow> pmem \<Rightarrow> pmem res" where
  "phys_put pa tot bs m = Inr (m\<lparr>mem := store_bytes (mem m) (pa + of_nat tot) bs\<rparr>)"

text \<open>The boolean result is False for a return of \<open>-1\<close>.\<close>

function loadseg_loop :: "u64 \<Rightarrow> u64 \<Rightarrow> nat \<Rightarrow> u32 \<Rightarrow> u32 \<Rightarrow> u32 \<Rightarrow> 'a inode_state_scheme \<Rightarrow> pmem \<Rightarrow>
    (bool \<times> 'a inode_state_scheme \<times> pmem) res" where
  "loadseg_loop root va ip offset sz k s m =
     (if k < sz
      then bindr (vm_getpte root (va + ucast k) False m) (\<lambda>(pte, m).
        if pte = 0 \<or> load64 (mem m) pte AND PTE_V = 0 then Inr (False, s, m)
        else let pa = PTE_TO_PA (load64 (mem m) pte); n = (if sz - k < 4096 then sz - k else 4096)
          in bindr (inode_read_data ip (offset + k) n (phys_put pa) s m) (\<lambda>(r, s, m).
             if r \<noteq> n then Inr (False, s, m)
             else if k < k + 4096 then loadseg_loop root va ip offset sz (k + 4096) s m
             else Inl Hang))
      else Inr (True, s, m))"
  by pat_completeness auto
termination
  using wrap_measure by (relation "measure (\<lambda>(_, _, _, _, _, k, _). 2 ^ 32 - unat k)") auto

declare loadseg_loop.simps [simp del]

definition loadseg :: "u64 \<Rightarrow> u64 \<Rightarrow> nat \<Rightarrow> u32 \<Rightarrow> u32 \<Rightarrow> 'a inode_state_scheme \<Rightarrow> pmem \<Rightarrow>
    (bool \<times> 'a inode_state_scheme \<times> pmem) res" where
  "loadseg root va ip offset sz s m = loadseg_loop root va ip offset sz 0 s m"

text \<open>The loop that maps the pages of a segment.  A page at or above \<^verbatim>\<open>VA_MAX\<close> makes \<^verbatim>\<open>vm_mappages\<close> panic, so there
  are at most \<open>2 ^ 26\<close> rounds.\<close>

primrec map_segment :: "nat \<Rightarrow> u64 \<Rightarrow> u64 \<Rightarrow> u64 \<Rightarrow> u64 \<Rightarrow> pmem \<Rightarrow> (bool \<times> pmem) res" where
  "map_segment 0 root va end_va perm m = (if va < end_va then Inl Hang else Inr (True, m))"
| "map_segment (Suc fuel) root va end_va perm m =
     (if va < end_va
      then let (pa, m) = pmem_alloc False m
        in if pa = 0 then Inr (False, m)
           else bindr (memset (mem m) pa 0 4096) (\<lambda>mm.
             bindr (vm_mappages root va pa PGSIZE perm (m\<lparr>mem := mm\<rparr>)) (\<lambda>m.
             map_segment fuel root (va + PGSIZE) end_va perm m))
      else Inr (True, m))"

definition read_record :: "nat \<Rightarrow> u32 \<Rightarrow> nat \<Rightarrow> 'a inode_state_scheme \<Rightarrow> (byte list option \<times> 'a inode_state_scheme) res" where
  "read_record ip off n s =
     bindr (inode_read_data ip off (of_nat n) buf_put s (replicate n 0)) (\<lambda>(r, s, bs).
     Inr (if r = of_nat n then Some bs else None, s))"

text \<open>The loop over the program headers; \<open>k\<close> counts up to \<^verbatim>\<open>phnum\<close>.\<close>

primrec load_segments :: "nat \<Rightarrow> nat \<Rightarrow> elfhdr \<Rightarrow> u64 \<Rightarrow> nat \<Rightarrow> u64 \<Rightarrow> 'a inode_state_scheme \<Rightarrow> pmem \<Rightarrow>
    (bool \<times> u64 \<times> 'a inode_state_scheme \<times> pmem) res" where
  "load_segments 0 k elf root ip sz s m = Inr (True, sz, s, m)"
| "load_segments (Suc left) k elf root ip sz s m =
     bindr (read_record ip (ucast (e_phoff elf + of_nat k * 56)) 56 s) (\<lambda>(r, s).
     case r of
       None \<Rightarrow> Inr (False, sz, s, m)
     | Some bs \<Rightarrow>
         let ph = proghdr_of_bytes bs
         in if p_type ph \<noteq> ELF_PROG_LOAD then load_segments left (Suc k) elf root ip sz s m
            else if p_memsz ph < p_filesz ph \<or> p_vaddr ph + p_memsz ph < p_vaddr ph \<or> p_vaddr ph mod PGSIZE \<noteq> 0
            then Inr (False, sz, s, m)
            else let en = PG_ROUND_UP (p_vaddr ph + p_memsz ph)
              in bindr (map_segment (2 ^ 26) root (PG_ROUND_DOWN (p_vaddr ph)) en (flags2perm (p_flags ph) OR PTE_U) m) (\<lambda>(okay, m).
                 if \<not> okay then Inr (False, sz, s, m)
                 else bindr (loadseg root (p_vaddr ph) ip (ucast (p_off ph)) (ucast (p_filesz ph)) s m) (\<lambda>(okay, s, m).
                   if \<not> okay then Inr (False, en, s, m)
                   else load_segments left (Suc k) elf root ip en s m)))"

section \<open>Arguments\<close>

text \<open>Each argument is copied to a page of its own; the result lists the pages, or \<open>None\<close> when memory runs out.\<close>

primrec exec_args :: "nat \<Rightarrow> nat \<Rightarrow> u64 \<Rightarrow> u64 \<Rightarrow> u64 list \<Rightarrow> pmem \<Rightarrow> (u64 list option \<times> pmem) res" where
  "exec_args 0 k root argv_addr argv m = Inr (Some argv, m)"
| "exec_args (Suc left) k root argv_addr argv m =
     bindr (copyin_bytes root (argv_addr + of_nat k * 8) 8 m) (\<lambda>bs.
     let arg_ptr = le_word bs
     in if arg_ptr = 0 then Inr (Some argv, m)
        else let (pa, m) = pmem_alloc False m
          in if pa = 0 then Inr (None, m)
             else bindr (uvm_copyin_str root pa arg_ptr 4096 m) (\<lambda>m.
               exec_args left (Suc k) root argv_addr (argv @ [pa]) m))"

text \<open>The strings go to the new stack from the last one down; \<open>None\<close> when the stack is full.\<close>

definition align16 :: "u64 \<Rightarrow> u64" where
  "align16 sp = sp - sp mod 16"

primrec push_args :: "u64 list \<Rightarrow> u64 \<Rightarrow> u64 \<Rightarrow> u64 \<Rightarrow> u64 list \<Rightarrow> pmem \<Rightarrow> ((u64 \<times> u64 list) option \<times> pmem) res" where
  "push_args [] root stackbase sp ustack m = Inr (Some (sp, ustack), m)"
| "push_args (a # as) root stackbase sp ustack m =
     bindr (strlen (ptr (mem m) a)) (\<lambda>len.
     let sp = align16 (sp - of_nat (len + 1))
     in if sp < stackbase then Inr (None, m)
        else bindr (uvm_copyout root sp a (of_nat (len + 1)) m) (\<lambda>m.
          push_args as root stackbase sp (sp # ustack) m))"

primrec free_args :: "u64 list \<Rightarrow> pmem \<Rightarrow> pmem res" where
  "free_args [] m = Inr m"
| "free_args (a # as) m = bindr (pmem_free a False m) (free_args as)"

primrec stack_pages :: "nat \<Rightarrow> u64 \<Rightarrow> u64 \<Rightarrow> pmem \<Rightarrow> (bool \<times> pmem) res" where
  "stack_pages 0 root va m = Inr (True, m)"
| "stack_pages (Suc k) root va m =
     (let (pa, m) = pmem_alloc False m
      in if pa = 0 then Inr (False, m)
         else bindr (memset (mem m) pa 0 4096) (\<lambda>mm.
           bindr (vm_mappages root va pa PGSIZE (PTE_W OR PTE_R OR PTE_U) (m\<lparr>mem := mm\<rparr>)) (\<lambda>m.
           stack_pages k root (va + PGSIZE) m)))"

section \<open>The system call\<close>

definition put_back :: "file_state \<Rightarrow> pmem \<Rightarrow> sys \<Rightarrow> sys" where
  "put_back fs m s = s\<lparr>fsys := fs, ker := (ker s)\<lparr>pm := m\<rparr>\<rparr>"

definition exec_bad :: "u64 \<Rightarrow> nat option \<Rightarrow> u64 list \<Rightarrow> file_state \<Rightarrow> pmem \<Rightarrow> sys \<Rightarrow> (sysret \<times> sys) res" where
  "exec_bad root ip argv fs m s =
     bindr (if root \<noteq> 0 then uvm_destroy_pgtbl root m else Inr m) (\<lambda>m.
     bindr (case ip of Some ip \<Rightarrow> inode_unlock_free ip fs | None \<Rightarrow> Inr fs) (\<lambda>fs.
     bindr (free_args argv m) (\<lambda>m.
     Inr (Ret ERR, put_back fs m s))))"

text \<open>From the allocation of the user stack on.\<close>

definition exec_commit :: "nat \<Rightarrow> elfhdr \<Rightarrow> u64 \<Rightarrow> u64 \<Rightarrow> u64 list \<Rightarrow> file_state \<Rightarrow> pmem \<Rightarrow> sys \<Rightarrow> (sysret \<times> sys) res" where
  "exec_commit i elf root sz argv fs m s =
     (let sz = PG_ROUND_UP sz; argc = length argv
      in bindr (stack_pages 2 root sz m) (\<lambda>(okay, m).
         if \<not> okay then exec_bad root None argv fs m s
         else let stackbase = sz + PGSIZE
           in bindr (push_args (rev argv) root stackbase (sz + 2 * PGSIZE) [] m) (\<lambda>(r, m).
              case r of
                None \<Rightarrow> exec_bad root None argv fs m s
              | Some (sp, ustack) \<Rightarrow>
                  if ELF_MAXARGS \<le> argc then Inl Undefined
                  else let sp = align16 (sp - of_nat (argc + 1) * 8)
                    in if sp < stackbase then exec_bad root None argv fs m s
                       else bindr (copyout_bytes root sp (concat (map (le_bytes 8) (ustack @ [0]))) m) (\<lambda>m.
                         bindr (free_args argv m) (\<lambda>m.
                         let k = tf_set i (TF_A0 + 8) sp ((ker s)\<lparr>pm := m\<rparr>);
                             oldpgtbl = pgtbl (proc_at k i);
                             k = upd i (\<lambda>p. p\<lparr>pgtbl := root, heap_top := sz, ustack_base := stackbase, ustack_pages := 1\<rparr>) k;
                             k = tf_set i TF_SP sp (tf_set i TF_EPC (e_entry elf) k)
                         in bindr (uvm_destroy_pgtbl oldpgtbl (pm k)) (\<lambda>m.
                            Inr (Ret (of_nat argc), s\<lparr>fsys := fs, ker := k\<lparr>pm := m\<rparr>\<rparr>)))))))"

definition sys_exec :: "env \<Rightarrow> nat \<Rightarrow> sys \<Rightarrow> (sysret \<times> sys) res" where
  "sys_exec e i s =
     bindr (arg_str i 0 DIR_PATH_LEN s) (\<lambda>path.
     bindr (arg_uint64 i 1 s) (\<lambda>argv_addr.
     bindr (exec_args ELF_MAXARGS 0 (pgtbl (proc_at (ker s) i)) argv_addr [] (pm (ker s))) (\<lambda>(r, m).
     case r of
       None \<Rightarrow> exec_bad 0 None [] (fsys s) m s
     | Some argv \<Rightarrow>
         bindr (path_to_inode (junk e) (proc_cwd i s) path (fsys s)) (\<lambda>(p, fs).
         case p of
           None \<Rightarrow> exec_bad 0 None argv fs m s
         | Some ip \<Rightarrow>
             bindr (inode_lock ip fs) (\<lambda>fs.
             bindr (read_record ip 0 64 fs) (\<lambda>(h, fs).
             case h of
               None \<Rightarrow> exec_bad 0 (Some ip) argv fs m s
             | Some bs \<Rightarrow>
                 let elf = elfhdr_of_bytes bs
                 in if e_magic elf \<noteq> ELF_MAGIC then exec_bad 0 (Some ip) argv fs m s
                    else bindr (proc_pgtbl_init (img e) (tf (proc_at (ker s) i)) m) (\<lambda>(root, m).
                      if root = 0 then exec_bad 0 (Some ip) argv fs m s
                      else bindr (load_segments (unat (e_phnum elf)) 0 elf root ip 0 fs m) (\<lambda>(okay, sz, fs, m).
                        if \<not> okay then exec_bad root (Some ip) argv fs m s
                        else bindr (inode_unlock_free ip fs) (\<lambda>fs.
                          exec_commit i elf root sz argv fs m s)))))))))"

section \<open>Dispatch\<close>

abbreviation TF_A7 :: u64 where "TF_A7 \<equiv> 168"

text \<open>The table \<^verbatim>\<open>syscalls\<close>; numbers above \<^verbatim>\<open>SYS_MAX\<close> have no entry.\<close>

definition syscalls :: "env \<Rightarrow> nat \<Rightarrow> u64 \<Rightarrow> (sys \<Rightarrow> (sysret \<times> sys) res) option" where
  "syscalls e i num =
     (if num = 0 then Some (sys_print i)
      else if num = 1 then Some (sys_brk e i)
      else if num = 2 then Some (sys_mmap i)
      else if num = 3 then Some (sys_munmap e i)
      else if num = 4 then Some (sys_fork e i)
      else if num = 5 then Some (sys_wait e i)
      else if num = 6 then Some (sys_exit i)
      else if num = 7 then Some (sys_sleep i)
      else if num = 8 then Some (sys_exec e i)
      else None)"

text \<open>The result goes to register \<^verbatim>\<open>a0\<close> when the call returns; for a blocked call that is when it is resumed.\<close>

definition syscall_return :: "nat \<Rightarrow> u64 \<Rightarrow> sys \<Rightarrow> sys" where
  "syscall_return i v s = s\<lparr>ker := tf_set i TF_A0 v (ker s)\<rparr>"

definition syscall :: "env \<Rightarrow> nat \<Rightarrow> sys \<Rightarrow> (sysret \<times> sys) res" where
  "syscall e i s =
     (case syscalls e i (tf_get i TF_A7 (ker s)) of
        Some f \<Rightarrow> bindr (f s) (\<lambda>(r, s).
          case r of Ret v \<Rightarrow> Inr (Ret v, syscall_return i v s) | Blocked \<Rightarrow> Inr (Blocked, s))
      | None \<Rightarrow> bindr (printf (chars ''syscall: unknown syscall number %d'' @ [newline]) [ArgInt (ucast (tf_get i TF_A7 (ker s)))]) (\<lambda>out.
          Inr (Ret ERR, syscall_return i ERR (s\<lparr>con := con s @ out\<rparr>))))"

end
