(* ===== verification/File_Data.thy ===== *)
theory File_Data
  imports Inode Dirs
begin

text \<open>
  What \<^verbatim>\<open>inode_read_data\<close> and \<^verbatim>\<open>inode_write_data\<close> do to the contents of a file, for the part of a file that its ten
  direct blocks hold (a directory never has more).  \<open>fbyte s i p\<close> is byte \<open>p\<close> of the file of cache
  entry \<open>i\<close>, as the disk has it.
\<close>

section \<open>The blocks of a file\<close>

abbreviation direct :: "'a inode_state_scheme \<Rightarrow> nat \<Rightarrow> nat \<Rightarrow> u32" where
  "direct s i k \<equiv> addrs (dpart (inode_at s i)) ! k"

abbreviation N_DIRECT :: nat where "N_DIRECT \<equiv> 10"
abbreviation DIRECT_SIZE :: nat where "DIRECT_SIZE \<equiv> 10240"

definition file_ok :: "'a inode_state_scheme \<Rightarrow> nat \<Rightarrow> bool" where
  "file_ok s i \<longleftrightarrow> i < length (icache s) \<and> length (addrs (dpart (inode_at s i))) = N_ADDRS \<and>
     (\<forall>k < N_DIRECT. direct s i k \<noteq> 0 \<longrightarrow> direct s i k \<in> data_block_nums s - free_blocks s) \<and>
     (\<forall>k < N_DIRECT. \<forall>l < N_DIRECT. direct s i k = direct s i l \<longrightarrow> direct s i k \<noteq> 0 \<longrightarrow> k = l)"

definition file_blocks :: "'a inode_state_scheme \<Rightarrow> nat \<Rightarrow> u32 set" where
  "file_blocks s i = {direct s i k | k. k < N_DIRECT \<and> direct s i k \<noteq> 0}"

definition holes :: "'a inode_state_scheme \<Rightarrow> nat \<Rightarrow> nat set" where
  "holes s i = {k. k < N_DIRECT \<and> direct s i k = 0}"

definition fbyte :: "'a inode_state_scheme \<Rightarrow> nat \<Rightarrow> nat \<Rightarrow> byte" where
  "fbyte s i p = disk s (direct s i (p div BLOCK_SIZE)) ! (p mod BLOCK_SIZE)"

text \<open>No data block and not the data bitmap is held by someone else.\<close>

definition unheld :: "'a fs_state_scheme \<Rightarrow> u32 set \<Rightarrow> bool" where
  "unheld s H \<longleftrightarrow> data_bitmap_start (sb s) \<notin> H \<and> H \<inter> data_block_nums s = {}"

lemma data_block_facts:
  assumes "sb_ok (sb s)" and "b \<in> data_block_nums s"
  shows "b \<noteq> BLOCK_NUM_UNUSED" "b \<noteq> data_bitmap_start (sb s)" "b \<noteq> 0" "unat (data_start (sb s)) \<le> unat b"
proof -
  obtain k where k: "k < N_BITS" "b = of_nat k + data_start (sb s)" using assms(2) by (auto simp: data_block_nums_def)
  have u: "unat b = k + unat (data_start (sb s))" using unat_data_block [OF assms(1) k(1)] k(2) by simp
  have o: "unat (data_start (sb s)) + N_BITS < 2 ^ 32" "unat (data_bitmap_start (sb s)) < unat (data_start (sb s))"
    using assms(1) by (simp_all add: sb_ok_def word_less_nat_alt)
  have "unat BLOCK_NUM_UNUSED = 2 ^ 32 - 1" by simp
  then have "unat b \<noteq> unat BLOCK_NUM_UNUSED" using u k(1) o(1) by linarith
  then show "b \<noteq> BLOCK_NUM_UNUSED" by metis
  show "b \<noteq> data_bitmap_start (sb s)" "b \<noteq> 0" "unat (data_start (sb s)) \<le> unat b"
    using u o(2) by (auto simp: unat_eq_0)
qed

lemma free_blocks_data: "free_blocks s \<subseteq> data_block_nums s"
  by (auto simp: free_blocks_def data_block_nums_def)

lemma finite_free_blocks: "finite (free_blocks s)"
  by (simp add: free_blocks_def)

lemma data_block_nums_cong: "sb t = sb s \<Longrightarrow> data_block_nums t = data_block_nums s"
  by (simp add: data_block_nums_def)

lemma unheld_cong: "sb t = sb s \<Longrightarrow> unheld t H = unheld s H"
  by (simp add: unheld_def data_block_nums_def)

text \<open>What depends on the data bitmap alone.\<close>

lemma free_blocks_cong:
  "sb t = sb s \<Longrightarrow> disk t (data_bitmap_start (sb s)) = disk s (data_bitmap_start (sb s)) \<Longrightarrow> free_blocks t = free_blocks s"
  by (simp add: free_blocks_def)

lemma file_ok_cong:
  assumes "icache t = icache s" "sb t = sb s" "disk t (data_bitmap_start (sb s)) = disk s (data_bitmap_start (sb s))"
  shows "file_ok t i = file_ok s i" "holes t i = holes s i" "free_blocks t = free_blocks s" "file_blocks t i = file_blocks s i"
  using assms free_blocks_cong [of t s] data_block_nums_cong [of t s]
  by (simp_all add: file_ok_def holes_def file_blocks_def)

section \<open>Locating a direct block\<close>

definition set_addr :: "nat \<Rightarrow> nat \<Rightarrow> u32 \<Rightarrow> 'a inode_state_scheme \<Rightarrow> 'a inode_state_scheme" where
  "set_addr i k b s = set_inode i ((inode_at s i)\<lparr>dpart := (dpart (inode_at s i))\<lparr>addrs := (addrs (dpart (inode_at s i)))[k := b]\<rparr>\<rparr>) s"

lemma locate_one:
  "inode_locate_block i bn s = (if direct s i (unat bn) \<noteq> 0 then Inr (direct s i (unat bn), set_addr i (unat bn) (direct s i (unat bn)) s)
     else bindr (bitmap_alloc_block s) (\<lambda>(b, s). Inr (b, set_addr i (unat bn) b s)))"
  if "bn < 10"
  using that by (simp add: inode_locate_block_def locate_addr_def locate_block.simps bindr_assoc set_addr_def Let_def)
    (auto simp: bindr_def split: sum.splits)

lemma set_addr_same: "i < length (icache s) \<Longrightarrow> k < length (addrs (dpart (inode_at s i))) \<Longrightarrow>
    set_addr i k (direct s i k) s = s"
  by (simp add: set_addr_def set_inode_def)

lemma direct_set_addr:
  assumes "i < length (icache s)" "length (addrs (dpart (inode_at s i))) = N_ADDRS" "l < N_DIRECT" "k < N_DIRECT"
  shows "direct (set_addr i k b s) i l = (if l = k then b else direct s i l)"
  using assms by (simp add: set_addr_def)

lemma distinct_upd:
  fixes g g' :: "nat \<Rightarrow> u32"
  assumes "\<And>l. l < n \<Longrightarrow> g' l = (if l = k then b else g l)" and "\<And>l. l < n \<Longrightarrow> g l \<noteq> 0 \<Longrightarrow> g l \<noteq> b"
    and "\<And>l l'. l < n \<Longrightarrow> l' < n \<Longrightarrow> g l = g l' \<Longrightarrow> g l \<noteq> 0 \<Longrightarrow> l = l'"
    and "l < n" "l' < n" "g' l = g' l'" "g' l \<noteq> 0"
  shows "l = l'"
  using assms by (metis (no_types))

lemma locate_direct:
  assumes "fs_ok s H" "unheld s H" "file_ok s i" "unat bn < N_DIRECT" "card (holes s i) \<le> card (free_blocks s)"
  obtains b t where "inode_locate_block i bn s = Inr (b, t)" "fs_ok t H" "file_ok t i" "direct t i (unat bn) = b"
    "b \<in> data_block_nums s" "sb t = sb s" "icache t = icache (set_addr i (unat bn) b s)" "inode_state.more t = inode_state.more s"
    "\<forall>n. n \<noteq> data_bitmap_start (sb s) \<longrightarrow> disk t n = disk s n" "card (holes t i) \<le> card (free_blocks t)"
    "direct s i (unat bn) \<noteq> 0 \<Longrightarrow> t = s" "b \<in> file_blocks s i \<union> free_blocks s" "free_blocks t \<subseteq> free_blocks s"
proof -
  let ?k = "unat bn"
  have lt: "bn < 10" using assms(4) by (simp add: word_less_nat_alt)
  have f: "i < length (icache s)" "length (addrs (dpart (inode_at s i))) = N_ADDRS" using assms(3) by (auto simp: file_ok_def)
  show thesis
  proof (cases "direct s i ?k = 0")
    case False
    have same: "set_addr i ?k (direct s i ?k) s = s" using f assms(4) by (intro set_addr_same) auto
    have "inode_locate_block i bn s = Inr (direct s i ?k, s)" using locate_one [OF lt, of i s] same False by simp
    moreover have "direct s i ?k \<in> data_block_nums s" using assms(3,4) False by (auto simp: file_ok_def)
    moreover have "direct s i ?k \<in> file_blocks s i" using assms(4) False by (auto simp: file_blocks_def)
    ultimately show thesis using assms same by (intro that [of "direct s i ?k" s]) auto
  next
    case True
    then have "?k \<in> holes s i" using assms(4) by (simp add: holes_def)
    moreover have fin: "finite (holes s i)" by (simp add: holes_def)
    ultimately have ne: "free_blocks s \<noteq> {}" using assms(5) by (auto simp: card_gt_0_iff)
    have um: "data_bitmap_start (sb s) \<notin> H" using assms(2) by (simp add: unheld_def)
    from bitmap_alloc_block_cases [OF assms(1) um] ne obtain k t where k: "k < N_BITS" "k \<notin> used_bits (disk s (data_bitmap_start (sb s)))"
      "bitmap_alloc_block s = Inr (of_nat k + data_start (sb s), t)" "fs_ok t H"
      "disk t = (disk s)(data_bitmap_start (sb s) := set_bit_of k (disk s (data_bitmap_start (sb s))))"
      "buf_state.more t = buf_state.more s"
      by metis
    let ?b = "of_nat k + data_start (sb s)" and ?t = "set_addr i ?k (of_nat k + data_start (sb s)) t"
    have m: "sb t = sb s" "icache t = icache s" "inode_state.more t = inode_state.more s" using more_icache [OF k(6)] by auto
    have fb: "free_blocks t = free_blocks s - {?b}" using free_blocks_upd(1) [OF assms(1) k(1) m(1) k(5)] .
    have b: "?b \<in> free_blocks s" using k(1,2) by (auto simp: free_blocks_def)
    have nz: "?b \<noteq> 0" using data_block_nonzero [OF _ k(1)] assms(1) by (simp add: fs_ok_def)
    have dir: "direct ?t i l = (if l = ?k then ?b else direct s i l)" if "l < N_DIRECT" for l
      using direct_set_addr [of i t l ?k ?b] f m that assms(4) by simp
    have ft: "free_blocks ?t = free_blocks t" "data_block_nums ?t = data_block_nums s" "sb ?t = sb s" "disk ?t = disk t"
      using m by (simp_all add: set_addr_def data_block_nums_def)
    have bd: "?b \<in> data_block_nums s" using b free_blocks_data by blast
    have fo: "file_ok ?t i"
    proof -
      have old: "direct s i l \<noteq> ?b" if "l < N_DIRECT" "direct s i l \<noteq> 0" for l
        using that assms(3) b by (auto simp: file_ok_def)
      have uni: "l = l'" if "l < N_DIRECT" "l' < N_DIRECT" "direct s i l = direct s i l'" "direct s i l \<noteq> 0" for l l'
        using that assms(3) unfolding file_ok_def by blast
      show ?thesis unfolding file_ok_def
      proof (intro conjI allI impI)
        show "i < length (icache ?t)" "length (addrs (dpart (inode_at ?t i))) = N_ADDRS" using f m by (simp_all add: set_addr_def)
        fix l assume l: "l < N_DIRECT" "direct ?t i l \<noteq> 0"
        then show "direct ?t i l \<in> data_block_nums ?t - free_blocks ?t"
          using dir [OF l(1)] fb bd ft assms(3) by (auto simp: file_ok_def)
      next
        fix l l' assume "l < N_DIRECT" "l' < N_DIRECT" "direct ?t i l = direct ?t i l'" "direct ?t i l \<noteq> 0"
        note distinct_upd [of N_DIRECT "direct ?t i" ?k ?b "direct s i" l l', OF dir old uni this]
        then show "l = l'" by this
      qed
    qed
    have "holes ?t i = holes s i - {?k}" using dir nz assms(4) by (auto simp: holes_def split: if_splits)
    then have ch: "card (holes ?t i) \<le> card (free_blocks ?t)"
      using assms(5) fb b ft \<open>?k \<in> holes s i\<close> fin finite_free_blocks [of s] by simp
    have call: "inode_locate_block i bn s = Inr (?b, ?t)" using locate_one [OF lt, of i s] True k(3) by simp
    have ok: "fs_ok ?t H" using k(4) by (simp add: set_addr_def)
    have ic: "icache ?t = icache (set_addr i ?k ?b s)" "inode_state.more ?t = inode_state.more s"
      using m by (simp_all add: set_addr_def)
    have bt: "direct ?t i ?k = ?b" using dir [OF assms(4)] by simp
    have dk: "\<forall>n. n \<noteq> data_bitmap_start (sb s) \<longrightarrow> disk ?t n = disk s n" using k(5) ft(4) by simp
    show thesis by (rule that [OF call ok fo bt bd ft(3) ic dk ch]) (use True b fb ft(1) in auto)
  qed
qed

section \<open>What writing changes\<close>

text \<open>\<open>wrote s i o n src v\<close>: from \<open>s\<close> to \<open>v\<close> the bytes \<open>o\<close> to \<open>o + n\<close> of the file of entry \<open>i\<close> became those of \<open>src\<close>, the
  other bytes of its mapped blocks are unchanged, and nothing outside the file changed: not the other entries of the
  inode cache, not a block that was neither free nor a block of this file.\<close>

definition with_addrs :: "u32 list \<Rightarrow> inode \<Rightarrow> inode" where
  "with_addrs as ip = ip\<lparr>dpart := (dpart ip)\<lparr>addrs := as\<rparr>\<rparr>"

definition inode_frame :: "'a inode_state_scheme \<Rightarrow> nat \<Rightarrow> 'a inode_state_scheme \<Rightarrow> bool" where
  "inode_frame s i v \<longleftrightarrow> sb v = sb s \<and> inode_state.more v = inode_state.more s \<and>
     (\<exists>as. icache v = (icache s)[i := with_addrs as (inode_at s i)]) \<and>
     free_blocks v \<subseteq> free_blocks s \<and> file_blocks v i \<subseteq> file_blocks s i \<union> free_blocks s \<and>
     (\<forall>n. n \<noteq> data_bitmap_start (sb s) \<longrightarrow> n \<notin> file_blocks s i \<longrightarrow> n \<notin> free_blocks s \<longrightarrow> disk v n = disk s n)"

definition mapped_byte :: "'a inode_state_scheme \<Rightarrow> nat \<Rightarrow> nat \<Rightarrow> bool" where
  "mapped_byte s i p \<longleftrightarrow> direct s i (p div BLOCK_SIZE) \<noteq> 0"

definition wrote :: "'a inode_state_scheme \<Rightarrow> nat \<Rightarrow> nat \<Rightarrow> nat \<Rightarrow> (nat \<Rightarrow> byte) \<Rightarrow> 'a inode_state_scheme \<Rightarrow> bool" where
  "wrote s i o' n src v \<longleftrightarrow> inode_frame s i v \<and>
     (\<forall>p < DIRECT_SIZE. if o' \<le> p \<and> p < o' + n then mapped_byte v i p \<and> fbyte v i p = src (p - o')
        else mapped_byte s i p \<longrightarrow> mapped_byte v i p \<and> fbyte v i p = fbyte s i p)"

lemma inode_frame_trans:
  assumes "inode_frame s i t" and "inode_frame t i v"
  shows "inode_frame s i v"
proof -
  have a: "sb v = sb s" "inode_state.more v = inode_state.more s" "free_blocks v \<subseteq> free_blocks s"
    "file_blocks v i \<subseteq> file_blocks s i \<union> free_blocks s"
    using assms unfolding inode_frame_def by auto
  obtain as bs where ic: "icache t = (icache s)[i := with_addrs as (inode_at s i)]" "icache v = (icache t)[i := with_addrs bs (inode_at t i)]"
    using assms unfolding inode_frame_def by blast
  have "icache v = (icache s)[i := with_addrs bs (inode_at s i)]"
    unfolding ic by (cases "i < length (icache s)") (simp_all add: with_addrs_def list_update_beyond)
  moreover have "disk v n = disk s n"
    if "n \<noteq> data_bitmap_start (sb s)" "n \<notin> file_blocks s i" "n \<notin> free_blocks s" for n
  proof -
    have "n \<notin> file_blocks t i" "n \<notin> free_blocks t" "n \<noteq> data_bitmap_start (sb t)"
      using that assms(1) unfolding inode_frame_def by auto
    then have "disk v n = disk t n" using assms(2) unfolding inode_frame_def by blast
    also have "\<dots> = disk s n" using that assms(1) unfolding inode_frame_def by blast
    finally show ?thesis .
  qed
  ultimately show ?thesis using a unfolding inode_frame_def by blast
qed

lemma inode_frame_refl: "inode_frame s i s"
proof -
  have "icache s = (icache s)[i := with_addrs (addrs (dpart (inode_at s i))) (inode_at s i)]"
    by (cases "i < length (icache s)") (simp_all add: with_addrs_def list_update_beyond)
  then show ?thesis unfolding inode_frame_def by blast
qed

lemma wrote_none: "wrote s i p 0 src s"
  by (auto simp: wrote_def inode_frame_refl)

lemma wrote_append:
  assumes "wrote s i p m src t" and "wrote t i (p + m) n (\<lambda>x. src (m + x)) v"
  shows "wrote s i p (m + n) src v"
proof -
  have "if p \<le> q \<and> q < p + (m + n) then mapped_byte v i q \<and> fbyte v i q = src (q - p)
      else mapped_byte s i q \<longrightarrow> mapped_byte v i q \<and> fbyte v i q = fbyte s i q" if "q < DIRECT_SIZE" for q
  proof -
    have s: "if p \<le> q \<and> q < p + m then mapped_byte t i q \<and> fbyte t i q = src (q - p)
        else mapped_byte s i q \<longrightarrow> mapped_byte t i q \<and> fbyte t i q = fbyte s i q"
      using assms(1) that unfolding wrote_def by blast
    have t: "if p + m \<le> q \<and> q < p + m + n then mapped_byte v i q \<and> fbyte v i q = src (m + (q - (p + m)))
        else mapped_byte t i q \<longrightarrow> mapped_byte v i q \<and> fbyte v i q = fbyte t i q"
      using assms(2) that unfolding wrote_def by blast
    have "p + m \<le> q \<Longrightarrow> m + (q - (p + m)) = q - p" by simp
    with s t show ?thesis by (auto split: if_splits)
  qed
  then show ?thesis using assms inode_frame_trans unfolding wrote_def by blast
qed

section \<open>The loops over the blocks of a range\<close>

text \<open>The invariant of the loops: a consistent file system in which every hole of the file can still be filled.\<close>

definition file_inv :: "u32 set \<Rightarrow> nat \<Rightarrow> 'a inode_state_scheme \<Rightarrow> bool" where
  "file_inv H i s \<longleftrightarrow> fs_ok s H \<and> unheld s H \<and> file_ok s i \<and> card (holes s i) \<le> card (free_blocks s)"

lemma file_invD:
  assumes "file_inv H i s"
  shows "fs_ok s H" "unheld s H" "file_ok s i" "card (holes s i) \<le> card (free_blocks s)" "cache s H" "sb_ok (sb s)"
    "card H < N_BLOCK_BUF" "length (disk s n) = BLOCK_SIZE" "i < length (icache s)"
  using assms cacheD(3) by (auto simp: file_inv_def fs_ok_def file_ok_def)

lemma file_inv_same_meta:
  assumes "file_inv H i s" "fs_ok t H" "icache t = icache s" "sb t = sb s"
    "disk t (data_bitmap_start (sb s)) = disk s (data_bitmap_start (sb s))"
  shows "file_inv H i t"
  using assms file_ok_cong [OF assms(3-5)] unheld_cong [OF assms(4)] by (simp add: file_inv_def)

lemma with_set_addr:
  "icache (set_addr i k b s) = (icache s)[i := with_addrs ((addrs (dpart (inode_at s i)))[k := b]) (inode_at s i)]"
  by (simp add: set_addr_def with_addrs_def)

lemma file_block_number:
  assumes "direct t i k = b" "k < N_DIRECT" "b \<noteq> 0" "file_ok t i" "l < N_DIRECT" "direct t i l = b"
  shows "l = k"
  using assms unfolding file_ok_def by metis

text \<open>The state after locating a block differs from the one before by one entry of \<open>addrs\<close> and one bit of the bitmap.\<close>

lemma located:
  assumes "file_inv H i s" and "unat bn < N_DIRECT"
  obtains b t where "inode_locate_block i bn s = Inr (b, t)" "file_inv H i t" "direct t i (unat bn) = b" "b \<noteq> 0"
    "b \<in> data_block_nums s" "inode_frame s i t" "\<forall>n. n \<noteq> data_bitmap_start (sb s) \<longrightarrow> disk t n = disk s n"
    "\<forall>l < N_DIRECT. l \<noteq> unat bn \<longrightarrow> direct t i l = direct s i l" "direct s i (unat bn) \<noteq> 0 \<longrightarrow> t = s"
    "b \<in> file_blocks s i \<union> free_blocks s"
proof -
  let ?k = "unat bn"
  note f = file_invD [OF assms(1)]
  obtain b t where t: "inode_locate_block i bn s = Inr (b, t)" "fs_ok t H" "file_ok t i" "direct t i ?k = b"
    "b \<in> data_block_nums s" "sb t = sb s" "icache t = icache (set_addr i ?k b s)" "inode_state.more t = inode_state.more s"
    "\<forall>n. n \<noteq> data_bitmap_start (sb s) \<longrightarrow> disk t n = disk s n" "card (holes t i) \<le> card (free_blocks t)"
    "direct s i ?k \<noteq> 0 \<Longrightarrow> t = s" "b \<in> file_blocks s i \<union> free_blocks s" "free_blocks t \<subseteq> free_blocks s"
    using locate_direct [OF f(1,2,3) assms(2) f(4)] by metis
  have nz: "b \<noteq> 0" using data_block_facts(3) [OF f(6) t(5)] .
  have inv: "file_inv H i t" using t f unheld_cong [OF t(6)] by (simp add: file_inv_def)
  have dir: "\<forall>l < N_DIRECT. l \<noteq> ?k \<longrightarrow> direct t i l = direct s i l"
    using t(7) f(3) assms(2) by (auto simp: set_addr_def file_ok_def)
  have "file_blocks t i \<subseteq> file_blocks s i \<union> {b}"
    using dir t(4) by (force simp: file_blocks_def)
  then have "inode_frame s i t"
    using t(6,8,9,12,13) t(7) [unfolded with_set_addr] unfolding inode_frame_def by blast
  then show thesis using that [OF t(1) inv t(4) nz t(5) _ t(9) dir _ t(12)] t(11) by blast
qed

lemma in_block:
  fixes q k off n :: nat
  assumes "off + n \<le> 1024"
  shows "1024 * k + off \<le> q \<and> q < 1024 * k + off + n \<longleftrightarrow> q div 1024 = k \<and> off \<le> q mod 1024 \<and> q mod 1024 < off + n"
proof -
  have q: "q = 1024 * (q div 1024) + q mod 1024" "q mod 1024 < 1024" by simp_all
  consider "q div 1024 = k" | "q div 1024 + 1 \<le> k" | "k + 1 \<le> q div 1024" by linarith
  then show ?thesis
  proof cases
    case 1
    show ?thesis using q(1) unfolding 1 by linarith
  next
    case 2
    then have "1024 * (q div 1024) + 1024 \<le> 1024 * k" by simp
    then show ?thesis using q 2 by linarith
  next
    case 3
    then have "1024 * k + 1024 \<le> 1024 * (q div 1024)" by simp
    then show ?thesis using q 3 assms by linarith
  qed
qed

lemma mapped_block:
  assumes "file_inv H i s" "l < N_DIRECT" "direct s i l \<noteq> 0"
  shows "direct s i l \<in> data_block_nums s" "direct s i l \<in> file_blocks s i"
  using assms by (auto simp: file_inv_def file_ok_def file_blocks_def)

lemma wrote_step:
  assumes inv: "file_inv H i s" and k: "unat bn < N_DIRECT" and off: "off + length bs \<le> BLOCK_SIZE"
  obtains blk t b t1 t2 v where "inode_locate_block i bn s = Inr (blk, t)" "buf_read blk t = Inr (b, t1)"
    "buf_write b (set_data b (overwrite (buf_data b t1) off bs) t1) = Inr t2" "buf_release b t2 = Inr v"
    "file_inv H i v" "wrote s i (1024 * unat bn + off) (length bs) (nth bs) v"
proof -
  let ?k = "unat bn"
  obtain b t where t: "inode_locate_block i bn s = Inr (b, t)" "file_inv H i t" "direct t i ?k = b" "b \<noteq> 0"
    "b \<in> data_block_nums s" "inode_frame s i t" "\<forall>n. n \<noteq> data_bitmap_start (sb s) \<longrightarrow> disk t n = disk s n"
    "\<forall>l < N_DIRECT. l \<noteq> ?k \<longrightarrow> direct t i l = direct s i l" "direct s i ?k \<noteq> 0 \<longrightarrow> t = s" "b \<in> file_blocks s i \<union> free_blocks s"
    by (rule located [OF inv k])
  note f = file_invD [OF t(2)]
  let ?e = "overwrite (disk t b) off bs"
  have bt: "b \<in> data_block_nums t" using mapped_block(1) [OF t(2) k] t(3,4) by simp
  note bf = data_block_facts [OF f(6) bt]
  have nH: "b \<notin> H" using f(2) bt by (auto simp: unheld_def)
  have le: "length ?e = BLOCK_SIZE" using f(8) off by simp
  note upd = bcache.update_ok [OF f(5) nH bf(1) f(7) le]
  obtain j t1 t2 v where r: "buf_read b t = Inr (j, t1)" "buf_data j t1 = disk t b" "buf_write j (set_data j ?e t1) = Inr t2"
    "buf_release j t2 = Inr v" "cache v H" "disk v = (disk t)(b := ?e)" "buf_state.more v = buf_state.more t"
    by (rule upd)
  note m = more_icache [OF r(7)]
  have v: "file_inv H i v" using m r(5,6) f bf(2) by (intro file_inv_same_meta [OF t(2)]) (auto simp: fs_ok_def)
  have "disk v (data_bitmap_start (sb t)) = disk t (data_bitmap_start (sb t))" using r(6) bf(2) by simp
  note c = file_ok_cong [OF conjunct1 [OF conjunct2 [OF m]] conjunct1 [OF m] this]
  have "inode_frame t i v"
  proof -
    obtain as where "icache t = (icache t)[i := with_addrs as (inode_at t i)]"
      using inode_frame_refl [of t i] unfolding inode_frame_def by blast
    then show ?thesis
      using m r(6) c mapped_block(2) [OF t(2) k] t(3,4) unfolding inode_frame_def by (metis Un_upper1 fun_upd_apply order_refl)
  qed
  then have fr: "inode_frame s i v" using inode_frame_trans t(6) by blast
  have "if 1024 * ?k + off \<le> q \<and> q < 1024 * ?k + off + length bs
      then mapped_byte v i q \<and> fbyte v i q = bs ! (q - (1024 * ?k + off))
      else mapped_byte s i q \<longrightarrow> mapped_byte v i q \<and> fbyte v i q = fbyte s i q" if q: "q < DIRECT_SIZE" for q
  proof (cases "q div 1024 = ?k")
    case True
    have e: "q - (1024 * ?k + off) = q mod 1024 - off" using True by (simp add: minus_mult_div_eq_mod [symmetric])
    have x: "mapped_byte v i q" "fbyte v i q = ?e ! (q mod 1024)"
      using True m r(6) t(3,4) by (simp_all add: mapped_byte_def fbyte_def)
    have y: "?e ! (q mod 1024) = (if off \<le> q mod 1024 \<and> q mod 1024 < off + length bs then bs ! (q mod 1024 - off) else disk t b ! (q mod 1024))"
      using f(8) [of b] off by (intro nth_overwrite) auto
    have z: "mapped_byte s i q \<Longrightarrow> fbyte s i q = disk t b ! (q mod 1024)"
      using True t(9) t(3) by (auto simp: mapped_byte_def fbyte_def)
    show ?thesis unfolding in_block [OF off] e using True x y z by simp
  next
    case False
    have l: "q div 1024 < N_DIRECT" using q by simp
    have d: "direct v i (q div 1024) = direct s i (q div 1024)" using False l m t(8) by simp
    have "fbyte v i q = fbyte s i q" if "mapped_byte s i q"
    proof -
      have nz: "direct t i (q div 1024) \<noteq> 0" using that d m by (simp add: mapped_byte_def)
      have "direct t i (q div 1024) \<noteq> b" using file_block_number [OF t(3) k t(4) f(3) l] False by blast
      moreover have "direct t i (q div 1024) \<noteq> data_bitmap_start (sb t)"
        using data_block_facts(2) [OF f(6) mapped_block(1) [OF t(2) l nz]] .
      ultimately show ?thesis using d m r(6) t(6,7) by (simp add: fbyte_def inode_frame_def)
    qed
    then show ?thesis unfolding in_block [OF off] using False d by (simp add: mapped_byte_def)
  qed
  then have "wrote s i (1024 * ?k + off) (length bs) (nth bs) v" using fr unfolding wrote_def by blast
  then show thesis using that [OF t(1) r(1) _ r(4) v] r(2,3) by simp
qed

text \<open>
  What the loops ask of the other side of a copy.  A source of \<open>len\<close> bytes delivers any piece of them; a sink with
  room for \<open>cap\<close> bytes stores a piece at an offset and leaves the rest as it is.
\<close>

locale byte_source =
  fixes get :: "nat \<Rightarrow> nat \<Rightarrow> byte list res" and src :: "nat \<Rightarrow> byte" and len :: nat
  assumes get_ok: "t + m \<le> len \<Longrightarrow> get t m = Inr (map src [t..<t + m])"

locale byte_sink =
  fixes put :: "nat \<Rightarrow> byte list \<Rightarrow> 'm \<Rightarrow> 'm res" and sink_ok :: "'m \<Rightarrow> bool" and view :: "'m \<Rightarrow> nat \<Rightarrow> byte" and cap :: nat
  assumes put_ok: "sink_ok mm \<Longrightarrow> t + length bs \<le> cap \<Longrightarrow> \<exists>mm'. put t bs mm = Inr mm' \<and> sink_ok mm' \<and>
    (\<forall>p < cap. view mm' p = (if t \<le> p \<and> p < t + length bs then bs ! (p - t) else view mm p))"

lemma wrote_cong:
  assumes "wrote s i p n f v" and "\<And>x. x < n \<Longrightarrow> f x = g x"
  shows "wrote s i p n g v"
proof -
  have "f (q - p) = g (q - p)" if "p \<le> q \<and> q < p + n" for q using assms(2) [of "q - p"] that by auto
  then show ?thesis using assms(1) unfolding wrote_def by metis
qed

text \<open>The arithmetic of one round.\<close>

lemma round_arith:
  fixes offset :: u32
  assumes "0 < left" and "unat offset + left \<le> DIRECT_SIZE"
  defines "off \<equiv> unat (offset mod 1024)" and "m \<equiv> min (1024 - unat (offset mod 1024)) left"
  shows "1024 * unat (offset div 1024) + off = unat offset" "unat (offset div 1024) < N_DIRECT" "off + m \<le> 1024" "0 < m" "m \<le> left"
    "unat (offset + of_nat m) = unat offset + m"
proof -
  have o: "off = unat offset mod 1024" "unat (offset div 1024) = unat offset div 1024" by (simp_all add: off_def unat_mod unat_div)
  show "1024 * unat (offset div 1024) + off = unat offset" unfolding o by simp
  show "unat (offset div 1024) < N_DIRECT" unfolding o(2) using assms(1,2) by (simp add: div_less_iff_less_mult)
  have lt: "off < 1024" using o(1) by simp
  then show "off + m \<le> 1024" "0 < m" "m \<le> left" using assms(1) by (auto simp: m_def off_def)
  have "unat (of_nat m :: u32) = m" using \<open>m \<le> left\<close> assms(2) by (intro unat_less_u32) simp
  moreover from this have "unat offset + unat (of_nat m :: u32) < 2 ^ LENGTH(32)" using \<open>m \<le> left\<close> assms(2) by simp
  ultimately show "unat (offset + of_nat m) = unat offset + m" using iffD1 [OF unat_add_lem] by metis
qed

context byte_source
begin

lemma write_loop_ok:
  "file_inv H i s \<Longrightarrow> unat offset + left \<le> DIRECT_SIZE \<Longrightarrow> tot + left \<le> len \<Longrightarrow>
   \<exists>v. write_loop i get offset tot left s = Inr (offset + of_nat left, tot + left, v) \<and> file_inv H i v \<and>
     wrote s i (unat offset) left (\<lambda>x. src (tot + x)) v"
proof (induction left arbitrary: offset tot s rule: less_induct)
  case (less left)
  show ?case
  proof (cases "left = 0")
    case True
    then show ?thesis using less.prems by (simp add: write_loop.simps [of i get offset tot 0] wrote_none)
  next
    case False
    define off m where "off = unat (offset mod 1024)" and "m = min (1024 - unat (offset mod 1024)) left"
    have pos: "0 < left" using False by simp
    note r = round_arith [OF pos less.prems(2), folded off_def m_def]
    let ?bs = "map src [tot..<tot + m]"
    have g: "get tot m = Inr ?bs" using get_ok [of tot m] less.prems(3) r(5) by simp
    have "off + length ?bs \<le> BLOCK_SIZE" using r(3) by simp
    from wrote_step [OF less.prems(1) r(2) this]
    obtain blk t b t1 t2 v where w: "inode_locate_block i (offset div 1024) s = Inr (blk, t)" "buf_read blk t = Inr (b, t1)"
      "buf_write b (set_data b (overwrite (buf_data b t1) off ?bs) t1) = Inr t2" "buf_release b t2 = Inr v"
      "file_inv H i v" "wrote s i (1024 * unat (offset div 1024) + off) (length ?bs) (nth ?bs) v" by metis
    have step: "write_loop i get offset tot left s = write_loop i get (offset + of_nat m) (tot + m) (left - m) v"
      using pos w g by (simp add: write_loop.simps [of i get offset tot left] off_def m_def Let_def)
    have ws: "wrote s i (unat offset) m (\<lambda>x. src (tot + x)) v"
      using w(6) unfolding r(1) by (auto intro: wrote_cong)
    obtain u where u: "write_loop i get (offset + of_nat m) (tot + m) (left - m) v =
        Inr (offset + of_nat m + of_nat (left - m), tot + m + (left - m), u)" "file_inv H i u"
      "wrote v i (unat offset + m) (left - m) (\<lambda>x. src (tot + m + x)) u"
      using less.IH [OF _ w(5), of "left - m" "offset + of_nat m" "tot + m"] r less.prems by auto
    have "wrote s i (unat offset) (m + (left - m)) (\<lambda>x. src (tot + x)) u"
      using wrote_append [OF ws, of "left - m" u] u(3) by (simp add: add.assoc)
    moreover have "offset + of_nat m + of_nat (left - m) = offset + of_nat left" "tot + m + (left - m) = tot + left" "m + (left - m) = left"
      using r(5) by simp_all
    ultimately show ?thesis using step u(1,2) by simp
  qed
qed

end

text \<open>Reading mapped bytes changes neither the disk nor the inode.\<close>

definition file_same :: "'a inode_state_scheme \<Rightarrow> 'a inode_state_scheme \<Rightarrow> bool" where
  "file_same s t \<longleftrightarrow> disk t = disk s \<and> sb t = sb s \<and> icache t = icache s \<and> inode_state.more t = inode_state.more s"

lemma file_same_trans: "file_same s t \<Longrightarrow> file_same t u \<Longrightarrow> file_same s u"
  by (simp add: file_same_def)

lemma file_same_bytes: "file_same s t \<Longrightarrow> fbyte t i p = fbyte s i p \<and> mapped_byte t i p = mapped_byte s i p"
  by (simp add: file_same_def fbyte_def mapped_byte_def)

lemma read_step:
  assumes inv: "file_inv H i s" and k: "unat bn < N_DIRECT" and mp: "direct s i (unat bn) \<noteq> 0" and off: "off + m \<le> BLOCK_SIZE"
  obtains b t v where "inode_locate_block i bn s = Inr (direct s i (unat bn), s)" "buf_read (direct s i (unat bn)) s = Inr (b, t)"
    "slice off m (buf_data b t) = map (\<lambda>x. fbyte s i (1024 * unat bn + off + x)) [0..<m]" "buf_release b t = Inr v"
    "file_inv H i v" "file_same s v"
proof -
  let ?k = "unat bn" and ?b = "direct s i (unat bn)"
  note f = file_invD [OF inv]
  note bt = mapped_block(1) [OF inv k mp]
  note bf = data_block_facts [OF f(6) bt]
  have loc: "inode_locate_block i bn s = Inr (?b, s)"
    by (rule located [OF inv k]) (use mp in auto)
  have "?b \<notin> H" using f(2) bt by (auto simp: unheld_def)
  from bcache.peek_ok [OF f(5) this bf(1) f(7)] obtain j t v where r: "buf_read ?b s = Inr (j, t)" "buf_data j t = disk s ?b"
    "buf_release j t = Inr v" "cache v H" "disk v = disk s" "buf_state.more v = buf_state.more s" by metis
  note m = more_icache [OF r(6)]
  have same: "file_same s v" using m r(5) by (simp add: file_same_def)
  have v: "file_inv H i v" using m r(4,5) f by (intro file_inv_same_meta [OF inv]) (auto simp: fs_ok_def)
  have "slice off m (buf_data j t) = map (\<lambda>x. fbyte s i (1024 * ?k + off + x)) [0..<m]"
  proof (rule nth_equalityI)
    show "length (slice off m (buf_data j t)) = length (map (\<lambda>x. fbyte s i (1024 * ?k + off + x)) [0..<m])"
      using r(2) f(8) off by simp
    fix x assume "x < length (slice off m (buf_data j t))"
    then have x: "x < m" "off + x < 1024" using r(2) f(8) off by simp_all
    have "(1024 * ?k + (off + x)) mod 1024 = off + x" using x(2) by (simp only: mod_mult_self4 mod_less)
    moreover have "(1024 * ?k + (off + x)) div 1024 = ?k" using x(2) by simp
    ultimately have "(1024 * ?k + off + x) div 1024 = ?k" "(1024 * ?k + off + x) mod 1024 = off + x" by (simp_all only: add.assoc)
    with x show "slice off m (buf_data j t) ! x = map (\<lambda>x. fbyte s i (1024 * ?k + off + x)) [0..<m] ! x"
      using r(2) f(8) [of ?b] off by (simp add: nth_slice fbyte_def)
  qed
  from that [OF loc r(1) this r(3) v same] show thesis .
qed

context byte_sink
begin

lemma read_loop_ok:
  "file_inv H i s \<Longrightarrow> unat offset + left \<le> DIRECT_SIZE \<Longrightarrow> tot + left \<le> cap \<Longrightarrow> sink_ok mm \<Longrightarrow>
   (\<And>p. unat offset \<le> p \<Longrightarrow> p < unat offset + left \<Longrightarrow> mapped_byte s i p) \<Longrightarrow>
   \<exists>v mm'. read_loop i put offset tot left s mm = Inr (tot + left, v, mm') \<and> file_inv H i v \<and> file_same s v \<and> sink_ok mm' \<and>
     (\<forall>p < cap. view mm' p = (if tot \<le> p \<and> p < tot + left then fbyte s i (unat offset + (p - tot)) else view mm p))"
proof (induction left arbitrary: offset tot s mm rule: less_induct)
  case (less left)
  show ?case
  proof (cases "left = 0")
    case True
    then show ?thesis using less.prems by (auto simp: read_loop.simps [of i put offset tot 0] file_same_def)
  next
    case False
    define off m where "off = unat (offset mod 1024)" and "m = min (1024 - unat (offset mod 1024)) left"
    have pos: "0 < left" using False by simp
    note r = round_arith [OF pos less.prems(2), folded off_def m_def]
    have "unat offset div 1024 = unat (offset div 1024)" by (simp add: unat_div)
    then have mp: "direct s i (unat (offset div 1024)) \<noteq> 0"
      using less.prems(5) [of "unat offset"] pos by (simp add: mapped_byte_def)
    have lm: "off + m \<le> BLOCK_SIZE" using r(3) by simp
    let ?bs = "map (\<lambda>x. fbyte s i (unat offset + x)) [0..<m]"
    obtain b t v where w: "inode_locate_block i (offset div 1024) s = Inr (direct s i (unat (offset div 1024)), s)"
      "buf_read (direct s i (unat (offset div 1024))) s = Inr (b, t)"
      "slice off m (buf_data b t) = ?bs" "buf_release b t = Inr v" "file_inv H i v" "file_same s v"
      using read_step [OF less.prems(1) r(2) mp lm, unfolded r(1)] by metis
    obtain mm1 where p: "put tot ?bs mm = Inr mm1" "sink_ok mm1"
      "\<forall>q < cap. view mm1 q = (if tot \<le> q \<and> q < tot + m then ?bs ! (q - tot) else view mm q)"
      using put_ok [OF less.prems(4), of tot ?bs] less.prems(3) r(5) by auto
    have step: "read_loop i put offset tot left s mm = read_loop i put (offset + of_nat m) (tot + m) (left - m) v mm1"
      using pos w p(1) by (simp add: read_loop.simps [of i put offset tot left] off_def m_def Let_def)
    have mv: "mapped_byte v i q" if "unat offset + m \<le> q" "q < unat offset + m + (left - m)" for q
      using less.prems(5) [of q] that r(5) file_same_bytes [OF w(6)] by simp
    obtain u mm2 where u: "read_loop i put (offset + of_nat m) (tot + m) (left - m) v mm1 = Inr (tot + m + (left - m), u, mm2)"
      "file_inv H i u" "file_same v u" "sink_ok mm2"
      "\<forall>q < cap. view mm2 q = (if tot + m \<le> q \<and> q < tot + m + (left - m) then fbyte v i (unat offset + m + (q - (tot + m))) else view mm1 q)"
      using less.IH [OF _ w(5), of "left - m" "offset + of_nat m" "tot + m" mm1] r less.prems(2,3) p(2) mv by auto
    have "view mm2 q = (if tot \<le> q \<and> q < tot + left then fbyte s i (unat offset + (q - tot)) else view mm q)" if q: "q < cap" for q
    proof -
      consider "q < tot" | "tot \<le> q" "q < tot + m" | "tot + m \<le> q" by linarith
      then show ?thesis
      proof cases
        case 3
        then have "unat offset + m + (q - (tot + m)) = unat offset + (q - tot)" by simp
        then show ?thesis using 3 q u(5) p(3) r(5) file_same_bytes [OF w(6)] by auto
      qed (use q u(5) p(3) r(5) in auto)
    qed
    then show ?thesis using step u file_same_trans [OF w(6) u(3)] r(5) by auto
  qed
qed

end

interpretation buf_source: byte_source "buf_get bs" "nth bs" "length bs" for bs
  by unfold_locales (auto simp: buf_get_def slice_def intro!: nth_equalityI)

interpretation buf_sink: byte_sink buf_put "\<lambda>mm. length mm = cap" nth cap for cap
  by unfold_locales (auto simp: buf_put_def nth_overwrite)

section \<open>Reading and writing data\<close>

text \<open>The effect of \<^verbatim>\<open>inode_write_data\<close>: as \<open>wrote\<close>, and the size covers the range that was written; the block of the inode
  itself may have changed too.\<close>

definition file_written :: "'a inode_state_scheme \<Rightarrow> nat \<Rightarrow> nat \<Rightarrow> nat \<Rightarrow> (nat \<Rightarrow> byte) \<Rightarrow> 'a inode_state_scheme \<Rightarrow> bool" where
  "file_written s i p n src v \<longleftrightarrow>
     (\<forall>q < DIRECT_SIZE. if p \<le> q \<and> q < p + n then mapped_byte v i q \<and> fbyte v i q = src (q - p)
        else mapped_byte s i q \<longrightarrow> mapped_byte v i q \<and> fbyte v i q = fbyte s i q) \<and>
     unat (isize (dpart (inode_at v i))) = max (unat (isize (dpart (inode_at s i)))) (p + n) \<and>
     (\<exists>as z. icache v = (icache s)[i := (inode_at s i)\<lparr>dpart := (dpart (inode_at s i))\<lparr>isize := z, addrs := as\<rparr>\<rparr>]) \<and>
     sb v = sb s \<and> inode_state.more v = inode_state.more s \<and>
     (\<forall>b. b \<noteq> data_bitmap_start (sb s) \<longrightarrow> b \<noteq> inode_block (sb s) (inode_num (inode_at s i)) \<longrightarrow>
        b \<notin> file_blocks s i \<longrightarrow> b \<notin> free_blocks s \<longrightarrow> disk v b = disk s b)"

text \<open>The number of a cached inode is one of the disk, and nobody holds its block.\<close>

definition inode_writable :: "u32 set \<Rightarrow> nat \<Rightarrow> 'a inode_state_scheme \<Rightarrow> bool" where
  "inode_writable H i s \<longleftrightarrow> inode_num_ok (sb s) (inode_num (inode_at s i)) \<and>
     inode_block (sb s) (inode_num (inode_at s i)) \<notin> H"

lemma inode_block_not_data:
  assumes "sb_ok (sb s)" "inode_num_ok (sb s) num"
  shows "inode_block (sb s) num \<notin> data_block_nums s"
  using inode_block_unused(5) [OF assms] data_block_facts(4) [OF assms(1)] by (meson not_le)

lemma file_inv_set_size:
  "file_inv H i (set_inode i ((inode_at s i)\<lparr>dpart := (dpart (inode_at s i))\<lparr>isize := z\<rparr>\<rparr>) s) = file_inv H i s"
  by (cases "i < length (icache s)")
    (auto simp: file_inv_def file_ok_def holes_def unheld_def data_block_nums_def)

text \<open>Writing the inode back, with a new size, leaves the bytes of the file alone.\<close>

lemma write_back:
  fixes z :: u32
  assumes inv: "file_inv H i t" and w: "inode_writable H i t"
  defines "u \<equiv> set_inode i ((inode_at t i)\<lparr>dpart := (dpart (inode_at t i))\<lparr>isize := z\<rparr>\<rparr>) t"
  obtains v where "inode_rw i True u = Inr v" "file_inv H i v" "icache v = icache u" "sb v = sb t" "inode_state.more v = inode_state.more t"
    "\<forall>b. b \<noteq> inode_block (sb t) (inode_num (inode_at t i)) \<longrightarrow> disk v b = disk t b"
    "\<forall>q < DIRECT_SIZE. mapped_byte v i q = mapped_byte t i q"
    "\<forall>q < DIRECT_SIZE. mapped_byte t i q \<longrightarrow> fbyte v i q = fbyte t i q"
    "disk_inode v (inode_num (inode_at t i)) = dpart (inode_at v i)"
proof -
  note f = file_invD [OF inv]
  let ?num = "inode_num (inode_at t i)"
  have iu: "file_inv H i u" using inv file_inv_set_size unfolding u_def by blast
  have at: "inode_at u i = (inode_at t i)\<lparr>dpart := (dpart (inode_at t i))\<lparr>isize := z\<rparr>\<rparr>" using f(9) by (simp add: u_def)
  have su: "sb u = sb t" "disk u = disk t" "inode_num (inode_at u i) = ?num" using at by (simp_all add: u_def)
  have num: "inode_num_ok (sb u) (inode_num (inode_at u i))" "inode_block (sb u) (inode_num (inode_at u i)) \<notin> H"
    using w su by (simp_all add: inode_writable_def)
  have la: "length (addrs (dpart (inode_at u i))) = N_ADDRS" using iu by (simp add: file_inv_def file_ok_def)
  obtain v where v: "inode_rw i True u = Inr v" "fs_ok v H" "buf_state.more v = buf_state.more u"
    "disk v = (disk u)(inode_block (sb u) (inode_num (inode_at u i)) :=
       overwrite (disk u (inode_block (sb u) (inode_num (inode_at u i)))) (inode_offset (inode_num (inode_at u i)))
         (dinode_bytes (dpart (inode_at u i))))"
    "\<forall>j m d. m \<in> H \<longrightarrow> holds u j m d \<longrightarrow> holds v j m d"
    by (rule inode_rw_write [OF file_invD(1) [OF iu] num la])
  note m = more_icache [OF v(3)]
  note ib = inode_block_unused [OF f(6) num(1) [unfolded su]]
  have fv: "file_inv H i v"
    using m v(2,4) su ib(2) by (intro file_inv_same_meta [OF iu]) auto
  have other: "\<forall>b. b \<noteq> inode_block (sb t) ?num \<longrightarrow> disk v b = disk t b" using v(4) su by simp
  have map: "mapped_byte v i q = mapped_byte t i q" for q using m at by (simp add: mapped_byte_def)
  have "fbyte v i q = fbyte t i q" if q: "q < DIRECT_SIZE" "mapped_byte t i q" for q
  proof -
    have "direct t i (q div 1024) \<in> data_block_nums t"
      using q mapped_block(1) [OF inv, of "q div 1024"] by (simp add: mapped_byte_def div_less_iff_less_mult)
    then have "direct t i (q div 1024) \<noteq> inode_block (sb t) ?num"
      using inode_block_not_data [OF f(6) num(1) [unfolded su]] by auto
    then show ?thesis using other m at by (simp add: fbyte_def)
  qed
  moreover have "disk_inode v ?num = dpart (inode_at v i)"
    using disk_inode_written(1) [OF _ _ num(1) la _ v(4)] f(6,8) su m by simp
  moreover have "icache v = icache u" "sb v = sb t" "inode_state.more v = inode_state.more t" using m by (simp_all add: u_def)
  ultimately show thesis using that [OF v(1) fv] other map by blast
qed

lemma range_no_wrap:
  assumes "unat (offset :: u32) + unat n \<le> DIRECT_SIZE"
  shows "unat (offset + n) = unat offset + unat n" "\<not> INODE_MAXSIZE < offset + n"
proof -
  show u: "unat (offset + n) = unat offset + unat n" using assms by (intro iffD1 [OF unat_add_lem]) simp
  have "unat (INODE_MAXSIZE) = 67643392" by simp
  then show "\<not> INODE_MAXSIZE < offset + n" using assms u by (simp add: word_less_nat_alt)
qed

lemma wrote_inode:
  assumes "wrote s i p n src t" "i < length (icache s)"
  obtains as where "icache t = (icache s)[i := with_addrs as (inode_at s i)]" "inode_at t i = with_addrs as (inode_at s i)"
proof -
  obtain as where "icache t = (icache s)[i := with_addrs as (inode_at s i)]"
    using assms(1) unfolding wrote_def inode_frame_def by blast
  then show thesis using that [of as] assms(2) by simp
qed

lemma file_writtenI:
  assumes "\<And>q. q < DIRECT_SIZE \<Longrightarrow> if p \<le> q \<and> q < p + n then mapped_byte v i q \<and> fbyte v i q = src (q - p)
        else mapped_byte s i q \<longrightarrow> mapped_byte v i q \<and> fbyte v i q = fbyte s i q"
    and "unat (isize (dpart (inode_at v i))) = max (unat (isize (dpart (inode_at s i)))) (p + n)"
    and "icache v = (icache s)[i := (inode_at s i)\<lparr>dpart := (dpart (inode_at s i))\<lparr>isize := z, addrs := as\<rparr>\<rparr>]"
    and "sb v = sb s" and "inode_state.more v = inode_state.more s"
    and "\<And>b. b \<noteq> data_bitmap_start (sb s) \<Longrightarrow> b \<noteq> inode_block (sb s) (inode_num (inode_at s i)) \<Longrightarrow>
        b \<notin> file_blocks s i \<Longrightarrow> b \<notin> free_blocks s \<Longrightarrow> disk v b = disk s b"
  shows "file_written s i p n src v"
  unfolding file_written_def using assms by blast

context byte_source
begin

lemma inode_write_ok:
  assumes inv: "file_inv H i s" and w: "inode_writable H i s" and rng: "unat offset + unat n \<le> DIRECT_SIZE" and "unat n \<le> len"
  shows "\<exists>v. inode_write_data i offset n get s = Inr (n, v) \<and> file_inv H i v \<and> inode_writable H i v \<and>
    file_written s i (unat offset) (unat n) src v \<and>
    (unat (isize (dpart (inode_at s i))) < unat offset + unat n \<longrightarrow>
       disk_inode v (inode_num (inode_at s i)) = dpart (inode_at v i))"
proof -
  note nw = range_no_wrap [OF rng]
  let ?z = "isize (dpart (inode_at s i))" and ?num = "inode_num (inode_at s i)"
  obtain t where t: "write_loop i get offset 0 (unat n) s = Inr (offset + n, unat n, t)" "file_inv H i t"
    "wrote s i (unat offset) (unat n) src t"
    using write_loop_ok [OF inv rng, of 0] assms(4) by auto
  have fr: "inode_frame s i t" using t(3) by (simp add: wrote_def)
  have len: "i < length (icache s)" using file_invD(9) [OF inv] .
  obtain as where as: "icache t = (icache s)[i := with_addrs as (inode_at s i)]" "inode_at t i = with_addrs as (inode_at s i)"
    using wrote_inode [OF t(3) len] by metis
  have z: "isize (dpart (inode_at t i)) = ?z" "inode_num (inode_at t i) = ?num" using as(2) by (simp_all add: with_addrs_def)
  have sb: "sb t = sb s" "inode_state.more t = inode_state.more s" using fr by (simp_all add: inode_frame_def)
  have wt: "inode_writable H i t" using w z sb by (simp add: inode_writable_def)
  have dt: "disk t b = disk s b" if "b \<noteq> data_bitmap_start (sb s)" "b \<notin> file_blocks s i" "b \<notin> free_blocks s" for b
    using fr that unfolding inode_frame_def by blast
  have bytes: "if unat offset \<le> q \<and> q < unat offset + unat n then mapped_byte t i q \<and> fbyte t i q = src (q - unat offset)
      else mapped_byte s i q \<longrightarrow> mapped_byte t i q \<and> fbyte t i q = fbyte s i q" if "q < DIRECT_SIZE" for q
    using t(3) that unfolding wrote_def by blast
  show ?thesis
  proof (cases "?z < offset + n")
    case False
    then have sz: "unat (isize (dpart (inode_at t i))) = max (unat ?z) (unat offset + unat n)"
      using nw(1) z by (simp add: word_less_nat_alt)
    have ic: "icache t = (icache s)[i := (inode_at s i)\<lparr>dpart := (dpart (inode_at s i))\<lparr>isize := ?z, addrs := as\<rparr>\<rparr>]"
      using as(1) by (simp add: with_addrs_def)
    have "file_written s i (unat offset) (unat n) src t"
      by (rule file_writtenI [OF bytes sz ic sb]) (simp_all add: dt)
    moreover have "inode_write_data i offset n get s = Inr (n, t)" using t(1) nw False z by (simp add: inode_write_data_def)
    ultimately show ?thesis using t(2) wt False nw(1) by (auto simp: word_less_nat_alt)
  next
    case True
    obtain v where v: "inode_rw i True (set_inode i ((inode_at t i)\<lparr>dpart := (dpart (inode_at t i))\<lparr>isize := offset + n\<rparr>\<rparr>) t) = Inr v"
      "file_inv H i v" "icache v = icache (set_inode i ((inode_at t i)\<lparr>dpart := (dpart (inode_at t i))\<lparr>isize := offset + n\<rparr>\<rparr>) t)"
      "sb v = sb t" "inode_state.more v = inode_state.more t"
      "\<forall>b. b \<noteq> inode_block (sb t) (inode_num (inode_at t i)) \<longrightarrow> disk v b = disk t b"
      "\<forall>q < DIRECT_SIZE. mapped_byte v i q = mapped_byte t i q"
      "\<forall>q < DIRECT_SIZE. mapped_byte t i q \<longrightarrow> fbyte v i q = fbyte t i q"
      "disk_inode v (inode_num (inode_at t i)) = dpart (inode_at v i)"
      by (rule write_back [OF t(2) wt])
    have ic: "icache v = (icache s)[i := (inode_at s i)\<lparr>dpart := (dpart (inode_at s i))\<lparr>isize := offset + n, addrs := as\<rparr>\<rparr>]"
      using v(3) as len by (cases "dpart (inode_at s i)") (simp add: with_addrs_def)
    have iv: "inode_at v i = (inode_at s i)\<lparr>dpart := (dpart (inode_at s i))\<lparr>isize := offset + n, addrs := as\<rparr>\<rparr>"
      unfolding ic using len by simp
    have sz: "unat (isize (dpart (inode_at v i))) = max (unat ?z) (unat offset + unat n)"
      unfolding iv using True nw(1) by (simp add: word_less_nat_alt)
    have bv: "if unat offset \<le> q \<and> q < unat offset + unat n then mapped_byte v i q \<and> fbyte v i q = src (q - unat offset)
        else mapped_byte s i q \<longrightarrow> mapped_byte v i q \<and> fbyte v i q = fbyte s i q" if "q < DIRECT_SIZE" for q
      using bytes [OF that] v(7,8) that by (simp split: if_splits)
    have "file_written s i (unat offset) (unat n) src v"
      by (rule file_writtenI [OF bv sz ic]) (simp_all add: sb v(4,5,6) z dt)
    moreover have "inode_write_data i offset n get s = Inr (n, v)" using t(1) nw True z v(1) by (simp add: inode_write_data_def)
    moreover have "inode_writable H i v" using w iv v(4) sb by (simp add: inode_writable_def)
    ultimately show ?thesis using v(2,9) z by auto
  qed
qed

end

context byte_sink
begin

text \<open>A read gives the bytes of the file, cut off at its size.\<close>

lemma inode_read_ok:
  assumes inv: "file_inv H i s" and "sink_ok mm" and off: "unat offset \<le> unat (isize (dpart (inode_at s i)))"
    and rng: "unat offset + unat n \<le> DIRECT_SIZE" and cap: "unat n \<le> cap"
    and m: "m = min (unat n) (unat (isize (dpart (inode_at s i))) - unat offset)"
    and mapped: "\<And>p. unat offset \<le> p \<Longrightarrow> p < unat offset + m \<Longrightarrow> mapped_byte s i p"
  shows "\<exists>v mm'. inode_read_data i offset n put s mm = Inr (of_nat m, v, mm') \<and> file_inv H i v \<and> file_same s v \<and> sink_ok mm' \<and>
    (\<forall>p < cap. view mm' p = (if p < m then fbyte s i (unat offset + p) else view mm p))"
proof -
  let ?z = "isize (dpart (inode_at s i))"
  have nw: "unat (offset + n) = unat offset + unat n" using range_no_wrap [OF rng] by simp
  have ml: "m \<le> unat n" using m by simp
  have len: "unat (if ?z < offset + n then ?z - offset else n) = m"
    using m off nw by (auto simp: word_less_nat_alt unat_sub word_le_nat_alt)
  obtain v mm' where v: "read_loop i put offset 0 m s mm = Inr (m, v, mm')" "file_inv H i v" "file_same s v" "sink_ok mm'"
    "\<forall>p < cap. view mm' p = (if p < m then fbyte s i (unat offset + p) else view mm p)"
    using read_loop_ok [OF inv, of offset m 0 mm] assms(2) rng cap ml mapped by auto
  have "\<not> ?z < offset" using off by (simp add: word_less_nat_alt)
  then have "inode_read_data i offset n put s mm = Inr (of_nat m, v, mm')"
    using v(1) len unfolding inode_read_data_def Let_def by (simp only: if_False bindr_Inr prod.case)
  then show ?thesis using v by blast
qed

end

section \<open>Properties of file contents\<close>

text \<open>A file system whose disk is all zero, with one empty file or directory in slot 0 of the inode cache.\<close>

lemma empty_file:
  assumes "addrs (dpart ip) = replicate N_ADDRS 0" "inode_num ip = 5"
  shows "\<exists>s :: inode_state. file_inv {} 0 s \<and> inode_writable {} 0 s \<and> icache s = [ip] \<and> sb s = mkfs_sb"
proof -
  obtain s :: inode_state where s: "fs_ok s {}" "disk s = (\<lambda>_. replicate BLOCK_SIZE 0)" "sb s = mkfs_sb" "icache s = [ip]"
    using inode_ready [of "\<lambda>_. replicate BLOCK_SIZE 0" "[ip]"] by auto
  have at: "inode_at s 0 = ip" using s(4) by simp
  have d: "direct s 0 k = 0" if "k < N_DIRECT" for k using that assms(1) unfolding at by simp
  have h: "holes s 0 = {..<N_DIRECT}" using d by (auto simp: holes_def)
  have "(\<lambda>k. of_nat k + data_start (sb s)) ` {..<N_DIRECT} \<subseteq> free_blocks s"
    using s(2) by (auto simp: free_blocks_def used_bits_def bitmap_bit_def)
  moreover have "inj_on (\<lambda>k. of_nat k + data_start (sb s)) {..<N_DIRECT}"
    by (rule inj_on_subset [OF data_block_inj]) (use s(1) in \<open>auto simp: fs_ok_def\<close>)
  ultimately have "card {..<N_DIRECT} \<le> card (free_blocks s)"
    using card_mono [OF finite_free_blocks] by (metis card_image)
  moreover have "file_ok s 0" using d s(4) at assms(1) by (simp add: file_ok_def)
  moreover have "inode_writable {} 0 s" using blank_num_ok s(3) at assms(2) by (simp add: inode_writable_def)
  ultimately show ?thesis using s h by (intro exI [of _ s]) (simp add: file_inv_def unheld_def)
qed

lemma blank_file:
  "\<exists>s :: inode_state. file_inv {} 0 s \<and> inode_writable {} 0 s \<and> icache s = [blank_inode] \<and> sb s = mkfs_sb"
  by (rule empty_file) (simp_all add: blank_inode_def)



end
