(* ===== verification/Dir_Map.thy ===== *)
theory Dir_Map
  imports File_Data
begin

text \<open>
  A directory is a finite map from names to inode numbers.  The operations on the entries of a directory
  (\<^verbatim>\<open>dir_search_entry\<close>, \<^verbatim>\<open>dir_add_entry\<close>, \<^verbatim>\<open>dir_delete_entry\<close>) are lookup, insertion and removal in that
  map, for directories that fit in one block, the most \<^verbatim>\<open>dir_add_entry\<close> ever fills.
\<close>

section \<open>The entries of a directory\<close>

definition dentry :: "'a inode_state_scheme \<Rightarrow> nat \<Rightarrow> nat \<Rightarrow> dirent" where
  "dentry s i k = dirent_of_bytes (map (\<lambda>x. fbyte s i (32 * k + x)) [0..<32])"

definition n_entries :: "'a inode_state_scheme \<Rightarrow> nat \<Rightarrow> nat" where
  "n_entries s i = unat (isize (dpart (inode_at s i))) div 32"

definition entries :: "'a inode_state_scheme \<Rightarrow> nat \<Rightarrow> dirent list" where
  "entries s i = map (dentry s i) [0..<n_entries s i]"

definition dir_ok :: "u32 set \<Rightarrow> nat \<Rightarrow> 'a inode_state_scheme \<Rightarrow> bool" where
  "dir_ok H i s \<longleftrightarrow> file_inv H i s \<and> inode_writable H i s \<and> spinlock_holding 0 (islk (inode_at s i)) \<and>
     itype (dpart (inode_at s i)) = FT_DIR \<and> unat (isize (dpart (inode_at s i))) = 32 * n_entries s i \<and> n_entries s i \<le> 32 \<and>
     (0 < n_entries s i \<longrightarrow> direct s i 0 \<noteq> 0)"

definition in_use :: "dirent \<Rightarrow> bool" where
  "in_use de \<longleftrightarrow> bview (dname de) 0 \<noteq> 0"

definition name_of :: "byte list \<Rightarrow> byte list" where
  "name_of nm = cstr (bview nm) DIR_NAME_LEN"

text \<open>The map a list of entries stands for.\<close>

definition dmap :: "dirent list \<Rightarrow> byte list \<Rightarrow> u16 option" where
  "dmap es c = map_option dnum (find (\<lambda>de. in_use de \<and> name_of (dname de) = c) es)"

lemma name_match_eq: "name_match nm de \<longleftrightarrow> in_use de \<and> name_of (dname de) = name_of nm"
  by (auto simp: name_match_def in_use_def name_of_def strncmp_def strncmp_loop_eq_0)

lemma dirent_layout: "length (dname de) = DIR_NAME_LEN \<Longrightarrow> dirent_of_bytes (dirent_bytes de) = de"
  "length (dname de) = DIR_NAME_LEN \<Longrightarrow> length (dirent_bytes de) = 32"
  by (simp_all add: dirent_of_bytes_def dirent_bytes_def)

interpretation dirent_rec: record_layout 32 dirent_bytes dirent_of_bytes "\<lambda>de. length (dname de) = DIR_NAME_LEN"
  by unfold_locales (simp_all add: dirent_layout)

lemma length_entries [simp]: "length (entries s i) = n_entries s i"
  by (simp add: entries_def)

lemma nth_entries: "k < n_entries s i \<Longrightarrow> entries s i ! k = dentry s i k"
  by (simp add: entries_def)

lemma file_same_dir:
  assumes "file_same s t"
  shows "entries t i = entries s i" "n_entries t i = n_entries s i" "dentry t i k = dentry s i k"
  using assms file_same_bytes [OF assms] by (simp_all add: entries_def n_entries_def dentry_def file_same_def)

lemma dir_okD:
  assumes "dir_ok H i s"
  shows "file_inv H i s" "inode_writable H i s" "unat (isize (dpart (inode_at s i))) = 32 * n_entries s i" "n_entries s i \<le> 32"
    "0 < n_entries s i \<Longrightarrow> direct s i 0 \<noteq> 0"
  using assms by (simp_all add: dir_ok_def)

lemma dir_ok_same: "dir_ok H i s \<Longrightarrow> file_inv H i t \<Longrightarrow> file_same s t \<Longrightarrow> dir_ok H i t"
  using file_same_dir [of s t i] by (simp add: dir_ok_def inode_writable_def file_same_def)

lemma check_dir_ok: "dir_ok H i s \<Longrightarrow> check_dir fn i s = Inr ()"
  by (simp add: check_dir_def dir_ok_def)

lemma unat_slot: "k \<le> 32 \<Longrightarrow> unat (of_nat (32 * k) :: u32) = 32 * k"
  by (intro unat_less_u32) simp

lemma slot_less:
  assumes "dir_ok H i s" "k \<le> 32"
  shows "of_nat (32 * k) < isize (dpart (inode_at s i)) \<longleftrightarrow> k < n_entries s i" "(of_nat (32 * k) :: u32) < DIR_FULL \<longleftrightarrow> k < 32"
  using unat_slot [OF assms(2)] dir_okD(3) [OF assms(1)] unfolding word_less_nat_alt by simp_all

lemma slot_step:
  assumes "k < 32"
  shows "(of_nat (32 * k) :: u32) + DIRENT_SIZE = of_nat (32 * Suc k)" "(of_nat (32 * k) :: u32) < of_nat (32 * k) + DIRENT_SIZE"
proof -
  show e: "(of_nat (32 * k) :: u32) + DIRENT_SIZE = of_nat (32 * Suc k)" by simp
  show "(of_nat (32 * k) :: u32) < of_nat (32 * k) + DIRENT_SIZE"
    unfolding e word_less_nat_alt using unat_slot [OF less_imp_le [OF assms]] unat_slot [OF Suc_leI [OF assms]] by (simp only:) simp
qed

lemma read_dirent_ok:
  assumes d: "dir_ok H i s" and k: "k < n_entries s i"
  obtains t where "read_dirent i (of_nat (32 * k)) s = Inr (DIRENT_SIZE, dentry s i k, t)" "dir_ok H i t" "file_same s t"
proof -
  note o = dir_okD [OF d]
  have u: "unat (of_nat (32 * k) :: u32) = 32 * k" using k o(4) by (intro unat_slot) simp
  have mp: "mapped_byte s i p" if "p < 32 * k + 32" for p
    using that k o(4,5) by (simp add: mapped_byte_def)
  have m: "32 = min (unat DIRENT_SIZE) (unat (isize (dpart (inode_at s i))) - unat (of_nat (32 * k) :: u32))"
    unfolding u o(3) using k by simp
  have le: "unat (of_nat (32 * k) :: u32) \<le> unat (isize (dpart (inode_at s i)))" unfolding u o(3) using k by simp
  have rng: "unat (of_nat (32 * k) :: u32) + unat DIRENT_SIZE \<le> DIRECT_SIZE" unfolding u using k o(4) by simp
  obtain t mm where t: "inode_read_data i (of_nat (32 * k)) DIRENT_SIZE buf_put s (replicate 32 0) = Inr (DIRENT_SIZE, t, mm)"
    "file_inv H i t" "file_same s t" "length mm = 32" "\<forall>p < 32. mm ! p = fbyte s i (32 * k + p)"
    using buf_sink.inode_read_ok [OF o(1) _ le rng _ m, where mm = "replicate 32 0" and cap = 32] mp unfolding u by auto
  have "mm = map (\<lambda>x. fbyte s i (32 * k + x)) [0..<32]" using t(4,5) by (intro nth_equalityI) (auto simp del: upt_Suc)
  then have "read_dirent i (of_nat (32 * k)) s = Inr (DIRENT_SIZE, dentry s i k, t)"
    using t(1) by (simp add: read_dirent_def dentry_def del: upt_Suc)
  from that [OF this dir_ok_same [OF d t(2,3)] t(3)] show thesis .
qed

section \<open>The loops\<close>

text \<open>The first entry from \<open>k\<close> on that satisfies a predicate.\<close>

definition first_from :: "(dirent \<Rightarrow> bool) \<Rightarrow> dirent list \<Rightarrow> nat \<Rightarrow> nat option" where
  "first_from P es k = find (\<lambda>j. P (es ! j)) [k..<length es]"

lemma first_from_rec:
  "first_from P es k = (if k < length es then if P (es ! k) then Some k else first_from P es (Suc k) else None)"
  by (simp add: first_from_def upt_conv_Cons)

lemma first_from_end [simp]: "length es \<le> k \<Longrightarrow> first_from P es k = None"
  by (simp add: first_from_def)

lemma first_from_SomeD: "first_from P es k = Some j \<Longrightarrow> k \<le> j \<and> j < length es \<and> P (es ! j)"
  by (auto simp: first_from_def find_Some_iff)

lemma find_first_from: "find P es = map_option (nth es) (first_from P es 0)"
proof -
  have "find P es = find P (map (nth es) [0..<length es])" by (simp only: map_nth)
  then show ?thesis by (simp only: find_map first_from_def comp_def)
qed

lemma entry_loop_ok:
  assumes "dir_ok H i s" and "k \<le> n_entries s i"
  shows "\<exists>t. entry_loop msg i nm (of_nat (32 * k)) s =
      Inr (map_option (\<lambda>j. (of_nat (32 * j), dnum (entries s i ! j))) (first_from (name_match nm) (entries s i) k), t) \<and>
    dir_ok H i t \<and> file_same s t"
  using assms
proof (induction "n_entries s i - k" arbitrary: k s)
  case 0
  note d = dir_okD [OF 0(2)]
  have "\<not> k < n_entries s i" "k \<le> 32" using 0 d(4) by simp_all
  then show ?case using 0 slot_less(1) [OF 0(2), of k]
    by (simp add: entry_loop.simps [of msg i nm _ s] file_same_def)
next
  case (Suc x)
  note d = dir_okD [OF Suc.prems(1)]
  have k: "k < n_entries s i" "k < 32" using Suc.hyps(2) d(4) by simp_all
  note lt = slot_less(1) [OF Suc.prems(1) less_imp_le [OF k(2)]] and st = slot_step [OF k(2)]
  obtain t where t: "read_dirent i (of_nat (32 * k)) s = Inr (DIRENT_SIZE, dentry s i k, t)" "dir_ok H i t" "file_same s t"
    by (rule read_dirent_ok [OF Suc.prems(1) k(1)])
  note e = file_same_dir [OF t(3)]
  have "x = n_entries t i - Suc k" "Suc k \<le> n_entries t i" using Suc.hyps(2) k(1) e(2) by simp_all
  from Suc.hyps(1) [OF this(1) t(2) this(2)]
  obtain u where u: "entry_loop msg i nm (of_nat (32 * Suc k)) t =
      Inr (map_option (\<lambda>j. (of_nat (32 * j), dnum (entries s i ! j))) (first_from (name_match nm) (entries s i) (Suc k)), u)"
    "dir_ok H i u" "file_same t u" unfolding e(1) by blast
  have "entry_loop msg i nm (of_nat (32 * k)) s = (if name_match nm (dentry s i k) then Inr (Some (of_nat (32 * k), dnum (dentry s i k)), t)
      else entry_loop msg i nm (of_nat (32 * Suc k)) t)"
    unfolding entry_loop.simps [of msg i nm "of_nat (32 * k)" s] lt t(1)
    using k(1) st by (simp del: of_nat_mult of_nat_Suc mult_Suc_right)
  then show ?case
    using u t file_same_trans [OF t(3) u(3)] k(1) nth_entries [OF k(1)]
    by (simp add: first_from_rec [of _ _ k] del: of_nat_mult of_nat_Suc mult_Suc_right)
qed

lemma slot_loop_ok:
  assumes "dir_ok H i s" and "k \<le> n_entries s i"
  shows "\<exists>t. slot_loop i (of_nat (32 * k)) s =
      Inr (of_nat (32 * (case first_from (\<lambda>de. \<not> in_use de) (entries s i) k of Some j \<Rightarrow> j | None \<Rightarrow> n_entries s i)), t) \<and>
    dir_ok H i t \<and> file_same s t"
  using assms
proof (induction "n_entries s i - k" arbitrary: k s)
  case 0
  note d = dir_okD [OF 0(2)]
  have k: "k = n_entries s i" "k \<le> 32" using 0 d(4) by simp_all
  then show ?case using 0 slot_less(1) [OF 0(2), of k]
    by (simp add: slot_loop.simps [of i _ s] file_same_def)
next
  case (Suc x)
  note d = dir_okD [OF Suc.prems(1)]
  have k: "k < n_entries s i" "k < 32" using Suc.hyps(2) d(4) by simp_all
  note lt = slot_less [OF Suc.prems(1) less_imp_le [OF k(2)]] and st = slot_step [OF k(2)]
  obtain t where t: "read_dirent i (of_nat (32 * k)) s = Inr (DIRENT_SIZE, dentry s i k, t)" "dir_ok H i t" "file_same s t"
    by (rule read_dirent_ok [OF Suc.prems(1) k(1)])
  note e = file_same_dir [OF t(3)]
  have "x = n_entries t i - Suc k" "Suc k \<le> n_entries t i" using Suc.hyps(2) k(1) e(2) by simp_all
  from Suc.hyps(1) [OF this(1) t(2) this(2)]
  obtain u where u: "slot_loop i (of_nat (32 * Suc k)) t =
      Inr (of_nat (32 * (case first_from (\<lambda>de. \<not> in_use de) (entries s i) (Suc k) of Some j \<Rightarrow> j | None \<Rightarrow> n_entries s i)), u)"
    "dir_ok H i u" "file_same t u" unfolding e(1,2) by blast
  have "slot_loop i (of_nat (32 * k)) s = (if \<not> in_use (dentry s i k) then Inr (of_nat (32 * k), t)
      else slot_loop i (of_nat (32 * Suc k)) t)"
    unfolding slot_loop.simps [of i "of_nat (32 * k)" s] lt t(1)
    using k st by (simp add: in_use_def del: of_nat_mult of_nat_Suc mult_Suc_right)
  then show ?case
    using u t file_same_trans [OF t(3) u(3)] k(1) nth_entries [OF k(1)]
    by (simp add: first_from_rec [of _ _ k] del: of_nat_mult of_nat_Suc mult_Suc_right)
qed

section \<open>Writing an entry\<close>

definition put_entry :: "nat \<Rightarrow> dirent \<Rightarrow> dirent list \<Rightarrow> dirent list" where
  "put_entry j de es = (if j < length es then es[j := de] else es @ [de])"

lemma file_written_inode:
  assumes "file_written s i p n src v" "i < length (icache s)"
  shows "islk (inode_at v i) = islk (inode_at s i)" "itype (dpart (inode_at v i)) = itype (dpart (inode_at s i))"
    "inode_num (inode_at v i) = inode_num (inode_at s i)"
proof -
  obtain as z where "icache v = (icache s)[i := (inode_at s i)\<lparr>dpart := (dpart (inode_at s i))\<lparr>isize := z, addrs := as\<rparr>\<rparr>]"
    using assms(1) unfolding file_written_def by blast
  then show "islk (inode_at v i) = islk (inode_at s i)" "itype (dpart (inode_at v i)) = itype (dpart (inode_at s i))"
    "inode_num (inode_at v i) = inode_num (inode_at s i)"
    using assms(2) by simp_all
qed

lemma file_written_byte:
  assumes "file_written s i p n src v" "q < DIRECT_SIZE"
  shows "p \<le> q \<Longrightarrow> q < p + n \<Longrightarrow> mapped_byte v i q \<and> fbyte v i q = src (q - p)"
    "\<not> (p \<le> q \<and> q < p + n) \<Longrightarrow> mapped_byte s i q \<Longrightarrow> mapped_byte v i q \<and> fbyte v i q = fbyte s i q"
  using assms unfolding file_written_def by (smt (verit))+

lemma write_dirent_ok:
  assumes d: "dir_ok H i s" and j: "j \<le> n_entries s i" "j < 32" and de: "length (dname de) = DIR_NAME_LEN"
  obtains t where "write_dirent i (of_nat (32 * j)) de msg s = Inr t" "dir_ok H i t" "entries t i = put_entry j de (entries s i)"
    "file_written s i (32 * j) 32 (nth (dirent_bytes de)) t"
proof -
  note o = dir_okD [OF d] and l = dirent_layout [OF de]
  note u = unat_slot [OF less_imp_le [OF j(2)]]
  have rng: "unat (of_nat (32 * j) :: u32) + unat DIRENT_SIZE \<le> DIRECT_SIZE" unfolding u using j(2) by simp
  obtain v where v: "inode_write_data i (of_nat (32 * j)) DIRENT_SIZE (buf_get (dirent_bytes de)) s = Inr (DIRENT_SIZE, v)"
    "file_inv H i v" "inode_writable H i v" "file_written s i (32 * j) 32 (nth (dirent_bytes de)) v"
    using buf_source.inode_write_ok [OF o(1,2) rng, of "dirent_bytes de"] l(2) unfolding u by auto
  note b = file_written_byte [OF v(4)]
  have "unat (isize (dpart (inode_at v i))) = max (32 * n_entries s i) (32 * j + 32)"
    using v(4) o(3) unfolding file_written_def by simp
  also have "\<dots> = 32 * max (n_entries s i) (Suc j)" by (simp add: max_def)
  finally have sz: "unat (isize (dpart (inode_at v i))) = 32 * max (n_entries s i) (Suc j)" .
  then have n: "n_entries v i = max (n_entries s i) (Suc j)" by (simp add: n_entries_def)
  have "direct v i 0 \<noteq> 0" using b(1) [of "32 * j"] j(2) by (simp add: mapped_byte_def)
  then have dv: "dir_ok H i v"
    using d v(2,3) sz n o(4) j(2) file_written_inode [OF v(4) file_invD(9) [OF o(1)]] by (simp add: dir_ok_def)
  have self: "dentry v i j = de"
  proof -
    have "map (\<lambda>x. fbyte v i (32 * j + x)) [0..<32] = dirent_bytes de"
      using b(1) j(2) l(2) by (intro nth_equalityI) (auto simp del: upt_Suc)
    then show ?thesis using l(1) by (simp add: dentry_def del: upt_Suc)
  qed
  have other: "dentry v i k = dentry s i k" if k: "k < n_entries s i" "k \<noteq> j" for k
  proof -
    have "fbyte v i (32 * k + x) = fbyte s i (32 * k + x)" if "x < 32" for x
    proof -
      have q: "32 * k + x < DIRECT_SIZE" "mapped_byte s i (32 * k + x)" using that k(1) o(4,5) by (simp_all add: mapped_byte_def)
      have "\<not> (32 * j \<le> 32 * k + x \<and> 32 * k + x < 32 * j + 32)" using that k(2) by presburger
      then show ?thesis using b(2) [OF q(1) _ q(2)] by blast
    qed
    then show ?thesis unfolding dentry_def by (intro arg_cong [where f = dirent_of_bytes] map_cong) auto
  qed
  have "entries v i = put_entry j de (entries s i)"
  proof (rule nth_equalityI)
    show "length (entries v i) = length (put_entry j de (entries s i))" using n j(1) by (simp add: put_entry_def)
    fix k assume "k < length (entries v i)"
    then show "entries v i ! k = put_entry j de (entries s i) ! k"
      using n j(1) self other by (auto simp: put_entry_def nth_entries nth_append nth_list_update)
  qed
  moreover have "write_dirent i (of_nat (32 * j)) de msg s = Inr v" using v(1) by (simp add: write_dirent_def del: of_nat_mult)
  ultimately show thesis using that dv v(4) by blast
qed

section \<open>Entries as a map\<close>

text \<open>No name occurs twice, and the number that means \<^emph>\<open>not found\<close> does not occur.\<close>

definition names_ok :: "dirent list \<Rightarrow> bool" where
  "names_ok es \<longleftrightarrow> (\<forall>j < length es. \<forall>k < length es. in_use (es ! j) \<longrightarrow> in_use (es ! k) \<longrightarrow>
     name_of (dname (es ! j)) = name_of (dname (es ! k)) \<longrightarrow> j = k) \<and>
     (\<forall>j < length es. in_use (es ! j) \<longrightarrow> dnum (es ! j) \<noteq> INODE_NUM_UNUSED)"

lemma dmap_eq_Some:
  assumes "names_ok es"
  shows "dmap es c = Some n \<longleftrightarrow> (\<exists>j < length es. in_use (es ! j) \<and> name_of (dname (es ! j)) = c \<and> dnum (es ! j) = n)"
proof
  assume "dmap es c = Some n"
  then obtain de where "find (\<lambda>de. in_use de \<and> name_of (dname de) = c) es = Some de" "dnum de = n" by (auto simp: dmap_def)
  then show "\<exists>j < length es. in_use (es ! j) \<and> name_of (dname (es ! j)) = c \<and> dnum (es ! j) = n"
    unfolding find_Some_iff by auto
next
  assume "\<exists>j < length es. in_use (es ! j) \<and> name_of (dname (es ! j)) = c \<and> dnum (es ! j) = n"
  then obtain j where j: "j < length es" "in_use (es ! j)" "name_of (dname (es ! j)) = c" "dnum (es ! j) = n" by blast
  have "\<not> (in_use (es ! k) \<and> name_of (dname (es ! k)) = c)" if "k < j" for k
    using assms j that unfolding names_ok_def by (metis less_trans nat_neq_iff)
  then have "find (\<lambda>de. in_use de \<and> name_of (dname de) = c) es = Some (es ! j)"
    using j unfolding find_Some_iff by blast
  then show "dmap es c = Some n" using j(4) by (simp add: dmap_def)
qed

lemma dmap_None: "dmap es c = None \<longleftrightarrow> (\<forall>j < length es. in_use (es ! j) \<longrightarrow> name_of (dname (es ! j)) \<noteq> c)"
  by (auto simp: dmap_def find_None_iff in_set_conv_nth)

lemma dmap_first: "dmap es (name_of nm) = map_option (\<lambda>j. dnum (es ! j)) (first_from (name_match nm) es 0)"
  by (simp add: dmap_def find_first_from name_match_eq [abs_def] option.map_comp comp_def)

lemma option_eqI: "(\<And>n. x = Some n \<longleftrightarrow> y = Some n) \<Longrightarrow> x = y"
  by (cases x; cases y) auto

lemma put_entry_simps:
  "j \<le> length es \<Longrightarrow> length (put_entry j de es) = max (length es) (Suc j)"
  "j \<le> length es \<Longrightarrow> k < length (put_entry j de es) \<Longrightarrow> put_entry j de es ! k = (if k = j then de else es ! k)"
  by (auto simp: put_entry_def nth_append)

text \<open>A used entry with a new name in a free slot, and a used entry that is cleared.\<close>

lemma dmap_insert:
  assumes "names_ok es" "j \<le> length es" "j < length es \<longrightarrow> \<not> in_use (es ! j)" "in_use de" "dnum de \<noteq> INODE_NUM_UNUSED"
    and none: "dmap es (name_of (dname de)) = None"
  shows "names_ok (put_entry j de es)" "dmap (put_entry j de es) = (dmap es)(name_of (dname de) \<mapsto> dnum de)"
proof -
  let ?f = "put_entry j de es"
  have len: "length ?f = max (length es) (Suc j)" and at: "\<And>k. k < length ?f \<Longrightarrow> ?f ! k = (if k = j then de else es ! k)"
    using put_entry_simps assms(2) by blast+
  have lt: "k < length ?f \<Longrightarrow> k \<noteq> j \<Longrightarrow> k < length es" for k using len assms(2) by (auto simp: less_max_iff_disj)
  have new: "in_use (es ! k) \<Longrightarrow> k < length es \<Longrightarrow> name_of (dname (es ! k)) \<noteq> name_of (dname de)" for k
    using none unfolding dmap_None by blast
  show ok: "names_ok ?f"
    unfolding names_ok_def
  proof (intro conjI allI impI)
    fix a b assume "a < length ?f" "b < length ?f" "in_use (?f ! a)" "in_use (?f ! b)" "name_of (dname (?f ! a)) = name_of (dname (?f ! b))"
    then show "a = b" using at lt new assms(1) unfolding names_ok_def by (metis (no_types))
  next
    fix a assume "a < length ?f" "in_use (?f ! a)"
    then show "dnum (?f ! a) \<noteq> INODE_NUM_UNUSED" using at lt assms(1,5) unfolding names_ok_def by (metis (no_types))
  qed
  show "dmap ?f = (dmap es)(name_of (dname de) \<mapsto> dnum de)"
  proof (intro ext option_eqI)
    fix c n
    have "dmap ?f c = Some n \<longleftrightarrow> c = name_of (dname de) \<and> n = dnum de \<or>
        (\<exists>k < length es. in_use (es ! k) \<and> name_of (dname (es ! k)) = c \<and> dnum (es ! k) = n)"
      unfolding dmap_eq_Some [OF ok]
    proof (intro iffI; elim exE conjE disjE)
      fix k assume k: "k < length ?f" "in_use (?f ! k)" "name_of (dname (?f ! k)) = c" "dnum (?f ! k) = n"
      then show "c = name_of (dname de) \<and> n = dnum de \<or>
        (\<exists>k < length es. in_use (es ! k) \<and> name_of (dname (es ! k)) = c \<and> dnum (es ! k) = n)"
        using at [OF k(1)] lt [OF k(1)] by (cases "k = j") auto
    next
      assume "c = name_of (dname de)" "n = dnum de"
      then show "\<exists>k < length ?f. in_use (?f ! k) \<and> name_of (dname (?f ! k)) = c \<and> dnum (?f ! k) = n"
        using at [of j] len assms(4) by (intro exI [of _ j]) simp
    next
      fix k assume k: "k < length es" "in_use (es ! k)" "name_of (dname (es ! k)) = c" "dnum (es ! k) = n"
      then have "k \<noteq> j" using assms(3) by auto
      then show "\<exists>k < length ?f. in_use (?f ! k) \<and> name_of (dname (?f ! k)) = c \<and> dnum (?f ! k) = n"
        using at [of k] len k by (intro exI [of _ k]) auto
    qed
    also have "\<dots> \<longleftrightarrow> ((dmap es)(name_of (dname de) \<mapsto> dnum de)) c = Some n"
      using dmap_eq_Some [OF assms(1), of c n] new by (cases "c = name_of (dname de)") auto
    finally show "dmap ?f c = Some n \<longleftrightarrow> ((dmap es)(name_of (dname de) \<mapsto> dnum de)) c = Some n" .
  qed
qed

lemma dmap_remove:
  assumes "names_ok es" "j < length es" "in_use (es ! j)" "\<not> in_use de"
  shows "names_ok (es[j := de])" "dmap (es[j := de]) = (dmap es)(name_of (dname (es ! j)) := None)"
proof -
  let ?f = "es[j := de]"
  have at: "in_use (?f ! k) \<longleftrightarrow> k \<noteq> j \<and> in_use (es ! k)" "k \<noteq> j \<Longrightarrow> ?f ! k = es ! k" if "k < length es" for k
    using that assms(4) by (cases "k = j"; simp)+
  show ok: "names_ok ?f" using assms(1) at unfolding names_ok_def length_list_update by (metis (no_types))
  have other: "k \<noteq> j \<Longrightarrow> k < length es \<Longrightarrow> in_use (es ! k) \<Longrightarrow> name_of (dname (es ! k)) \<noteq> name_of (dname (es ! j))" for k
    using assms(1-3) unfolding names_ok_def by blast
  show "dmap ?f = (dmap es)(name_of (dname (es ! j)) := None)"
  proof (intro ext option_eqI)
    fix c n
    have "dmap ?f c = Some n \<longleftrightarrow> (\<exists>k < length es. k \<noteq> j \<and> in_use (es ! k) \<and> name_of (dname (es ! k)) = c \<and> dnum (es ! k) = n)"
      unfolding dmap_eq_Some [OF ok] length_list_update using at by metis
    also have "\<dots> \<longleftrightarrow> ((dmap es)(name_of (dname (es ! j)) := None)) c = Some n"
      using dmap_eq_Some [OF assms(1), of c n] other by (cases "c = name_of (dname (es ! j))") auto
    finally show "dmap ?f c = Some n \<longleftrightarrow> ((dmap es)(name_of (dname (es ! j)) := None)) c = Some n" .
  qed
qed

section \<open>Names\<close>

lemma map_bview: "length l = n \<Longrightarrow> map (bview l) [0..<n] = l"
  by (intro nth_equalityI) (auto simp: bview_def nth_default_def)

definition str_length :: "byte list \<Rightarrow> nat" where
  "str_length nm = length (takeWhile (\<lambda>b. b \<noteq> 0) nm)"

lemma strlen_buf_eq:
  assumes "0 \<in> set nm" "length nm \<le> 2 ^ 31"
  shows "strlen_buf nm = Inr (str_length nm)" "bview nm (str_length nm) = 0"
proof -
  let ?k = "str_length nm"
  have k: "?k < length nm"
    using assms(1) unfolding str_length_def
    by (metis (mono_tags, lifting) le_neq_implies_less length_takeWhile_le takeWhile_eq_all_conv takeWhile_eq_take take_all order_refl)
  show z: "bview nm ?k = 0"
    using nth_length_takeWhile [of "\<lambda>b. b \<noteq> 0" nm] k by (simp add: bview_def nth_default_def str_length_def)
  have "\<forall>j. 0 \<le> j \<and> j < ?k \<longrightarrow> bview nm j \<noteq> 0"
  proof (intro allI impI)
    fix j assume "0 \<le> j \<and> j < ?k"
    then have "j < length (takeWhile (\<lambda>b. b \<noteq> 0) nm)" by (simp add: str_length_def)
    then have "nm ! j \<in> set (takeWhile (\<lambda>b. b \<noteq> 0) nm)" using nth_mem takeWhile_nth by metis
    then show "bview nm j \<noteq> 0" using \<open>0 \<le> j \<and> j < ?k\<close> k by (auto simp: bview_def nth_default_def dest: set_takeWhileD)
  qed
  then show "strlen_buf nm = Inr ?k"
    using strlen_from_eq [of "bview nm" ?k 0, OF z] assms k by (simp add: strlen_buf_def strlen_def)
qed

lemma cstr_take: "f k = 0 \<Longrightarrow> k \<le> n \<Longrightarrow> cstr f (Suc n) = cstr f n"
proof -
  assume k: "f k = 0" "k \<le> n"
  show "cstr f (Suc n) = cstr f n"
  proof (cases "k = n")
    case True
    then show ?thesis using k by (simp add: cstr_def takeWhile_tail)
  next
    case False
    then have "f k \<in> set (map f [0..<n])" using k(2) by auto
    then have "takeWhile (\<lambda>b. b \<noteq> 0) (map f [0..<n] @ [f n]) = takeWhile (\<lambda>b. b \<noteq> 0) (map f [0..<n])"
      using takeWhile_append1 [of "f k" "map f [0..<n]" "\<lambda>b. b \<noteq> 0"] k(1) by simp
    then show ?thesis by (simp add: cstr_def)
  qed
qed

lemma stored_name:
  assumes "0 \<in> set nm" "length nm \<le> 2 ^ 31" "str_length nm < DIR_NAME_LEN"
  defines "st \<equiv> strncpy_bytes (bview nm) (DIR_NAME_LEN - 1) @ [0]"
  shows "length st = DIR_NAME_LEN" "name_of st = name_of nm" "bview st 0 \<noteq> 0 \<longleftrightarrow> name_of nm \<noteq> []"
proof -
  show len: "length st = DIR_NAME_LEN" by (simp add: st_def)
  let ?c = "cstr (bview nm) 29"
  have c: "cstr (bview nm) 30 = ?c"
    using cstr_take [of "bview nm" "str_length nm" 29] strlen_buf_eq(2) [OF assms(1,2)] assms(3) by simp
  have nz: "b \<noteq> 0" if "b \<in> set ?c" for b using that by (auto simp: cstr_def dest: set_takeWhileD)
  have "cstr (bview st) 30 = takeWhile (\<lambda>b. b \<noteq> 0) st" unfolding cstr_def using map_bview [OF len] by simp
  also have "\<dots> = ?c" using nz takeWhile_append2 [of ?c "\<lambda>b. b \<noteq> 0"] by (cases "29 - length ?c") (simp_all add: st_def strncpy_bytes_def)
  finally have e: "cstr (bview st) 30 = ?c" .
  then show "name_of st = name_of nm" using c by (simp add: name_of_def)
  have "bview st 0 \<noteq> 0 \<longleftrightarrow> cstr (bview st) 30 \<noteq> []" using cstr_Suc [of "bview st" 29] by simp
  then show "bview st 0 \<noteq> 0 \<longleftrightarrow> name_of nm \<noteq> []" using e c by (simp add: name_of_def)
qed

section \<open>The operations on a directory\<close>

text \<open>The abstract directory: its map, and whether an entry is free.\<close>

definition has_room :: "dirent list \<Rightarrow> bool" where
  "has_room es \<longleftrightarrow> length es < 32 \<or> (\<exists>j < length es. \<not> in_use (es ! j))"

lemma search_ok:
  assumes "dir_ok H i s"
  obtains t where "dir_search_entry i nm s = Inr (case dmap (entries s i) (name_of nm) of Some n \<Rightarrow> n | None \<Rightarrow> INODE_NUM_UNUSED, t)"
    "dir_ok H i t" "file_same s t"
proof -
  obtain t where t: "entry_loop ''dir_search_entry: read failed'' i nm 0 s =
      Inr (map_option (\<lambda>j. (of_nat (32 * j), dnum (entries s i ! j))) (first_from (name_match nm) (entries s i) 0), t)"
    "dir_ok H i t" "file_same s t"
    using entry_loop_ok [OF assms, of 0] by auto
  then have "dir_search_entry i nm s = Inr (case dmap (entries s i) (name_of nm) of Some n \<Rightarrow> n | None \<Rightarrow> INODE_NUM_UNUSED, t)"
    using assms by (simp add: dir_search_entry_def check_dir_ok dmap_first split: option.splits)
  from that [OF this t(2,3)] show thesis .
qed

lemma dmap_not_unused: "names_ok es \<Longrightarrow> dmap es c \<noteq> Some INODE_NUM_UNUSED"
  using dmap_eq_Some [of es c INODE_NUM_UNUSED] unfolding names_ok_def by blast

lemma slot_ok:
  assumes "dir_ok H i s"
  obtains t j where "slot_loop i 0 s = Inr (of_nat (32 * j), t)" "dir_ok H i t" "file_same s t" "j \<le> n_entries s i"
    "j < n_entries s i \<longrightarrow> \<not> in_use (entries s i ! j)" "j < 32 \<longleftrightarrow> has_room (entries s i)"
proof -
  let ?es = "entries s i" and ?f = "first_from (\<lambda>de. \<not> in_use de) (entries s i) 0"
  let ?j = "case ?f of Some j \<Rightarrow> j | None \<Rightarrow> n_entries s i"
  obtain t where t: "slot_loop i 0 s = Inr (of_nat (32 * ?j), t)" "dir_ok H i t" "file_same s t"
    using slot_loop_ok [OF assms, of 0] by auto
  note n = dir_okD(4) [OF assms]
  have "?j \<le> n_entries s i \<and> (?j < n_entries s i \<longrightarrow> \<not> in_use (?es ! ?j)) \<and> (?j < 32 \<longleftrightarrow> has_room ?es)"
  proof (cases ?f)
    case None
    then have "\<forall>j < n_entries s i. in_use (?es ! j)" by (auto simp: first_from_def find_None_iff)
    with None n show ?thesis by (auto simp: has_room_def)
  next
    case (Some j)
    with first_from_SomeD [OF Some] n show ?thesis by (auto simp: has_room_def)
  qed
  with that [OF t] show thesis by blast
qed

text \<open>An empty directory, and one with the entry \<^verbatim>\<open>a\<close> for inode 7.\<close>

definition locked_dir :: inode where
  "locked_dir = blank_inode\<lparr>dpart := (dpart blank_inode)\<lparr>itype := FT_DIR\<rparr>, islk := \<lparr>locked = True, name = ''inode'', cpuid = 0\<rparr>\<rparr>"

lemma empty_dir: "\<exists>s :: inode_state. dir_ok {} 0 s \<and> entries s 0 = []"
proof -
  obtain s :: inode_state where s: "file_inv {} 0 s" "inode_writable {} 0 s" "icache s = [locked_dir]"
    using empty_file [of locked_dir] by (auto simp: locked_dir_def blank_inode_def)
  have "inode_at s 0 = locked_dir" using s(3) by simp
  then show ?thesis
    using s(1,2) by (intro exI [of _ s])
      (simp add: dir_ok_def entries_def n_entries_def locked_dir_def blank_inode_def spinlock_holding_def)
qed

lemma name_a: "name_of (lit ''a'') = [97]"
  by (simp add: name_of_def lit_def cstr_def bview_def nth_default_def upt_rec)

lemma one_entry_dir:
  "\<exists>s :: inode_state. dir_ok {} 0 s \<and> names_ok (entries s 0) \<and> dmap (entries s 0) = [[97] \<mapsto> 7]"
proof -
  obtain s :: inode_state where s: "dir_ok {} 0 s" "entries s 0 = []" using empty_dir by blast
  let ?de = "\<lparr>dnum = 7, dname = 97 # replicate 29 0\<rparr>"
  have n: "length (dname ?de) = DIR_NAME_LEN" by simp
  obtain t :: inode_state where t: "dir_ok {} 0 t" "entries t 0 = put_entry 0 ?de []"
    by (rule write_dirent_ok [OF s(1) _ _ n, of 0]) (use s(2) in auto)
  have de: "in_use ?de" "name_of (dname ?de) = [97]"
    by (simp_all add: in_use_def name_of_def cstr_def bview_def nth_default_def upt_rec)
  have "dmap [] = Map.empty" by (simp add: dmap_def fun_eq_iff)
  then have "names_ok (entries t 0)" "dmap (entries t 0) = [[97] \<mapsto> 7]"
    using dmap_insert [of "[]" 0 ?de] de t(2) by (simp_all add: names_ok_def)
  then show ?thesis using t(1) by blast
qed

text \<open>C18. Searching a directory is looking its name up in the map the directory stands for: the result is the inode number
  of the entry with the name, or the value that means \<^emph>\<open>not found\<close>; the directory and the disk do not change.\<close>

theorem dir_search_entry_correct:
  assumes "dir_ok H i s"
  shows "\<exists>t. dir_search_entry i nm s = Inr (case dmap (entries s i) (name_of nm) of Some n \<Rightarrow> n | None \<Rightarrow> INODE_NUM_UNUSED, t) \<and>
    dir_ok H i t \<and> entries t i = entries s i \<and> disk t = disk s"
  by (rule search_ok [OF assms, of nm]) (use file_same_dir(1) in \<open>auto simp: file_same_def\<close>)

theorem dir_search_entry_correct_witness:
  "\<exists>(s :: inode_state) t u. dir_search_entry 0 (lit ''a'') s = Inr (7, t) \<and> dir_search_entry 0 (lit ''b'') s = Inr (INODE_NUM_UNUSED, u)"
proof -
  obtain s :: inode_state where s: "dir_ok {} 0 s" "dmap (entries s 0) = [[97] \<mapsto> 7]" using one_entry_dir by blast
  have b: "name_of (lit ''b'') \<noteq> [97]"
    by (simp add: name_of_def lit_def cstr_def bview_def nth_default_def upt_rec)
  show ?thesis
    using dir_search_entry_correct [OF s(1), of "lit ''a''"] dir_search_entry_correct [OF s(1), of "lit ''b''"] s(2) name_a b by auto
qed

lemma add_ok:
  assumes "dir_ok H i s" and "names_ok (entries s i)" and "0 \<in> set nm" and "length nm \<le> 2 ^ 31" and "name_of nm \<noteq> []"
    and "num \<noteq> INODE_NUM_UNUSED"
  shows "\<exists>r t. dir_add_entry i num nm s = Inr (r, t) \<and> dir_ok H i t \<and> names_ok (entries t i) \<and>
    (if DIR_NAME_LEN \<le> str_length nm \<or> dmap (entries s i) (name_of nm) \<noteq> None \<or> \<not> has_room (entries s i)
     then r = DIR_FULL \<and> disk t = disk s \<and> entries t i = entries s i
     else r < DIR_FULL \<and> n_entries t i \<le> Suc (n_entries s i) \<and> dmap (entries t i) = (dmap (entries s i))(name_of nm \<mapsto> num))"
proof (cases "DIR_NAME_LEN \<le> str_length nm")
  case True
  then have "dir_add_entry i num nm s = Inr (DIR_FULL, s)"
    using assms strlen_buf_eq(1) [OF assms(3,4)] by (simp add: dir_add_entry_def check_dir_ok)
  then show ?thesis using True assms(1,2) by simp
next
  case False
  let ?es = "entries s i" and ?c = "name_of nm"
  obtain t where t: "dir_search_entry i nm s = Inr (case dmap ?es ?c of Some n \<Rightarrow> n | None \<Rightarrow> INODE_NUM_UNUSED, t)" "dir_ok H i t" "file_same s t"
    by (rule search_ok [OF assms(1)])
  note e = file_same_dir [OF t(3)]
  obtain u j where u: "slot_loop i 0 t = Inr (of_nat (32 * j), u)" "dir_ok H i u" "file_same t u" "j \<le> n_entries t i"
    "j < n_entries t i \<longrightarrow> \<not> in_use (entries t i ! j)" "j < 32 \<longleftrightarrow> has_room (entries t i)"
    by (rule slot_ok [OF t(2)])
  note eu = file_same_dir [OF u(3)] and su = file_same_trans [OF t(3) u(3)]
  have jle: "j \<le> 32" using u(4) dir_okD(4) [OF t(2)] by simp
  have full: "DIR_FULL \<le> (of_nat (32 * j) :: u32) \<longleftrightarrow> \<not> j < 32"
    using slot_less(2) [OF assms(1) jle] by (simp only: not_less [symmetric] not_not)
  let ?de = "\<lparr>dnum = num, dname = strncpy_bytes (bview nm) (DIR_NAME_LEN - 1) @ [0]\<rparr>"
  have step: "dir_add_entry i num nm s = (if dmap ?es ?c \<noteq> None then Inr (DIR_FULL, t) else if \<not> j < 32 then Inr (DIR_FULL, u)
     else bindr (write_dirent i (of_nat (32 * j)) ?de ''dir_add_entry: write failed'' u) (\<lambda>s. Inr (of_nat (32 * j), s)))"
    using dmap_not_unused [OF assms(2), of ?c] False
    by (cases "dmap ?es ?c") (simp_all add: dir_add_entry_def check_dir_ok [OF assms(1)] strlen_buf_eq(1) [OF assms(3,4)]
      t(1) u(1) full del: of_nat_mult)
  show ?thesis
  proof (cases "dmap ?es ?c = None \<and> has_room ?es")
    case True
    then have j: "j < 32" using u(6) e by simp
    have nm: "length (dname ?de) = DIR_NAME_LEN" "name_of (dname ?de) = ?c" "in_use ?de"
      using stored_name [OF assms(3,4)] False assms(5) by (simp_all add: in_use_def)
    obtain v where v: "write_dirent i (of_nat (32 * j)) ?de ''dir_add_entry: write failed'' u = Inr v" "dir_ok H i v"
      "entries v i = put_entry j ?de (entries u i)" "file_written u i (32 * j) 32 (nth (dirent_bytes ?de)) v"
      by (rule write_dirent_ok [OF u(2) _ j nm(1)]) (use u(4) eu in simp)
    have "names_ok (entries v i)" "dmap (entries v i) = (dmap ?es)(?c \<mapsto> num)"
      using dmap_insert [of ?es j ?de] assms(2,6) u(4,5) nm True v(3) eu e by simp_all
    moreover have "length (entries v i) = max (n_entries s i) (Suc j)" unfolding v(3) using put_entry_simps(1) [of j "entries u i"] u(4) eu e by simp
    then have "n_entries v i \<le> Suc (n_entries s i)" using u(4) e by simp
    moreover have "(of_nat (32 * j) :: u32) < DIR_FULL" using slot_less(2) [OF assms(1) jle] j by blast
    ultimately show ?thesis using step v(1,2) j True False by (simp del: of_nat_mult)
  next
    case False
    then show ?thesis using step t u e eu su assms(2) by (auto simp: file_same_def)
  qed
qed

text \<open>C6. Adding an entry refines insertion in the map of the directory.  A name of 30 bytes or more, a name that is
  there already and a directory without room are refused and change nothing; otherwise the entry goes to
  a free slot below the end of the block and the map changes at the new name only, keeping names distinct.\<close>

theorem dir_add_entry_refines:
  assumes "dir_ok H i s" and "names_ok (entries s i)" and "0 \<in> set nm" and "length nm \<le> 2 ^ 31" and "name_of nm \<noteq> []"
    and "num \<noteq> INODE_NUM_UNUSED"
  shows "\<exists>r t. dir_add_entry i num nm s = Inr (r, t) \<and> dir_ok H i t \<and> names_ok (entries t i) \<and>
    (if DIR_NAME_LEN \<le> str_length nm \<or> dmap (entries s i) (name_of nm) \<noteq> None \<or> \<not> has_room (entries s i)
     then r = DIR_FULL \<and> disk t = disk s \<and> entries t i = entries s i
     else r < DIR_FULL \<and> dmap (entries t i) = (dmap (entries s i))(name_of nm \<mapsto> num))"
  using add_ok [OF assms] by (auto split: if_splits)

theorem dir_add_entry_refines_witness:
  "\<exists>(s :: inode_state) r t. dir_ok {} 0 s \<and> dmap (entries s 0) = Map.empty \<and> dir_add_entry 0 7 (lit ''a'') s = Inr (r, t) \<and>
     dmap (entries t 0) = [[97] \<mapsto> 7]"
proof -
  obtain s :: inode_state where s: "dir_ok {} 0 s" "entries s 0 = []" using empty_dir by blast
  have e: "dmap [] = Map.empty" by (simp add: dmap_def fun_eq_iff)
  have l: "0 \<in> set (lit ''a'')" "length (lit ''a'') \<le> 2 ^ 31" "str_length (lit ''a'') = 1" by (simp_all add: lit_def str_length_def)
  show ?thesis
    using dir_add_entry_refines [OF s(1), of "lit ''a''" 7] s(2) e l name_a s(1)
    by - (rule exI [of _ s], auto simp: names_ok_def has_room_def)
qed

lemma delete_ok:
  assumes "dir_ok H i s" and "names_ok (entries s i)"
  shows "\<exists>t. dir_delete_entry i nm s = Inr (case dmap (entries s i) (name_of nm) of Some n \<Rightarrow> n | None \<Rightarrow> INODE_NUM_UNUSED, t) \<and>
    dir_ok H i t \<and> n_entries t i = n_entries s i \<and> names_ok (entries t i) \<and> dmap (entries t i) = (dmap (entries s i))(name_of nm := None)"
proof -
  let ?es = "entries s i" and ?f = "first_from (name_match nm) (entries s i) 0"
  obtain t where t: "entry_loop ''dir_delete_entry: read failed'' i nm 0 s =
      Inr (map_option (\<lambda>j. (of_nat (32 * j), dnum (?es ! j))) ?f, t)" "dir_ok H i t" "file_same s t"
    using entry_loop_ok [OF assms(1), of 0] by auto
  note e = file_same_dir [OF t(3)]
  show ?thesis
  proof (cases ?f)
    case None
    then have "dmap ?es (name_of nm) = None" by (simp add: dmap_first)
    then show ?thesis using t e None assms by (simp add: dir_delete_entry_def check_dir_ok fun_upd_idem)
  next
    case (Some j)
    let ?de = "\<lparr>dnum = 0, dname = replicate DIR_NAME_LEN 0\<rparr>"
    have j: "j < n_entries s i" "in_use (?es ! j)" "name_of (dname (?es ! j)) = name_of nm"
      using first_from_SomeD [OF Some] by (simp_all add: name_match_eq)
    have ln: "length (dname ?de) = DIR_NAME_LEN" by simp
    have j32: "j < 32" using j(1) dir_okD(4) [OF assms(1)] by simp
    obtain v where v: "write_dirent i (of_nat (32 * j)) ?de ''dir_delete_entry: write failed'' t = Inr v" "dir_ok H i v"
      "entries v i = put_entry j ?de (entries t i)" "file_written t i (32 * j) 32 (nth (dirent_bytes ?de)) v"
      by (rule write_dirent_ok [OF t(2) _ j32 ln]) (use j(1) e in simp)
    have "\<not> in_use ?de" by (simp add: in_use_def bview_def nth_default_def)
    from dmap_remove [OF assms(2) _ j(2) this] have "names_ok (entries v i)" "dmap (entries v i) = (dmap ?es)(name_of nm := None)"
      using v(3) e j by (simp_all add: put_entry_def)
    moreover have "length (entries v i) = length (entries s i)" unfolding v(3) using e j(1) by (simp add: put_entry_def)
    then have "n_entries v i = n_entries s i" by simp
    moreover have "dmap ?es (name_of nm) = Some (dnum (?es ! j))" using Some by (simp add: dmap_first)
    ultimately show ?thesis using t v Some assms(1) by (simp add: dir_delete_entry_def check_dir_ok del: of_nat_mult)
  qed
qed

text \<open>C17. Deleting an entry refines removal from the map: the number the name had is returned (or \<^emph>\<open>not found\<close>, with nothing
  changed), and afterwards the name is gone and every other name is as it was.\<close>

theorem dir_delete_entry_refines:
  assumes "dir_ok H i s" and "names_ok (entries s i)"
  shows "\<exists>t. dir_delete_entry i nm s = Inr (case dmap (entries s i) (name_of nm) of Some n \<Rightarrow> n | None \<Rightarrow> INODE_NUM_UNUSED, t) \<and>
    dir_ok H i t \<and> names_ok (entries t i) \<and> dmap (entries t i) = (dmap (entries s i))(name_of nm := None)"
  using delete_ok [OF assms] by blast

theorem dir_delete_entry_refines_witness:
  "\<exists>(s :: inode_state) t. dmap (entries s 0) = [[97] \<mapsto> 7] \<and> dir_delete_entry 0 (lit ''a'') s = Inr (7, t) \<and>
     dmap (entries t 0) = Map.empty"
proof -
  obtain s :: inode_state where s: "dir_ok {} 0 s" "names_ok (entries s 0)" "dmap (entries s 0) = [[97] \<mapsto> 7]"
    using one_entry_dir by blast
  show ?thesis
    using dir_delete_entry_refines [OF s(1,2), of "lit ''a''"] s(3) name_a by - (rule exI [of _ s], auto)
qed

end
