(* ===== verification/Mkfs.thy ===== *)
theory Mkfs
  imports Dir_Map Fs_Init
begin

text \<open>
  \<^verbatim>\<open>mkfs/mkfs.c\<close>: the tool that makes the image of the file system on the host.  The state is the image file, a list
  of blocks, the super block, and the number of blocks the host has room for.  A call that fails
  (\<^verbatim>\<open>perror\<close> and \<^verbatim>\<open>exit(1)\<close>) and an assertion that fails are \<open>Panic\<close> with the message, the loops
  \<^verbatim>\<open>while(1);\<close> are \<open>Hang\<close>.  The host is little endian, as the machine the image is for.  What the host
  provides is an argument: whether the image can be created, and the other files, which do not change during a
  run.  The bytes of \<^verbatim>\<open>dirent_t de\<close> behind the name are whatever the stack held: the argument \<open>residue\<close>.
  Names the kernel uses too have the prefix \<open>mkfs\<close> here.
\<close>

section \<open>Definitions\<close>

record mkfs_state =
  image :: "byte list list"
  msb :: super_block
  room :: nat

text \<open>A file of the host, and \<^verbatim>\<open>read\<close> of a block at a position: the number of bytes (or -1) and the new contents of the buffer.\<close>

datatype host_file = Missing | Unreadable | Regular "byte list"

record host =
  can_create :: "byte list \<Rightarrow> bool"
  host_file :: "byte list \<Rightarrow> host_file"

fun host_read :: "host_file \<Rightarrow> nat \<Rightarrow> byte list \<Rightarrow> int \<times> byte list" where
  "host_read (Regular bs) pos buf = (let chunk = slice pos BLOCK_SIZE bs in (int (length chunk), overwrite buf 0 chunk))"
| "host_read _ pos buf = (- 1, buf)"

abbreviation N_BLOCK :: nat where "N_BLOCK \<equiv> 8323"
abbreviation zero_block :: "byte list" where "zero_block \<equiv> replicate BLOCK_SIZE 0"

text \<open>The conversions to little endian: the bytes of the result, read back as the host does.\<close>

definition xshort :: "u16 \<Rightarrow> u16" where
  "xshort x = le_word [ucast x, ucast (drop_bit 8 x)]"

definition xint :: "u32 \<Rightarrow> u32" where
  "xint x = le_word [ucast x, ucast (drop_bit 8 x), ucast (drop_bit 16 x), ucast (drop_bit 24 x)]"

text \<open>The block of the file that \<^verbatim>\<open>lseek(fsfd, BLOCK_SIZE * block_num, 0)\<close> goes to; the product is
  an \<^verbatim>\<open>unsigned int\<close>.\<close>

definition seek_block :: "u32 \<Rightarrow> nat" where
  "seek_block blkno = unat (1024 * blkno) div BLOCK_SIZE"

definition block_write :: "u32 \<Rightarrow> byte list \<Rightarrow> mkfs_state \<Rightarrow> mkfs_state res" where
  "block_write blkno buf st =
     (let k = seek_block blkno
      in if room st \<le> k then Inl (Panic ''write'')
         else Inr (st\<lparr>image := (image st @ replicate (Suc k - length (image st)) zero_block)[k := buf]\<rparr>))"

definition block_read :: "u32 \<Rightarrow> mkfs_state \<Rightarrow> byte list res" where
  "block_read blkno st =
     (let k = seek_block blkno
      in if k < length (image st) then Inr (image st ! k) else Inl (Panic ''read''))"

text \<open>The loops over bytes and bits are those of \<^verbatim>\<open>bitmap_search_and_set\<close>.\<close>

definition mkfs_block_alloc :: "mkfs_state \<Rightarrow> (u32 \<times> mkfs_state) res" where
  "mkfs_block_alloc st =
     bindr (block_read (data_bitmap_start (msb st)) st) (\<lambda>buf.
     case find_bit 0 buf of
       None \<Rightarrow> Inl Hang
     | Some (byte, shift, bit_cmp) \<Rightarrow>
         bindr (block_write (data_bitmap_start (msb st)) (buf[byte := buf ! byte OR bit_cmp]) st) (\<lambda>st.
         Inr (of_nat (byte * 8 + shift) + data_start (msb st), st)))"

definition mkfs_inode_alloc :: "mkfs_state \<Rightarrow> (u16 \<times> mkfs_state) res" where
  "mkfs_inode_alloc st =
     bindr (block_read (inode_bitmap_start (msb st)) st) (\<lambda>buf.
     case find_bit 0 buf of
       None \<Rightarrow> Inl Hang
     | Some (byte, shift, bit_cmp) \<Rightarrow>
         bindr (block_write (inode_bitmap_start (msb st)) (buf[byte := buf ! byte OR bit_cmp]) st) (\<lambda>st.
         Inr (of_nat (byte * 8 + shift), st)))"

definition INODE_LOCATE_BLOCK :: "u32 \<Rightarrow> super_block \<Rightarrow> u32" where
  "INODE_LOCATE_BLOCK inum b = inum div 16 + inode_start b"

definition mkfs_inode_read :: "u32 \<Rightarrow> mkfs_state \<Rightarrow> dinode res" where
  "mkfs_inode_read num st =
     bindr (block_read (INODE_LOCATE_BLOCK num (msb st)) st) (\<lambda>buf.
     Inr (dinode_of_bytes (slice (unat (num mod 16) * INODE_DISK_SIZE) INODE_DISK_SIZE buf)))"

definition mkfs_inode_write :: "u16 \<Rightarrow> dinode \<Rightarrow> mkfs_state \<Rightarrow> mkfs_state res" where
  "mkfs_inode_write num ip st =
     (let blkno = INODE_LOCATE_BLOCK (ucast num) (msb st)
      in bindr (block_read blkno st) (\<lambda>buf.
         block_write blkno (overwrite buf (unat num mod 16 * INODE_DISK_SIZE) (dinode_bytes ip)) st))"

definition mkfs_inode_create :: "u16 \<Rightarrow> u16 \<Rightarrow> mkfs_state \<Rightarrow> (dinode \<times> mkfs_state) res" where
  "mkfs_inode_create num ty st =
     (let inode = \<lparr>itype = xshort ty, imajor = xshort 0, iminor = xshort 0, nlink = xshort 1, isize = xint 0,
                   addrs = replicate N_ADDRS (xint 0)\<rparr>
      in bindr (mkfs_inode_write num inode st) (\<lambda>st. Inr (inode, st)))"

text \<open>\<^verbatim>\<open>memmove\<close> to \<^verbatim>\<open>dir_buf + offset\<close> must stay inside the buffer.\<close>

definition dirent_create :: "byte list \<Rightarrow> u32 \<Rightarrow> u32 \<Rightarrow> byte list \<Rightarrow> u16 \<Rightarrow> mkfs_state \<Rightarrow> (u32 \<times> mkfs_state) res" where
  "dirent_create residue dir_block offset nm num st =
     bindr (assert_that (length nm < 30) ''strlen(name) < 30'') (\<lambda>_.
     let de = \<lparr>dnum = ucast (xint (ucast num)), dname = overwrite residue 0 (nm @ [0])\<rparr>
     in bindr (block_read dir_block st) (\<lambda>dir_buf.
        if BLOCK_SIZE < unat offset + 32 then Inl Undefined
        else bindr (block_write dir_block (overwrite dir_buf (unat offset) (dirent_bytes de)) st) (\<lambda>st.
          Inr (offset + DIRENT_SIZE, st))))"

text \<open>\<^verbatim>\<open>locate_block\<close> returns the block, the new value of \<^verbatim>\<open>*entry\<close> and the state.  An entry inside an index block
  is in a local copy of it, which is dropped.\<close>

function mkfs_locate_block :: "u32 \<Rightarrow> u32 \<Rightarrow> u32 \<Rightarrow> mkfs_state \<Rightarrow> (u32 \<times> u32 \<times> mkfs_state) res" where
  "mkfs_locate_block entry bn sz st =
     bindr (if entry = 0 then mkfs_block_alloc st else Inr (entry, st)) (\<lambda>(entry, st).
     if sz = 1 then Inr (entry, entry, st)
     else let next_size = sz div ENTRY_PER_BLOCK; next_bn = bn mod next_size
          in if next_size = 0 then Inl Undefined
             else bindr (block_read entry st) (\<lambda>buf.
               if ENTRY_PER_BLOCK \<le> bn div next_size then Inl Undefined
               else bindr (mkfs_locate_block (block_entry buf (unat (bn div next_size))) next_bn next_size st)
                 (\<lambda>(ret, _, st). Inr (ret, entry, st))))"
  by pat_completeness auto
termination
  by (relation "measure (\<lambda>(_, _, sz, _). unat sz)") (auto simp: word_less_nat_alt unat_div unat_eq_0 intro!: div_less_dividend gr0I)

declare mkfs_locate_block.simps [simp del]

definition mkfs_inode_locate_block :: "dinode \<Rightarrow> u32 \<Rightarrow> mkfs_state \<Rightarrow> (u32 \<times> dinode \<times> mkfs_state) res" where
  "mkfs_inode_locate_block ip bn st =
     (let loc = (\<lambda>k b sz. bindr (mkfs_locate_block (addrs ip ! k) b sz st) (\<lambda>(ret, entry, st).
                   Inr (ret, ip\<lparr>addrs := (addrs ip)[k := entry]\<rparr>, st)))
      in if bn < 10 then loc (unat bn) bn 1
         else let bn = bn - 10
         in if bn < 2 * ENTRY_PER_BLOCK then loc (10 + unat (bn div ENTRY_PER_BLOCK)) (bn mod ENTRY_PER_BLOCK) ENTRY_PER_BLOCK
         else let bn = bn - 2 * ENTRY_PER_BLOCK; sz = ENTRY_PER_BLOCK * ENTRY_PER_BLOCK
         in if bn < sz then loc (12 + unat (bn div sz)) (bn mod sz) sz
         else Inl Hang)"

text \<open>The loop that copies one file.  \<^verbatim>\<open>buf\<close>, \<^verbatim>\<open>bn\<close> and the inode are variables of \<^verbatim>\<open>main\<close>.\<close>

function copy_file :: "host_file \<Rightarrow> nat \<Rightarrow> byte list \<Rightarrow> u32 \<Rightarrow> dinode \<Rightarrow> mkfs_state \<Rightarrow>
    (byte list \<times> u32 \<times> dinode \<times> mkfs_state) res" where
  "copy_file f pos buf bn ip st =
     (let (read_len, buf) = host_read f pos buf
      in bindr (mkfs_inode_locate_block ip bn st) (\<lambda>(blkno, ip, st).
         bindr (block_write blkno buf st) (\<lambda>st.
         let ip = ip\<lparr>isize := isize ip + of_int read_len\<rparr>
         in if read_len < 1024 then Inr (buf, bn + 1, ip, st)
            else copy_file f (pos + BLOCK_SIZE) buf (bn + 1) ip st)))"
  by pat_completeness auto

fun file_length :: "host_file \<Rightarrow> nat" where
  "file_length (Regular bs) = length bs"
| "file_length _ = 0"

lemma full_read: "host_read f pos buf = (n, b) \<Longrightarrow> \<not> n < 1024 \<Longrightarrow> pos + BLOCK_SIZE \<le> file_length f"
  by (cases f) (auto simp: Let_def slice_def)

termination copy_file
  using full_read
  by (relation "measure (\<lambda>(f, pos, _). file_length f - pos)") (auto, metis diff_less_mono2 less_le_trans less_add_same_cancel1 zero_less_numeral)

declare copy_file.simps [simp del]

text \<open>The body of the loop over the arguments; \<open>residue\<close> is the stack of the \<^verbatim>\<open>dirent_create\<close> call.  A pointer behind the end of
  an argument of less than 7 bytes is undefined.\<close>

definition add_program :: "host \<Rightarrow> byte list \<Rightarrow> u32 \<Rightarrow> byte list \<Rightarrow> u32 \<times> u32 \<times> byte list \<times> mkfs_state \<Rightarrow>
    (u32 \<times> u32 \<times> byte list \<times> mkfs_state) res" where
  "add_program h residue rooti_block arg = (\<lambda>(offset, bn, buf, st).
     if length arg < 7 then Inl Undefined
     else let shortname = drop 7 arg
     in bindr (assert_that (shortname \<noteq> [] \<and> hd shortname = 95) ''*shortname == '_' '') (\<lambda>_.
        bindr (assert_that (slash \<notin> set shortname) ''index(shortname, '/') == 0'') (\<lambda>_.
        let shortname = tl shortname
        in bindr (mkfs_inode_alloc st) (\<lambda>(inum, st).
           bindr (mkfs_inode_create inum FT_FILE st) (\<lambda>(inode, st).
           bindr (dirent_create residue rooti_block offset shortname inum st) (\<lambda>(offset, st).
           if host_file h arg = Missing then Inl (Panic (map (\<lambda>b. char_of (unat b)) arg))
           else bindr (copy_file (host_file h arg) 0 buf bn inode st) (\<lambda>(buf, bn, inode, st).
             let inode = inode\<lparr>addrs := map xint (addrs inode), isize := xint (isize inode)\<rparr>
             in bindr (mkfs_inode_write inum inode st) (\<lambda>st.
                Inr (offset, bn, buf, st)))))))))"

fun add_programs :: "host \<Rightarrow> (nat \<Rightarrow> byte list) \<Rightarrow> u32 \<Rightarrow> nat \<Rightarrow> byte list list \<Rightarrow> u32 \<times> u32 \<times> byte list \<times> mkfs_state \<Rightarrow>
    (u32 \<times> u32 \<times> byte list \<times> mkfs_state) res" where
  "add_programs h residue rooti_block i [] v = Inr v"
| "add_programs h residue rooti_block i (arg # args) v =
     bindr (add_program h (residue i) rooti_block arg v) (\<lambda>v. add_programs h residue rooti_block (Suc i) args v)"

primrec zero_blocks :: "nat list \<Rightarrow> mkfs_state \<Rightarrow> mkfs_state res" where
  "zero_blocks [] st = Inr st"
| "zero_blocks (i # is) st = bindr (block_write (of_nat i) zero_block st) (zero_blocks is)"

definition sb_bytes :: "super_block \<Rightarrow> byte list" where
  "sb_bytes b = concat (map (le_bytes 4) [magic b, block_size b, inode_bitmap_start b, inode_start b, data_bitmap_start b,
     data_start b, inode_blocks b, data_blocks b, total_blocks b])"

text \<open>\<^verbatim>\<open>main\<close>, in the three parts its comments give it.  The buffer keeps the super block when the first program is read.\<close>

definition format_image :: "mkfs_state \<Rightarrow> (byte list \<times> mkfs_state) res" where
  "format_image st =
     bindr (zero_blocks [0..<N_BLOCK] st) (\<lambda>st.
     let buf = overwrite zero_block 0 (sb_bytes (msb st))
     in bindr (block_write 0 buf st) (\<lambda>st. Inr (buf, st)))"

definition make_root :: "(nat \<Rightarrow> byte list) \<Rightarrow> mkfs_state \<Rightarrow> (u32 \<times> u32 \<times> dinode \<times> mkfs_state) res" where
  "make_root residue st =
     bindr (mkfs_inode_alloc st) (\<lambda>(root_inum, st).
     bindr (mkfs_block_alloc st) (\<lambda>(rooti_block, st).
     if root_inum \<noteq> 0 then Inl Hang
     else bindr (mkfs_inode_create root_inum FT_DIR st) (\<lambda>(rooti, st).
       bindr (dirent_create (residue 0) rooti_block 0 [46] root_inum st) (\<lambda>(offset, st).
       bindr (dirent_create (residue 1) rooti_block offset [46, 46] root_inum st) (\<lambda>(offset, st).
       Inr (rooti_block, offset, rooti, st))))))"

definition mkfs_main :: "host \<Rightarrow> (nat \<Rightarrow> byte list) \<Rightarrow> nat \<Rightarrow> byte list list \<Rightarrow> mkfs_state res" where
  "mkfs_main h residue rm argv =
     (if length argv < 2 \<or> \<not> can_create h (argv ! 1) then Inl (Panic ''open'')
      else bindr (format_image \<lparr>image = [], msb = mkfs_sb, room = rm\<rparr>) (\<lambda>(buf, st).
        bindr (make_root residue st) (\<lambda>(rooti_block, offset, rooti, st).
        bindr (add_programs h residue rooti_block 2 (drop 2 argv) (offset, 0, buf, st)) (\<lambda>(offset, bn, buf, st).
        mkfs_inode_write 0 (rooti\<lparr>addrs := (addrs rooti)[0 := xint rooti_block],
          isize := xint (32 * of_nat (length argv))\<rparr>) st))))"

end
