(* ===== verification/Mkfs_Image.thy ===== *)
theory Mkfs_Image
  imports Mkfs
begin

text \<open>
  What the operations of \<^verbatim>\<open>mkfs\<close> do to the image.  \<open>lay a m st\<close> is the invariant of the tool after the super block: the image has all
  its blocks, the first \<open>a\<close> inodes and the first \<open>m\<close> data blocks are marked as used, and the data blocks that are not are zero.
  \<open>only S st t\<close> says which blocks an operation may change.
\<close>

section \<open>Reading and writing blocks\<close>

definition mk_ok :: "mkfs_state \<Rightarrow> bool" where
  "mk_ok st \<longleftrightarrow> length (image st) = N_BLOCK \<and> (\<forall>k < N_BLOCK. length (image st ! k) = BLOCK_SIZE) \<and> msb st = mkfs_sb \<and> N_BLOCK \<le> room st"

definition put :: "nat \<Rightarrow> byte list \<Rightarrow> mkfs_state \<Rightarrow> mkfs_state" where
  "put k b st = st\<lparr>image := (image st)[k := b]\<rparr>"

definition only :: "nat set \<Rightarrow> mkfs_state \<Rightarrow> mkfs_state \<Rightarrow> bool" where
  "only S st t \<longleftrightarrow> (\<forall>k. k \<notin> S \<longrightarrow> image t ! k = image st ! k)"

lemma onlyD: "only S st t \<Longrightarrow> k \<notin> S \<Longrightarrow> image t ! k = image st ! k"
  by (simp add: only_def)

lemma only_trans: "only S st t \<Longrightarrow> only T t u \<Longrightarrow> S \<union> T \<subseteq> V \<Longrightarrow> only V st u"
  unfolding only_def by (metis UnCI subsetD)

lemma only_put [simp]: "only {k} st (put k b st)"
  by (simp add: only_def put_def)

lemma image_put: "image (put k b st) ! j = (if j = k \<and> k < length (image st) then b else image st ! j)"
  by (cases "k < length (image st)") (simp_all add: put_def nth_list_update list_update_beyond)

lemma mk_ok_put: "mk_ok st \<Longrightarrow> length b = BLOCK_SIZE \<Longrightarrow> mk_ok (put k b st)"
  by (auto simp: mk_ok_def image_put) (simp_all add: put_def)

lemma xshort_id [simp]: "xshort x = x"
proof -
  have "[ucast x, ucast (drop_bit 8 x)] = le_bytes 2 x" by (simp add: numeral_2_eq_2)
  then show ?thesis by (simp only: xshort_def le_roundtrip16)
qed

lemma xint_id [simp]: "xint x = x"
proof -
  have "[ucast x, ucast (drop_bit 8 x), ucast (drop_bit 16 x), ucast (drop_bit 24 x)] = le_bytes 4 x"
    by (simp add: eval_nat_numeral)
  then show ?thesis by (simp only: xint_def le_roundtrip32)
qed

lemma unat_small: "k < 2 ^ 22 \<Longrightarrow> unat (of_nat k :: u32) = k"
  by (rule unat_less_u32) simp

lemma seek_block_of_nat: "k < 2 ^ 22 \<Longrightarrow> seek_block (of_nat k) = k"
proof -
  assume k: "k < 2 ^ 22"
  have e: "(1024 * of_nat k :: u32) = of_nat (1024 * k)" by simp
  have "unat (of_nat (1024 * k) :: u32) = 1024 * k" using k by (intro unat_less_u32) simp
  then show ?thesis unfolding seek_block_def e by simp
qed

lemma block_read_ok: "mk_ok st \<Longrightarrow> k < N_BLOCK \<Longrightarrow> block_read (of_nat k) st = Inr (image st ! k)"
  using seek_block_of_nat [of k] by (simp add: block_read_def mk_ok_def)

lemma block_write_ok: "mk_ok st \<Longrightarrow> k < N_BLOCK \<Longrightarrow> block_write (of_nat k) b st = Inr (put k b st)"
  using seek_block_of_nat [of k] by (simp add: block_write_def mk_ok_def put_def)

section \<open>The allocators\<close>

definition lay :: "nat \<Rightarrow> nat \<Rightarrow> mkfs_state \<Rightarrow> bool" where
  "lay a m st \<longleftrightarrow> mk_ok st \<and> used_bits (image st ! 1) = {..<a} \<and> used_bits (image st ! 130) = {..<m} \<and>
     (\<forall>k. m \<le> k \<longrightarrow> k < N_BITS \<longrightarrow> image st ! (131 + k) = zero_block)"

lemma layD:
  assumes "lay a m st"
  shows "mk_ok st" "length (image st) = N_BLOCK" "k < N_BLOCK \<Longrightarrow> length (image st ! k) = BLOCK_SIZE" "msb st = mkfs_sb"
    "used_bits (image st ! 1) = {..<a}" "used_bits (image st ! 130) = {..<m}"
    "m \<le> k \<Longrightarrow> k < N_BITS \<Longrightarrow> image st ! (131 + k) = zero_block"
  using assms by (auto simp: lay_def mk_ok_def)

text \<open>A change outside the bitmaps and the data blocks that are still free.\<close>

lemma lay_put:
  assumes "lay a m st" "length b = BLOCK_SIZE" "k \<noteq> 1" "k \<noteq> 130" "k < 131 + m"
  shows "lay a m (put k b st)"
  using assms mk_ok_put by (auto simp: lay_def image_put)

lemma find_bit_next:
  assumes "used_bits d = {..<m}" "m < N_BITS"
  shows "find_bit 0 d = Some (m div 8, m mod 8, 2 ^ (m mod 8))"
proof -
  have u: "bitmap_bit d k \<longleftrightarrow> k < m" if "k < N_BITS" for k using assms(1) that by (auto simp: used_bits_def)
  have "find (\<lambda>k. \<not> bitmap_bit d k) [0..<N_BITS] = Some m"
    unfolding find_Some_iff using u assms(2) by (intro exI [of _ m]) (auto simp del: upt_Suc)
  then show ?thesis by (simp only: find_bit_0 option.case)
qed

lemma used_next: "used_bits d = {..<m} \<Longrightarrow> m < N_BITS \<Longrightarrow> length d = BLOCK_SIZE \<Longrightarrow> used_bits (set_bit_of m d) = {..<Suc m}"
  by (simp add: used_bits_upd lessThan_Suc)

lemma mkfs_sb_simps [simp]:
  "inode_bitmap_start mkfs_sb = of_nat 1" "inode_start mkfs_sb = of_nat 2" "data_bitmap_start mkfs_sb = of_nat 130" "data_start mkfs_sb = of_nat 131"
  by (simp_all add: mkfs_sb_def)

lemma bit_place: "of_nat (m div 8 * 8 + m mod 8) = (of_nat m :: 'a::len word)"
  by (simp only: div_mult_mod_eq)

lemma block_alloc_ok:
  assumes "lay a m st" "m < N_BITS"
  obtains t where "mkfs_block_alloc st = Inr (of_nat (131 + m), t)" "lay a (Suc m) t" "only {130} st t"
proof -
  note d = layD [OF assms(1)]
  let ?b = "set_bit_of m (image st ! 130)"
  have f: "find_bit 0 (image st ! 130) = Some (m div 8, m mod 8, 2 ^ (m mod 8))" by (rule find_bit_next [OF d(6) assms(2)])
  have len: "length (image st ! 130) = BLOCK_SIZE" using d(3) by simp
  have b130: "130 < N_BLOCK" by simp
  have "mkfs_block_alloc st = Inr (of_nat (131 + m), put 130 ?b st)"
    unfolding mkfs_block_alloc_def d(4) mkfs_sb_simps block_read_ok [OF d(1), of 130, OF b130] bindr_Inr f option.case prod.case
      set_bit_of_def [symmetric]
      block_write_ok [OF d(1) b130] bit_place
    using d(4) by (simp add: put_def)
  moreover have "lay a (Suc m) (put 130 ?b st)"
    using assms(1) mk_ok_put [OF d(1), of ?b 130] len used_next [OF d(6) assms(2) len] d(2) by (simp add: lay_def image_put)
  ultimately show thesis using that only_put by blast
qed

lemma inode_alloc_ok:
  assumes "lay a m st" "a < N_BITS"
  obtains t where "mkfs_inode_alloc st = Inr (of_nat a, t)" "lay (Suc a) m t" "only {1} st t"
proof -
  note d = layD [OF assms(1)]
  let ?b = "set_bit_of a (image st ! 1)"
  have f: "find_bit 0 (image st ! 1) = Some (a div 8, a mod 8, 2 ^ (a mod 8))" by (rule find_bit_next [OF d(5) assms(2)])
  have len: "length (image st ! 1) = BLOCK_SIZE" using d(3) by simp
  have b1: "1 < N_BLOCK" by simp
  have "mkfs_inode_alloc st = Inr (of_nat a, put 1 ?b st)"
    unfolding mkfs_inode_alloc_def d(4) mkfs_sb_simps block_read_ok [OF d(1), of 1, OF b1] bindr_Inr f option.case prod.case
      set_bit_of_def [symmetric]
      block_write_ok [OF d(1) b1] bit_place by simp
  moreover have "lay (Suc a) m (put 1 ?b st)"
    using assms(1) mk_ok_put [OF d(1), of ?b 1] len used_next [OF d(5) assms(2) len] d(2) by (simp add: lay_def image_put)
  ultimately show thesis using that only_put by blast
qed

section \<open>Data blocks of a file\<close>

text \<open>A reference to an index block among the first \<open>m\<close> data blocks: such a block is never written, so it is zero.\<close>

definition zero_ref :: "nat \<Rightarrow> mkfs_state \<Rightarrow> u32 \<Rightarrow> bool" where
  "zero_ref m st e \<longleftrightarrow> (\<exists>j < m. e = of_nat (131 + j) \<and> image st ! (131 + j) = zero_block)"

lemma zero_ref_same:
  assumes "zero_ref m st e" "only S st t" "\<And>j. j < m \<Longrightarrow> 131 + j \<notin> S" "m \<le> n"
  shows "zero_ref n t e"
  using assms onlyD [OF assms(2)] unfolding zero_ref_def by (metis less_le_trans)

lemma unat_data_ref: "j < N_BITS \<Longrightarrow> unat (of_nat (131 + j) :: u32) = 131 + j"
  by (rule unat_small) simp

lemma data_ref_nonzero: "j < N_BITS \<Longrightarrow> (of_nat (131 + j) :: u32) \<noteq> 0"
  using unat_data_ref [of j] by (metis add_is_0 unat_0 zero_neq_numeral)

lemma le_bytes_zero: "le_bytes n 0 = replicate n 0"
  by (induction n) simp_all

lemma block_entry_zero: "k < 256 \<Longrightarrow> block_entry zero_block k = 0"
proof -
  assume "k < 256"
  then have "slice (4 * k) 4 zero_block = le_bytes 4 (0 :: u32)" by (simp add: slice_def le_bytes_zero)
  then show ?thesis by (simp only: block_entry_def le_roundtrip32)
qed

text \<open>The block an entry of level \<open>l\<close> leads to is always a new one.\<close>

lemma locate_block_ok:
  assumes "lay a m st" "l \<le> 2" "l = 0 \<or> unat bn < 256 ^ l" "m + l < N_BITS" "entry = 0 \<or> 0 < l \<and> zero_ref m st entry"
  obtains n e t where "mkfs_locate_block entry bn (256 ^ l) st = Inr (of_nat (131 + n), e, t)" "m \<le> n" "n \<le> m + l"
    "lay a (Suc n) t" "only {130} st t" "if l = 0 then e = of_nat (131 + n) else zero_ref n t e"
  using assms
proof (induction l arbitrary: thesis m st entry bn)
  case 0
  obtain t where t: "mkfs_block_alloc st = Inr (of_nat (131 + m), t)" "lay a (Suc m) t" "only {130} st t"
    by (rule block_alloc_ok [OF 0(2)]) (use 0 in simp)
  have "mkfs_locate_block entry bn (256 ^ 0) st = Inr (of_nat (131 + m), of_nat (131 + m), t)"
    using 0(6) t(1) by (simp add: mkfs_locate_block.simps)
  from 0(1) [OF this _ _ t(2,3)] show ?case by simp
next
  case (Suc l)
  have m: "m < N_BITS" using Suc.prems(5) by simp
  obtain k e t where k: "(if entry = 0 then mkfs_block_alloc st else Inr (entry, st)) = Inr (e, t)" "m \<le> k" "k \<le> Suc m" "lay a k t"
    "only {130} st t" "zero_ref k t e"
  proof (cases "entry = 0")
    case True
    obtain t where t: "mkfs_block_alloc st = Inr (of_nat (131 + m), t)" "lay a (Suc m) t" "only {130} st t"
      by (rule block_alloc_ok [OF Suc.prems(2) m])
    have "zero_ref (Suc m) t (of_nat (131 + m))"
      unfolding zero_ref_def using onlyD [OF t(3), of "131 + m"] layD(7) [OF Suc.prems(2), of m] m by (intro exI [of _ m]) simp
    with True t that [of "of_nat (131 + m)" t "Suc m"] show thesis by simp
  next
    case False
    with Suc.prems(2,6) that [of entry st m] show thesis by (simp add: only_def)
  qed
  obtain j where j: "j < k" "e = of_nat (131 + j)" "image t ! (131 + j) = zero_block" using k(6) by (auto simp: zero_ref_def)
  have jb: "131 + j < N_BLOCK" using j(1) k(3) Suc.prems(5) by simp
  have rd: "block_read e t = Inr zero_block" unfolding j(2) using block_read_ok [OF layD(1) [OF k(4)] jb] j(3) by simp
  have l: "l = 0 \<or> l = 1" using Suc.prems(3) by auto
  let ?ns = "256 ^ l :: u32"
  have ns: "256 ^ Suc l div ENTRY_PER_BLOCK = ?ns" "256 ^ Suc l \<noteq> (1 :: u32)" "?ns \<noteq> 0" "unat ?ns = 256 ^ l" using l by auto
  have q: "unat (bn div ?ns) < 256" "unat (bn mod ?ns) < 256 ^ l"
    using Suc.prems(4) ns(4) by (simp_all add: unat_div unat_mod less_mult_imp_div_less)
  have nle: "\<not> ENTRY_PER_BLOCK \<le> bn div ?ns" using q(1) by (simp add: word_le_nat_alt)
  have bl: "k + l < N_BITS" using k(3) Suc.prems(5) by simp
  obtain n e' u where n: "mkfs_locate_block 0 (bn mod ?ns) ?ns t = Inr (of_nat (131 + n), e', u)" "k \<le> n" "n \<le> k + l"
    "lay a (Suc n) u" "only {130} t u"
    by (rule Suc.IH [OF _ k(4) _ disjI2 [OF q(2)] bl, of 0]) (use l in auto)
  have "mkfs_locate_block entry bn (256 ^ Suc l) st = Inr (of_nat (131 + n), e, u)"
    unfolding mkfs_locate_block.simps [of entry bn] k(1) bindr_Inr prod.case Let_def ns(1)
    using ns(2,3) nle q(1) n(1) by (simp add: rd block_entry_zero del: power_Suc)
  moreover have "zero_ref n u e" by (rule zero_ref_same [OF k(6) n(5) _ n(2)]) simp
  moreover have "only {130} st u" by (rule only_trans [OF k(5) n(5)]) simp
  moreover have "m \<le> n" "n \<le> m + Suc l" using k(2,3) n(2,3) by simp_all
  ultimately show ?case using Suc.prems(1) n(4) by simp
qed

text \<open>The index entries of an inode under construction.\<close>

definition idx_ok :: "nat \<Rightarrow> mkfs_state \<Rightarrow> dinode \<Rightarrow> bool" where
  "idx_ok m st ip \<longleftrightarrow> length (addrs ip) = N_ADDRS \<and> (\<forall>k. 10 \<le> k \<and> k < N_ADDRS \<longrightarrow> addrs ip ! k = 0 \<or> zero_ref m st (addrs ip ! k))"

lemma idx_ok_same:
  assumes "idx_ok m st ip" "only S st t" "\<And>j. j < m \<Longrightarrow> 131 + j \<notin> S" "m \<le> n"
  shows "idx_ok n t ip"
  using assms(1) zero_ref_same [OF _ assms(2,3,4)] by (auto simp: idx_ok_def)

lemma idx_ok_upd:
  assumes "idx_ok n t ip" "10 \<le> k \<longrightarrow> e = 0 \<or> zero_ref n t e"
  shows "idx_ok n t (ip\<lparr>addrs := (addrs ip)[k := e]\<rparr>)"
proof -
  have "(addrs ip)[k := e] ! j = 0 \<or> zero_ref n t ((addrs ip)[k := e] ! j)" if "10 \<le> j" "j < N_ADDRS" for j
    using assms that by (cases "j = k") (auto simp: idx_ok_def)
  then show ?thesis using assms(1) by (simp add: idx_ok_def)
qed

lemma inode_locate_level:
  assumes "unat bn < 66058"
  obtains k b l where "\<forall>ip st. mkfs_inode_locate_block ip bn st = bindr (mkfs_locate_block (addrs ip ! k) b (256 ^ l) st)
      (\<lambda>(ret, entry, st). Inr (ret, ip\<lparr>addrs := (addrs ip)[k := entry]\<rparr>, st))"
    "l \<le> 2" "l = 0 \<or> unat b < 256 ^ l" "k < N_ADDRS" "if unat bn < 10 then k = unat bn \<and> l = 0 else 10 \<le> k \<and> 0 < l"
proof -
  have u: "unat (bn - 10) = unat bn - 10" if "10 \<le> unat bn" using that by (simp add: unat_sub word_le_nat_alt)
  have u2: "unat (bn - 10 - 512) = unat bn - 522" if "522 \<le> unat bn" using that u by (simp add: unat_sub word_le_nat_alt)
  consider "unat bn < 10" | "10 \<le> unat bn" "unat bn < 522" | "522 \<le> unat bn" by linarith
  then show thesis
  proof cases
    case 1
    then show thesis
      by (intro that [of "unat bn" bn 0]) (simp_all add: mkfs_inode_locate_block_def Let_def word_less_nat_alt)
  next
    case 2
    have lt: "(bn - 10) < 512" "\<not> bn < 10" using 2 u by (simp_all add: word_less_nat_alt)
    have "unat ((bn - 10) div 256) < 2" using 2 u by (simp add: unat_div)
    then show thesis using lt 2
      by (intro that [of "10 + unat ((bn - 10) div 256)" "(bn - 10) mod 256" 1]) (simp_all add: mkfs_inode_locate_block_def Let_def unat_mod)
  next
    case 3
    have lt: "(bn - 10 - 512) < 65536" "\<not> bn < 10" "\<not> bn - 10 < 512" using 3 u u2 assms by (simp_all add: word_less_nat_alt)
    have z: "(bn - 10 - 512) div 65536 = 0" using lt(1) by (intro iffD2 [OF word_unat_eq_iff]) (simp add: unat_div word_less_nat_alt)
    have "(bn - 10 - 512) mod 65536 = bn - 10 - 512" using lt(1) by (intro iffD2 [OF word_unat_eq_iff]) (simp add: unat_mod word_less_nat_alt)
    then show thesis using lt 3 z
      by (intro that [of 12 "bn - 10 - 512" 2]) (simp_all add: mkfs_inode_locate_block_def Let_def word_less_nat_alt)
  qed
qed

lemma inode_locate_ok:
  assumes "lay a m st" "idx_ok m st ip" "unat bn < 66058" "m + 2 < N_BITS" "unat bn < 10 \<longrightarrow> addrs ip ! unat bn = 0"
  obtains n as t where "mkfs_inode_locate_block ip bn st = Inr (of_nat (131 + n), ip\<lparr>addrs := as\<rparr>, t)" "m \<le> n" "n \<le> m + 2"
    "lay a (Suc n) t" "only {130} st t" "idx_ok n t (ip\<lparr>addrs := as\<rparr>)"
    "\<forall>k < 10. as ! k = (if k = unat bn then of_nat (131 + n) else addrs ip ! k)"
proof -
  obtain k b l where k: "\<forall>ip st. mkfs_inode_locate_block ip bn st = bindr (mkfs_locate_block (addrs ip ! k) b (256 ^ l) st)
      (\<lambda>(ret, entry, st). Inr (ret, ip\<lparr>addrs := (addrs ip)[k := entry]\<rparr>, st))"
    "l \<le> 2" "l = 0 \<or> unat b < 256 ^ l" "k < N_ADDRS" "if unat bn < 10 then k = unat bn \<and> l = 0 else 10 \<le> k \<and> 0 < l"
    by (rule inode_locate_level [OF assms(3)])
  have bl: "m + l < N_BITS" using assms(4) k(2) by simp
  have en: "addrs ip ! k = 0 \<or> 0 < l \<and> zero_ref m st (addrs ip ! k)"
    using assms(2,5) k(4,5) by (auto simp: idx_ok_def split: if_splits)
  obtain n e t where n: "mkfs_locate_block (addrs ip ! k) b (256 ^ l) st = Inr (of_nat (131 + n), e, t)" "m \<le> n" "n \<le> m + l"
    "lay a (Suc n) t" "only {130} st t" "if l = 0 then e = of_nat (131 + n) else zero_ref n t e"
    by (rule locate_block_ok [OF assms(1) k(2,3) bl en])
  have "idx_ok n t (ip\<lparr>addrs := (addrs ip)[k := e]\<rparr>)"
    using n(6) k(5) by (intro idx_ok_upd idx_ok_same [OF assms(2) n(5) _ n(2)]) (auto split: if_splits)
  moreover have "\<forall>j < 10. (addrs ip)[k := e] ! j = (if j = unat bn then of_nat (131 + n) else addrs ip ! j)"
    using k(4,5) n(6) assms(2) by (auto simp: idx_ok_def nth_list_update split: if_splits)
  ultimately show thesis using that [of n "(addrs ip)[k := e]" t] k(1,2) n by simp
qed

section \<open>Copying a file\<close>

text \<open>The data blocks \<open>gs\<close> hold the bytes of a file from a position on; behind the last byte of the file a block holds
  what the buffer happened to have.\<close>

definition chunk :: "nat \<Rightarrow> byte list \<Rightarrow> nat \<Rightarrow> byte list" where
  "chunk pos bs i = slice (pos + BLOCK_SIZE * i) BLOCK_SIZE bs"

definition placed :: "mkfs_state \<Rightarrow> nat list \<Rightarrow> nat \<Rightarrow> byte list \<Rightarrow> bool" where
  "placed st gs pos bs \<longleftrightarrow> (\<forall>i < length gs. take (length (chunk pos bs i)) (image st ! (131 + gs ! i)) = chunk pos bs i)"

abbreviation new_blocks :: "nat \<Rightarrow> nat \<Rightarrow> nat set" where
  "new_blocks m m' \<equiv> insert 130 {131 + m..<131 + m'}"

lemma placed_Cons:
  assumes "placed t gs (pos + BLOCK_SIZE) bs" "take (length (chunk pos bs 0)) (image t ! (131 + n)) = chunk pos bs 0"
  shows "placed t (n # gs) pos bs"
proof -
  have s: "chunk pos bs (Suc i) = chunk (pos + BLOCK_SIZE) bs i" for i by (simp add: chunk_def add.assoc)
  show ?thesis using assms unfolding placed_def by (auto simp: less_Suc_eq_0_disj s)
qed

definition grown :: "dinode \<Rightarrow> nat \<Rightarrow> nat list \<Rightarrow> dinode \<Rightarrow> bool" where
  "grown ip b gs ip' \<longleftrightarrow> length (addrs ip') = N_ADDRS \<and>
     (\<forall>k < 10. addrs ip' ! k = (if b \<le> k \<and> k < b + length gs then of_nat (131 + gs ! (k - b)) else addrs ip ! k))"

lemma grown_Cons:
  assumes "\<forall>k < 10. as ! k = (if k = b then of_nat (131 + n) else addrs ip ! k)" "grown (ip\<lparr>addrs := as, isize := z\<rparr>) (Suc b) gs ip'"
  shows "grown ip b (n # gs) ip'"
  using assms unfolding grown_def by (auto simp: nth_Cons' not_less_eq_eq Suc_le_eq)

text \<open>One round of the loop.\<close>

lemma copy_step:
  fixes bs :: "byte list" and pos :: nat
  assumes "lay a m st" "idx_ok m st ip" "unat bn < 66058" "m + 2 < N_BITS" "\<forall>k < 10. unat bn \<le> k \<longrightarrow> addrs ip ! k = 0" "length buf = BLOCK_SIZE"
  defines "b \<equiv> overwrite buf 0 (chunk pos bs 0)"
  obtains n as t where "m \<le> n" "n \<le> m + 2" "lay a (Suc n) t" "only (new_blocks m (Suc n)) st t" "idx_ok (Suc n) t (ip\<lparr>addrs := as\<rparr>)"
    "\<forall>k < 10. as ! k = (if k = unat bn then of_nat (131 + n) else addrs ip ! k)" "image t ! (131 + n) = b"
    "copy_file (Regular bs) pos buf bn ip st =
       (let ip = ip\<lparr>addrs := as, isize := isize ip + of_nat (length (chunk pos bs 0))\<rparr>
        in if length (chunk pos bs 0) < BLOCK_SIZE then Inr (b, bn + 1, ip, t)
           else copy_file (Regular bs) (pos + BLOCK_SIZE) b (bn + 1) ip t)"
proof -
  have z: "unat bn < 10 \<longrightarrow> addrs ip ! unat bn = 0" using assms(5) by simp
  obtain n as t where n: "mkfs_inode_locate_block ip bn st = Inr (of_nat (131 + n), ip\<lparr>addrs := as\<rparr>, t)" "m \<le> n" "n \<le> m + 2"
    "lay a (Suc n) t" "only {130} st t" "idx_ok n t (ip\<lparr>addrs := as\<rparr>)"
    "\<forall>k < 10. as ! k = (if k = unat bn then of_nat (131 + n) else addrs ip ! k)"
    by (rule inode_locate_ok [OF assms(1-4) z])
  have nb: "131 + n < N_BLOCK" using n(3) assms(4) by simp
  have cl: "length (chunk pos bs 0) \<le> BLOCK_SIZE" by (simp add: chunk_def slice_def)
  have lb: "length b = BLOCK_SIZE" using cl assms(6) by (simp add: b_def)
  note w = block_write_ok [OF layD(1) [OF n(4)] nb, of b]
  let ?t = "put (131 + n) b t"
  have call: "copy_file (Regular bs) pos buf bn ip st =
       (let ip = ip\<lparr>addrs := as, isize := isize ip + of_nat (length (chunk pos bs 0))\<rparr>
        in if length (chunk pos bs 0) < BLOCK_SIZE then Inr (b, bn + 1, ip, ?t)
           else copy_file (Regular bs) (pos + BLOCK_SIZE) b (bn + 1) ip ?t)"
    using n(1) w by (simp add: copy_file.simps [of _ pos] b_def chunk_def Let_def)
  have l: "lay a (Suc n) ?t" by (rule lay_put [OF n(4) lb]) simp_all
  have o: "only (new_blocks m (Suc n)) st ?t" by (rule only_trans [OF n(5) only_put]) (use n(2) in auto)
  have i: "idx_ok (Suc n) ?t (ip\<lparr>addrs := as\<rparr>)" by (rule idx_ok_same [OF n(6) only_put]) simp_all
  have "image ?t ! (131 + n) = b" using layD(2) [OF n(4)] nb by (simp add: image_put)
  from that [OF n(2,3) l o i n(7) this call] show thesis .
qed

lemma copy_file_ok:
  "lay a m st \<Longrightarrow> idx_ok m st ip \<Longrightarrow> pos \<le> length bs \<Longrightarrow> c = (length bs - pos) div BLOCK_SIZE \<Longrightarrow> unat bn + c < 66058 \<Longrightarrow>
   m + 3 * Suc c \<le> N_BITS \<Longrightarrow> \<forall>k < 10. unat bn \<le> k \<longrightarrow> addrs ip ! k = 0 \<Longrightarrow> length buf = BLOCK_SIZE \<Longrightarrow>
   \<exists>buf' ip' t m' gs. copy_file (Regular bs) pos buf bn ip st = Inr (buf', bn + of_nat (Suc c), ip', t) \<and> length buf' = BLOCK_SIZE \<and>
     lay a m' t \<and> m \<le> m' \<and> m' \<le> m + 3 * Suc c \<and> only (new_blocks m m') st t \<and> length gs = Suc c \<and> sorted_wrt (<) gs \<and>
     set gs \<subseteq> {m..<m'} \<and> placed t gs pos bs \<and> grown ip (unat bn) gs ip' \<and>
     ip' = ip\<lparr>addrs := addrs ip', isize := isize ip + of_nat (length bs - pos)\<rparr>"
proof (induction c arbitrary: m st ip pos bn buf)
  case (0 m st ip pos bn buf)
  have b: "unat bn < 66058" "m + 2 < N_BITS" using 0(5,6) by simp_all
  have "length bs - pos < BLOCK_SIZE" using 0(4) by simp
  then have cl: "length (chunk pos bs 0) = length bs - pos" by (simp add: chunk_def slice_def)
  obtain n as t where n: "m \<le> n" "n \<le> m + 2" "lay a (Suc n) t" "only (new_blocks m (Suc n)) st t" "idx_ok (Suc n) t (ip\<lparr>addrs := as\<rparr>)"
    "\<forall>k < 10. as ! k = (if k = unat bn then of_nat (131 + n) else addrs ip ! k)" "image t ! (131 + n) = overwrite buf 0 (chunk pos bs 0)"
    "copy_file (Regular bs) pos buf bn ip st =
       (let ip = ip\<lparr>addrs := as, isize := isize ip + of_nat (length (chunk pos bs 0))\<rparr>
        in if length (chunk pos bs 0) < BLOCK_SIZE then Inr (overwrite buf 0 (chunk pos bs 0), bn + 1, ip, t)
           else copy_file (Regular bs) (pos + BLOCK_SIZE) (overwrite buf 0 (chunk pos bs 0)) (bn + 1) ip t)"
    by (rule copy_step [OF 0(1,2) b 0(7,8)])
  let ?ip = "ip\<lparr>addrs := as, isize := isize ip + of_nat (length bs - pos)\<rparr>"
  have "grown ip (unat bn) [n] ?ip" using n(5,6) by (auto simp: grown_def idx_ok_def)
  moreover have "placed t [n] pos bs" using n(7) by (simp add: placed_def overwrite_def)
  ultimately show ?case
    using n cl \<open>length bs - pos < BLOCK_SIZE\<close> 0(8)
    by (intro exI [of _ "overwrite buf 0 (chunk pos bs 0)"] exI [of _ ?ip] exI [of _ t] exI [of _ "Suc n"] exI [of _ "[n]"]) (simp add: Let_def)
next
  case (Suc c m st ip pos bn buf)
  have b: "unat bn < 66058" "m + 2 < N_BITS" using Suc.prems(5,6) by simp_all
  have big: "BLOCK_SIZE \<le> length bs - pos" using Suc.prems(4) by (metis Suc_le_eq div_greater_zero_iff zero_less_Suc)
  then have cl: "length (chunk pos bs 0) = BLOCK_SIZE" by (simp add: chunk_def slice_def)
  let ?b = "overwrite buf 0 (chunk pos bs 0)"
  obtain n as t where n: "m \<le> n" "n \<le> m + 2" "lay a (Suc n) t" "only (new_blocks m (Suc n)) st t" "idx_ok (Suc n) t (ip\<lparr>addrs := as\<rparr>)"
    "\<forall>k < 10. as ! k = (if k = unat bn then of_nat (131 + n) else addrs ip ! k)" "image t ! (131 + n) = ?b"
    "copy_file (Regular bs) pos buf bn ip st =
       (let ip = ip\<lparr>addrs := as, isize := isize ip + of_nat (length (chunk pos bs 0))\<rparr>
        in if length (chunk pos bs 0) < BLOCK_SIZE then Inr (?b, bn + 1, ip, t)
           else copy_file (Regular bs) (pos + BLOCK_SIZE) ?b (bn + 1) ip t)"
    by (rule copy_step [OF Suc.prems(1,2) b Suc.prems(7,8)])
  let ?ip = "ip\<lparr>addrs := as, isize := isize ip + 1024\<rparr>"
  have u: "unat (bn + 1) = Suc (unat bn)" using b(1) by (simp add: unat_plus_if')
  have i: "idx_ok (Suc n) t ?ip" using n(5) by (simp add: idx_ok_def)
  have p: "pos + BLOCK_SIZE \<le> length bs" "c = (length bs - (pos + BLOCK_SIZE)) div BLOCK_SIZE"
    using big Suc.prems(3,4) le_div_geq [of BLOCK_SIZE "length bs - pos"] by (simp_all add: diff_diff_left)
  have q: "unat (bn + 1) + c < 66058" "Suc n + 3 * Suc c \<le> N_BITS" "\<forall>k < 10. unat (bn + 1) \<le> k \<longrightarrow> addrs ?ip ! k = 0" "length ?b = BLOCK_SIZE"
    using Suc.prems(5-8) n(2,6) cl unfolding u by auto
  obtain buf' ip' v m' gs where v: "copy_file (Regular bs) (pos + BLOCK_SIZE) ?b (bn + 1) ?ip t = Inr (buf', bn + 1 + of_nat (Suc c), ip', v)"
    "length buf' = BLOCK_SIZE" "lay a m' v" "Suc n \<le> m'" "m' \<le> Suc n + 3 * Suc c" "only (new_blocks (Suc n) m') t v" "length gs = Suc c"
    "sorted_wrt (<) gs" "set gs \<subseteq> {Suc n..<m'}" "placed v gs (pos + BLOCK_SIZE) bs" "grown ?ip (unat (bn + 1)) gs ip'"
    "ip' = ?ip\<lparr>addrs := addrs ip', isize := isize ?ip + of_nat (length bs - (pos + BLOCK_SIZE))\<rparr>"
    using Suc.IH [OF n(3) i p q] by blast
  have "image v ! (131 + n) = ?b" using onlyD [OF v(6), of "131 + n"] n(7) by simp
  then have pl: "placed v (n # gs) pos bs" by (intro placed_Cons [OF v(10)]) (simp add: overwrite_def)
  have g: "grown ip (unat bn) (n # gs) ip'" using v(11) unfolding u by (rule grown_Cons [OF n(6)])
  have o: "only (new_blocks m m') st v" by (rule only_trans [OF n(4) v(6)]) (use n(1) v(4) in auto)
  have "length bs - pos = BLOCK_SIZE + (length bs - (pos + BLOCK_SIZE))" using big by simp
  then have sz: "(1024 :: u32) + of_nat (length bs - (pos + BLOCK_SIZE)) = of_nat (length bs - pos)"
    by (simp only: of_nat_add of_nat_numeral)
  have "ip' = ip\<lparr>addrs := addrs ip', isize := isize ip + of_nat (length bs - pos)\<rparr>"
    by (subst v(12)) (simp add: add.assoc sz)
  moreover have "copy_file (Regular bs) pos buf bn ip st = Inr (buf', bn + of_nat (Suc (Suc c)), ip', v)"
    unfolding n(8) cl using v(1) by (simp add: Let_def add.assoc)
  moreover have "sorted_wrt (<) (n # gs)" using v(8,9) by auto
  ultimately show ?case
    using v(2-5,7,9) n(1,2) pl g o
    by (intro exI [of _ buf'] exI [of _ ip'] exI [of _ v] exI [of _ m'] exI [of _ "n # gs"]) (auto simp del: sorted_wrt.simps)
qed

section \<open>Inodes and directory entries on the image\<close>

definition img_inode :: "mkfs_state \<Rightarrow> nat \<Rightarrow> dinode" where
  "img_inode st n = dinode_of_bytes (slice (n mod 16 * INODE_DISK_SIZE) INODE_DISK_SIZE (image st ! (n div 16 + 2)))"

lemma mod16_place: "(n :: nat) mod 16 * INODE_DISK_SIZE + INODE_DISK_SIZE \<le> BLOCK_SIZE"
proof -
  have "n mod 16 < 16" by simp
  then show ?thesis by linarith
qed

lemma img_inode_same: "only S st t \<Longrightarrow> n div 16 + 2 \<notin> S \<Longrightarrow> img_inode t n = img_inode st n"
  using onlyD [of S st t "n div 16 + 2"] by (simp add: img_inode_def)

lemma img_write_ok:
  assumes "lay a m st" "n < 2048" "length (addrs ip) = N_ADDRS"
  obtains t where "mkfs_inode_write (of_nat n) ip st = Inr t" "lay a m t" "only {n div 16 + 2} st t" "img_inode t n = ip"
    "\<forall>k < 2048. k \<noteq> n \<longrightarrow> img_inode t k = img_inode st k"
proof -
  note d = layD [OF assms(1)]
  let ?k = "n div 16 + 2" and ?o = "n mod 16 * INODE_DISK_SIZE"
  let ?b = "overwrite (image st ! ?k) ?o (dinode_bytes ip)"
  have k: "?k < N_BLOCK" "?k \<noteq> 1" "?k \<noteq> 130" "?k < 131 + m" using assms(2) by auto
  have u: "unat (of_nat n :: u16) = n" using assms(2) by (simp add: unat_of_nat take_bit_nat_eq_self)
  have "(ucast (of_nat n :: u16) :: u32) = of_nat n" using u unat_small [of n] assms(2) by (intro iffD2 [OF word_unat_eq_iff]) simp
  moreover have "(of_nat n div 16 :: u32) = of_nat (n div 16)"
    using assms(2) unat_small [of n] unat_small [of "n div 16"] by (intro iffD2 [OF word_unat_eq_iff]) (simp add: unat_div)
  ultimately have b: "INODE_LOCATE_BLOCK (ucast (of_nat n :: u16)) (msb st) = of_nat ?k"
    unfolding INODE_LOCATE_BLOCK_def d(4) by simp
  have len: "length (dinode_bytes ip) = INODE_DISK_SIZE" "length (image st ! ?k) = BLOCK_SIZE"
    using length_dinode_bytes [OF assms(3)] d(3) [OF k(1)] by auto
  have lb: "length ?b = BLOCK_SIZE" using len mod16_place [of n] by simp
  have call: "mkfs_inode_write (of_nat n) ip st = Inr (put ?k ?b st)"
    unfolding mkfs_inode_write_def b u Let_def block_read_ok [OF d(1) k(1)] bindr_Inr by (rule block_write_ok [OF d(1) k(1)])
  have img: "image (put ?k ?b st) ! ?k = ?b" using d(2) k(1) by (simp add: image_put)
  have self: "img_inode (put ?k ?b st) n = ip"
    unfolding img_inode_def img using dinode_layout.read_written [OF assms(3)] len(2) mod16_place [of n] by simp
  have other: "img_inode (put ?k ?b st) j = img_inode st j" if j: "j < 2048" "j \<noteq> n" for j
  proof (cases "j div 16 = n div 16")
    case False
    then show ?thesis by (intro img_inode_same [OF only_put]) simp
  next
    case True
    with j(2) have "j mod 16 \<noteq> n mod 16" by (metis div_mult_mod_eq)
    then have "j mod 16 * INODE_DISK_SIZE + INODE_DISK_SIZE \<le> ?o \<or> ?o + INODE_DISK_SIZE \<le> j mod 16 * INODE_DISK_SIZE" by linarith
    then show ?thesis
      unfolding img_inode_def True img using dinode_layout.read_other [OF assms(3), of ?o "image st ! ?k"] len(2) mod16_place by simp
  qed
  show thesis by (rule that [OF call lay_put [OF assms(1) lb k(2,3,4)] only_put self]) (use other in blast)
qed

text \<open>The first entries of a directory block.\<close>

definition dir_block :: "dirent list \<Rightarrow> byte list \<Rightarrow> bool" where
  "dir_block des d \<longleftrightarrow> length d = BLOCK_SIZE \<and> (\<forall>k < length des. slice (32 * k) 32 d = dirent_bytes (des ! k) \<and> length (dname (des ! k)) = DIR_NAME_LEN)"

definition new_entry :: "byte list \<Rightarrow> byte list \<Rightarrow> u16 \<Rightarrow> dirent" where
  "new_entry residue nm num = \<lparr>dnum = num, dname = overwrite residue 0 (nm @ [0])\<rparr>"

lemma dir_block_snoc:
  assumes "dir_block des d" "length des < 32" "length (dname de) = DIR_NAME_LEN"
  shows "dir_block (des @ [de]) (overwrite d (32 * length des) (dirent_bytes de))"
proof -
  note l = dirent_layout(2) [OF assms(3)]
  have d: "length d = BLOCK_SIZE" using assms(1) by (simp add: dir_block_def)
  have "slice (32 * k) 32 (overwrite d (32 * length des) (dirent_bytes de)) = dirent_bytes ((des @ [de]) ! k)" if "k < Suc (length des)" for k
  proof (cases "k = length des")
    case True
    then show ?thesis using l d assms(2) by (simp add: slice_overwrite_same)
  next
    case False
    then have "slice (32 * k) 32 (overwrite d (32 * length des) (dirent_bytes de)) = slice (32 * k) 32 d"
      using that l d assms(2) by (intro slice_overwrite_other) auto
    then show ?thesis using False that assms(1) by (simp add: dir_block_def nth_append)
  qed
  then show ?thesis using assms l d by (auto simp: dir_block_def nth_append less_Suc_eq)
qed

lemma dirent_create_ok:
  assumes "lay a m st" "0 < m" "dir_block des (image st ! 131)" "length des < 32" "length residue = DIR_NAME_LEN" "length nm < DIR_NAME_LEN"
  obtains t where "dirent_create residue (of_nat 131) (of_nat (32 * length des)) nm num st = Inr (of_nat (32 * Suc (length des)), t)"
    "lay a m t" "only {131} st t" "dir_block (des @ [new_entry residue nm num]) (image t ! 131)"
proof -
  note d = layD [OF assms(1)]
  let ?de = "new_entry residue nm num" and ?o = "32 * length des"
  let ?b = "overwrite (image st ! 131) ?o (dirent_bytes ?de)"
  have k: "131 < N_BLOCK" by simp
  have de: "length (dname ?de) = DIR_NAME_LEN" using assms(5,6) by (simp add: new_entry_def)
  have u: "unat (of_nat ?o :: u32) = ?o" using assms(4) by (intro unat_small) simp
  note db = dir_block_snoc [OF assms(3,4) de]
  have nu: "(ucast (ucast num :: u32) :: u16) = num" by (rule bit_word_eqI) (simp add: bit_simps)
  have lb: "length ?b = BLOCK_SIZE" using db by (simp add: dir_block_def)
  have nb: "\<not> BLOCK_SIZE < ?o + 32" using assms(4) by simp
  have "dirent_create residue (of_nat 131) (of_nat ?o) nm num st = Inr (of_nat ?o + DIRENT_SIZE, put 131 ?b st)"
    unfolding dirent_create_def block_read_ok [OF d(1) k] block_write_ok [OF d(1) k] u
    using assms(6) nb by (simp add: Let_def nu new_entry_def)
  moreover have "(of_nat ?o + DIRENT_SIZE :: u32) = of_nat (32 * Suc (length des))" by simp
  moreover have "lay a m (put 131 ?b st)" by (rule lay_put [OF assms(1) lb]) (use assms(2) in simp_all)
  moreover have "image (put 131 ?b st) ! 131 = ?b" using d(2) by (simp add: image_put)
  ultimately show thesis using that [of "put 131 ?b st"] db by simp
qed

end
