(* ===== verification/Mkfs_Main.thy ===== *)
theory Mkfs_Main
  imports Mkfs_Image
begin

text \<open>
  The image \<^verbatim>\<open>mkfs\<close> makes from its command line.  \<open>imgst m des fs st\<close> describes it: \<open>des\<close> are the entries of the root directory,
  \<open>fs\<close> the files in the order of the command line, each with the number the variable \<^verbatim>\<open>bn\<close> had when the file was begun, and
  \<open>m\<close> data blocks are used.
\<close>

section \<open>The empty file system\<close>

lemma zero_blocks_ok:
  assumes "length (image st) = n" "N \<le> room st" "N < 2 ^ 22" "n \<le> N"
  shows "zero_blocks [n..<N] st = Inr (st\<lparr>image := image st @ replicate (N - n) zero_block\<rparr>)"
  using assms
proof (induction "N - n" arbitrary: n st)
  case 0
  then show ?case by simp
next
  case (Suc x)
  have n: "n < N" "seek_block (of_nat n) = n" using Suc.hyps(2) Suc.prems(3) by (simp_all add: seek_block_of_nat)
  let ?t = "st\<lparr>image := image st @ [zero_block]\<rparr>"
  have w: "block_write (of_nat n) zero_block st = Inr ?t"
    using n Suc.prems(1,2) by (simp add: block_write_def Let_def list_update_append)
  have "zero_blocks [Suc n..<N] ?t = Inr (?t\<lparr>image := image ?t @ replicate (N - Suc n) zero_block\<rparr>)"
    by (rule Suc.hyps(1)) (use Suc n in auto)
  moreover have "N - n = Suc (N - Suc n)" using n(1) by simp
  ultimately show ?case using w n(1) by (simp add: upt_conv_Cons)
qed

lemma sb_bytes_of: "length (sb_bytes b) = 36" "sb_of_bytes (sb_bytes b @ r) = b"
proof -
  let ?f = "[magic b, block_size b, inode_bitmap_start b, inode_start b, data_bitmap_start b, data_start b, inode_blocks b, data_blocks b, total_blocks b]"
  show len: "length (sb_bytes b) = 36" unfolding sb_bytes_def using length_concat_le [of ?f] by simp
  have "le_word (slice (4 * k) 4 (sb_bytes b @ r)) = ?f ! k" if "k < 9" for k
  proof -
    have "slice (4 * k) 4 (sb_bytes b @ r) = slice (4 * k) 4 (sb_bytes b)" using len that by (intro slice_append_take) simp
    also have "\<dots> = le_bytes 4 (?f ! k)" unfolding sb_bytes_def using that by (intro slice_concat_le) simp
    finally show ?thesis by (simp only: le_roundtrip32)
  qed
  from this [of 0] this [of 1] this [of 2] this [of 3] this [of 4] this [of 5] this [of 6] this [of 7] this [of 8]
  show "sb_of_bytes (sb_bytes b @ r) = b" by (simp add: sb_of_bytes_def)
qed

interpretation sb_layout: record_layout 36 sb_bytes sb_of_bytes "\<lambda>_. True"
  by unfold_locales (use sb_bytes_of(1) sb_bytes_of(2) [of _ "[]"] in simp_all)

lemma used_bits_zero: "used_bits zero_block = {..<0}"
  by (auto simp: used_bits_def bitmap_bit_def)

lemma format_image_ok:
  assumes "N_BLOCK \<le> rm"
  obtains buf st where "format_image \<lparr>image = [], msb = mkfs_sb, room = rm\<rparr> = Inr (buf, st)" "length buf = BLOCK_SIZE" "lay 0 0 st"
    "sb_of_bytes (image st ! 0) = mkfs_sb"
proof -
  let ?z = "\<lparr>image = replicate N_BLOCK zero_block, msb = mkfs_sb, room = rm\<rparr>" and ?b = "overwrite zero_block 0 (sb_bytes mkfs_sb)"
  have "zero_blocks [0..<N_BLOCK] \<lparr>image = [], msb = mkfs_sb, room = rm\<rparr> = Inr ?z"
    using zero_blocks_ok [of "\<lparr>image = [], msb = mkfs_sb, room = rm\<rparr>" 0 N_BLOCK] assms by simp
  moreover have ok: "mk_ok ?z" using assms by (simp add: mk_ok_def)
  moreover have "block_write 0 ?b ?z = Inr (put 0 ?b ?z)" using block_write_ok [OF ok, of 0] by simp
  ultimately have call: "format_image \<lparr>image = [], msb = mkfs_sb, room = rm\<rparr> = Inr (?b, put 0 ?b ?z)"
    by (simp add: format_image_def Let_def del: upt_Suc replicate_Suc)
  have len: "length ?b = BLOCK_SIZE" using sb_bytes_of(1) [of mkfs_sb] by simp
  have "lay 0 0 (put 0 ?b ?z)"
    unfolding lay_def using mk_ok_put [OF ok len, of 0] used_bits_zero by (simp add: image_put)
  moreover have "sb_of_bytes (image (put 0 ?b ?z) ! 0) = mkfs_sb"
    using sb_bytes_of(2) by (simp add: image_put overwrite_def)
  ultimately show thesis using that [OF call len] by blast
qed

definition root_inode :: dinode where
  "root_inode = \<lparr>itype = FT_DIR, imajor = 0, iminor = 0, nlink = 1, isize = 0, addrs = replicate N_ADDRS 0\<rparr>"

abbreviation dots :: "(nat \<Rightarrow> byte list) \<Rightarrow> dirent list" where
  "dots residue \<equiv> [new_entry (residue 0) [46] 0, new_entry (residue 1) [46, 46] 0]"

lemma make_root_ok:
  assumes "lay 0 0 st" "length (residue 0) = DIR_NAME_LEN" "length (residue 1) = DIR_NAME_LEN"
  obtains t where "make_root residue st = Inr (of_nat 131, of_nat 64, root_inode, t)" "lay 1 1 t" "dir_block (dots residue) (image t ! 131)"
    "image t ! 0 = image st ! 0"
proof -
  obtain s1 where s1: "mkfs_inode_alloc st = Inr (of_nat 0, s1)" "lay (Suc 0) 0 s1" "only {1} st s1"
    by (rule inode_alloc_ok [OF assms(1)]) simp
  obtain s2 where s2: "mkfs_block_alloc s1 = Inr (of_nat (131 + 0), s2)" "lay (Suc 0) (Suc 0) s2" "only {130} s1 s2"
    by (rule block_alloc_ok [OF s1(2)]) simp
  have ad: "length (addrs root_inode) = N_ADDRS" by (simp add: root_inode_def)
  obtain s3 where s3: "mkfs_inode_write (of_nat 0) root_inode s2 = Inr s3" "lay (Suc 0) (Suc 0) s3" "only {0 div 16 + 2} s2 s3"
    by (rule img_write_ok [OF s2(2) _ ad, of 0]) simp
  have "length (image s3 ! 131) = BLOCK_SIZE" using layD(3) [OF s3(2)] by simp
  then have d3: "dir_block [] (image s3 ! 131)" by (simp add: dir_block_def)
  obtain s4 where s4: "dirent_create (residue 0) (of_nat 131) (of_nat (32 * length ([] :: dirent list))) [46] 0 s3 = Inr (of_nat (32 * Suc (length ([] :: dirent list))), s4)"
    "lay (Suc 0) (Suc 0) s4" "only {131} s3 s4" "dir_block ([] @ [new_entry (residue 0) [46] 0]) (image s4 ! 131)"
    by (rule dirent_create_ok [OF s3(2) _ d3 _ assms(2), of "[46]" 0]) simp_all
  obtain s5 where s5: "dirent_create (residue 1) (of_nat 131) (of_nat (32 * length ([] @ [new_entry (residue 0) [46] 0]))) [46, 46] 0 s4 =
      Inr (of_nat (32 * Suc (length ([] @ [new_entry (residue 0) [46] 0]))), s5)"
    "lay (Suc 0) (Suc 0) s5" "only {131} s4 s5" "dir_block (([] @ [new_entry (residue 0) [46] 0]) @ [new_entry (residue 1) [46, 46] 0]) (image s5 ! 131)"
    by (rule dirent_create_ok [OF s4(2) _ s4(4) _ assms(3), of "[46, 46]" 0]) simp_all
  have "make_root residue st = Inr (of_nat 131, of_nat 64, root_inode, s5)"
    using s1(1) s2(1) s3(1) s4(1) s5(1) by (simp add: make_root_def mkfs_inode_create_def root_inode_def)
  moreover have "image s5 ! 0 = image st ! 0"
    using onlyD [OF s1(3), of 0] onlyD [OF s2(3), of 0] onlyD [OF s3(3), of 0] onlyD [OF s4(3), of 0] onlyD [OF s5(3), of 0] by simp
  ultimately show thesis using that s5(2,4) by simp
qed

section \<open>Programs on the image\<close>

text \<open>An argument that names a program, its name in the root directory and its contents on the host.\<close>

definition program :: "host \<Rightarrow> byte list \<times> byte list \<times> byte list \<Rightarrow> bool" where
  "program h = (\<lambda>(arg, nm, bs). length arg = 8 + length nm \<and> drop 7 arg = 95 # nm \<and> slash \<notin> set nm \<and> length nm < DIR_NAME_LEN \<and>
     host_file h arg = Regular bs)"

definition n_chunks :: "byte list \<Rightarrow> nat" where
  "n_chunks bs = Suc (length bs div BLOCK_SIZE)"

definition file_inode :: dinode where
  "file_inode = \<lparr>itype = FT_FILE, imajor = 0, iminor = 0, nlink = 1, isize = 0, addrs = replicate N_ADDRS 0\<rparr>"

text \<open>A file that was begun at \<open>bn = b\<close>: the inode, and its data in the blocks \<open>gs\<close>.\<close>

definition file_on :: "mkfs_state \<Rightarrow> nat \<Rightarrow> nat \<Rightarrow> byte list \<Rightarrow> dinode \<Rightarrow> bool" where
  "file_on st m b bs ip \<longleftrightarrow> (\<exists>gs. length gs = n_chunks bs \<and> sorted_wrt (<) gs \<and> set gs \<subseteq> {1..<m} \<and> placed st gs 0 bs \<and> grown file_inode b gs ip) \<and>
     ip = file_inode\<lparr>addrs := addrs ip, isize := of_nat (length bs)\<rparr>"

definition imgst :: "nat \<Rightarrow> dirent list \<Rightarrow> (nat \<times> byte list) list \<Rightarrow> mkfs_state \<Rightarrow> bool" where
  "imgst m des fs st \<longleftrightarrow> lay (Suc (length fs)) m st \<and> 0 < m \<and> dir_block des (image st ! 131) \<and> length des = length fs + 2 \<and>
     sb_of_bytes (image st ! 0) = mkfs_sb \<and> (\<forall>i < length fs. file_on st m (fst (fs ! i)) (snd (fs ! i)) (img_inode st (Suc i)))"

lemma placed_same:
  assumes "placed st gs pos bs" "only S st t" "\<And>g. g \<in> set gs \<Longrightarrow> 131 + g \<notin> S"
  shows "placed t gs pos bs"
  using assms(1,3) onlyD [OF assms(2)] by (simp add: placed_def)

lemma file_on_same:
  assumes "file_on st m b bs ip" "only S st t" "\<And>g. 1 \<le> g \<Longrightarrow> g < m \<Longrightarrow> 131 + g \<notin> S" "m \<le> m'"
  shows "file_on t m' b bs ip"
proof -
  obtain gs where gs: "length gs = n_chunks bs" "sorted_wrt (<) gs" "set gs \<subseteq> {1..<m}" "placed st gs 0 bs" "grown file_inode b gs ip"
    using assms(1) by (auto simp: file_on_def)
  have "placed t gs 0 bs" by (rule placed_same [OF gs(4) assms(2)]) (use gs(3) assms(3) in auto)
  moreover have "set gs \<subseteq> {1..<m'}" using gs(3) assms(4) by auto
  ultimately show ?thesis using gs assms(1) unfolding file_on_def by blast
qed

lemma program_checks:
  assumes "program h (arg, nm, bs)"
  shows "\<not> length arg < 7" "drop 7 arg = 95 # nm" "slash \<notin> set (95 # nm)" "length nm < DIR_NAME_LEN" "host_file h arg = Regular bs"
  using assms by (auto simp: program_def)

lemma add_program_ok:
  assumes img: "imgst m des fs st" and p: "program h (arg, nm, bs)" and r: "length residue = DIR_NAME_LEN" and n: "length fs < 30"
    and bn: "unat bn + n_chunks bs \<le> 66058" and m: "m + 3 * n_chunks bs \<le> N_BITS" and buf: "length buf = BLOCK_SIZE"
  obtains buf' t m' where "add_program h residue (of_nat 131) arg (of_nat (32 * length des), bn, buf, st) =
      Inr (of_nat (32 * Suc (length des)), bn + of_nat (n_chunks bs), buf', t)" "length buf' = BLOCK_SIZE" "m' \<le> m + 3 * n_chunks bs"
    "imgst m' (des @ [new_entry residue nm (of_nat (Suc (length fs)))]) (fs @ [(unat bn, bs)]) t"
proof -
  let ?i = "Suc (length fs)"
  note c = program_checks [OF p]
  have i: "lay ?i m st" "0 < m" "dir_block des (image st ! 131)" "length des = length fs + 2" "sb_of_bytes (image st ! 0) = mkfs_sb"
    "\<And>j. j < length fs \<Longrightarrow> file_on st m (fst (fs ! j)) (snd (fs ! j)) (img_inode st (Suc j))"
    using img by (auto simp: imgst_def)
  have ad: "length (addrs file_inode) = N_ADDRS" by (simp add: file_inode_def)
  have i2: "?i < 2048" "?i < N_BITS" "length des < 32" using n i(4) by simp_all
  obtain s1 where s1: "mkfs_inode_alloc st = Inr (of_nat ?i, s1)" "lay (Suc ?i) m s1" "only {1} st s1" by (rule inode_alloc_ok [OF i(1) i2(2)])
  obtain s2 where s2: "mkfs_inode_write (of_nat ?i) file_inode s1 = Inr s2" "lay (Suc ?i) m s2" "only {?i div 16 + 2} s1 s2"
    "img_inode s2 ?i = file_inode" "\<forall>k < 2048. k \<noteq> ?i \<longrightarrow> img_inode s2 k = img_inode s1 k" by (rule img_write_ok [OF s1(2) i2(1) ad])
  have ib: "?i div 16 + 2 < 4" using n by simp
  have d2: "dir_block des (image s2 ! 131)" using i(3) onlyD [OF s1(3), of 131] onlyD [OF s2(3), of 131] ib by simp
  obtain s3 where s3: "dirent_create residue (of_nat 131) (of_nat (32 * length des)) nm (of_nat ?i) s2 = Inr (of_nat (32 * Suc (length des)), s3)"
    "lay (Suc ?i) m s3" "only {131} s2 s3" "dir_block (des @ [new_entry residue nm (of_nat ?i)]) (image s3 ! 131)"
    by (rule dirent_create_ok [OF s2(2) i(2) d2 i2(3) r c(4)])
  have x: "idx_ok m s3 file_inode" "\<forall>k < 10. unat bn \<le> k \<longrightarrow> addrs file_inode ! k = 0" by (simp_all add: idx_ok_def file_inode_def)
  have b: "unat bn + length bs div BLOCK_SIZE < 66058" "m + 3 * Suc (length bs div BLOCK_SIZE) \<le> N_BITS" using bn m by (simp_all add: n_chunks_def)
  have p0: "0 \<le> length bs" "length bs div BLOCK_SIZE = (length bs - 0) div BLOCK_SIZE" by simp_all
  obtain buf' ip' s4 m' gs where s4: "copy_file (Regular bs) 0 buf bn file_inode s3 = Inr (buf', bn + of_nat (n_chunks bs), ip', s4)"
    "length buf' = BLOCK_SIZE" "lay (Suc ?i) m' s4" "m \<le> m'" "m' \<le> m + 3 * n_chunks bs" "only (new_blocks m m') s3 s4" "length gs = n_chunks bs"
    "sorted_wrt (<) gs" "set gs \<subseteq> {m..<m'}" "placed s4 gs 0 bs" "grown file_inode (unat bn) gs ip'"
    "ip' = file_inode\<lparr>addrs := addrs ip', isize := isize file_inode + of_nat (length bs - 0)\<rparr>"
    using copy_file_ok [OF s3(2) x(1) p0 b x(2) buf] unfolding n_chunks_def by blast
  have ai: "length (addrs ip') = N_ADDRS" using s4(11) by (simp add: grown_def)
  obtain s5 where s5: "mkfs_inode_write (of_nat ?i) ip' s4 = Inr s5" "lay (Suc ?i) m' s5" "only {?i div 16 + 2} s4 s5" "img_inode s5 ?i = ip'"
    "\<forall>k < 2048. k \<noteq> ?i \<longrightarrow> img_inode s5 k = img_inode s4 k" by (rule img_write_ok [OF s4(3) i2(1) ai])
  have ipx: "ip'\<lparr>addrs := map xint (addrs ip'), isize := xint (isize ip')\<rparr> = ip'" by (simp add: map_idI)
  have call: "add_program h residue (of_nat 131) arg (of_nat (32 * length des), bn, buf, st) =
      Inr (of_nat (32 * Suc (length des)), bn + of_nat (n_chunks bs), buf', s5)"
    unfolding add_program_def prod.case Let_def c(2)
    using c(1,3,5) s1(1) s2(1) s3(1) s4(1) s5(1) ipx
    by (simp add: mkfs_inode_create_def file_inode_def Let_def del: of_nat_Suc of_nat_mult)
  let ?S = "{1, ?i div 16 + 2, 131} \<union> new_blocks m m'"
  have o3: "only ({1, ?i div 16 + 2, 131}) st s3"
    by (rule only_trans [OF only_trans [OF s1(3) s2(3) subset_refl] s3(3)]) auto
  have o: "only ?S st s5" by (rule only_trans [OF only_trans [OF o3 s4(6) subset_refl] s5(3)]) auto
  have bl: "dir_block (des @ [new_entry residue nm (of_nat ?i)]) (image s5 ! 131)"
    using s3(4) onlyD [OF s4(6), of 131] onlyD [OF s5(3), of 131] i(2) ib by simp
  have old: "img_inode s5 (Suc j) = img_inode st (Suc j)" if j: "j < length fs" for j
  proof -
    have "img_inode s1 (Suc j) = img_inode st (Suc j)" by (rule img_inode_same [OF s1(3)]) simp
    moreover have "img_inode s4 (Suc j) = img_inode s3 (Suc j)" by (rule img_inode_same [OF s4(6)]) (use j n in auto)
    moreover have "img_inode s3 (Suc j) = img_inode s2 (Suc j)" by (rule img_inode_same [OF s3(3)]) (use j n in auto)
    ultimately show ?thesis using s2(5) s5(5) j n by simp
  qed
  have keep: "file_on s5 m' (fst (fs ! j)) (snd (fs ! j)) (img_inode s5 (Suc j))" if j: "j < length fs" for j
    unfolding old [OF j] by (rule file_on_same [OF i(6) [OF j] o _ s4(4)]) (use ib in auto)
  have "placed s5 gs 0 bs" by (rule placed_same [OF s4(10) s5(3)]) (use ib in auto)
  then have new: "file_on s5 m' (unat bn) bs (img_inode s5 ?i)"
    unfolding file_on_def s5(4) using s4(7-9,11,12) i(2) by (auto simp: file_inode_def intro!: exI [of _ gs])
  have "imgst m' (des @ [new_entry residue nm (of_nat ?i)]) (fs @ [(unat bn, bs)]) s5"
    unfolding imgst_def using s5(2) bl i(2,4,5) onlyD [OF o, of 0] keep new s4(4) by (auto simp: nth_append less_Suc_eq)
  from that [OF call s4(2,5) this] show thesis .
qed

section \<open>The whole command line\<close>

text \<open>What a list of programs becomes: the files with the value of \<^verbatim>\<open>bn\<close> each starts with, their directory entries, and the
  number of blocks written.\<close>

primrec places :: "nat \<Rightarrow> (byte list \<times> byte list \<times> byte list) list \<Rightarrow> (nat \<times> byte list) list" where
  "places b [] = []"
| "places b (p # ps) = (b, snd (snd p)) # places (b + n_chunks (snd (snd p))) ps"

primrec prog_entries :: "(nat \<Rightarrow> byte list) \<Rightarrow> nat \<Rightarrow> (byte list \<times> byte list \<times> byte list) list \<Rightarrow> dirent list" where
  "prog_entries residue i [] = []"
| "prog_entries residue i (p # ps) = new_entry (residue (Suc i)) (fst (snd p)) (of_nat i) # prog_entries residue (Suc i) ps"

primrec total_chunks :: "(byte list \<times> byte list \<times> byte list) list \<Rightarrow> nat" where
  "total_chunks [] = 0"
| "total_chunks (p # ps) = n_chunks (snd (snd p)) + total_chunks ps"

lemma length_places [simp]: "length (places b ps) = length ps" "length (prog_entries residue i ps) = length ps"
  by (induction ps arbitrary: b i) simp_all

lemma add_programs_ok:
  "imgst m des fs st \<Longrightarrow> \<forall>p \<in> set ps. program h p \<Longrightarrow> \<forall>i. length (residue i) = DIR_NAME_LEN \<Longrightarrow> length fs + length ps \<le> 30 \<Longrightarrow>
   unat bn + total_chunks ps \<le> 66058 \<Longrightarrow> m + 3 * total_chunks ps \<le> N_BITS \<Longrightarrow> length buf = BLOCK_SIZE \<Longrightarrow>
   \<exists>bn' buf' t m'. add_programs h residue (of_nat 131) (length fs + 2) (map fst ps) (of_nat (32 * length des), bn, buf, st) =
       Inr (of_nat (32 * (length des + length ps)), bn', buf', t) \<and>
     m' \<le> m + 3 * total_chunks ps \<and> imgst m' (des @ prog_entries residue (Suc (length fs)) ps) (fs @ places (unat bn) ps) t"
proof (induction ps arbitrary: m des fs st bn buf)
  case Nil
  then show ?case by auto
next
  case (Cons p ps)
  obtain arg nm bs where p: "p = (arg, nm, bs)" by (cases p)
  have pr: "program h (arg, nm, bs)" "length (residue (length fs + 2)) = DIR_NAME_LEN" "length fs < 30" "unat bn + n_chunks bs \<le> 66058"
    "m + 3 * n_chunks bs \<le> N_BITS"
    using Cons.prems p by auto
  obtain buf' t m' where t: "add_program h (residue (length fs + 2)) (of_nat 131) arg (of_nat (32 * length des), bn, buf, st) =
      Inr (of_nat (32 * Suc (length des)), bn + of_nat (n_chunks bs), buf', t)" "length buf' = BLOCK_SIZE" "m' \<le> m + 3 * n_chunks bs"
    "imgst m' (des @ [new_entry (residue (length fs + 2)) nm (of_nat (Suc (length fs)))]) (fs @ [(unat bn, bs)]) t"
    by (rule add_program_ok [OF Cons.prems(1) pr Cons.prems(7)])
  have u: "unat (bn + of_nat (n_chunks bs)) = unat bn + n_chunks bs"
    using pr(4) unat_small [of "n_chunks bs"] by (simp add: unat_plus_if')
  let ?des = "des @ [new_entry (residue (length fs + 2)) nm (of_nat (Suc (length fs)))]" and ?fs = "fs @ [(unat bn, bs)]"
  let ?off = "of_nat (32 * (length des + length (p # ps))) :: u32"
  have off: "of_nat (32 * (length ?des + length ps)) = ?off" by simp
  obtain bn' b' v n' where v: "add_programs h residue (of_nat 131) (length ?fs + 2) (map fst ps)
      (of_nat (32 * length ?des), bn + of_nat (n_chunks bs), buf', t) = Inr (?off, bn', b', v)" "n' \<le> m' + 3 * total_chunks ps"
    "imgst n' (?des @ prog_entries residue (Suc (length ?fs)) ps) (?fs @ places (unat (bn + of_nat (n_chunks bs))) ps) v"
    using Cons.IH [OF t(4) _ Cons.prems(3) _ _ _ t(2), of "bn + of_nat (n_chunks bs)"] Cons.prems p t(3) u unfolding off by force
  have "add_programs h residue (of_nat 131) (length fs + 2) (map fst (p # ps)) (of_nat (32 * length des), bn, buf, st) = Inr (?off, bn', b', v)"
    using v(1) t(1) p by (simp del: of_nat_Suc of_nat_mult)
  moreover have "n' \<le> m + 3 * total_chunks (p # ps)" using v(2) t(3) p by simp
  ultimately show ?case using v(3) p u by (intro exI [of _ bn'] exI [of _ b'] exI [of _ v] exI [of _ n']) (simp del: of_nat_add of_nat_mult)
qed

text \<open>The inode of the root directory at the end.\<close>

definition final_root :: "nat \<Rightarrow> dinode" where
  "final_root argc = root_inode\<lparr>addrs := 131 # replicate 12 0, isize := of_nat (32 * argc)\<rparr>"

lemma main_start:
  assumes "can_create h im" "\<forall>i. length (residue i) = DIR_NAME_LEN" "N_BLOCK \<le> rm"
  obtains buf st where "imgst 1 (dots residue) [] st" "length buf = BLOCK_SIZE"
    "mkfs_main h residue rm (cmd # im # args) =
       bindr (add_programs h residue (of_nat 131) 2 args (of_nat 64, 0, buf, st)) (\<lambda>(_, _, _, st). mkfs_inode_write 0 (final_root (2 + length args)) st)"
proof -
  obtain buf s1 where s1: "format_image \<lparr>image = [], msb = mkfs_sb, room = rm\<rparr> = Inr (buf, s1)" "length buf = BLOCK_SIZE" "lay 0 0 s1"
    "sb_of_bytes (image s1 ! 0) = mkfs_sb" by (rule format_image_ok [OF assms(3)])
  obtain s2 where s2: "make_root residue s1 = Inr (of_nat 131, of_nat 64, root_inode, s2)" "lay 1 1 s2" "dir_block (dots residue) (image s2 ! 131)"
    "image s2 ! 0 = image s1 ! 0" by (rule make_root_ok [OF s1(3), of residue]) (use assms(2) in auto)
  have root: "root_inode\<lparr>addrs := (addrs root_inode)[0 := xint (of_nat 131)], isize := xint (32 * of_nat (length (cmd # im # args)))\<rparr> =
      final_root (2 + length args)"
    by (simp add: final_root_def root_inode_def eval_nat_numeral)
  show thesis
  proof (rule that)
    show "imgst 1 (dots residue) [] s2" using s2 s1(4) by (simp add: imgst_def)
    show "length buf = BLOCK_SIZE" by (rule s1(2))
    show "mkfs_main h residue rm (cmd # im # args) =
       bindr (add_programs h residue (of_nat 131) 2 args (of_nat 64, 0, buf, s2)) (\<lambda>(_, _, _, st). mkfs_inode_write 0 (final_root (2 + length args)) st)"
      unfolding mkfs_main_def using assms(1) s1(1) s2(1) by (simp add: root [simplified])
  qed
qed

lemma mkfs_main_ok:
  assumes "can_create h im" "\<forall>p \<in> set ps. program h p" "\<forall>i. length (residue i) = DIR_NAME_LEN" "length ps \<le> 30" "1 + 3 * total_chunks ps \<le> N_BITS"
    "N_BLOCK \<le> rm"
  obtains st m where "mkfs_main h residue rm (cmd # im # map fst ps) = Inr st" "imgst m (dots residue @ prog_entries residue 1 ps) (places 0 ps) st"
    "img_inode st 0 = final_root (2 + length ps)" "m \<le> 1 + 3 * total_chunks ps"
proof -
  obtain buf s2 where s2: "imgst 1 (dots residue) [] s2" "length buf = BLOCK_SIZE"
    "mkfs_main h residue rm (cmd # im # map fst ps) =
       bindr (add_programs h residue (of_nat 131) 2 (map fst ps) (of_nat 64, 0, buf, s2))
         (\<lambda>(_, _, _, st). mkfs_inode_write 0 (final_root (2 + length (map fst ps))) st)"
    by (rule main_start [OF assms(1,3,6)])
  obtain off bn' buf' s3 m where s3: "add_programs h residue (of_nat 131) 2 (map fst ps) (of_nat 64, 0, buf, s2) = Inr (off, bn', buf', s3)"
    "m \<le> 1 + 3 * total_chunks ps" "imgst m (dots residue @ prog_entries residue 1 ps) (places 0 ps) s3"
    using add_programs_ok [OF s2(1) assms(2,3), of 0 buf] assms(4,5) s2(2) by (auto simp: numeral_2_eq_2)
  have i: "lay (Suc (length (places 0 ps))) m s3" "0 < m" "dir_block (dots residue @ prog_entries residue 1 ps) (image s3 ! 131)"
    "sb_of_bytes (image s3 ! 0) = mkfs_sb"
    "\<And>j. j < length ps \<Longrightarrow> file_on s3 m (fst (places 0 ps ! j)) (snd (places 0 ps ! j)) (img_inode s3 (Suc j))"
    using s3(3) by (auto simp: imgst_def)
  have ad: "length (addrs (final_root (2 + length ps))) = N_ADDRS" by (simp add: final_root_def)
  obtain s4 where s4: "mkfs_inode_write (of_nat 0) (final_root (2 + length ps)) s3 = Inr s4" "lay (Suc (length (places 0 ps))) m s4"
    "only {0 div 16 + 2} s3 s4" "img_inode s4 0 = final_root (2 + length ps)" "\<forall>k < 2048. k \<noteq> 0 \<longrightarrow> img_inode s4 k = img_inode s3 k"
    by (rule img_write_ok [OF i(1) _ ad, of 0]) simp
  have "mkfs_main h residue rm (cmd # im # map fst ps) = Inr s4"
    unfolding s2(3) s3(1) using s4(1) by simp
  moreover have "file_on s4 m (fst (places 0 ps ! j)) (snd (places 0 ps ! j)) (img_inode s4 (Suc j))" if "j < length ps" for j
  proof -
    have "img_inode s4 (Suc j) = img_inode s3 (Suc j)" using s4(5) that assms(4) by simp
    then show ?thesis using file_on_same [OF i(5) [OF that] s4(3) _ order_refl] by simp
  qed
  then have "imgst m (dots residue @ prog_entries residue 1 ps) (places 0 ps) s4"
    unfolding imgst_def using s4(2) i(2-4) onlyD [OF s4(3), of 131] onlyD [OF s4(3), of 0] by simp
  ultimately show thesis using that s4(4) s3(2) by blast
qed

text \<open>A directory block with 32 entries has no room for another one, and \<^verbatim>\<open>dirent_create\<close> does not look.\<close>

lemma add_program_full:
  assumes "imgst m des fs st" "length fs = 30" "program h (arg, nm, bs)"
  shows "add_program h residue (of_nat 131) arg (of_nat 1024, bn, buf, st) = Inl Undefined"
proof -
  note c = program_checks [OF assms(3)]
  have l: "lay 31 m st" using assms(1,2) by (simp add: imgst_def)
  have ad: "length (addrs file_inode) = N_ADDRS" by (simp add: file_inode_def)
  obtain s1 where s1: "mkfs_inode_alloc st = Inr (of_nat 31, s1)" "lay (Suc 31) m s1" "only {1} st s1" by (rule inode_alloc_ok [OF l]) simp
  obtain s2 where s2: "mkfs_inode_write (of_nat 31) file_inode s1 = Inr s2" "lay (Suc 31) m s2" by (rule img_write_ok [OF s1(2) _ ad, of 31]) simp
  have "block_read (of_nat 131) s2 = Inr (image s2 ! 131)" by (rule block_read_ok [OF layD(1) [OF s2(2)]]) simp
  then have "dirent_create residue (of_nat 131) (of_nat 1024) nm (of_nat 31) s2 = Inl Undefined"
    using c(4) by (simp add: dirent_create_def Let_def)
  then show ?thesis
    unfolding add_program_def prod.case Let_def c(2)
    using c(1,3) s1(1) s2(1) by (simp add: mkfs_inode_create_def file_inode_def Let_def)
qed

lemma add_programs_append:
  "add_programs h residue b i (xs @ ys) v = bindr (add_programs h residue b i xs v) (add_programs h residue b (i + length xs) ys)"
  by (induction xs arbitrary: i v) (simp_all add: bindr_def split: sum.splits)

lemma total_chunks_append: "total_chunks (ps @ qs) = total_chunks ps + total_chunks qs"
  by (induction ps) simp_all

lemma mkfs_main_full:
  assumes "can_create h im" "\<forall>p \<in> set (ps @ q # qs). program h p" "\<forall>i. length (residue i) = DIR_NAME_LEN" "length ps = 30"
    "1 + 3 * total_chunks ps \<le> N_BITS" "N_BLOCK \<le> rm"
  shows "mkfs_main h residue rm (cmd # im # map fst (ps @ q # qs)) = Inl Undefined"
proof -
  let ?args = "map fst (ps @ q # qs)"
  obtain buf s2 where s2: "imgst 1 (dots residue) [] s2" "length buf = BLOCK_SIZE"
    "mkfs_main h residue rm (cmd # im # ?args) =
       bindr (add_programs h residue (of_nat 131) 2 ?args (of_nat 64, 0, buf, s2)) (\<lambda>(_, _, _, st). mkfs_inode_write 0 (final_root (2 + length ?args)) st)"
    by (rule main_start [OF assms(1,3,6)])
  obtain bn' buf' s3 m where s3: "add_programs h residue (of_nat 131) 2 (map fst ps) (of_nat 64, 0, buf, s2) = Inr (of_nat 1024, bn', buf', s3)"
    "imgst m (dots residue @ prog_entries residue 1 ps) (places 0 ps) s3"
    using add_programs_ok [OF s2(1) _ assms(3), of ps h 0 buf] assms(2,4,5) s2(2) by (auto simp: numeral_2_eq_2)
  obtain arg nm bs where q: "q = (arg, nm, bs)" by (cases q)
  have "program h (arg, nm, bs)" using assms(2) q by simp
  from add_program_full [OF s3(2) _ this] have "add_programs h residue (of_nat 131) 2 ?args (of_nat 64, 0, buf, s2) = Inl Undefined"
    using s3(1) assms(4) q by (simp add: add_programs_append)
  then show ?thesis unfolding s2(3) by simp
qed

end
