(* ===== verification/Mkfs_Boot.thy ===== *)
theory Mkfs_Boot
  imports Mkfs_Main
begin

text \<open>
  The kernel on a disk that \<^verbatim>\<open>mkfs\<close> has made: mounting (\<^verbatim>\<open>fs_init\<close>), loading inodes from the image into the inode cache, the root
  directory as a map, and the exercise of the root directory that \<^verbatim>\<open>fs_init\<close> runs.
\<close>

section \<open>The disk of the kernel\<close>

definition carries :: "'a buf_state_scheme \<Rightarrow> mkfs_state \<Rightarrow> bool" where
  "carries s st \<longleftrightarrow> (\<forall>k < N_BLOCK. disk s (of_nat k) = image st ! k) \<and> (\<forall>n. length (disk s n) = BLOCK_SIZE)"

lemma carriesD: "carries s st \<Longrightarrow> k < N_BLOCK \<Longrightarrow> disk s (of_nat k) = image st ! k" "carries s st \<Longrightarrow> length (disk s n) = BLOCK_SIZE"
  by (simp_all add: carries_def)

text \<open>The static variables of the kernel before \<^verbatim>\<open>fs_init\<close>.\<close>

definition power_on :: "'a inode_state_scheme \<Rightarrow> bool" where
  "power_on s \<longleftrightarrow> length (bufs s) = N_BLOCK_BUF \<and> (\<forall>b \<in> set (bufs s). length (data b) = BLOCK_SIZE) \<and> (\<forall>i. nxt s (Node i) = None) \<and>
     length (icache s) = N_INODE"

definition mounted :: "'a inode_state_scheme \<Rightarrow> bool" where
  "mounted s \<longleftrightarrow> fs_ok s {} \<and> sb s = mkfs_sb \<and> length (icache s) = N_INODE \<and>
     (\<forall>i < N_INODE. inode_num (inode_at s i) = INODE_NUM_UNUSED \<and> iref (inode_at s i) = 0 \<and> \<not> locked (islk (inode_at s i)))"

lemma sb_update_cache [simp]:
  "cache (s\<lparr>sb := x\<rparr>) H = cache s H" "holds (s\<lparr>sb := x\<rparr>) j n d = holds s j n d"
  by (simp_all add: cache_def holds_def lru_def buf_ok_def buf_data_def)

lemma inode_init_simps [simp]:
  "disk (inode_init s) = disk s" "sb (inode_init s) = sb s" "cache (inode_init s) H = cache s H"
  by (simp_all add: inode_init_def cache_def lru_def buf_ok_def)

lemma fs_mount_ok:
  assumes "power_on s" "carries s st" "sb_of_bytes (image st ! 0) = mkfs_sb"
  obtains t where "fs_mount s = Inr t" "mounted t" "disk t = disk s"
proof -
  obtain t0 where t0: "buf_init s = Inr t0" "cache t0 {}" "disk t0 = disk s" "buf_state.more t0 = buf_state.more s"
    using buf_init_cache [of s] assms(1,2) by (auto simp: power_on_def carries_def)
  obtain b t1 where t1: "buf_read 0 t0 = Inr (b, t1)" "cache t1 (insert 0 {})" "holds t1 b 0 (disk t0 0)" "disk t1 = disk t0"
    "buf_state.more t1 = buf_state.more t0"
    using bcache.rd_ok [OF t0(2), of 0] by auto
  let ?t = "t1\<lparr>sb := sb_of_bytes (buf_data b t1)\<rparr>"
  have "disk t0 (of_nat 0) = image st ! 0" unfolding t0(3) by (rule carriesD(1) [OF assms(2)]) simp
  then have sb: "sb_of_bytes (buf_data b t1) = mkfs_sb" using bcache.held_get [OF t1(3)] assms(3) by simp
  have h: "cache ?t {0}" "holds ?t b 0 (disk ?t 0)" using t1(2-4) by simp_all
  obtain t2 where t2: "buf_release b ?t = Inr t2" "cache t2 ({0} - {0})" "disk t2 = disk ?t" "buf_state.more t2 = buf_state.more ?t"
    using bcache.rel_ok [OF h(1) _ h(2)] by auto
  note m = more_icache [OF t2(4)] more_icache [OF t1(5)] more_icache [OF t0(4)]
  have "fs_mount s = Inr (inode_init t2)"
    using t0(1) t1(1) t2(1) sb by (simp add: fs_mount_def Let_def mkfs_sb_def)
  moreover have "mounted (inode_init t2)"
    using t2(2) m sb mkfs_sb_ok assms(1) by (simp add: mounted_def fs_ok_def power_on_def) (simp add: inode_init_def spinlock_init_def)
  ultimately show thesis using that t0(3) t1(4) t2(3) by simp
qed

section \<open>Loading an inode of the image\<close>

lemma disk_inode_image:
  assumes "sb s = mkfs_sb" "carries s st" "n < 2048"
  shows "disk_inode s (of_nat n) = img_inode st n"
proof -
  have u: "unat (of_nat n :: u16) = n" using assms(3) by (simp add: unat_of_nat take_bit_nat_eq_self)
  have "inode_block (sb s) (of_nat n) = of_nat (n div 16 + 2)"
    unfolding inode_block_def assms(1)
    using u unat_small [of n] unat_small [of "n div 16"] assms(3)
    by (intro iffD2 [OF word_unat_eq_iff]) (simp add: unat_div unat_plus_if')
  moreover have "disk s (of_nat (n div 16 + 2)) = image st ! (n div 16 + 2)" using assms(3) by (intro carriesD(1) [OF assms(2)]) simp
  ultimately show ?thesis by (simp add: disk_inode_def img_inode_def inode_offset_def u)
qed

lemma load_inode:
  assumes "mounted s" "carries s st" "n < 2048"
  obtains i t u where "inode_alloc (of_nat n) s = Inr (i, t)" "inode_lock i t = Inr u" "fs_ok u {}" "disk u = disk s" "sb u = mkfs_sb"
    "i < length (icache u)" "dpart (inode_at u i) = img_inode st n" "inode_num (inode_at u i) = of_nat n"
    "spinlock_holding 0 (islk (inode_at u i))"
proof -
  have u: "unat (of_nat n :: u16) = n" using assms(3) by (simp add: unat_of_nat take_bit_nat_eq_self)
  have "unat INODE_NUM_UNUSED = 65535" by simp
  then have "unat (of_nat n :: u16) \<noteq> unat INODE_NUM_UNUSED" using u assms(3) by linarith
  then have un: "(of_nat n :: u16) \<noteq> INODE_NUM_UNUSED" by metis
  have ok: "fs_ok s {}" "sb s = mkfs_sb" "length (icache s) = N_INODE"
    "\<And>i. i < N_INODE \<Longrightarrow> inode_num (inode_at s i) = INODE_NUM_UNUSED \<and> iref (inode_at s i) = 0 \<and> \<not> locked (islk (inode_at s i))"
    using assms(1) by (auto simp: mounted_def)
  show thesis
  proof (cases rule: inode_alloc_cases [of s "of_nat n"])
    case (hit i)
    with ok(4) un show thesis by simp
  next
    case full
    with ok(4) [of 0] show thesis by simp
  next
    case (miss i)
    let ?t = "set_inode i ((inode_at s i)\<lparr>inode_num := of_nat n, iref := 1, valid := False\<rparr>) s"
    let ?l = "(islk (inode_at s i))\<lparr>locked := True, cpuid := 0\<rparr>"
    let ?u = "set_inode i ((inode_at ?t i)\<lparr>islk := ?l\<rparr>) ?t"
    have li: "lock_inode i ?t = Inr ?u" using lock_take_free ok(3,4) miss(1) by (simp add: lock_inode_def)
    have at: "inode_at ?u i = (inode_at s i)\<lparr>inode_num := of_nat n, iref := 1, valid := False, islk := ?l\<rparr>" using ok(3) miss(1) by simp
    have nok: "inode_num_ok (sb ?u) (inode_num (inode_at ?u i))" using at u ok(2) assms(3) by (simp add: inode_num_ok_def mkfs_sb_def)
    have fu: "fs_ok ?u {}" using ok(1) by simp
    obtain v where v: "inode_rw i False ?u = Inr v" "fs_ok v {}" "disk v = disk ?u" "sb v = sb ?u" "inode_state.more v = inode_state.more ?u"
      "icache v = (icache ?u)[i := (inode_at ?u i)\<lparr>dpart := disk_inode ?u (inode_num (inode_at ?u i))\<rparr>]"
      "\<forall>j m d. m \<in> {} \<longrightarrow> holds ?u j m d \<longrightarrow> holds v j m d"
      by (rule inode_rw_read [OF fu nok]) simp
    have vat: "inode_at v i = (inode_at ?u i)\<lparr>dpart := disk_inode s (of_nat n)\<rparr>" using v(6) at ok(3) miss(1) by simp
    let ?w = "set_inode i ((inode_at v i)\<lparr>valid := True\<rparr>) v"
    have lk: "inode_lock i ?t = Inr ?w" using li v(1) at by (simp add: inode_lock_def)
    have iv: "i < length (icache v)" using v(6) ok(3) miss(1) by simp
    show thesis
      by (rule that [OF miss(4) lk])
        (use v ok iv vat at disk_inode_image [OF ok(2) assms(2,3)] in \<open>simp_all add: spinlock_holding_def\<close>)
  qed
qed

section \<open>Files of the image as the kernel sees them\<close>

lemma data_num: "of_nat k + data_start mkfs_sb = (of_nat (131 + k) :: u32)"
  by simp

lemma data_num_inj: "inj_on (\<lambda>k. of_nat (131 + k) :: u32) {..<N_BITS}"
  by (rule inj_onI) (metis lessThan_iff unat_data_ref add_left_cancel)

lemma image_blocks:
  assumes "sb s = mkfs_sb" "carries s st" "lay a m st"
  shows "data_block_nums s = (\<lambda>k. of_nat (131 + k)) ` {..<N_BITS}" "free_blocks s = (\<lambda>k. of_nat (131 + k)) ` {m..<N_BITS}"
proof -
  have "disk s (of_nat 130) = image st ! 130" by (rule carriesD(1) [OF assms(2)]) simp
  then have "used_bits (disk s (data_bitmap_start (sb s))) = {..<m}" using layD(6) [OF assms(3)] assms(1) by simp
  moreover have "{..<N_BITS} - {..<m} = {m..<N_BITS}" by auto
  ultimately show "data_block_nums s = (\<lambda>k. of_nat (131 + k)) ` {..<N_BITS}" "free_blocks s = (\<lambda>k. of_nat (131 + k)) ` {m..<N_BITS}"
    unfolding data_block_nums_def free_blocks_def assms(1) data_num by simp_all
qed

lemma image_file_inv:
  assumes "fs_ok s {}" "sb s = mkfs_sb" "carries s st" "lay a m st" "m + 10 \<le> N_BITS" "i < length (icache s)"
    and "length (addrs (dpart (inode_at s i))) = N_ADDRS" and "length gs \<le> 10" "distinct gs" "set gs \<subseteq> {..<m}"
    and d: "\<And>k. k < N_DIRECT \<Longrightarrow> direct s i k = (if k < length gs then of_nat (131 + gs ! k) else 0)"
  shows "file_inv {} i s"
proof -
  note b = image_blocks [OF assms(2,3,4)]
  have g: "gs ! k < m" "gs ! k < N_BITS" if "k < length gs" for k using that assms(5,10) nth_mem by force+
  have inj: "gs ! k = gs ! l" if "k < length gs" "l < length gs" "(of_nat (131 + gs ! k) :: u32) = of_nat (131 + gs ! l)" for k l
    using that g unat_data_ref by (metis add_left_cancel)
  have mem: "(of_nat (131 + gs ! k) :: u32) \<in> data_block_nums s - free_blocks s" if k: "k < length gs" for k
  proof -
    have "(of_nat (131 + gs ! k) :: u32) \<notin> free_blocks s" unfolding b(2)
    proof
      assume "(of_nat (131 + gs ! k) :: u32) \<in> (\<lambda>k. of_nat (131 + k)) ` {m..<N_BITS}"
      then obtain l where l: "(of_nat (131 + gs ! k) :: u32) = of_nat (131 + l)" "m \<le> l" "l < N_BITS" unfolding image_iff by auto
      then have "gs ! k = l" using unat_data_ref [OF g(2) [OF k]] unat_data_ref [OF l(3)] by (metis add_left_cancel)
      then show False using l(2) g(1) [OF k] by simp
    qed
    moreover have "(of_nat (131 + gs ! k) :: u32) \<in> data_block_nums s" unfolding b(1) by (rule imageI) (use g(2) [OF k] in simp)
    ultimately show ?thesis by blast
  qed
  have "holes s i \<subseteq> {..<10}" by (auto simp: holes_def)
  then have "card (holes s i) \<le> 10" by (metis card_lessThan card_mono finite_lessThan)
  moreover have "card (free_blocks s) = N_BITS - m"
    unfolding b(2) by (subst card_image [OF inj_on_subset [OF data_num_inj]]) auto
  moreover have "file_ok s i"
    unfolding file_ok_def
  proof (intro conjI allI impI)
    fix k assume "k < N_DIRECT" "direct s i k \<noteq> 0"
    then show "direct s i k \<in> data_block_nums s - free_blocks s" using d [of k] mem [of k] by (auto split: if_splits)
  next
    fix k l assume kl: "k < N_DIRECT" "l < N_DIRECT" "direct s i k = direct s i l" "direct s i k \<noteq> 0"
    then have "k < length gs" using d [of k] by (auto split: if_splits)
    moreover have "l < length gs" using d [of l] kl(2,3,4) by (auto split: if_splits)
    ultimately show "k = l" using kl d inj [of k l] assms(9) by (simp add: nth_eq_iff_index_eq)
  qed (use assms in auto)
  ultimately show ?thesis using assms(1,5) by (simp add: file_inv_def unheld_def)
qed

section \<open>The root directory\<close>

lemma root_loaded:
  assumes "imgst m des fs st" "img_inode st 0 = final_root (length des)" "m + 10 \<le> N_BITS" "length des \<le> 32" "mounted s" "carries s st"
  obtains i t u where "inode_alloc INODE_ROOT s = Inr (i, t)" "inode_lock i t = Inr u" "dir_ok {} i u" "entries u i = des"
    "disk u = disk s" "sb u = mkfs_sb"
proof -
  obtain i t u where u: "inode_alloc (of_nat 0) s = Inr (i, t)" "inode_lock i t = Inr u" "fs_ok u {}" "disk u = disk s" "sb u = mkfs_sb"
    "i < length (icache u)" "dpart (inode_at u i) = img_inode st 0" "inode_num (inode_at u i) = of_nat 0"
    "spinlock_holding 0 (islk (inode_at u i))"
    by (rule load_inode [OF assms(5,6), of 0]) simp
  have l: "lay (Suc (length fs)) m st" "0 < m" "dir_block des (image st ! 131)" using assms(1) by (auto simp: imgst_def)
  have c: "carries u st" using assms(6) u(4) by (simp add: carries_def)
  have dp: "dpart (inode_at u i) = final_root (length des)" using u(7) assms(2) by simp
  have dir: "direct u i k = (if k < length [0] then of_nat (131 + [0] ! k) else 0)" if "k < N_DIRECT" for k
    unfolding dp using that by (cases k) (simp_all add: final_root_def)
  have fi: "file_inv {} i u"
    by (rule image_file_inv [OF u(3,5) c l(1) assms(3) u(6), of "[0]"]) (use l(2) dp dir in \<open>simp_all add: final_root_def\<close>)
  have "unat (of_nat (32 * length des) :: u32) = 32 * length des" using assms(4) by (intro unat_small) simp
  then have sz: "unat (isize (dpart (inode_at u i))) = 32 * length des" unfolding dp by (simp add: final_root_def)
  then have n: "n_entries u i = length des" by (simp add: n_entries_def)
  have "dir_ok {} i u"
    using fi sz n assms(4) u(5,8,9) dp dir [of 0] by (simp add: dir_ok_def inode_writable_def inode_num_ok_def final_root_def root_inode_def mkfs_sb_def)
  moreover have "entries u i = des"
  proof (rule nth_equalityI)
    fix k assume "k < length (entries u i)"
    then have k: "k < length des" using n by simp
    have dl: "slice (32 * k) 32 (image st ! 131) = dirent_bytes (des ! k)" "length (dname (des ! k)) = DIR_NAME_LEN" "length (image st ! 131) = BLOCK_SIZE"
      using l(3) k by (auto simp: dir_block_def)
    have d131: "disk u (of_nat 131) = image st ! 131" by (rule carriesD(1) [OF c]) simp
    have "fbyte u i (32 * k + x) = dirent_bytes (des ! k) ! x" if "x < 32" for x
    proof -
      have p: "(32 * k + x) div BLOCK_SIZE = 0" "(32 * k + x) mod BLOCK_SIZE = 32 * k + x" using that k assms(4) by simp_all
      have "fbyte u i (32 * k + x) = image st ! 131 ! (32 * k + x)" unfolding fbyte_def p using dir [of 0] d131 by simp
      also have "\<dots> = slice (32 * k) 32 (image st ! 131) ! x" using that k assms(4) dl(3) by (simp add: nth_slice)
      finally show ?thesis using dl(1) by simp
    qed
    then have "map (\<lambda>x. fbyte u i (32 * k + x)) [0..<32] = dirent_bytes (des ! k)"
      using dirent_layout(2) [OF dl(2)] by (intro nth_equalityI) (simp_all del: upt_Suc)
    then show "entries u i ! k = des ! k" using k n dirent_layout(1) [OF dl(2)] by (simp add: nth_entries dentry_def del: upt_Suc)
  qed (simp add: n)
  ultimately show thesis using that [of i t u] u by simp
qed

end
