(* ===== verification/Mkfs_Props.thy ===== *)
theory Mkfs_Props
  imports Mkfs_Boot
begin

text \<open>
  The properties of the image: the kernel mounts it, finds the programs of the command line in the root directory, passes its
  own exercise of that directory, and reads the first program back byte by byte.  The programs behind the first one are
  not readable, because \<^verbatim>\<open>main\<close> does not reset \<^verbatim>\<open>bn\<close>.
\<close>

section \<open>Names\<close>

lemma name_of_takeWhile: "length d = DIR_NAME_LEN \<Longrightarrow> name_of d = takeWhile (\<lambda>b. b \<noteq> 0) d"
  unfolding name_of_def cstr_def using map_bview [of d] by simp

lemma takeWhile_nul: "0 \<notin> set nm \<Longrightarrow> takeWhile (\<lambda>b. b \<noteq> (0 :: byte)) (nm @ 0 # r) = nm"
  by (induction nm) auto

lemma new_entry_name:
  assumes "0 \<notin> set nm" "length nm < DIR_NAME_LEN" "length residue = DIR_NAME_LEN"
  shows "name_of (dname (new_entry residue nm num)) = nm" "in_use (new_entry residue nm num) \<longleftrightarrow> nm \<noteq> []"
proof -
  have l: "length (overwrite residue 0 (nm @ [0])) = DIR_NAME_LEN" using assms(2,3) by simp
  show "name_of (dname (new_entry residue nm num)) = nm"
    unfolding new_entry_def using name_of_takeWhile [OF l] takeWhile_nul [OF assms(1)] by (simp add: overwrite_def)
  show "in_use (new_entry residue nm num) \<longleftrightarrow> nm \<noteq> []"
    using assms(1) by (cases nm) (simp_all add: new_entry_def in_use_def bview_def nth_default_def overwrite_def)
qed

definition bytes_of :: "string \<Rightarrow> byte list" where
  "bytes_of str = map of_char str"

lemma lit_name:
  assumes "0 \<notin> set (bytes_of str)" "length str < DIR_NAME_LEN"
  shows "name_of (lit str) = bytes_of str" "str_length (lit str) = length str" "0 \<in> set (lit str)" "length (lit str) \<le> 2 ^ 31"
proof -
  show sl: "str_length (lit str) = length str" using takeWhile_nul [OF assms(1), of "[]"] by (simp add: str_length_def lit_def bytes_of_def)
  have "map (bview (lit str)) [0..<30] = lit str @ replicate (29 - length str) 0"
    using assms(2) by (intro nth_equalityI) (auto simp: bview_def nth_default_def lit_def nth_append nth_Cons')
  then show "name_of (lit str) = bytes_of str"
    unfolding name_of_def cstr_def using takeWhile_nul [OF assms(1)] by (simp add: lit_def bytes_of_def del: map_map)
qed (use assms(2) in \<open>simp_all add: lit_def\<close>)

section \<open>The map of the root directory\<close>

lemma dmap_map_of: "\<forall>de \<in> set es. in_use de \<Longrightarrow> dmap es = map_of (map (\<lambda>de. (name_of (dname de), dnum de)) es)"
proof (induction es)
  case Nil
  then show ?case by (simp add: dmap_def fun_eq_iff)
next
  case (Cons de es)
  then show ?case by (auto simp: dmap_def fun_eq_iff)
qed

lemma names_okI:
  assumes "distinct (map (\<lambda>de. name_of (dname de)) es)" "\<forall>de \<in> set es. dnum de \<noteq> INODE_NUM_UNUSED"
  shows "names_ok es"
  unfolding names_ok_def using assms nth_eq_iff_index_eq [OF assms(1)] by simp

abbreviation prog_name :: "byte list \<times> byte list \<times> byte list \<Rightarrow> byte list" where
  "prog_name p \<equiv> fst (snd p)"

definition root_map :: "(byte list \<times> byte list \<times> byte list) list \<Rightarrow> byte list \<Rightarrow> u16 option" where
  "root_map ps = map_of (([46], 0) # ([46, 46], 0) # zip (map prog_name ps) (map of_nat [1..<Suc (length ps)]))"

text \<open>Names a directory can hold, each once.\<close>

definition names_good :: "(byte list \<times> byte list \<times> byte list) list \<Rightarrow> bool" where
  "names_good ps \<longleftrightarrow> distinct ([46] # [46, 46] # map prog_name ps) \<and> (\<forall>p \<in> set ps. prog_name p \<noteq> [] \<and> 0 \<notin> set (prog_name p) \<and> length (prog_name p) < DIR_NAME_LEN)"

lemma prog_entries_map:
  assumes "\<forall>p \<in> set ps. prog_name p \<noteq> [] \<and> 0 \<notin> set (prog_name p) \<and> length (prog_name p) < DIR_NAME_LEN" "\<forall>i. length (residue i) = DIR_NAME_LEN"
  shows "map (\<lambda>de. (name_of (dname de), dnum de)) (prog_entries residue i ps) = zip (map prog_name ps) (map of_nat [i..<i + length ps])"
    "\<forall>de \<in> set (prog_entries residue i ps). in_use de"
  using assms
proof (induction ps arbitrary: i)
  case (Cons p ps)
  {
    case 1
    then show ?case using Cons.IH(1) [of "Suc i"] new_entry_name [of "prog_name p" "residue (Suc i)" "of_nat i"] by (simp add: upt_conv_Cons new_entry_def del: upt_Suc)
  next
    case 2
    then show ?case using Cons.IH(2) [of "Suc i"] new_entry_name [of "prog_name p" "residue (Suc i)" "of_nat i"] by simp
  }
qed simp_all

lemma root_names:
  assumes "names_good ps" "\<forall>i. length (residue i) = DIR_NAME_LEN" "length ps \<le> 30"
  defines "des \<equiv> dots residue @ prog_entries residue 1 ps"
  shows "dmap des = root_map ps" "names_ok des"
proof -
  note g = assms(1) [unfolded names_good_def]
  note e = prog_entries_map [OF conjunct2 [OF g] assms(2), of 1]
  note d = new_entry_name [of "[46]" "residue 0" 0] new_entry_name [of "[46, 46]" "residue 1" 0]
  have use: "\<forall>de \<in> set des. in_use de" using e(2) d assms(2) by (simp add: des_def)
  have "map (\<lambda>de. (name_of (dname de), dnum de)) des = ([46], 0) # ([46, 46], 0) # zip (map prog_name ps) (map of_nat [1..<Suc (length ps)])"
    using e(1) d assms(2) by (simp add: des_def new_entry_def del: upt_Suc)
  note m = this
  show "dmap des = root_map ps" unfolding dmap_map_of [OF use] root_map_def m ..
  have nm: "map (\<lambda>de. name_of (dname de)) des = [46] # [46, 46] # map prog_name ps"
    using arg_cong [OF m, of "map fst"] by (simp add: comp_def map_fst_zip del: upt_Suc)
  have nu: "map dnum des = 0 # 0 # map of_nat [1..<Suc (length ps)]" using arg_cong [OF m, of "map snd"] by (simp add: comp_def map_snd_zip del: upt_Suc)
  have small: "(of_nat k :: u16) \<noteq> INODE_NUM_UNUSED" if "k \<le> 30" for k
  proof -
    have "unat (of_nat k :: u16) = k" using that by (simp add: unat_of_nat take_bit_nat_eq_self)
    then show ?thesis using that by auto
  qed
  have "\<forall>x \<in> set (map dnum des). x \<noteq> INODE_NUM_UNUSED" unfolding nu using small assms(3) by (auto simp del: upt_Suc)
  then show "names_ok des" using g nm by (intro names_okI) auto
qed

section \<open>The exercise of the root directory\<close>

lemma dir_print_ok:
  assumes "dir_ok {} i s" "dmap (entries s i) c \<noteq> None"
  obtains out t where "dir_print i s = Inr (out, t)" "dir_ok {} i t" "file_same s t"
proof -
  have "entries s i \<noteq> []" using assms(2) by (auto simp: dmap_def)
  then have nz: "direct s i 0 \<noteq> 0" using dir_okD(5) [OF assms(1)] by (simp flip: length_greater_0_conv)
  note f = file_invD [OF dir_okD(1) [OF assms(1)]]
  have "direct s i 0 \<in> data_block_nums s" using f(3) nz by (auto simp: file_ok_def)
  then have nu: "direct s i 0 \<noteq> BLOCK_NUM_UNUSED" by (rule data_block_facts(1) [OF f(6)])
  obtain b t u where u: "buf_read (direct s i 0) s = Inr (b, t)" "buf_data b t = disk s (direct s i 0)" "buf_release b t = Inr u" "cache u {}"
    "disk u = disk s" "buf_state.more u = buf_state.more s" "cache t (insert (direct s i 0) {})" "disk t = disk s" "buf_state.more t = buf_state.more s"
    "holds t b (direct s i 0) (disk s (direct s i 0))" "\<forall>j m d. m \<in> {} \<longrightarrow> holds s j m d \<longrightarrow> holds u j m d"
    by (rule bcache.peek_ok [OF f(5) _ nu f(7)]) simp
  note m = more_icache [OF u(6)]
  have "spinlock_holding 0 (islk (inode_at s i))" using assms(1) by (simp add: dir_ok_def)
  then obtain out where "dir_print i s = Inr (out, u)" using u(1,3) by (simp add: dir_print_def Let_def)
  moreover have "file_inv {} i u" by (rule file_inv_same_meta [OF dir_okD(1) [OF assms(1)]]) (use u m f in \<open>auto simp: fs_ok_def\<close>)
  moreover have "file_same s u" using u(5) m by (simp add: file_same_def)
  ultimately show thesis using that dir_ok_same [OF assms(1)] by blast
qed

text \<open>The state of the root directory during the exercise: its map and a bound on its entries.\<close>

definition root_is :: "nat \<Rightarrow> nat \<Rightarrow> (byte list \<Rightarrow> u16 option) \<Rightarrow> 'a inode_state_scheme \<Rightarrow> bool" where
  "root_is i n M s \<longleftrightarrow> dir_ok {} i s \<and> names_ok (entries s i) \<and> n_entries s i \<le> n \<and> dmap (entries s i) = M"

definition plain_name :: "string \<Rightarrow> bool" where
  "plain_name str \<longleftrightarrow> 0 \<notin> set (bytes_of str) \<and> length str < DIR_NAME_LEN \<and> str \<noteq> []"

lemma root_is_same: "root_is i n M s \<Longrightarrow> dir_ok {} i t \<Longrightarrow> file_same s t \<Longrightarrow> root_is i n M t"
  using file_same_dir [of s t i] by (simp add: root_is_def)

lemma root_print:
  assumes "root_is i n M s" "M c \<noteq> None"
  obtains out t where "dir_print i s = Inr (out, t)" "root_is i n M t"
proof -
  have "dir_ok {} i s" "dmap (entries s i) c \<noteq> None" using assms by (auto simp: root_is_def)
  from dir_print_ok [OF this] that root_is_same [OF assms(1)] show thesis by metis
qed

lemma root_search:
  assumes "root_is i n M s" "plain_name str"
  obtains t where "dir_search_entry i (lit str) s = Inr (case M (bytes_of str) of Some k \<Rightarrow> k | None \<Rightarrow> INODE_NUM_UNUSED, t)" "root_is i n M t"
proof -
  have r: "dir_ok {} i s" "dmap (entries s i) = M" "name_of (lit str) = bytes_of str"
    using assms lit_name(1) by (auto simp: root_is_def plain_name_def)
  from search_ok [OF r(1), of "lit str"] that root_is_same [OF assms(1)] show thesis unfolding r(2,3) by metis
qed

lemma root_add:
  assumes "root_is i n M s" "plain_name str" "num \<noteq> INODE_NUM_UNUSED" "n < 32"
  obtains r t where "dir_add_entry i num (lit str) s = Inr (r, t)" "M (bytes_of str) = None \<Longrightarrow> root_is i (Suc n) (M(bytes_of str \<mapsto> num)) t"
    "M (bytes_of str) \<noteq> None \<Longrightarrow> r = DIR_FULL \<and> root_is i n M t"
proof -
  have r: "dir_ok {} i s" "names_ok (entries s i)" "n_entries s i \<le> n" "dmap (entries s i) = M" using assms(1) by (auto simp: root_is_def)
  have "0 \<notin> set (bytes_of str)" "length str < DIR_NAME_LEN" "bytes_of str \<noteq> []" using assms(2) by (auto simp: plain_name_def bytes_of_def)
  note l = lit_name [OF this(1,2)] this
  have ne: "name_of (lit str) \<noteq> []" using l by simp
  have "has_room (entries s i)" using r(3) assms(4) by (simp add: has_room_def)
  with add_ok [OF r(1,2) l(3,4) ne assms(3)] l r obtain x t where t: "dir_add_entry i num (lit str) s = Inr (x, t)" "dir_ok {} i t" "names_ok (entries t i)"
    "if M (bytes_of str) \<noteq> None then x = DIR_FULL \<and> disk t = disk s \<and> entries t i = entries s i
     else x < DIR_FULL \<and> n_entries t i \<le> Suc (n_entries s i) \<and> dmap (entries t i) = M(bytes_of str \<mapsto> num)"
    by auto
  have "n_entries t i = n_entries s i" if "entries t i = entries s i" using arg_cong [OF that, of length] by simp
  with t that [of x t] r show thesis by (auto simp: root_is_def split: if_splits)
qed

lemma root_delete:
  assumes "root_is i n M s" "plain_name str"
  obtains k t where "dir_delete_entry i (lit str) s = Inr (k, t)" "root_is i n (M(bytes_of str := None)) t"
proof -
  have r: "dir_ok {} i s" "names_ok (entries s i)" "name_of (lit str) = bytes_of str" "n_entries s i \<le> n" "dmap (entries s i) = M"
    using assms lit_name(1) by (auto simp: root_is_def plain_name_def)
  from delete_ok [OF r(1,2), of "lit str"] that r(4,5) show thesis unfolding r(3) root_is_def by force
qed

abbreviation a_txt :: string where "a_txt \<equiv> ''a.txt''"
abbreviation b_txt :: string where "b_txt \<equiv> ''b.txt''"
abbreviation c_txt :: string where "c_txt \<equiv> ''c.txt''"
abbreviation d_txt :: string where "d_txt \<equiv> ''d.txt''"

lemma test_names:
  "plain_name a_txt" "plain_name b_txt" "plain_name c_txt" "plain_name d_txt" "bytes_of a_txt \<noteq> bytes_of b_txt" "bytes_of a_txt \<noteq> bytes_of c_txt"
  "bytes_of a_txt \<noteq> bytes_of d_txt" "bytes_of b_txt \<noteq> bytes_of c_txt" "bytes_of b_txt \<noteq> bytes_of d_txt" "bytes_of c_txt \<noteq> bytes_of d_txt"
  "[46] \<noteq> bytes_of a_txt" "[46] \<noteq> bytes_of b_txt" "[46] \<noteq> bytes_of c_txt" "[46] \<noteq> bytes_of d_txt"
  by (simp_all add: plain_name_def bytes_of_def)

definition after_selftest :: "(byte list \<Rightarrow> u16 option) \<Rightarrow> byte list \<Rightarrow> u16 option" where
  "after_selftest M = M(bytes_of b_txt \<mapsto> 2, bytes_of c_txt \<mapsto> 3, bytes_of d_txt \<mapsto> 1)"

lemma fs_selftest_ok:
  assumes root: "inode_alloc INODE_ROOT s = Inr (i, s0)" "inode_lock i s0 = Inr s1" "root_is i 27 M s1" and dot: "M [46] \<noteq> None"
    and fresh: "M (bytes_of a_txt) = None" "M (bytes_of b_txt) = None" "M (bytes_of c_txt) = None" "M (bytes_of d_txt) = None"
  obtains t where "fs_selftest s = Inr t" "dmap (entries t i) = after_selftest M"
proof -
  note n = test_names and ne = test_names(5-) test_names(5-) [symmetric]
  let ?a = "bytes_of a_txt" and ?b = "bytes_of b_txt" and ?c = "bytes_of c_txt" and ?d = "bytes_of d_txt"
  let ?M5 = "M(?a \<mapsto> 1, ?b \<mapsto> 2, ?c \<mapsto> 3)"
  let ?M10 = "?M5(?a := None, ?d \<mapsto> 1)"
  obtain o2 s2 where s2: "dir_print i s1 = Inr (o2, s2)" "root_is i 27 M s2" by (rule root_print [OF root(3) dot])
  obtain r3 s3 where s3: "dir_add_entry i 1 (lit a_txt) s2 = Inr (r3, s3)" "root_is i 28 (M(?a \<mapsto> 1)) s3"
    by (rule root_add [OF s2(2) n(1), of 1]) (use fresh in simp_all)
  obtain r4 s4 where s4: "dir_add_entry i 2 (lit b_txt) s3 = Inr (r4, s4)" "root_is i 29 (M(?a \<mapsto> 1, ?b \<mapsto> 2)) s4"
    by (rule root_add [OF s3(2) n(2), of 2]) (use fresh ne in simp_all)
  obtain r5 s5 where s5: "dir_add_entry i 3 (lit c_txt) s4 = Inr (r5, s5)" "root_is i 30 ?M5 s5"
    by (rule root_add [OF s4(2) n(3), of 3]) (use fresh ne in simp_all)
  obtain o6 s6 where s6: "dir_print i s5 = Inr (o6, s6)" "root_is i 30 ?M5 s6"
    by (rule root_print [OF s5(2), of "[46]"]) (use dot ne in simp_all)
  obtain s7 where s7: "dir_search_entry i (lit b_txt) s6 = Inr (2, s7)" "root_is i 30 ?M5 s7"
    by (rule root_search [OF s6(2) n(2)]) (use ne in simp)
  obtain k8 s8 where s8: "dir_delete_entry i (lit a_txt) s7 = Inr (k8, s8)" "root_is i 30 (?M5(?a := None)) s8"
    by (rule root_delete [OF s7(2) n(1)])
  obtain o9 s9 where s9: "dir_print i s8 = Inr (o9, s9)" "root_is i 30 (?M5(?a := None)) s9"
    by (rule root_print [OF s8(2), of "[46]"]) (use dot ne in simp_all)
  obtain r10 s10 where s10: "dir_add_entry i 1 (lit d_txt) s9 = Inr (r10, s10)" "root_is i 31 ?M10 s10"
    by (rule root_add [OF s9(2) n(4), of 1]) (use fresh ne in simp_all)
  obtain o11 s11 where s11: "dir_print i s10 = Inr (o11, s11)" "root_is i 31 ?M10 s11"
    by (rule root_print [OF s10(2), of "[46]"]) (use dot ne in simp_all)
  obtain s12 where s12: "dir_add_entry i 4 (lit d_txt) s11 = Inr (DIR_FULL, s12)" "root_is i 31 ?M10 s12"
    by (rule root_add [OF s11(2) n(4), of 4]) simp_all
  have "spinlock_holding 0 (islk (inode_at s12 i))" using s12(2) by (simp add: root_is_def dir_ok_def)
  then obtain l where l: "inode_unlock i s12 = Inr (set_inode i ((inode_at s12 i)\<lparr>islk := l\<rparr>) s12)"
    using lock_drop_held by (fastforce simp: inode_unlock_def)
  let ?t = "set_inode i ((inode_at s12 i)\<lparr>islk := l\<rparr>) s12"
  have ii: "i < length (icache s12)" using s12(2) file_invD(9) dir_okD(1) unfolding root_is_def by blast
  then have "entries ?t i = entries s12 i" by (simp add: entries_def n_entries_def dentry_def fbyte_def)
  moreover have "?M10 = after_selftest M" using fresh(1) ne by (auto simp: after_selftest_def fun_eq_iff)
  moreover have "fs_selftest s = Inr ?t"
    unfolding fs_selftest_def root(1,2) s2(1) s3(1) s4(1) s5(1) s6(1) s7(1) s8(1) s9(1) s10(1) s11(1) s12(1) bindr_Inr prod.case l assert_that_simps
      simp_thms by simp
  ultimately show thesis using that [of ?t] s12(2) by (simp add: root_is_def)
qed

section \<open>Properties of the image\<close>

text \<open>The drive of the machine is the image file.\<close>

definition image_disk :: "mkfs_state \<Rightarrow> u32 \<Rightarrow> byte list" where
  "image_disk st n = (if unat n < length (image st) then image st ! unat n else zero_block)"

text \<open>A run of the tool for which the host has all it needs.  Every program may take up to three blocks for a block of its data, and ten
  blocks stay free.\<close>

definition run_ok :: "host \<Rightarrow> byte list \<Rightarrow> (byte list \<times> byte list \<times> byte list) list \<Rightarrow> (nat \<Rightarrow> byte list) \<Rightarrow> nat \<Rightarrow> bool" where
  "run_ok h im ps residue rm \<longleftrightarrow> can_create h im \<and> (\<forall>p \<in> set ps. program h p) \<and> (\<forall>i. length (residue i) = DIR_NAME_LEN) \<and>
     11 + 3 * total_chunks ps \<le> N_BITS \<and> N_BLOCK \<le> rm \<and> names_good ps"

lemma carries_image:
  assumes "mk_ok st" "disk s = image_disk st"
  shows "carries s st"
  using assms unat_small by (auto simp: carries_def image_disk_def mk_ok_def)

lemma run_image:
  assumes "run_ok h im ps residue rm" "length ps \<le> 30"
  obtains st m where "mkfs_main h residue rm (cmd # im # map fst ps) = Inr st" "imgst m (dots residue @ prog_entries residue 1 ps) (places 0 ps) st"
    "img_inode st 0 = final_root (length (dots residue @ prog_entries residue 1 ps))" "m + 10 \<le> N_BITS" "lay (Suc (length ps)) m st"
proof -
  have r: "can_create h im" "\<forall>p \<in> set ps. program h p" "\<forall>i. length (residue i) = DIR_NAME_LEN" "1 + 3 * total_chunks ps \<le> N_BITS" "N_BLOCK \<le> rm"
    "11 + 3 * total_chunks ps \<le> N_BITS"
    using assms(1) by (auto simp: run_ok_def)
  obtain st m where st: "mkfs_main h residue rm (cmd # im # map fst ps) = Inr st" "imgst m (dots residue @ prog_entries residue 1 ps) (places 0 ps) st"
    "img_inode st 0 = final_root (2 + length ps)" "m \<le> 1 + 3 * total_chunks ps"
    by (rule mkfs_main_ok [OF r(1-3) assms(2) r(4,5)])
  have i: "lay (Suc (length ps)) m st" using st(2) by (auto simp: imgst_def)
  show thesis by (rule that [OF st(1,2) _ _ i]) (use st(3,4) r(6) in simp_all)
qed

lemma image_mounts:
  assumes "imgst m des fs st" "power_on s" "disk s = image_disk st"
  obtains t where "fs_mount s = Inr t" "mounted t" "carries t st"
proof -
  have i: "mk_ok st" "sb_of_bytes (image st ! 0) = mkfs_sb" using assms(1) by (auto simp: imgst_def lay_def)
  note c = carries_image [OF i(1) assms(3)]
  obtain t where t: "fs_mount s = Inr t" "mounted t" "disk t = disk s" by (rule fs_mount_ok [OF assms(2) c i(2)])
  moreover have "carries t st" using c t(3) by (simp add: carries_def)
  ultimately show thesis using that by blast
qed

lemma mounted_root:
  assumes "run_ok h im ps residue rm" "length ps \<le> 30" "imgst m (dots residue @ prog_entries residue 1 ps) (places 0 ps) st"
    "img_inode st 0 = final_root (length (dots residue @ prog_entries residue 1 ps))" "m + 10 \<le> N_BITS" "mounted t" "carries t st"
  obtains i u v where "inode_alloc INODE_ROOT t = Inr (i, u)" "inode_lock i u = Inr v" "root_is i (2 + length ps) (root_map ps) v"
proof -
  have r: "names_good ps" "\<forall>i. length (residue i) = DIR_NAME_LEN" using assms(1) by (auto simp: run_ok_def)
  note n = root_names [OF r assms(2)]
  obtain i u v where v: "inode_alloc INODE_ROOT t = Inr (i, u)" "inode_lock i u = Inr v" "dir_ok {} i v"
    "entries v i = dots residue @ prog_entries residue 1 ps"
    by (rule root_loaded [OF assms(3,4,5) _ assms(6,7)]) (use assms(2) in simp_all)
  have "n_entries v i = 2 + length ps" using arg_cong [OF v(4), of length] by simp
  then have "root_is i (2 + length ps) (root_map ps) v" using v(3,4) n by (simp add: root_is_def)
  with that v show thesis by blast
qed

text \<open>C10. Mounting an image: \<^verbatim>\<open>mkfs\<close> with at most 30 programs ends, and a kernel that starts with the image as its disk mounts it and finds
  a directory as inode 0 whose map is \<^verbatim>\<open>.\<close> and \<^verbatim>\<open>..\<close> and the programs in the order of the command line, with the
  inode numbers 1, 2 and so on.\<close>

theorem mkfs_root_directory:
  assumes "run_ok h im ps residue rm" and "length ps \<le> 30"
  shows "\<exists>st. mkfs_main h residue rm (cmd # im # map fst ps) = Inr st \<and>
    (\<forall>s :: 'a inode_state_scheme. power_on s \<longrightarrow> disk s = image_disk st \<longrightarrow>
      (\<exists>t i u v. fs_mount s = Inr t \<and> inode_alloc INODE_ROOT t = Inr (i, u) \<and> inode_lock i u = Inr v \<and> sb t = mkfs_sb \<and>
         dir_ok {} i v \<and> names_ok (entries v i) \<and> dmap (entries v i) = root_map ps))"
proof -
  obtain st m where st: "mkfs_main h residue rm (cmd # im # map fst ps) = Inr st" "imgst m (dots residue @ prog_entries residue 1 ps) (places 0 ps) st"
    "img_inode st 0 = final_root (length (dots residue @ prog_entries residue 1 ps))" "m + 10 \<le> N_BITS" "lay (Suc (length ps)) m st"
    by (rule run_image [OF assms])
  have "\<exists>t i u v. fs_mount s = Inr t \<and> inode_alloc INODE_ROOT t = Inr (i, u) \<and> inode_lock i u = Inr v \<and> sb t = mkfs_sb \<and>
      dir_ok {} i v \<and> names_ok (entries v i) \<and> dmap (entries v i) = root_map ps"
    if on: "power_on s" "disk s = image_disk st" for s :: "'a inode_state_scheme"
  proof -
    obtain t where t: "fs_mount s = Inr t" "mounted t" "carries t st" by (rule image_mounts [OF st(2) on])
    obtain i u v where "inode_alloc INODE_ROOT t = Inr (i, u)" "inode_lock i u = Inr v" "root_is i (2 + length ps) (root_map ps) v"
      by (rule mounted_root [OF assms st(2,3,4) t(2,3)])
    then show ?thesis using t(1,2) by (auto simp: root_is_def mounted_def)
  qed
  then show ?thesis using st(1) by blast
qed

text \<open>For examples: a host with two programs, and a kernel that has just been loaded.\<close>

definition wit_ps :: "(byte list \<times> byte list \<times> byte list) list" where
  "wit_ps = [(bytes_of ''./user/_a'', [97], [1, 2, 3]), (bytes_of ''./user/_b'', [98], [9])]"

definition wit_host :: host where
  "wit_host = \<lparr>can_create = (\<lambda>_. True), host_file = (\<lambda>f. if f = bytes_of ''./user/_a'' then Regular [1, 2, 3]
     else if f = bytes_of ''./user/_b'' then Regular [9] else Missing)\<rparr>"

abbreviation wit_residue :: "nat \<Rightarrow> byte list" where
  "wit_residue \<equiv> (\<lambda>_. replicate DIR_NAME_LEN 255)"

definition wit_kernel :: "mkfs_state \<Rightarrow> inode_state" where
  "wit_kernel st = inode_bss (image_disk st) (replicate N_INODE blank_inode)"

lemma wit_kernel_on: "power_on (wit_kernel st)" "disk (wit_kernel st) = image_disk st"
  by (simp_all add: wit_kernel_def power_on_def inode_bss_def buf_bss_def)

lemma wit_run: "run_ok wit_host [] wit_ps wit_residue N_BLOCK"
  by (simp add: run_ok_def wit_host_def wit_ps_def bytes_of_def program_def n_chunks_def names_good_def)

lemma wit_length: "length wit_ps = 2"
  by (simp add: wit_ps_def)

lemma wit_root: "root_map wit_ps [98] = Some 2" "root_map wit_ps (bytes_of a_txt) = None" "root_map wit_ps (bytes_of b_txt) = None"
  "root_map wit_ps (bytes_of c_txt) = None" "root_map wit_ps (bytes_of d_txt) = None"
  by (simp_all add: root_map_def wit_ps_def bytes_of_def upt_rec)

theorem mkfs_root_directory_witness:
  "\<exists>st t i u v. mkfs_main wit_host wit_residue N_BLOCK ([] # [] # map fst wit_ps) = Inr st \<and> fs_mount (wit_kernel st) = Inr t \<and>
     inode_alloc INODE_ROOT t = Inr (i, u) \<and> inode_lock i u = Inr v \<and> dmap (entries v i) [98] = Some 2"
proof -
  obtain st where st: "mkfs_main wit_host wit_residue N_BLOCK ([] # [] # map fst wit_ps) = Inr st"
    "\<forall>s :: inode_state. power_on s \<longrightarrow> disk s = image_disk st \<longrightarrow>
      (\<exists>t i u v. fs_mount s = Inr t \<and> inode_alloc INODE_ROOT t = Inr (i, u) \<and> inode_lock i u = Inr v \<and> sb t = mkfs_sb \<and>
         dir_ok {} i v \<and> names_ok (entries v i) \<and> dmap (entries v i) = root_map wit_ps)"
    using mkfs_root_directory [OF wit_run, of "[]"] wit_length by auto
  from st(2) wit_kernel_on obtain t i u v where "fs_mount (wit_kernel st) = Inr t" "inode_alloc INODE_ROOT t = Inr (i, u)" "inode_lock i u = Inr v"
    "dmap (entries v i) = root_map wit_ps" by blast
  with st(1) wit_root(1) show ?thesis by (intro exI [of _ st] exI [of _ t] exI [of _ i] exI [of _ u] exI [of _ v]) simp
qed



section \<open>The contents of the programs\<close>

lemma places_nth: "j < length ps \<Longrightarrow> places b ps ! j = (b + total_chunks (take j ps), snd (snd (ps ! j)))"
proof (induction ps arbitrary: b j)
  case (Cons p ps)
  then show ?case by (cases j) simp_all
qed simp

lemma chunk_byte:
  assumes "placed st gs 0 bs" "length gs = n_chunks bs" "p < length bs"
  shows "p div BLOCK_SIZE < length gs" "image st ! (131 + gs ! (p div BLOCK_SIZE)) ! (p mod BLOCK_SIZE) = bs ! p"
proof -
  let ?k = "p div BLOCK_SIZE" and ?r = "p mod BLOCK_SIZE"
  have pk: "p = BLOCK_SIZE * ?k + ?r" by (metis mult.commute div_mult_mod_eq)
  have "?k \<le> length bs div BLOCK_SIZE" using assms(3) by (intro div_le_mono) simp
  then show k: "?k < length gs" using assms(2) by (simp add: n_chunks_def)
  have "?r < length bs - BLOCK_SIZE * ?k" using assms(3) pk by linarith
  then have c: "?r < length (chunk 0 bs ?k)" "chunk 0 bs ?k ! ?r = bs ! p" using pk by (simp_all add: chunk_def slice_def)
  have "take (length (chunk 0 bs ?k)) (image st ! (131 + gs ! ?k)) = chunk 0 bs ?k" using assms(1) k by (simp add: placed_def)
  then have "chunk 0 bs ?k ! ?r = take (length (chunk 0 bs ?k)) (image st ! (131 + gs ! ?k)) ! ?r" by simp
  then show "image st ! (131 + gs ! ?k) ! ?r = bs ! p" using c by simp
qed

lemma file_on_size:
  assumes "file_on st m b bs ip"
  shows "isize ip = of_nat (length bs)"
proof -
  have "ip = file_inode\<lparr>addrs := addrs ip, isize := of_nat (length bs)\<rparr>" using assms by (simp add: file_on_def)
  then have "isize ip = isize (file_inode\<lparr>addrs := addrs ip, isize := of_nat (length bs)\<rparr>)" by (rule arg_cong)
  then show ?thesis by simp
qed

lemma file_readable:
  assumes "file_on st m 0 bs (img_inode st n)" "length bs < DIRECT_SIZE" "lay a m st" "m + 10 \<le> N_BITS" "fs_ok v {}" "sb v = mkfs_sb" "carries v st"
    "i < length (icache v)" "dpart (inode_at v i) = img_inode st n"
  shows "\<exists>w. inode_read_data i 0 (of_nat (length bs)) buf_put v (replicate (length bs) 0) = Inr (of_nat (length bs), w, bs)"
proof -
  obtain gs where gs: "length gs = n_chunks bs" "sorted_wrt (<) gs" "set gs \<subseteq> {1..<m}" "placed st gs 0 bs" "grown file_inode 0 gs (img_inode st n)"
    using assms(1) by (auto simp: file_on_def)
  have "isize (img_inode st n) = of_nat (length bs)" by (rule file_on_size [OF assms(1)])
  moreover have un: "unat (of_nat (length bs) :: u32) = length bs" using assms(2) by (intro unat_small) simp
  ultimately have sz: "unat (isize (dpart (inode_at v i))) = length bs" using assms(9) by simp
  have dir: "direct v i k = (if k < length gs then of_nat (131 + gs ! k) else 0)" if "k < N_DIRECT" for k
    using gs(5) that assms(9) by (simp add: grown_def file_inode_def)
  have "length bs div BLOCK_SIZE < 10" using assms(2) by (simp add: less_mult_imp_div_less)
  then have g10: "length gs \<le> 10" using gs(1) by (simp add: n_chunks_def)
  have dg: "distinct gs" "set gs \<subseteq> {..<m}" using gs(2,3) strict_sorted_iff by auto
  have fi: "file_inv {} i v"
    by (rule image_file_inv [OF assms(5-7,3,4,8) _ g10 dg dir]) (use gs(5) assms(9) in \<open>auto simp: grown_def\<close>)
  have rb: "mapped_byte v i p \<and> fbyte v i p = bs ! p" if p: "p < length bs" for p
  proof -
    note c = chunk_byte [OF gs(4,1) p]
    let ?g = "gs ! (p div BLOCK_SIZE)"
    have g: "?g < N_BITS" using nth_mem [OF c(1)] dg(2) assms(4) by auto
    have d: "direct v i (p div BLOCK_SIZE) = of_nat (131 + ?g)" using dir [of "p div BLOCK_SIZE"] c(1) g10 by simp
    have "disk v (of_nat (131 + ?g)) = image st ! (131 + ?g)" by (rule carriesD(1) [OF assms(7)]) (use g in simp)
    then show ?thesis using c(2) d data_ref_nonzero [OF g] unfolding mapped_byte_def fbyte_def by simp
  qed
  obtain w mm where w: "inode_read_data i 0 (of_nat (length bs)) buf_put v (replicate (length bs) 0) = Inr (of_nat (length bs), w, mm)"
    "length mm = length bs" "\<forall>p < length bs. mm ! p = fbyte v i p"
    using buf_sink.inode_read_ok [OF fi, of "replicate (length bs) 0" "length bs" 0 "of_nat (length bs)" "length bs"] sz un assms(2) rb by auto
  have "mm = bs" using rb w by (intro nth_equalityI) auto
  then show ?thesis using w(1) by blast
qed

lemma program_loaded:
  assumes "imgst m (dots residue @ prog_entries residue 1 ps) (places 0 ps) st" "j < length ps" "length ps \<le> 30" "mounted t" "carries t st"
  obtains i u v where "inode_alloc (of_nat (Suc j)) t = Inr (i, u)" "inode_lock i u = Inr v" "fs_ok v {}" "sb v = mkfs_sb" "carries v st"
    "i < length (icache v)" "dpart (inode_at v i) = img_inode st (Suc j)"
    "file_on st m (total_chunks (take j ps)) (snd (snd (ps ! j))) (img_inode st (Suc j))"
proof -
  have lt: "Suc j < 2048" using assms(2,3) by simp
  obtain i u v where v: "inode_alloc (of_nat (Suc j)) t = Inr (i, u)" "inode_lock i u = Inr v" "fs_ok v {}" "disk v = disk t" "sb v = mkfs_sb"
    "i < length (icache v)" "dpart (inode_at v i) = img_inode st (Suc j)" "inode_num (inode_at v i) = of_nat (Suc j)"
    "spinlock_holding 0 (islk (inode_at v i))"
    by (rule load_inode [OF assms(4,5) lt])
  have "file_on st m (total_chunks (take j ps)) (snd (snd (ps ! j))) (img_inode st (Suc j))"
    using assms(1,2) places_nth [OF assms(2), of 0] by (auto simp: imgst_def)
  moreover have "carries v st" using assms(5) v(4) by (simp add: carries_def)
  ultimately show thesis using that [OF v(1,2,3,5)] v(6,7) by blast
qed



text \<open>C33. The programs after the first one are lost: \<^verbatim>\<open>main\<close> goes on counting \<^verbatim>\<open>bn\<close> from one program to the next, so the direct
  entries of a later program begin behind the blocks of the programs before it.  The kernel finds the inode with the size of the
  program, but no block for its first bytes.\<close>

theorem mkfs_later_program_lost:
  assumes "run_ok h im ps residue rm" and "length ps \<le> 30" and "0 < j" and "j < length ps"
  shows "\<exists>st. mkfs_main h residue rm (cmd # im # map fst ps) = Inr st \<and>
    (\<forall>s :: 'a inode_state_scheme. power_on s \<longrightarrow> disk s = image_disk st \<longrightarrow>
      (\<exists>t i u v. fs_mount s = Inr t \<and> inode_alloc (of_nat (Suc j)) t = Inr (i, u) \<and> inode_lock i u = Inr v \<and>
         isize (dpart (inode_at v i)) = of_nat (length (snd (snd (ps ! j)))) \<and>
         (\<forall>p < DIRECT_SIZE. p div BLOCK_SIZE < total_chunks (take j ps) \<longrightarrow> \<not> mapped_byte v i p) \<and> \<not> mapped_byte v i 0))"
proof -
  obtain st m where st: "mkfs_main h residue rm (cmd # im # map fst ps) = Inr st" "imgst m (dots residue @ prog_entries residue 1 ps) (places 0 ps) st"
    "img_inode st 0 = final_root (length (dots residue @ prog_entries residue 1 ps))" "m + 10 \<le> N_BITS" "lay (Suc (length ps)) m st"
    by (rule run_image [OF assms(1,2)])
  have "\<exists>t i u v. fs_mount s = Inr t \<and> inode_alloc (of_nat (Suc j)) t = Inr (i, u) \<and> inode_lock i u = Inr v \<and>
      isize (dpart (inode_at v i)) = of_nat (length (snd (snd (ps ! j)))) \<and>
      (\<forall>p < DIRECT_SIZE. p div BLOCK_SIZE < total_chunks (take j ps) \<longrightarrow> \<not> mapped_byte v i p) \<and> \<not> mapped_byte v i 0"
    if on: "power_on s" "disk s = image_disk st" for s :: "'a inode_state_scheme"
  proof -
    let ?b = "total_chunks (take j ps)" and ?bs = "snd (snd (ps ! j))"
    obtain t where t: "fs_mount s = Inr t" "mounted t" "carries t st" by (rule image_mounts [OF st(2) on])
    obtain i u v where v: "inode_alloc (of_nat (Suc j)) t = Inr (i, u)" "inode_lock i u = Inr v" "fs_ok v {}" "sb v = mkfs_sb" "carries v st"
      "i < length (icache v)" "dpart (inode_at v i) = img_inode st (Suc j)" "file_on st m ?b ?bs (img_inode st (Suc j))"
      by (rule program_loaded [OF st(2) assms(4,2) t(2,3)])
    obtain gs where "grown file_inode ?b gs (img_inode st (Suc j))" using v(8) by (auto simp: file_on_def)
    then have un: "\<not> mapped_byte v i p" if "p < DIRECT_SIZE" "p div BLOCK_SIZE < ?b" for p
      using that v(7) less_mult_imp_div_less [of p 10 BLOCK_SIZE] by (simp add: mapped_byte_def grown_def file_inode_def)
    have "0 < ?b" using assms(3,4) by (cases ps; cases j) (auto simp: n_chunks_def)
    then have "\<not> mapped_byte v i 0" using un [of 0] by simp
    moreover have "isize (img_inode st (Suc j)) = of_nat (length ?bs)"
      by (rule file_on_size [OF v(8)])
    ultimately show ?thesis using t(1) v(1,2,7) un by auto
  qed
  then show ?thesis using st(1) by blast
qed

theorem mkfs_later_program_lost_witness:
  "\<exists>st t i u v. mkfs_main wit_host wit_residue N_BLOCK ([] # [] # map fst wit_ps) = Inr st \<and> fs_mount (wit_kernel st) = Inr t \<and>
     inode_alloc (of_nat (Suc 1)) t = Inr (i, u) \<and> inode_lock i u = Inr v \<and> isize (dpart (inode_at v i)) = 1 \<and> \<not> mapped_byte v i 0"
proof -
  have sz: "of_nat (length (snd (snd (wit_ps ! 1)))) = (1 :: u32)" by (simp add: wit_ps_def)
  obtain st where st: "mkfs_main wit_host wit_residue N_BLOCK ([] # [] # map fst wit_ps) = Inr st"
    "\<forall>s :: inode_state. power_on s \<longrightarrow> disk s = image_disk st \<longrightarrow>
      (\<exists>t i u v. fs_mount s = Inr t \<and> inode_alloc (of_nat (Suc 1)) t = Inr (i, u) \<and> inode_lock i u = Inr v \<and>
         isize (dpart (inode_at v i)) = 1 \<and> \<not> mapped_byte v i 0)"
    using mkfs_later_program_lost [OF wit_run, of 1 "[]"] wit_length unfolding sz by (simp del: of_nat_Suc) blast
  from st(2) wit_kernel_on show ?thesis using st(1) by blast
qed

text \<open>With more than 30 programs the root directory does not fit in its block: \<^verbatim>\<open>dirent_create\<close> copies the 33rd entry behind the end of
  \<^verbatim>\<open>dir_buf\<close>, which C leaves undefined, although no check of the tool fails.\<close>

theorem mkfs_directory_overflow:
  assumes "run_ok h im ps residue rm" and "30 < length ps"
  shows "mkfs_main h residue rm (cmd # im # map fst ps) = Inl Undefined"
proof -
  obtain q qs where q: "drop 30 ps = q # qs" using assms(2) by (cases "drop 30 ps") auto
  then have ps: "ps = take 30 ps @ q # qs" by (metis append_take_drop_id)
  have t: "total_chunks (take 30 ps) \<le> total_chunks ps" by (subst (2) ps) (simp only: total_chunks_append le_add1)
  have r: "can_create h im" "\<forall>p \<in> set ps. program h p" "\<forall>i. length (residue i) = DIR_NAME_LEN" "11 + 3 * total_chunks ps \<le> N_BITS" "N_BLOCK \<le> rm"
    using assms(1) by (auto simp: run_ok_def)
  show ?thesis
    by (subst ps, rule mkfs_main_full) (use r ps t assms(2) in auto)
qed

text \<open>31 programs with one-letter names and no contents.\<close>

definition many_ps :: "(byte list \<times> byte list \<times> byte list) list" where
  "many_ps = map (\<lambda>k. (bytes_of ''./user/_'' @ [of_nat k], [of_nat k], [])) [65..<96]"

definition many_host :: host where
  "many_host = \<lparr>can_create = (\<lambda>_. True), host_file = (\<lambda>_. Regular [])\<rparr>"

lemma many_run: "run_ok many_host [] many_ps wit_residue N_BLOCK"
proof -
  have u: "unat (of_nat k :: byte) = k" if "k < 256" for k using that by (simp add: unat_of_nat take_bit_nat_eq_self)
  have c: "unat (0 :: byte) = 0" "unat slash = 47" "unat (46 :: byte) = 46" by simp_all
  have ch: "(of_nat k :: byte) \<noteq> 0" "(of_nat k :: byte) \<noteq> slash" "(of_nat k :: byte) \<noteq> 46" if "65 \<le> k" "k < 96" for k
  proof -
    have "unat (of_nat k :: byte) = k" using that by (intro u) simp
    then have "unat (of_nat k :: byte) \<noteq> unat (0 :: byte)" "unat (of_nat k :: byte) \<noteq> unat slash" "unat (of_nat k :: byte) \<noteq> unat (46 :: byte)"
      unfolding c using that by simp_all
    then show "(of_nat k :: byte) \<noteq> 0" "(of_nat k :: byte) \<noteq> slash" "(of_nat k :: byte) \<noteq> 46" by metis+
  qed
  have inj: "inj_on (\<lambda>k. [of_nat k :: byte]) {65..<96}"
  proof (rule inj_onI)
    fix j k assume "j \<in> {65..<96}" "k \<in> {65..<96}" "[of_nat j :: byte] = [of_nat k]"
    then have "j < 256" "k < 256" "(of_nat j :: byte) = of_nat k" by auto
    then show "j = k" using u by metis
  qed
  have "total_chunks (map (\<lambda>k :: nat. (f k, g k, [])) ks) = length ks" for f g and ks :: "nat list"
    by (induction ks) (simp_all add: n_chunks_def)
  then have "total_chunks many_ps = 31" unfolding many_ps_def by (simp only: length_upt)
  moreover have "\<forall>p \<in> set many_ps. program many_host p" using ch by (auto simp: many_ps_def program_def many_host_def bytes_of_def)
  moreover have "map prog_name many_ps = map (\<lambda>k. [of_nat k]) [65..<96]" by (simp add: many_ps_def)
  then have "names_good many_ps"
    unfolding names_good_def using ch inj by (auto simp: many_ps_def distinct_map simp del: upt_Suc)
  ultimately show ?thesis by (simp add: run_ok_def many_host_def)
qed

theorem mkfs_directory_overflow_witness:
  "length many_ps = 31 \<and> mkfs_main many_host wit_residue N_BLOCK ([] # [] # map fst many_ps) = Inl Undefined"
  using mkfs_directory_overflow [OF many_run, of "[]"] by (simp add: many_ps_def)

end
