(* ===== verification/Sched.thy ===== *)
theory Sched
  imports Procs
begin

text \<open>
  What the process table guarantees: one process runs at a time and it is the one the hart says, locks are
  free between steps, sleeping and waking do not lose a process, exit and wait hand over the exit state, and
  the scheduler finds a runnable process in a bounded number of rounds.
\<close>

section \<open>Locks and the hart\<close>

definition lock_free :: "spinlock \<Rightarrow> bool" where
  "lock_free l \<longleftrightarrow> \<not> locked l \<and> cpuid l = - 1"

definition held_lock :: "spinlock \<Rightarrow> spinlock" where
  "held_lock l = l\<lparr>locked := True, cpuid := 0\<rparr>"

definition popped :: "hart \<Rightarrow> hart" where
  "popped c = c\<lparr>noff := noff c - 1, sie := noff c = 1 \<and> origin c\<rparr>"

text \<open>The hart after an acquire and a release: only \<^verbatim>\<open>origin\<close> may differ.\<close>

definition settled :: "hart \<Rightarrow> hart" where
  "settled c = (if noff c = 0 then c\<lparr>origin := sie c\<rparr> else c)"

definition cpu_ok :: "hart \<Rightarrow> bool" where
  "cpu_ok c \<longleftrightarrow> 0 \<le> noff c \<and> (noff c \<noteq> 0 \<longrightarrow> \<not> sie c)"

lemma lock_free_take: "lock_free l \<Longrightarrow> spinlock_acquire 0 c l = Inr (push_off c, held_lock l)"
  by (simp add: lock_free_def spinlock_acquire_def lock_take_def spinlock_holding_def held_lock_def)

lemma held_lock_drop:
  "\<not> sie c \<Longrightarrow> 0 < noff c \<Longrightarrow> spinlock_release 0 c (held_lock l) = Inr (popped c, l\<lparr>locked := False, cpuid := - 1\<rparr>)"
  by (cases c) (auto simp: spinlock_release_def lock_drop_def held_lock_def spinlock_holding_def pop_off_def popped_def Let_def)

lemma lock_free_id [simp]: "lock_free l \<Longrightarrow> l\<lparr>locked := False, cpuid := - 1\<rparr> = l"
  by (cases l) (simp add: lock_free_def)

lemma push_off_props [simp]: "\<not> sie (push_off c)" "noff (push_off c) = noff c + 1"
  by (simp_all add: push_off_def Let_def)

lemma popped_push_off: "cpu_ok c \<Longrightarrow> popped (push_off c) = settled c"
  by (cases c) (auto simp: popped_def push_off_def settled_def cpu_ok_def Let_def)

lemma cpu_ok_settled [simp]: "cpu_ok c \<Longrightarrow> cpu_ok (settled c)" "noff (settled c) = noff c" "sie (settled c) = sie c"
  "settled (settled c) = settled c"
  by (simp_all add: cpu_ok_def settled_def)

lemma cpu_ok_push [simp]: "cpu_ok c \<Longrightarrow> cpu_ok (push_off c)"
  by (simp add: cpu_ok_def)

section \<open>The process table\<close>

lemma upd_simps [simp]:
  "procs (upd i f s) = (procs s)[i := f (proc_at s i)]" "cpu (upd i f s) = cpu s" "cur (upd i f s) = cur s" "ctl (upd i f s) = ctl s"
  "wait_lock (upd i f s) = wait_lock s" "timer_lk (upd i f s) = timer_lk s" "ticks (upd i f s) = ticks s"
  "proczero (upd i f s) = proczero s" "pm (upd i f s) = pm s" "mms (upd i f s) = mms s" "global_pid (upd i f s) = global_pid s"
  "kernel_pgtbl (upd i f s) = kernel_pgtbl s" "first (upd i f s) = first s"
  by (simp_all add: upd_def)

lemma upd_id [simp]: "upd i (\<lambda>p. p) s = s"
  by (simp add: upd_def)

lemma upd_upd: "upd i f (upd i g s) = upd i (\<lambda>p. f (g p)) s"
  by (cases "i < length (procs s)") (simp_all add: upd_def list_update_beyond)

lemma upd_cpu: "upd i f (s\<lparr>cpu := c\<rparr>) = (upd i f s)\<lparr>cpu := c\<rparr>"
  by (simp add: upd_def)

text \<open>Process slots are locked by their index, so a slot update that leaves the lock alone commutes with it.\<close>

definition keeps_lock :: "(proc \<Rightarrow> proc) \<Rightarrow> bool" where
  "keeps_lock f \<longleftrightarrow> (\<forall>p l. f (p\<lparr>plk := l\<rparr>) = (f p)\<lparr>plk := l\<rparr>)"

lemma keeps_lock_plk: "keeps_lock f \<Longrightarrow> plk (f p) = plk p"
proof -
  assume "keeps_lock f"
  then have "f (p\<lparr>plk := plk p\<rparr>) = (f p)\<lparr>plk := plk p\<rparr>" unfolding keeps_lock_def by blast
  then have "f p = (f p)\<lparr>plk := plk p\<rparr>" by simp
  then show ?thesis by (metis proc.select_convs(1) proc.surjective proc.update_convs(1))
qed

lemma acquire_proc_free:
  assumes "lock_free (plk (proc_at s i))"
  shows "acquire_proc i s = Inr (upd i (\<lambda>p. p\<lparr>plk := held_lock (plk (proc_at s i))\<rparr>) (s\<lparr>cpu := push_off (cpu s)\<rparr>))"
  using assms by (simp add: acquire_proc_def lock_free_take)

lemma release_proc_held:
  assumes "i < length (procs s)" "plk (proc_at s i) = held_lock l" "\<not> sie (cpu s)" "0 < noff (cpu s)"
  shows "release_proc i s = Inr (upd i (\<lambda>p. p\<lparr>plk := l\<lparr>locked := False, cpuid := - 1\<rparr>\<rparr>) (s\<lparr>cpu := popped (cpu s)\<rparr>))"
  using assms by (simp add: release_proc_def held_lock_drop)

text \<open>A critical section of a slot.\<close>

lemma critical:
  assumes "i < length (procs s)" "lock_free (plk (proc_at s i))" "cpu_ok (cpu s)" "keeps_lock f"
  shows "\<exists>t. acquire_proc i s = Inr t \<and> proc_at t i = (proc_at s i)\<lparr>plk := held_lock (plk (proc_at s i))\<rparr> \<and>
    release_proc i (upd i f t) = Inr ((upd i f s)\<lparr>cpu := settled (cpu s)\<rparr>)"
proof -
  let ?l = "plk (proc_at s i)"
  let ?t = "upd i (\<lambda>p. p\<lparr>plk := held_lock ?l\<rparr>) (s\<lparr>cpu := push_off (cpu s)\<rparr>)"
  have len: "i < length (procs (upd i f ?t))" using assms(1) by simp
  have at: "proc_at (upd i f ?t) i = f ((proc_at s i)\<lparr>plk := held_lock ?l\<rparr>)" using assms(1) by simp
  have "plk (proc_at (upd i f ?t) i) = held_lock ?l" unfolding at using keeps_lock_plk [OF assms(4)] by simp
  moreover have "0 < noff (cpu (upd i f ?t))" using assms(3) by (simp add: cpu_ok_def)
  ultimately have "release_proc i (upd i f ?t) =
      Inr (upd i (\<lambda>p. p\<lparr>plk := ?l\<lparr>locked := False, cpuid := - 1\<rparr>\<rparr>) ((upd i f ?t)\<lparr>cpu := popped (push_off (cpu s))\<rparr>))"
    using release_proc_held [OF len] by simp
  also have "\<dots> = Inr ((upd i f s)\<lparr>cpu := settled (cpu s)\<rparr>)"
  proof -
    have "(f ((proc_at s i)\<lparr>plk := held_lock ?l\<rparr>))\<lparr>plk := ?l\<rparr> = f (proc_at s i)"
      using assms(4) unfolding keeps_lock_def by (metis proc.surjective proc.update_convs(1))
    then show ?thesis
      using popped_push_off [OF assms(3)] lock_free_id [OF assms(2)] assms(1) by (simp add: upd_def)
  qed
  finally show ?thesis using acquire_proc_free [OF assms(2)] assms(1) by simp
qed

text \<open>A lock of the kernel that is taken and released around an update.\<close>

lemma get_set_lock [simp]: "get_lock k (set_lock k l s) = l" "procs (set_lock k l s) = procs s" "cpu (set_lock k l s) = cpu s"
  "cur (set_lock k l s) = cur s" "ctl (set_lock k l s) = ctl s" "proczero (set_lock k l s) = proczero s"
  by (cases k; simp)+

lemma acquire_free: "lock_free (get_lock k s) \<Longrightarrow> acquire k s = Inr (set_lock k (held_lock (get_lock k s)) (s\<lparr>cpu := push_off (cpu s)\<rparr>))"
  by (simp add: acquire_def lock_free_take)

lemma release_held:
  "get_lock k s = held_lock l \<Longrightarrow> lock_free l \<Longrightarrow> \<not> sie (cpu s) \<Longrightarrow> 0 < noff (cpu s) \<Longrightarrow>
   release k s = Inr (set_lock k l (s\<lparr>cpu := popped (cpu s)\<rparr>))"
  by (simp add: release_def held_lock_drop)

section \<open>Waking processes\<close>

text \<open>Two states that differ in the table and in the saved interrupt flag of the hart only.\<close>

definition same_but_table :: "kernel \<Rightarrow> kernel \<Rightarrow> bool" where
  "same_but_table s t \<longleftrightarrow> t = s\<lparr>procs := procs t, cpu := cpu t\<rparr> \<and> noff (cpu t) = noff (cpu s) \<and> sie (cpu t) = sie (cpu s)"

lemma same_but_tableD:
  assumes "same_but_table s t"
  shows "cur t = cur s" "ctl t = ctl s" "proczero t = proczero s" "wait_lock t = wait_lock s" "timer_lk t = timer_lk s"
    "noff (cpu t) = noff (cpu s)" "sie (cpu t) = sie (cpu s)" "get_lock k t = get_lock k s" "cpu_ok (cpu t) = cpu_ok (cpu s)"
    "global_pid t = global_pid s" "pm t = pm s" "mms t = mms s" "ticks t = ticks s"
proof -
  have e: "t = s\<lparr>procs := procs t, cpu := cpu t\<rparr>" using assms by (simp add: same_but_table_def)
  show "cur t = cur s" "ctl t = ctl s" "proczero t = proczero s" "wait_lock t = wait_lock s" "timer_lk t = timer_lk s"
    "global_pid t = global_pid s" "pm t = pm s" "mms t = mms s" "ticks t = ticks s"
    by (subst e; simp)+
  show "get_lock k t = get_lock k s" by (cases k) (subst e; simp)+
  show "noff (cpu t) = noff (cpu s)" "sie (cpu t) = sie (cpu s)" "cpu_ok (cpu t) = cpu_ok (cpu s)"
    using assms by (simp_all add: same_but_table_def cpu_ok_def)
qed

lemma same_but_table_refl: "same_but_table s s"
  by (simp add: same_but_table_def)

lemma same_but_table_trans:
  assumes "same_but_table s t" "same_but_table t u"
  shows "same_but_table s u"
  using assms by (cases s; cases t; cases u) (simp add: same_but_table_def)

definition wake :: "chan option \<Rightarrow> proc \<Rightarrow> proc" where
  "wake c p = (if pstate p = SLEEPING \<and> sleep_space p = c then p\<lparr>pstate := RUNNABLE\<rparr> else p)"

lemma keeps_wake: "keeps_lock (wake c)"
  by (simp add: keeps_lock_def wake_def)

lemma wake_plk [simp]: "plk (wake c p) = plk p"
  by (simp add: wake_def)

lemma wake_round:
  assumes "i < length (procs s)" "lock_free (plk (proc_at s i))" "cpu_ok (cpu s)"
  shows "bindr (acquire_proc i s) (\<lambda>s. release_proc i (if pstate (proc_at s i) = SLEEPING \<and> sleep_space (proc_at s i) = c
           then upd i (\<lambda>p. p\<lparr>pstate := RUNNABLE\<rparr>) s else s)) = Inr ((upd i (wake c) s)\<lparr>cpu := settled (cpu s)\<rparr>)"
proof -
  obtain t where t: "acquire_proc i s = Inr t" "proc_at t i = (proc_at s i)\<lparr>plk := held_lock (plk (proc_at s i))\<rparr>"
    "release_proc i (upd i (wake c) t) = Inr ((upd i (wake c) s)\<lparr>cpu := settled (cpu s)\<rparr>)"
    using critical [OF assms keeps_wake] by blast
  have "(if pstate (proc_at t i) = SLEEPING \<and> sleep_space (proc_at t i) = c then upd i (\<lambda>p. p\<lparr>pstate := RUNNABLE\<rparr>) t else t) = upd i (wake c) t"
    by (simp add: upd_def wake_def)
  then show ?thesis using t by simp
qed

lemma wakeup_loop_ok:
  assumes "set js \<subseteq> {..<length (procs s)}" "\<forall>j < length (procs s). cur s \<noteq> Some j \<longrightarrow> lock_free (plk (proc_at s j))" "cpu_ok (cpu s)" "distinct js"
  shows "\<exists>t. wakeup_loop c js s = Inr t \<and> same_but_table s t \<and> length (procs t) = length (procs s) \<and>
    (\<forall>j < length (procs s). proc_at t j = (if j \<in> set js \<and> cur s \<noteq> Some j then wake c (proc_at s j) else proc_at s j))"
  using assms
proof (induction js arbitrary: s)
  case Nil
  then show ?case by (simp add: same_but_table_refl)
next
  case (Cons i js)
  show ?case
  proof (cases "cur s = Some i")
    case True
    then show ?thesis using Cons.IH [of s] Cons.prems by auto
  next
    case False
    let ?s = "(upd i (wake c) s)\<lparr>cpu := settled (cpu s)\<rparr>"
    have i: "i < length (procs s)" "lock_free (plk (proc_at s i))" using Cons.prems False by auto
    have at: "proc_at ?s j = (if j = i then wake c (proc_at s j) else proc_at s j)" if "j < length (procs s)" for j
      using that by simp
    have "\<forall>j < length (procs ?s). cur ?s \<noteq> Some j \<longrightarrow> lock_free (plk (proc_at ?s j))" using Cons.prems(2) i(1) by (auto simp: nth_list_update)
    then obtain t where t: "wakeup_loop c js ?s = Inr t" "same_but_table ?s t" "length (procs t) = length (procs s)"
      "\<forall>j < length (procs s). proc_at t j = (if j \<in> set js \<and> cur s \<noteq> Some j then wake c (proc_at ?s j) else proc_at ?s j)"
      using Cons.IH [of ?s] Cons.prems by auto
    have "wakeup_loop c (i # js) s = Inr t" using False t(1) wake_round [OF i Cons.prems(3), of c] by simp
    moreover have "same_but_table s ?s" by (simp add: same_but_table_def upd_def)
    moreover have "proc_at t j = (if j \<in> set (i # js) \<and> cur s \<noteq> Some j then wake c (proc_at s j) else proc_at s j)"
      if j: "j < length (procs s)" for j
    proof (cases "j = i")
      case True
      then show ?thesis using t(4) at [OF j] j False Cons.prems(4) by simp
    next
      case ne: False
      then have "proc_at ?s j = proc_at s j" using at [OF j] by simp
      then show ?thesis using t(4) j ne by (simp only: set_simps insert_iff) simp
    qed
    ultimately show ?thesis using t(2,3) same_but_table_trans by blast
  qed
qed

lemma proc_wakeup_ok:
  assumes "length (procs s) = NPROC" "\<forall>j < NPROC. cur s \<noteq> Some j \<longrightarrow> lock_free (plk (proc_at s j))" "cpu_ok (cpu s)"
  obtains t where "proc_wakeup c s = Inr t" "same_but_table s t" "length (procs t) = NPROC"
    "\<forall>j < NPROC. proc_at t j = (if cur s \<noteq> Some j then wake c (proc_at s j) else proc_at s j)"
proof -
  have "set [0..<NPROC] \<subseteq> {..<length (procs s)}" using assms(1) by auto
  then obtain t where "wakeup_loop c [0..<NPROC] s = Inr t" "same_but_table s t" "length (procs t) = NPROC"
    "\<forall>j < NPROC. proc_at t j = (if j \<in> set [0..<NPROC] \<and> cur s \<noteq> Some j then wake c (proc_at s j) else proc_at s j)"
    using wakeup_loop_ok [of "[0..<NPROC]" s c] assms by (auto simp del: upt_Suc set_upt)
  then show thesis using that [of t] by (simp add: proc_wakeup_def)
qed

section \<open>The invariant of the table\<close>

text \<open>Between operations the lock of every slot is free, the running process is the one the hart names, a process that
  sleeps does so in \<^verbatim>\<open>proc_wait\<close> (\<^verbatim>\<open>sys_sleep\<close> never gets that far), and a process that has exited is a zombie or gone.\<close>

definition kont_ok :: "proc \<Rightarrow> bool" where
  "kont_ok p \<longleftrightarrow> (\<forall>l w. kont p = AfterSleep l w \<longrightarrow> l = WaitLock \<and> (\<exists>a. w = InWait a)) \<and>
     (kont p = Gone \<longrightarrow> pstate p = ZOMBIE \<or> pstate p = UNUSED)"

definition slot_ok :: "kernel \<Rightarrow> nat \<Rightarrow> proc \<Rightarrow> bool" where
  "slot_ok s i p \<longleftrightarrow> lock_free (plk p) \<and> (pstate p = RUNNING \<longleftrightarrow> cur s = Some i) \<and> kont_ok p"

definition table_inv :: "kernel \<Rightarrow> bool" where
  "table_inv s \<longleftrightarrow> length (procs s) = NPROC \<and> lock_free (timer_lk s) \<and> (\<forall>j < NPROC. slot_ok s j (proc_at s j))"

definition running :: "nat \<Rightarrow> kernel \<Rightarrow> bool" where
  "running i s \<longleftrightarrow> table_inv s \<and> lock_free (wait_lock s) \<and> i < NPROC \<and> cur s = Some i \<and> ctl s = Process i \<and> noff (cpu s) = 0"

definition waiting :: "nat \<Rightarrow> kernel \<Rightarrow> bool" where
  "waiting i s \<longleftrightarrow> table_inv s \<and> (\<exists>l. lock_free l \<and> wait_lock s = held_lock l) \<and> i < NPROC \<and> cur s = Some i \<and>
     ctl s = Process i \<and> noff (cpu s) = 1 \<and> \<not> sie (cpu s)"

definition scheduling :: "nat \<Rightarrow> kernel \<Rightarrow> bool" where
  "scheduling i s \<longleftrightarrow> table_inv s \<and> lock_free (wait_lock s) \<and> cur s = None \<and> ctl s = Scheduler i \<and> noff (cpu s) = 0"

text \<open>A slot that is locked; when the scheduler has just switched to a process its slot is.\<close>

definition slot_held :: "nat \<Rightarrow> kernel \<Rightarrow> bool" where
  "slot_held i s \<longleftrightarrow> i < NPROC \<and> (\<exists>l. lock_free l \<and> plk (proc_at s i) = held_lock l \<and> table_inv (upd i (\<lambda>p. p\<lparr>plk := l\<rparr>) s)) \<and>
     lock_free (wait_lock s) \<and> noff (cpu s) = 1 \<and> \<not> sie (cpu s)"

definition entering :: "nat \<Rightarrow> kernel \<Rightarrow> bool" where
  "entering i s \<longleftrightarrow> slot_held i s \<and> cur s = Some i \<and> ctl s = Process i"

definition sched_inv :: "kernel \<Rightarrow> bool" where
  "sched_inv s \<longleftrightarrow> (case ctl s of Scheduler i \<Rightarrow> scheduling i s | Process i \<Rightarrow> running i s \<or> entering i s)"

lemma table_invD:
  assumes "table_inv s"
  shows "length (procs s) = NPROC" "j < NPROC \<Longrightarrow> lock_free (plk (proc_at s j))"
    "j < NPROC \<Longrightarrow> pstate (proc_at s j) = RUNNING \<longleftrightarrow> cur s = Some j" "lock_free (timer_lk s)"
    "j < NPROC \<Longrightarrow> kont_ok (proc_at s j)"
  using assms by (auto simp: table_inv_def slot_ok_def)

text \<open>A slot changes in a way that keeps the invariant.\<close>

lemma table_inv_upd:
  assumes "table_inv s" "slot_ok s i (f (proc_at s i))"
  shows "table_inv (upd i f s)"
proof -
  have "slot_ok (upd i f s) j (proc_at (upd i f s) j)" if "j < NPROC" for j
    using assms that unfolding table_inv_def by (cases "j = i") (auto simp: slot_ok_def)
  then show ?thesis using assms unfolding table_inv_def by simp
qed

lemma table_inv_frame:
  assumes "procs t = procs s" "cur t = cur s" "timer_lk t = timer_lk s"
  shows "table_inv t = table_inv s"
  using assms by (simp add: table_inv_def slot_ok_def)

text \<open>Switching to the scheduler from a process that has locked its slot.\<close>

lemma proc_sched_ok:
  assumes "i < length (procs s)" "plk (proc_at s i) = held_lock l" "lock_free l" "noff (cpu s) = 1" "\<not> sie (cpu s)" "pstate (proc_at s i) \<noteq> RUNNING"
  shows "proc_sched i k s =
    Inr ((upd i (\<lambda>p. p\<lparr>kont := k, plk := l\<rparr>) s)\<lparr>cur := None, cpu := popped (cpu s), ctl := Scheduler (Suc i)\<rparr>)"
proof -
  let ?s = "upd i (\<lambda>p. p\<lparr>kont := k\<rparr>) (s\<lparr>cur := None\<rparr>)"
  have "release_proc i ?s = Inr (upd i (\<lambda>p. p\<lparr>plk := l\<rparr>) (?s\<lparr>cpu := popped (cpu s)\<rparr>))"
    using release_proc_held [of i ?s l] assms by simp
  moreover have "spinlock_holding 0 (plk (proc_at s i))" using assms(2) by (simp add: held_lock_def spinlock_holding_def)
  ultimately show ?thesis using assms by (simp add: proc_sched_def upd_def)
qed

lemma popped_noff [simp]: "noff (popped c) = noff c - 1"
  by (simp add: popped_def)

text \<open>Everything but the slot of the process is as it was before it gave up the hart.\<close>

lemma scheduling_after:
  assumes "table_inv s" "i < NPROC" "cur s = Some i" "lock_free (wait_lock t)" "noff (cpu t) = 0" "lock_free (plk p)" "pstate p \<noteq> RUNNING"
    "kont_ok p" "procs t = (procs s)[i := p]" "timer_lk t = timer_lk s" "cur t = None" "ctl t = Scheduler n"
  shows "scheduling n t"
proof -
  have "slot_ok t j (proc_at t j)" if "j < NPROC" for j
    using assms table_invD [OF assms(1)] that by (cases "j = i") (auto simp: slot_ok_def)
  then show ?thesis using assms table_invD [OF assms(1)] by (simp add: scheduling_def table_inv_def)
qed

lemma running_simps:
  assumes "running i s"
  shows "table_inv s" "i < NPROC" "cur s = Some i" "ctl s = Process i" "noff (cpu s) = 0" "lock_free (wait_lock s)" "cpu_ok (cpu s)"
    "i < length (procs s)" "lock_free (plk (proc_at s i))"
  using assms table_invD [of s] by (auto simp: running_def cpu_ok_def)

section \<open>Yielding and scheduling\<close>

lemma proc_yield_ok:
  assumes "running i s"
  shows "\<exists>t. proc_yield i s = Inr t \<and> scheduling (Suc i) t \<and> procs t = (procs s)[i := (proc_at s i)\<lparr>pstate := RUNNABLE, kont := AfterYield\<rparr>] \<and>
    global_pid t = global_pid s"
proof -
  note r = running_simps [OF assms]
  let ?l = "plk (proc_at s i)"
  let ?t = "upd i (\<lambda>p. p\<lparr>plk := held_lock ?l\<rparr>) (s\<lparr>cpu := push_off (cpu s)\<rparr>)"
  let ?u = "upd i (\<lambda>p. p\<lparr>pstate := RUNNABLE\<rparr>) ?t"
  have at: "proc_at ?u i = (proc_at s i)\<lparr>plk := held_lock ?l, pstate := RUNNABLE\<rparr>" using r(8) by simp
  have "proc_yield i s = proc_sched i AfterYield ?u" using acquire_proc_free [OF r(9)] by (simp add: proc_yield_def)
  also have "\<dots> = Inr ((upd i (\<lambda>p. p\<lparr>kont := AfterYield, plk := ?l\<rparr>) ?u)\<lparr>cur := None, cpu := popped (cpu ?u), ctl := Scheduler (Suc i)\<rparr>)"
    (is "_ = Inr ?v") using r at by (intro proc_sched_ok) simp_all
  finally have y: "proc_yield i s = Inr ?v" .
  have p: "procs ?v = (procs s)[i := (proc_at s i)\<lparr>pstate := RUNNABLE, kont := AfterYield\<rparr>]" using r(8) by simp
  moreover have "scheduling (Suc i) ?v"
    by (rule scheduling_after [OF r(1,2,3) _ _ _ _ _ p]) (use r in \<open>simp_all add: kont_ok_def\<close>)
  ultimately show ?thesis using y by auto
qed

lemma proc_scheduler_ok:
  assumes "scheduling i s"
  shows "\<exists>t. proc_scheduler i s = Inr t \<and> global_pid t = global_pid s \<and>
    (if NPROC \<le> i then scheduling 0 t \<and> procs t = procs s
     else if pstate (proc_at s i) = RUNNABLE then entering i t \<and>
       procs t = (procs s)[i := (proc_at s i)\<lparr>plk := held_lock (plk (proc_at s i)), pstate := RUNNING\<rparr>]
     else scheduling (Suc i) t \<and> procs t = procs s)"
proof (cases "NPROC \<le> i")
  case True
  then show ?thesis using assms by (simp add: proc_scheduler_def scheduling_def table_inv_def slot_ok_def)
next
  case False
  have s: "table_inv s" "lock_free (wait_lock s)" "cur s = None" "ctl s = Scheduler i" "noff (cpu s) = 0"
    using assms by (auto simp: scheduling_def)
  have i: "i < NPROC" "i < length (procs s)" "lock_free (plk (proc_at s i))" using False table_invD [OF s(1)] by auto
  let ?l = "plk (proc_at s i)"
  let ?t = "upd i (\<lambda>p. p\<lparr>plk := held_lock ?l\<rparr>) (s\<lparr>cpu := push_off (cpu s)\<rparr>)"
  show ?thesis
  proof (cases "pstate (proc_at s i) = RUNNABLE")
    case True
    let ?u = "upd i (\<lambda>p. p\<lparr>pstate := RUNNING\<rparr>) (?t\<lparr>cur := Some i, ctl := Process i\<rparr>)"
    have c: "proc_scheduler i s = Inr ?u"
      using False True acquire_proc_free [OF i(3)] i(2) by (simp add: proc_scheduler_def)
    have p: "procs ?u = (procs s)[i := (proc_at s i)\<lparr>plk := held_lock ?l, pstate := RUNNING\<rparr>]" using i(2) by simp
    have "slot_ok (upd i (\<lambda>p. p\<lparr>plk := ?l\<rparr>) ?u) j (proc_at (upd i (\<lambda>p. p\<lparr>plk := ?l\<rparr>) ?u) j)" if "j < NPROC" for j
      using table_invD [OF s(1)] table_invD(5) [OF s(1) i(1)] s(3) i True that by (cases "j = i") (auto simp: slot_ok_def kont_ok_def)
    then have "table_inv (upd i (\<lambda>p. p\<lparr>plk := ?l\<rparr>) ?u)" using table_invD [OF s(1)] by (simp add: table_inv_def)
    moreover have "plk (proc_at ?u i) = held_lock ?l" using i(2) by simp
    ultimately have "entering i ?u" using s i unfolding entering_def slot_held_def by fastforce
    then show ?thesis using False True c p by auto
  next
    case nr: False
    obtain t where t: "acquire_proc i s = Inr t" "proc_at t i = (proc_at s i)\<lparr>plk := held_lock ?l\<rparr>"
      "release_proc i (upd i (\<lambda>p. p) t) = Inr ((upd i (\<lambda>p. p) s)\<lparr>cpu := settled (cpu s)\<rparr>)"
      using critical [OF i(2,3), of "\<lambda>p. p"] s(5) by (auto simp: cpu_ok_def keeps_lock_def)
    have "proc_scheduler i s = Inr (s\<lparr>cpu := settled (cpu s), ctl := Scheduler (Suc i)\<rparr>)"
      using False nr t by (simp add: proc_scheduler_def)
    moreover have "scheduling (Suc i) (s\<lparr>cpu := settled (cpu s), ctl := Scheduler (Suc i)\<rparr>)"
      using s table_inv_frame [of "s\<lparr>cpu := settled (cpu s), ctl := Scheduler (Suc i)\<rparr>" s] by (simp add: scheduling_def)
    ultimately show ?thesis using False nr by auto
  qed
qed

section \<open>The wait lock\<close>

lemma waiting_simps:
  assumes "waiting i s"
  shows "table_inv s" "i < NPROC" "cur s = Some i" "ctl s = Process i" "noff (cpu s) = 1" "\<not> sie (cpu s)" "cpu_ok (cpu s)"
    "length (procs s) = NPROC" "j < NPROC \<Longrightarrow> lock_free (plk (proc_at s j))"
  using assms table_invD [of s] by (auto simp: waiting_def cpu_ok_def)

lemma enter_wait:
  assumes "running i s"
  shows "\<exists>t. acquire WaitLock s = Inr t \<and> waiting i t \<and> procs t = procs s \<and> proczero t = proczero s \<and> global_pid t = global_pid s"
proof -
  note r = running_simps [OF assms]
  let ?t = "s\<lparr>cpu := push_off (cpu s), wait_lock := held_lock (wait_lock s)\<rparr>"
  have "acquire WaitLock s = Inr ?t" using acquire_free [of WaitLock s] r(6) by simp
  moreover have "waiting i ?t"
    using r table_inv_frame [of ?t s] by (auto simp: waiting_def)
  ultimately show ?thesis by auto
qed

lemma leave_wait:
  assumes "waiting i s"
  shows "\<exists>t. release WaitLock s = Inr t \<and> running i t \<and> procs t = procs s \<and> proczero t = proczero s \<and> global_pid t = global_pid s"
proof -
  note r = waiting_simps [OF assms]
  obtain l where l: "lock_free l" "wait_lock s = held_lock l" using assms by (auto simp: waiting_def)
  let ?t = "s\<lparr>cpu := popped (cpu s), wait_lock := l\<rparr>"
  have "release WaitLock s = Inr ?t" using release_held [of WaitLock s l] l r by simp
  moreover have "running i ?t" using r l table_inv_frame [of ?t s] by (simp add: running_def)
  ultimately show ?thesis by auto
qed

text \<open>With interrupts already off, a critical section leaves the hart exactly as it was.\<close>

lemma critical_nested:
  assumes "waiting i s" "j < NPROC" "keeps_lock f"
  shows "\<exists>t. acquire_proc j s = Inr t \<and> t = upd j (\<lambda>p. p\<lparr>plk := held_lock (plk (proc_at s j))\<rparr>) (s\<lparr>cpu := push_off (cpu s)\<rparr>) \<and>
    release_proc j (upd j f t) = Inr (upd j f s)"
proof -
  note r = waiting_simps [OF assms(1)]
  have "j < length (procs s)" using r(8) assms(2) by simp
  moreover have "(upd j f s)\<lparr>cpu := settled (cpu s)\<rparr> = upd j f s" using r(5) by (simp add: settled_def upd_def)
  ultimately show ?thesis using critical [OF _ r(9) [OF assms(2)] r(7) assms(3)] acquire_proc_free [OF r(9) [OF assms(2)]] by auto
qed

lemma table_inv_wake:
  assumes "table_inv s" "same_but_table s t" "length (procs t) = NPROC"
    "\<forall>j < NPROC. proc_at t j = (if cur s \<noteq> Some j then wake c (proc_at s j) else proc_at s j)"
  shows "table_inv t"
proof -
  have "slot_ok t j (proc_at t j)" if "j < NPROC" for j
    using assms(1,4) that same_but_tableD(1) [OF assms(2)] unfolding table_inv_def by (auto simp: slot_ok_def wake_def kont_ok_def)
  then show ?thesis using assms(1,3) same_but_tableD(5) [OF assms(2)] unfolding table_inv_def by simp
qed

lemma wakeup_waiting:
  assumes "waiting i s"
  obtains t where "proc_wakeup c s = Inr t" "waiting i t" "same_but_table s t"
    "\<forall>j < NPROC. proc_at t j = (if j \<noteq> i then wake c (proc_at s j) else proc_at s j)"
proof -
  note r = waiting_simps [OF assms]
  have fr: "\<forall>j < NPROC. cur s \<noteq> Some j \<longrightarrow> lock_free (plk (proc_at s j))" using r(9) by blast
  obtain t where t: "proc_wakeup c s = Inr t" "same_but_table s t" "length (procs t) = NPROC"
    "\<forall>j < NPROC. proc_at t j = (if cur s \<noteq> Some j then wake c (proc_at s j) else proc_at s j)"
    by (rule proc_wakeup_ok [OF r(8) fr r(7)])
  note d = same_but_tableD [OF t(2)]
  have "waiting i t" using assms table_inv_wake [OF r(1) t(2-4)] d unfolding waiting_def by metis
  moreover have "\<forall>j < NPROC. proc_at t j = (if j \<noteq> i then wake c (proc_at s j) else proc_at s j)" using t(4) r(3) by auto
  ultimately show thesis using that t by blast
qed

section \<open>Exit\<close>

text \<open>How a slot may change while a process exits: a new parent, or a wakeup.\<close>

definition stripped :: "proc \<Rightarrow> proc" where
  "stripped p = p\<lparr>parent := None, pstate := UNUSED\<rparr>"

definition touched :: "kernel \<Rightarrow> chan option \<Rightarrow> kernel \<Rightarrow> nat \<Rightarrow> bool" where
  "touched s c t j \<longleftrightarrow> stripped (proc_at t j) = stripped (proc_at s j) \<and>
     (pstate (proc_at t j) = pstate (proc_at s j) \<or>
      pstate (proc_at s j) = SLEEPING \<and> sleep_space (proc_at s j) = c \<and> pstate (proc_at t j) = RUNNABLE)"

lemma waiting_upd:
  assumes "waiting i s" "slot_ok s j (f (proc_at s j))"
  shows "waiting i (upd j f s)"
  using assms table_inv_upd [of s j f] by (simp add: waiting_def)

lemma touched_sleep: "touched s c t j \<Longrightarrow> sleep_space (proc_at t j) = sleep_space (proc_at s j) \<and> plk (proc_at t j) = plk (proc_at s j) \<and>
   kont (proc_at t j) = kont (proc_at s j) \<and> pid (proc_at t j) = pid (proc_at s j)"
  by (cases "proc_at s j"; cases "proc_at t j") (simp add: touched_def stripped_def)

lemma touched_refl: "touched s c s j"
  by (simp add: touched_def)

lemma touched_trans: "touched s c t j \<Longrightarrow> touched t c u j \<Longrightarrow> touched s c u j"
  using touched_sleep [of s c t j] unfolding touched_def by auto

lemma reparent_loop_ok:
  assumes "waiting i s" "set js \<subseteq> {..<NPROC}" "distinct js"
  shows "\<exists>t. reparent_loop i js s = Inr t \<and> waiting i t \<and> proczero t = proczero s \<and> global_pid t = global_pid s \<and>
    (\<forall>j < NPROC. touched s (map_option ChanProc (proczero s)) t j \<and> (j = i \<longrightarrow> pstate (proc_at t j) = pstate (proc_at s j)) \<and>
      parent (proc_at t j) = (if j \<in> set js \<and> parent (proc_at s j) = Some i then proczero s else parent (proc_at s j)))"
  using assms
proof (induction js arbitrary: s)
  case Nil
  then show ?case by (simp add: touched_refl)
next
  case (Cons k js)
  let ?c = "map_option ChanProc (proczero s)"
  show ?case
  proof (cases "parent (proc_at s k) = Some i")
    case False
    then show ?thesis using Cons.IH [OF Cons.prems(1)] Cons.prems(2,3) by (auto split: if_splits)
  next
    case True
    let ?s = "upd k (\<lambda>p. p\<lparr>parent := proczero s\<rparr>) s"
    have k: "k < NPROC" using Cons.prems(2) by simp
    note r = waiting_simps [OF Cons.prems(1)]
    have "slot_ok s k ((proc_at s k)\<lparr>parent := proczero s\<rparr>)" using r(1) k unfolding table_inv_def by (simp add: slot_ok_def kont_ok_def)
    then have w: "waiting i ?s" using waiting_upd [OF Cons.prems(1)] by blast
    obtain t where t: "proc_wakeup ?c ?s = Inr t" "waiting i t" "same_but_table ?s t"
      "\<forall>j < NPROC. proc_at t j = (if j \<noteq> i then wake ?c (proc_at ?s j) else proc_at ?s j)"
      by (rule wakeup_waiting [OF w])
    have z: "proczero t = proczero s" "global_pid t = global_pid s" using same_but_tableD(3,10) [OF t(3)] by simp_all
    have at: "proc_at ?s j = (if j = k then (proc_at s k)\<lparr>parent := proczero s\<rparr> else proc_at s j)" if "j < NPROC" for j
      using that r(8) by simp
    have st: "touched s ?c t j \<and> (j = i \<longrightarrow> pstate (proc_at t j) = pstate (proc_at s j)) \<and>
        parent (proc_at t j) = (if j = k then proczero s else parent (proc_at s j))" if "j < NPROC" for j
    proof -
      have q: "proc_at t j = (if j \<noteq> i then wake ?c (proc_at ?s j) else proc_at ?s j)" using t(4) that by blast
      show ?thesis unfolding touched_def q at [OF that] by (simp add: stripped_def wake_def)
    qed
    obtain u where u: "reparent_loop i js t = Inr u" "waiting i u" "proczero u = proczero s" "global_pid u = global_pid s"
      "\<forall>j < NPROC. touched t ?c u j \<and> (j = i \<longrightarrow> pstate (proc_at u j) = pstate (proc_at t j)) \<and>
        parent (proc_at u j) = (if j \<in> set js \<and> parent (proc_at t j) = Some i then proczero s else parent (proc_at t j))"
      using Cons.IH [OF t(2)] Cons.prems(2,3) unfolding z by auto
    have "reparent_loop i (k # js) s = Inr u" using True t(1) u(1) by simp
    moreover have "touched s ?c u j \<and> (j = i \<longrightarrow> pstate (proc_at u j) = pstate (proc_at s j)) \<and>
      parent (proc_at u j) = (if j \<in> set (k # js) \<and> parent (proc_at s j) = Some i then proczero s else parent (proc_at s j))"
      if j: "j < NPROC" for j
      using st [OF j] u(5) j touched_trans True Cons.prems(3) by (cases "j = k") auto
    ultimately show ?thesis using u(2,3,4) by blast
  qed
qed

text \<open>Lock the own slot, release the wait lock and switch to the scheduler: the tail of exit and of sleep.\<close>

lemma give_up:
  assumes w: "waiting i s" and f: "keeps_lock f" "pstate (f (proc_at s i)) \<noteq> RUNNING" and k: "kont_ok ((f (proc_at s i))\<lparr>kont := k\<rparr>)"
  shows "\<exists>t u v. acquire_proc i s = Inr t \<and> release WaitLock t = Inr u \<and> release WaitLock (upd i f t) = Inr (upd i f u) \<and>
    proc_sched i k (upd i f u) = Inr v \<and> scheduling (Suc i) v \<and> procs v = (procs s)[i := (f (proc_at s i))\<lparr>kont := k\<rparr>] \<and>
    global_pid v = global_pid s"
proof -
  note r = waiting_simps [OF w]
  obtain wl where wl: "lock_free wl" "wait_lock s = held_lock wl" using w by (auto simp: waiting_def)
  let ?l = "plk (proc_at s i)"
  let ?t = "upd i (\<lambda>p. p\<lparr>plk := held_lock ?l\<rparr>) (s\<lparr>cpu := push_off (cpu s)\<rparr>)"
  let ?u = "?t\<lparr>cpu := popped (cpu ?t), wait_lock := wl\<rparr>"
  have len: "i < length (procs s)" using r(2,8) by simp
  have c: "noff (push_off (cpu s)) = 2" "\<not> sie (push_off (cpu s))" using r(5) by simp_all
  have a: "acquire_proc i s = Inr ?t" using acquire_proc_free [OF r(9) [OF r(2)]] .
  have b: "release WaitLock ?t = Inr ?u" using release_held [of WaitLock ?t wl] wl c by simp
  have b': "release WaitLock (upd i f ?t) = Inr (upd i f ?u)"
    using release_held [of WaitLock "upd i f ?t" wl] wl c by (simp add: upd_def)
  have at: "f ((proc_at s i)\<lparr>plk := held_lock ?l\<rparr>) = (f (proc_at s i))\<lparr>plk := held_lock ?l\<rparr>"
    using f(1) unfolding keeps_lock_def by blast
  let ?v = "(upd i (\<lambda>p. p\<lparr>kont := k, plk := ?l\<rparr>) (upd i f ?u))\<lparr>cur := None, cpu := popped (cpu ?u), ctl := Scheduler (Suc i)\<rparr>"
  have d: "proc_sched i k (upd i f ?u) = Inr ?v"
    using proc_sched_ok [of i "upd i f ?u" ?l k] len at r(9) [OF r(2)] f(2) c by (simp add: popped_def)
  have p: "procs ?v = (procs s)[i := (f (proc_at s i))\<lparr>kont := k\<rparr>]"
    using len at keeps_lock_plk [OF f(1), of "proc_at s i"] by simp (metis proc.surjective proc.update_convs(1) proc.update_convs(17))
  have "scheduling (Suc i) ?v"
    by (rule scheduling_after [OF r(1,2,3) _ _ _ _ _ p])
      (use wl r(5) r(9) [OF r(2)] f(2) k keeps_lock_plk [OF f(1), of "proc_at s i"] in \<open>simp_all\<close>)
  moreover have "global_pid ?v = global_pid s" by simp
  ultimately show ?thesis using a b b' d p by blast
qed

lemma table_range: "set [0..<n] \<subseteq> {..<n}"
  by auto

lemma exit_ok:
  assumes "running i s" "proczero s \<noteq> Some i"
  shows "\<exists>t1 t2 t. proc_exit i st s = Inr t \<and> scheduling (Suc i) t \<and> global_pid t = global_pid s \<and>
    (\<forall>j < NPROC. touched s (map_option ChanProc (proczero s)) t1 j \<and>
      parent (proc_at t1 j) = (if parent (proc_at s j) = Some i then proczero s else parent (proc_at s j))) \<and>
    (\<forall>j < NPROC. j \<noteq> i \<longrightarrow> proc_at t2 j = wake (map_option ChanProc (parent (proc_at t1 i))) (proc_at t1 j)) \<and>
    proc_at t2 i = proc_at t1 i \<and>
    procs t = (procs t2)[i := (proc_at t2 i)\<lparr>exit_state := st, pstate := ZOMBIE, kont := Gone\<rparr>] \<and> length (procs t2) = NPROC"
proof -
  let ?z = "map_option ChanProc (proczero s)"
  have i: "i < NPROC" using running_simps(2) [OF assms(1)] .
  obtain t0 where t0: "acquire WaitLock s = Inr t0" "waiting i t0" "procs t0 = procs s" "proczero t0 = proczero s" "global_pid t0 = global_pid s"
    using enter_wait [OF assms(1)] by blast
  obtain t1 where t1: "proc_reparent i t0 = Inr t1" "waiting i t1" "proczero t1 = proczero s" "global_pid t1 = global_pid s"
    "\<forall>j < NPROC. touched t0 ?z t1 j \<and> (j = i \<longrightarrow> pstate (proc_at t1 j) = pstate (proc_at t0 j)) \<and>
      parent (proc_at t1 j) = (if j \<in> set [0..<NPROC] \<and> parent (proc_at t0 j) = Some i then proczero s else parent (proc_at t0 j))"
    using reparent_loop_ok [OF t0(2) table_range distinct_upt] unfolding proc_reparent_def t0(4,5) by blast
  let ?p = "map_option ChanProc (parent (proc_at t1 i))"
  obtain t2 where t2: "proc_wakeup ?p t1 = Inr t2" "waiting i t2" "same_but_table t1 t2"
    "\<forall>j < NPROC. proc_at t2 j = (if j \<noteq> i then wake ?p (proc_at t1 j) else proc_at t1 j)"
    by (rule wakeup_waiting [OF t1(2)])
  let ?f = "\<lambda>p. p\<lparr>exit_state := st, pstate := ZOMBIE\<rparr>"
  have f: "keeps_lock ?f" "pstate (?f (proc_at t2 i)) \<noteq> RUNNING" by (simp_all add: keeps_lock_def)
  obtain t3 u v where g: "acquire_proc i t2 = Inr t3" "release WaitLock t3 = Inr u" "release WaitLock (upd i ?f t3) = Inr (upd i ?f u)"
    "proc_sched i Gone (upd i ?f u) = Inr v" "scheduling (Suc i) v" "procs v = (procs t2)[i := (?f (proc_at t2 i))\<lparr>kont := Gone\<rparr>]"
    "global_pid v = global_pid t2"
    using give_up [OF t2(2) f, of Gone] by (auto simp: kont_ok_def)
  have "proc_exit i st s = Inr v" using assms(2) t0(1) t1(1) t2(1) g by (simp add: proc_exit_def)
  moreover have "\<forall>j < NPROC. touched s ?z t1 j \<and>
      parent (proc_at t1 j) = (if parent (proc_at s j) = Some i then proczero s else parent (proc_at s j))"
    using t1(5) t0(3) by (auto simp: touched_def)
  moreover have "length (procs t2) = NPROC" using waiting_simps(8) [OF t2(2)] .
  ultimately show ?thesis using t2(4) i g(5,6,7) t1(4) same_but_tableD(10) [OF t2(3)] by (intro exI [of _ t1] exI [of _ t2] exI [of _ v]) auto
qed

section \<open>Wait\<close>

definition is_child :: "kernel \<Rightarrow> nat \<Rightarrow> nat \<Rightarrow> bool" where
  "is_child s i j \<longleftrightarrow> parent (proc_at s j) = Some i"

definition is_zombie_child :: "kernel \<Rightarrow> nat \<Rightarrow> nat \<Rightarrow> bool" where
  "is_zombie_child s i j \<longleftrightarrow> is_child s i j \<and> pstate (proc_at s j) = ZOMBIE"

lemma proc_free_frame:
  assumes "proc_free im j s = Inr t"
  obtains m mm where "t = upd j reset_proc (s\<lparr>pm := m, mms := mm\<rparr>)"
proof -
  have l: "\<exists>m. x' = x\<lparr>pm := m\<rparr>" if "(if c then lift_pm f x else Inr x) = Inr x'" for c f x x'
    using that by (cases c) (auto simp: lift_pm_def bindr_eq_Inr intro: exI [of _ "pm x"])
  obtain a b c where abc: "(if tf (proc_at s j) \<noteq> 0 then lift_pm (pmem_free (tf (proc_at s j)) True) s else Inr s) = Inr a"
    "(if pgtbl (proc_at s j) \<noteq> 0 then lift_pm (uvm_destroy_pgtbl (pgtbl (proc_at s j))) a else Inr a) = Inr b"
    "(if kstack (proc_at s j) \<noteq> 0 then lift_pm (vm_unmappages (ALLOC_BEGIN im) (kernel_pgtbl b) (kstack (proc_at s j)) PGSIZE True) b else Inr b) = Inr c"
    "t = upd j reset_proc (case pmmap (proc_at s j) of Some r \<Rightarrow> c\<lparr>mms := mmap_region_free r (mms c)\<rparr> | None \<Rightarrow> c)"
    using assms by (auto simp: proc_free_def Let_def bindr_eq_Inr)
  obtain m1 m2 m3 where "a = s\<lparr>pm := m1\<rparr>" "b = a\<lparr>pm := m2\<rparr>" "c = b\<lparr>pm := m3\<rparr>"
    using l [OF abc(1)] l [OF abc(2)] l [OF abc(3)] by blast
  then have c: "c = s\<lparr>pm := m3\<rparr>" by simp
  show thesis
  proof (cases "pmmap (proc_at s j)")
    case None
    then have "t = upd j reset_proc (s\<lparr>pm := m3, mms := mms s\<rparr>)" using abc(4) c by simp
    then show thesis by (rule that)
  next
    case (Some r)
    then have "t = upd j reset_proc (s\<lparr>pm := m3, mms := mmap_region_free r (mms s)\<rparr>)" using abc(4) c by simp
    then show thesis by (rule that)
  qed
qed

lemma wait_scan_no_zombie:
  assumes "waiting i s" "set js \<subseteq> {..<NPROC}" "\<forall>j \<in> set js. \<not> is_zombie_child s i j"
  shows "wait_scan im i addr (js @ ks) hk s = wait_scan im i addr ks (hk \<or> (\<exists>j \<in> set js. is_child s i j)) s"
  using assms(2,3)
proof (induction js arbitrary: hk)
  case Nil
  then show ?case by simp
next
  case (Cons j js)
  show ?case
  proof (cases "is_child s i j")
    case False
    then show ?thesis using Cons by (simp add: is_child_def)
  next
    case True
    have j: "j < NPROC" using Cons.prems(1) by simp
    obtain t where t: "acquire_proc j s = Inr t" "t = upd j (\<lambda>p. p\<lparr>plk := held_lock (plk (proc_at s j))\<rparr>) (s\<lparr>cpu := push_off (cpu s)\<rparr>)"
      "release_proc j t = Inr s"
      using critical_nested [OF assms(1) j, of "\<lambda>p. p"] by (auto simp: keeps_lock_def)
    have "pstate (proc_at t j) = pstate (proc_at s j)" using t(2) j waiting_simps(8) [OF assms(1)] by simp
    then have "pstate (proc_at t j) \<noteq> ZOMBIE" using Cons.prems(2) True by (auto simp: is_zombie_child_def)
    then show ?thesis using t(1,3) True Cons by (simp add: is_child_def)
  qed
qed

lemma wait_scan_zombie:
  assumes w: "waiting i s" and j: "j < NPROC" "is_zombie_child s i j" and r: "wait_scan im i addr (j # js) hk s = Inr (x, t)"
  shows "x = Reaped (pid (proc_at s j)) \<and> waiting i t \<and> procs t = (procs s)[j := reset_proc (proc_at s j)] \<and> global_pid t = global_pid s"
proof -
  let ?l = "plk (proc_at s j)"
  note ws = waiting_simps [OF w]
  have len: "j < length (procs s)" using j(1) ws(8) by simp
  obtain a where a: "acquire_proc j s = Inr a" "a = upd j (\<lambda>p. p\<lparr>plk := held_lock ?l\<rparr>) (s\<lparr>cpu := push_off (cpu s)\<rparr>)"
    using critical_nested [OF w j(1), of "\<lambda>p. p"] by (auto simp: keeps_lock_def)
  have at: "proc_at a j = (proc_at s j)\<lparr>plk := held_lock ?l\<rparr>" using a(2) len by simp
  have pz: "parent (proc_at s j) = Some i" "pstate (proc_at a j) = ZOMBIE" using j(2) at by (simp_all add: is_zombie_child_def is_child_def)
  obtain b c where bc: "(if addr \<noteq> 0 then lift_pm (copyout_bytes (pgtbl (proc_at a i)) addr
        (le_bytes 4 (word_of_int (exit_state (proc_at a j)) :: u32))) a else Inr a) = Inr b"
    "proc_free im j b = Inr c" "release_proc j c = Inr t" "x = Reaped (pid (proc_at a j))"
    using r a(1) pz by (auto simp: Let_def bindr_eq_Inr)
  obtain m where b: "b = a\<lparr>pm := m\<rparr>" using bc(1) by (auto simp: lift_pm_def bindr_eq_Inr split: if_splits intro: that [of "pm a"])
  obtain m' mm where c: "c = upd j reset_proc (b\<lparr>pm := m', mms := mm\<rparr>)" by (rule proc_free_frame [OF bc(2)])
  let ?s = "s\<lparr>pm := m', mms := mm\<rparr>"
  have c': "c = upd j reset_proc (upd j (\<lambda>p. p\<lparr>plk := held_lock ?l\<rparr>) (?s\<lparr>cpu := push_off (cpu s)\<rparr>))"
    unfolding c b a(2) by (simp add: upd_def)
  have wS: "waiting i ?s" using w table_inv_frame [of ?s s] by (simp add: waiting_def)
  have kr: "keeps_lock reset_proc" by (simp add: keeps_lock_def reset_proc_def)
  have "release_proc j c = Inr (upd j reset_proc ?s)"
    using critical_nested [OF wS j(1) kr] unfolding c' by auto
  then have t: "t = upd j reset_proc ?s" using bc(3) by simp
  have ne: "cur s \<noteq> Some j" using table_invD(3) [OF ws(1) j(1)] j(2) by (simp add: is_zombie_child_def)
  have "slot_ok ?s j (reset_proc (proc_at ?s j))"
    using table_invD [OF ws(1)] j(1) ne by (simp add: slot_ok_def reset_proc_def kont_ok_def)
  then have "waiting i t" unfolding t by (rule waiting_upd [OF wS])
  then show ?thesis using bc(4) at t by simp
qed

lemma wait_round_zombie:
  assumes w: "waiting i s" and j: "j < NPROC" "is_zombie_child s i j" "\<forall>k < j. \<not> is_zombie_child s i k"
    and r: "wait_round im i addr s = Inr (x, t)"
  shows "x = Returned (pid (proc_at s j)) \<and> running i t \<and> procs t = (procs s)[j := reset_proc (proc_at s j)] \<and> global_pid t = global_pid s"
proof -
  let ?hk = "\<exists>k \<in> set [0..<j]. is_child s i k"
  have "[0..<j + (NPROC - j)] = [0..<j] @ [j..<j + (NPROC - j)]" by (rule upt_add_eq_append) simp
  then have sp: "[0..<NPROC] = [0..<j] @ j # [Suc j..<NPROC]" using j(1) upt_conv_Cons [OF j(1)] by (simp del: upt_Suc)
  have sub: "set [0..<j] \<subseteq> {..<NPROC}" using j(1) by auto
  have "wait_scan im i addr [0..<NPROC] False s = wait_scan im i addr (j # [Suc j..<NPROC]) ?hk s"
    unfolding sp using wait_scan_no_zombie [OF w sub] j(3) by simp
  then obtain y u where y: "wait_scan im i addr (j # [Suc j..<NPROC]) ?hk s = Inr (y, u)"
    "(case y of Reaped n \<Rightarrow> bindr (release WaitLock u) (\<lambda>s. Inr (Returned n, s))
      | NoChildren \<Rightarrow> bindr (release WaitLock u) (\<lambda>s. Inr (Returned (- 1), s))
      | Children \<Rightarrow> bindr (proc_sleep i (ChanProc i) WaitLock (InWait addr) u) (\<lambda>s. Inr (Switched, s))) = Inr (x, t)"
    using r unfolding wait_round_def by (auto simp: bindr_eq_Inr simp del: upt_Suc)
  note z = wait_scan_zombie [OF w j(1,2) y(1)]
  then obtain v where v: "release WaitLock u = Inr v" "running i v" "procs v = procs u" "global_pid v = global_pid u"
    using leave_wait by blast
  then show ?thesis using y(2) z by auto
qed

lemma wait_round_none:
  assumes w: "waiting i s" and none: "\<not> (\<exists>j < NPROC. is_zombie_child s i j)"
  shows "if \<exists>j < NPROC. is_child s i j
    then \<exists>t. wait_round im i addr s = Inr (Switched, t) \<and> scheduling (Suc i) t \<and> global_pid t = global_pid s \<and>
        procs t = (procs s)[i := (proc_at s i)\<lparr>sleep_space := Some (ChanProc i), pstate := SLEEPING, kont := AfterSleep WaitLock (InWait addr)\<rparr>]
    else \<exists>t. wait_round im i addr s = Inr (Returned (- 1), t) \<and> running i t \<and> procs t = procs s \<and> global_pid t = global_pid s"
proof -
  have sc: "wait_scan im i addr [0..<NPROC] False s = Inr (if \<exists>j < NPROC. is_child s i j then Children else NoChildren, s)"
    using wait_scan_no_zombie [OF w table_range, of im addr "[]" False] none by (auto simp del: upt_Suc)
  let ?f = "\<lambda>p. p\<lparr>sleep_space := Some (ChanProc i), pstate := SLEEPING\<rparr>" and ?k = "AfterSleep WaitLock (InWait addr)"
  have f: "keeps_lock ?f" "pstate (?f (proc_at s i)) \<noteq> RUNNING" "kont_ok ((?f (proc_at s i))\<lparr>kont := ?k\<rparr>)"
    by (simp_all add: keeps_lock_def kont_ok_def)
  obtain t3 u v where g: "acquire_proc i s = Inr t3" "release WaitLock t3 = Inr u" "proc_sched i ?k (upd i ?f u) = Inr v" "scheduling (Suc i) v"
    "procs v = (procs s)[i := (?f (proc_at s i))\<lparr>kont := ?k\<rparr>]" "global_pid v = global_pid s"
    using give_up [OF w f] by blast
  obtain x where x: "release WaitLock s = Inr x" "running i x" "procs x = procs s" "global_pid x = global_pid s"
    using leave_wait [OF w] by blast
  show ?thesis using sc g x by (simp add: wait_round_def proc_sleep_def del: upt_Suc)
qed

lemma wait_enter:
  assumes "running i s"
  obtains t where "proc_wait im i addr s = wait_round im i addr t" "waiting i t" "procs t = procs s" "global_pid t = global_pid s"
    "is_child t i = is_child s i" "is_zombie_child t i = is_zombie_child s i"
proof -
  obtain t where t: "acquire WaitLock s = Inr t" "waiting i t" "procs t = procs s" "global_pid t = global_pid s"
    using enter_wait [OF assms] by blast
  moreover have "is_child t i = is_child s i" "is_zombie_child t i = is_zombie_child s i"
    by (simp_all add: fun_eq_iff is_child_def is_zombie_child_def t(3))
  ultimately show thesis using that [of t] by (simp add: proc_wait_def)
qed

section \<open>Locked slots\<close>

lemma slot_held_release:
  assumes "slot_held i s"
  shows "\<exists>t l. release_proc i s = Inr t \<and> lock_free l \<and> t = (upd i (\<lambda>p. p\<lparr>plk := l\<rparr>) s)\<lparr>cpu := popped (cpu s)\<rparr> \<and> table_inv t \<and>
    lock_free (wait_lock t) \<and> noff (cpu t) = 0"
proof -
  obtain l where l: "lock_free l" "plk (proc_at s i) = held_lock l" "table_inv (upd i (\<lambda>p. p\<lparr>plk := l\<rparr>) s)"
    using assms by (auto simp: slot_held_def)
  have h: "i < NPROC" "lock_free (wait_lock s)" "noff (cpu s) = 1" "\<not> sie (cpu s)" using assms by (auto simp: slot_held_def)
  have len: "i < length (procs s)" using table_invD(1) [OF l(3)] h(1) by simp
  let ?t = "(upd i (\<lambda>p. p\<lparr>plk := l\<rparr>) s)\<lparr>cpu := popped (cpu s)\<rparr>"
  have "release_proc i s = Inr ?t"
    using release_proc_held [OF len l(2) h(4)] h(3) l(1) by (simp add: upd_def)
  moreover have "table_inv ?t" using l(3) table_inv_frame [of ?t "upd i (\<lambda>p. p\<lparr>plk := l\<rparr>) s"] by simp
  ultimately show ?thesis using l(1) h by auto
qed

lemma slot_held_acquire:
  assumes "table_inv s" "lock_free (wait_lock s)" "noff (cpu s) = 0" "i < NPROC"
  shows "\<exists>t. acquire_proc i s = Inr t \<and> slot_held i t \<and> cur t = cur s \<and> ctl t = ctl s \<and> global_pid t = global_pid s \<and>
    procs t = (procs s)[i := (proc_at s i)\<lparr>plk := held_lock (plk (proc_at s i))\<rparr>]"
proof -
  let ?l = "plk (proc_at s i)"
  have l: "lock_free ?l" "length (procs s) = NPROC" using table_invD [OF assms(1)] assms(4) by auto
  let ?t = "upd i (\<lambda>p. p\<lparr>plk := held_lock ?l\<rparr>) (s\<lparr>cpu := push_off (cpu s)\<rparr>)"
  have "upd i (\<lambda>p. p\<lparr>plk := ?l\<rparr>) ?t = s\<lparr>cpu := push_off (cpu s)\<rparr>" using assms(4) l(2) by (simp add: upd_def)
  then have "table_inv (upd i (\<lambda>p. p\<lparr>plk := ?l\<rparr>) ?t)" using assms(1) table_inv_frame [of "s\<lparr>cpu := push_off (cpu s)\<rparr>" s] by simp
  moreover have "plk (proc_at ?t i) = held_lock ?l" using assms(4) l(2) by simp
  ultimately have "slot_held i ?t" using l assms unfolding slot_held_def by fastforce
  then show ?thesis using acquire_proc_free [OF l(1)] by auto
qed

lemma slot_held_upd:
  assumes "slot_held i s" "keeps_lock f" "pstate (f (proc_at s i)) = RUNNING \<longleftrightarrow> cur s = Some i" "kont_ok (f (proc_at s i))"
  shows "slot_held i (upd i f s)"
proof -
  obtain l where l: "lock_free l" "plk (proc_at s i) = held_lock l" "table_inv (upd i (\<lambda>p. p\<lparr>plk := l\<rparr>) s)"
    using assms by (auto simp: slot_held_def)
  have len: "i < length (procs s)" using assms(1) table_invD(1) [OF l(3)] by (simp add: slot_held_def)
  have e: "upd i (\<lambda>p. p\<lparr>plk := l\<rparr>) (upd i f s) = upd i f (upd i (\<lambda>p. p\<lparr>plk := l\<rparr>) s)"
    using assms(2) unfolding upd_upd keeps_lock_def by simp
  have f: "f (proc_at (upd i (\<lambda>p. p\<lparr>plk := l\<rparr>) s) i) = (f (proc_at s i))\<lparr>plk := l\<rparr>"
    using assms(2) len by (simp add: keeps_lock_def)
  have "slot_ok (upd i (\<lambda>p. p\<lparr>plk := l\<rparr>) s) i (f (proc_at (upd i (\<lambda>p. p\<lparr>plk := l\<rparr>) s) i))"
    unfolding f using l(1) assms(3,4) by (simp add: slot_ok_def kont_ok_def)
  from table_inv_upd [of "upd i (\<lambda>p. p\<lparr>plk := l\<rparr>) s" i f, OF l(3) this] have "table_inv (upd i (\<lambda>p. p\<lparr>plk := l\<rparr>) (upd i f s))" unfolding e .
  moreover have "plk (proc_at (upd i f s) i) = held_lock l" using l(2) keeps_lock_plk [OF assms(2)] len by simp
  ultimately show ?thesis using l assms(1) by (auto simp: slot_held_def)
qed

lemma slot_held_frame:
  assumes "slot_held i s" "procs t = procs s" "cur t = cur s" "timer_lk t = timer_lk s" "wait_lock t = wait_lock s" "cpu t = cpu s"
  shows "slot_held i t"
proof -
  obtain l where l: "lock_free l" "plk (proc_at s i) = held_lock l" "table_inv (upd i (\<lambda>p. p\<lparr>plk := l\<rparr>) s)"
    using assms by (auto simp: slot_held_def)
  have "table_inv (upd i (\<lambda>p. p\<lparr>plk := l\<rparr>) t)"
    using l(3) table_inv_frame [of "upd i (\<lambda>p. p\<lparr>plk := l\<rparr>) t" "upd i (\<lambda>p. p\<lparr>plk := l\<rparr>) s"] assms(2-4) by simp
  then show ?thesis using assms l by (auto simp: slot_held_def)
qed

lemma entering_release:
  assumes "entering i s"
  shows "\<exists>t l. release_proc i s = Inr t \<and> running i t \<and> procs t = (procs s)[i := (proc_at s i)\<lparr>plk := l\<rparr>] \<and> global_pid t = global_pid s"
  using slot_held_release [of i s] assms by (auto simp: entering_def running_def slot_held_def)

section \<open>Resuming\<close>

text \<open>What a step may do to the identity of processes: nothing, or free a slot.\<close>

definition pids_kept :: "kernel \<Rightarrow> kernel \<Rightarrow> bool" where
  "pids_kept s t \<longleftrightarrow> global_pid s \<le> global_pid t \<and>
     (\<forall>j < NPROC. pstate (proc_at t j) = UNUSED \<or> pid (proc_at t j) = pid (proc_at s j) \<and> pstate (proc_at s j) \<noteq> UNUSED)"

definition pids_ok :: "kernel \<Rightarrow> bool" where
  "pids_ok s \<longleftrightarrow> (\<forall>j < NPROC. pstate (proc_at s j) \<noteq> UNUSED \<longrightarrow> pid (proc_at s j) < global_pid s) \<and>
     (\<forall>j < NPROC. \<forall>k < NPROC. pstate (proc_at s j) \<noteq> UNUSED \<longrightarrow> pstate (proc_at s k) \<noteq> UNUSED \<longrightarrow>
        pid (proc_at s j) = pid (proc_at s k) \<longrightarrow> j = k)"

lemma pids_ok_kept:
  assumes "pids_ok s" "pids_kept s t"
  shows "pids_ok t"
proof -
  have k: "pid (proc_at t j) = pid (proc_at s j) \<and> pstate (proc_at s j) \<noteq> UNUSED" if "j < NPROC" "pstate (proc_at t j) \<noteq> UNUSED" for j
    using assms(2) that by (auto simp: pids_kept_def)
  have g: "global_pid s \<le> global_pid t" using assms(2) by (simp add: pids_kept_def)
  have "pid (proc_at t j) < global_pid t" if "j < NPROC" "pstate (proc_at t j) \<noteq> UNUSED" for j
    using k [OF that] assms(1) that g unfolding pids_ok_def by fastforce
  moreover have "a = b" if "a < NPROC" "b < NPROC" "pstate (proc_at t a) \<noteq> UNUSED" "pstate (proc_at t b) \<noteq> UNUSED"
    "pid (proc_at t a) = pid (proc_at t b)" for a b
    using k [OF that(1,3)] k [OF that(2,4)] that assms(1) unfolding pids_ok_def by metis
  ultimately show ?thesis unfolding pids_ok_def by blast
qed

lemma pids_kept_trans: "pids_kept s t \<Longrightarrow> pids_kept t u \<Longrightarrow> pids_kept s u"
proof -
  assume a: "pids_kept s t" "pids_kept t u"
  have "pstate (proc_at u j) = UNUSED \<or> pid (proc_at u j) = pid (proc_at s j) \<and> pstate (proc_at s j) \<noteq> UNUSED" if "j < NPROC" for j
    using a that unfolding pids_kept_def by metis
  then show "pids_kept s u" using a by (simp add: pids_kept_def)
qed

lemma pids_kept_upd:
  assumes "procs t = (procs s)[i := p]" "global_pid s \<le> global_pid t" "length (procs s) = NPROC"
    "pstate p = UNUSED \<or> pid p = pid (proc_at s i) \<and> pstate (proc_at s i) \<noteq> UNUSED"
  shows "pids_kept s t"
proof -
  have "pstate (proc_at t j) = UNUSED \<or> pid (proc_at t j) = pid (proc_at s j) \<and> pstate (proc_at s j) \<noteq> UNUSED" if "j < NPROC" for j
    using assms that by (cases "j = i") auto
  then show ?thesis using assms(2) by (simp add: pids_kept_def)
qed

lemma pids_kept_same: "procs t = procs s \<Longrightarrow> global_pid t = global_pid s \<Longrightarrow> pids_kept s t"
  by (simp add: pids_kept_def)

lemma wait_round_inv:
  assumes "waiting i s" "wait_round im i addr s = Inr (r, t)"
  shows "sched_inv t \<and> pids_kept s t"
proof (cases "\<exists>j < NPROC. is_zombie_child s i j")
  case False
  note w = waiting_simps [OF assms(1)]
  have run: "pstate (proc_at s i) = RUNNING" using table_invD(3) [OF w(1,2)] w(3) by simp
  show ?thesis
  proof (cases "\<exists>j < NPROC. is_child s i j")
    case True
    then have t: "scheduling (Suc i) t" "global_pid t = global_pid s"
      "procs t = (procs s)[i := (proc_at s i)\<lparr>sleep_space := Some (ChanProc i), pstate := SLEEPING, kont := AfterSleep WaitLock (InWait addr)\<rparr>]"
      using wait_round_none [OF assms(1) False, of im addr] assms(2) by auto
    have "pids_kept s t" using run w(8) by (intro pids_kept_upd [OF t(3)]) (simp_all add: t(2))
    then show ?thesis using t(1) by (simp add: sched_inv_def scheduling_def)
  next
    case nc: False
    then have "running i t" "procs t = procs s" "global_pid t = global_pid s"
      using wait_round_none [OF assms(1) False, of im addr] assms(2) unfolding if_not_P [OF nc] by auto
    then show ?thesis using pids_kept_same [of t s] by (simp add: sched_inv_def running_def)
  qed
next
  case True
  let ?P = "\<lambda>j. j < NPROC \<and> is_zombie_child s i j"
  define j where "j = (LEAST j. ?P j)"
  have j: "j < NPROC" "is_zombie_child s i j" using LeastI_ex [of ?P] True unfolding j_def by auto
  have "\<forall>k < j. \<not> is_zombie_child s i k" using not_less_Least [of _ ?P] j(1) unfolding j_def by (metis less_trans)
  from wait_round_zombie [OF assms(1) j this assms(2)]
  have "running i t" "pids_kept s t" using waiting_simps(8) [OF assms(1)] by (auto intro!: pids_kept_upd [of t s j] simp: reset_proc_def)
  then show ?thesis by (simp add: sched_inv_def running_def)
qed

text \<open>What the model leaves open of the first process: \<^verbatim>\<open>fs_init\<close>, if it returns, does so with the table as it was.\<close>

definition fs_keeps :: "(kernel \<Rightarrow> kernel res) \<Rightarrow> bool" where
  "fs_keeps fs \<longleftrightarrow> (\<forall>i s t. running i s \<longrightarrow> fs s = Inr t \<longrightarrow> running i t \<and> pids_kept s t)"

lemma running_frame:
  assumes "running i s" "procs t = procs s" "cur t = cur s" "ctl t = ctl s" "timer_lk t = timer_lk s" "wait_lock t = wait_lock s" "cpu t = cpu s"
  shows "running i t"
  using assms table_inv_frame [of t s] by (simp add: running_def)

lemma entering_state:
  assumes "entering i s"
  shows "length (procs s) = NPROC" "i < NPROC" "pstate (proc_at s i) = RUNNING" "kont_ok (proc_at s i)"
proof -
  obtain l where l: "table_inv (upd i (\<lambda>p. p\<lparr>plk := l\<rparr>) s)" "i < NPROC" "cur s = Some i"
    using assms by (auto simp: entering_def slot_held_def)
  show len: "length (procs s) = NPROC" "i < NPROC" using table_invD(1) [OF l(1)] l(2) by simp_all
  show "pstate (proc_at s i) = RUNNING" "kont_ok (proc_at s i)"
    using table_invD(3,5) [OF l(1,2)] l(2,3) len by (simp_all add: kont_ok_def)
qed

lemma resume_inv:
  assumes "entering i s" "fs_keeps fs" "proc_resume im fs i s = Inr (r, t)"
  shows "sched_inv t \<and> pids_kept s t"
proof -
  note e = entering_state [OF assms(1)]
  obtain u l where u: "release_proc i s = Inr u" "running i u" "procs u = (procs s)[i := (proc_at s i)\<lparr>plk := l\<rparr>]" "global_pid u = global_pid s"
    using entering_release [OF assms(1)] by blast
  have pu: "pids_kept s u" using e by (intro pids_kept_upd [OF u(3)]) (simp_all add: u(4))
  have plain: "sched_inv u \<and> pids_kept s u" using u(2) pu by (simp add: sched_inv_def running_def)
  show ?thesis
  proof (cases "kont (proc_at s i)")
    case ForkReturn
    then show ?thesis using assms(3) u(1) plain by (simp add: proc_resume_def fork_return_def)
  next
    case ForkRet
    show ?thesis
    proof (cases "first u")
      case True
      have "running i (u\<lparr>first := False\<rparr>)" by (rule running_frame [OF u(2)]) simp_all
      moreover have "fs (u\<lparr>first := False\<rparr>) = Inr t" using assms(3) ForkRet u(1) True by (auto simp: proc_resume_def proc_forkret_def bindr_eq_Inr)
      ultimately have "running i t" "pids_kept (u\<lparr>first := False\<rparr>) t" using assms(2) unfolding fs_keeps_def by blast+
      moreover have "pids_kept u (u\<lparr>first := False\<rparr>)" by (rule pids_kept_same) simp_all
      ultimately show ?thesis using pids_kept_trans [OF pids_kept_trans [OF pu]] by (simp add: sched_inv_def running_def)
    next
      case False
      then show ?thesis using assms(3) ForkRet u(1) plain by (simp add: proc_resume_def proc_forkret_def)
    qed
  next
    case AfterYield
    then show ?thesis using assms(3) u(1) plain by (simp add: proc_resume_def)
  next
    case (AfterSleep k who)
    then obtain addr where ka: "k = WaitLock" "who = InWait addr" using e(4) by (auto simp: kont_ok_def)
    let ?s = "upd i (\<lambda>p. p\<lparr>sleep_space := None\<rparr>) s"
    have h: "slot_held i s" "cur s = Some i" using assms(1) by (auto simp: entering_def)
    have "slot_held i ?s"
      by (rule slot_held_upd [OF h(1)]) (use e h(2) in \<open>simp_all add: keeps_lock_def kont_ok_def\<close>)
    then have en: "entering i ?s" using assms(1) by (simp add: entering_def)
    then obtain v l' where v: "release_proc i ?s = Inr v" "running i v" "procs v = (procs ?s)[i := (proc_at ?s i)\<lparr>plk := l'\<rparr>]" "global_pid v = global_pid ?s"
      using entering_release by blast
    obtain w where w: "acquire WaitLock v = Inr w" "waiting i w" "procs w = procs v" "global_pid w = global_pid v"
      using enter_wait [OF v(2)] by blast
    have "wait_round im i addr w = Inr (r, t)"
      using assms(3) AfterSleep ka v(1) w(1) by (simp add: proc_resume_def sleep_resume_def)
    from wait_round_inv [OF w(2) this] have "sched_inv t" "pids_kept w t" by auto
    moreover have "pids_kept s w"
      using w(3,4) v(3,4) e by (intro pids_kept_upd [of w s i "(proc_at s i)\<lparr>sleep_space := None, plk := l'\<rparr>"]) simp_all
    ultimately show ?thesis using pids_kept_trans by blast
  next
    case Gone
    then show ?thesis using assms(3) by (simp add: proc_resume_def)
  qed
qed

section \<open>The timer\<close>

lemma timer_update_ok:
  assumes "table_inv s" "noff (cpu s) = 0"
  shows "\<exists>t. timer_update s = Inr t \<and> ticks t = ticks s + 1 \<and> table_inv t \<and> noff (cpu t) = 0 \<and> cur t = cur s \<and> ctl t = ctl s \<and>
    wait_lock t = wait_lock s \<and> proczero t = proczero s \<and> global_pid t = global_pid s \<and> length (procs t) = NPROC \<and>
    (\<forall>j < NPROC. proc_at t j = (if cur s \<noteq> Some j then wake (Some ChanTimer) (proc_at s j) else proc_at s j))"
proof -
  note d = table_invD [OF assms(1)]
  let ?a = "s\<lparr>cpu := push_off (cpu s), timer_lk := held_lock (timer_lk s), ticks := ticks s + 1\<rparr>"
  have a: "acquire TimerLock s = Inr (s\<lparr>cpu := push_off (cpu s), timer_lk := held_lock (timer_lk s)\<rparr>)"
    using acquire_free [of TimerLock s] d(4) by simp
  have fr: "length (procs ?a) = NPROC" "\<forall>j < NPROC. cur ?a \<noteq> Some j \<longrightarrow> lock_free (plk (proc_at ?a j))" "cpu_ok (cpu ?a)"
    using d assms(2) by (simp_all add: cpu_ok_def)
  obtain b where b: "proc_wakeup (Some ChanTimer) ?a = Inr b" "same_but_table ?a b" "length (procs b) = NPROC"
    "\<forall>j < NPROC. proc_at b j = (if cur ?a \<noteq> Some j then wake (Some ChanTimer) (proc_at ?a j) else proc_at ?a j)"
    by (rule proc_wakeup_ok [OF fr])
  note sb = same_but_tableD [OF b(2)]
  let ?t = "b\<lparr>cpu := popped (cpu b), timer_lk := timer_lk s\<rparr>"
  have "release TimerLock b = Inr ?t"
    using release_held [of TimerLock b "timer_lk s"] d(4) sb assms(2) by simp
  then have "timer_update s = Inr ?t" using a b(1) by (simp add: timer_update_def)
  moreover have "slot_ok ?t j (proc_at ?t j)" if "j < NPROC" for j
    using b(4) that assms(1) sb(1) unfolding table_inv_def by (auto simp: slot_ok_def wake_def kont_ok_def)
  then have "table_inv ?t" using b(3) d(4) by (simp add: table_inv_def)
  ultimately show ?thesis using sb b assms(2) by auto
qed

lemma wake_pids: "pid (wake c p) = pid p" "pstate (wake c p) = UNUSED \<longleftrightarrow> pstate p = UNUSED"
  by (simp_all add: wake_def)

lemma pids_kept_wake:
  assumes "global_pid t = global_pid s" "\<forall>j < NPROC. proc_at t j = (if cur s \<noteq> Some j then wake c (proc_at s j) else proc_at s j)"
  shows "pids_kept s t"
  using assms wake_pids by (auto simp: pids_kept_def)

section \<open>Creating processes\<close>

definition quiet :: "kernel \<Rightarrow> bool" where
  "quiet s \<longleftrightarrow> table_inv s \<and> lock_free (wait_lock s) \<and> noff (cpu s) = 0"

text \<open>The result of \<^verbatim>\<open>proc_alloc\<close>: a new process in a slot that was unused, which stays locked.\<close>

definition allocated :: "kernel \<Rightarrow> nat \<Rightarrow> kernel \<Rightarrow> bool" where
  "allocated s n t \<longleftrightarrow> slot_held n t \<and> pstate (proc_at s n) = UNUSED \<and> pstate (proc_at t n) = RUNNABLE \<and> kont (proc_at t n) = ForkReturn \<and>
     pid (proc_at t n) = global_pid s \<and> global_pid t = global_pid s + 1 \<and> length (procs t) = NPROC \<and>
     (\<forall>j < NPROC. j \<noteq> n \<longrightarrow> proc_at t j = proc_at s j)"

lemma free_and_fail_frame:
  assumes "free_and_fail im i s = Inr (q, t)"
  obtains m mm where "q = None" "release_proc i (upd i reset_proc (s\<lparr>pm := m, mms := mm\<rparr>)) = Inr t"
proof -
  obtain u where u: "proc_free im i s = Inr u" "release_proc i u = Inr t" "q = None"
    using assms by (auto simp: free_and_fail_def bindr_eq_Inr)
  obtain m mm where "u = upd i reset_proc (s\<lparr>pm := m, mms := mm\<rparr>)" by (rule proc_free_frame [OF u(1)])
  then show thesis using that u by blast
qed

lemma upd_pm_commute: "(upd i f s)\<lparr>pm := m\<rparr> = upd i f (s\<lparr>pm := m\<rparr>)" "(upd i f s)\<lparr>mms := mm\<rparr> = upd i f (s\<lparr>mms := mm\<rparr>)"
  by (simp_all add: upd_def)

lemma proc_setup_frame:
  assumes "proc_setup im i s = Inr (q, t)"
  obtains (ok) f m where "q = Some i" "t = upd i f (s\<lparr>global_pid := global_pid s + 1, pm := m\<rparr>)" "keeps_lock f"
      "\<And>p. pid (f p) = global_pid s \<and> pstate (f p) = RUNNABLE \<and> kont (f p) = ForkReturn"
  | (bad) f m mm where "q = None" "release_proc i (upd i f (s\<lparr>global_pid := global_pid s + 1, pm := m, mms := mm\<rparr>)) = Inr t" "keeps_lock f"
      "\<And>p. pstate (f p) = UNUSED \<and> kont (f p) = kont p"
proof -
  let ?g = "s\<lparr>global_pid := global_pid s + 1\<rparr>" and ?f1 = "\<lambda>p. p\<lparr>pid := global_pid s, pstate := RUNNABLE\<rparr>"
  have ap: "alloc_pid s = Inr (global_pid s, ?g)"
    using assms by (auto simp: proc_setup_def alloc_pid_def bindr_eq_Inr assert_that_def split: if_splits)
  obtain a m1 where a: "pmem_alloc True (pm s) = (a, m1)" by (cases "pmem_alloc True (pm s)")
  let ?f2 = "\<lambda>p. (?f1 p)\<lparr>tf := a\<rparr>"
  let ?s2 = "upd i ?f2 (?g\<lparr>pm := m1\<rparr>)"
  have s2: "proc_setup im i s = (if a = 0 then free_and_fail im i ?s2
      else bindr (proc_pgtbl_init im a m1) (\<lambda>(root, m).
          let s = upd i (\<lambda>p. p\<lparr>pgtbl := root\<rparr>) (?s2\<lparr>pm := m\<rparr>)
          in if root = 0 then free_and_fail im i s
             else let (ks, m) = pmem_alloc True (pm s); s = s\<lparr>pm := m\<rparr>
               in if ks = 0 then free_and_fail im i s
                  else bindr (lift_pm (vm_mappages (kernel_pgtbl s) (kstack (proc_at s i)) ks PGSIZE (PTE_R OR PTE_W)) s) (\<lambda>s.
                    Inr (Some i, upd i (\<lambda>p. p\<lparr>ctx := \<lparr>ctx_ra = fork_return_pc im, ctx_sp = kstack p + PGSIZE,
                                                      ctx_s = replicate 12 0\<rparr>, kont := ForkReturn\<rparr>) s))))"
    by (simp add: proc_setup_def ap a upd_pm_commute upd_upd Let_def)
  have fail: thesis if h: "free_and_fail im i (upd i f (?g\<lparr>pm := m\<rparr>)) = Inr (q, t)" "keeps_lock f" "\<And>p. kont (f p) = kont p" for f m
  proof -
    obtain m' mm where r: "q = None" "release_proc i (upd i reset_proc ((upd i f (?g\<lparr>pm := m\<rparr>))\<lparr>pm := m', mms := mm\<rparr>)) = Inr t"
      by (rule free_and_fail_frame [OF h(1)])
    have "release_proc i (upd i (\<lambda>p. reset_proc (f p)) (s\<lparr>global_pid := global_pid s + 1, pm := m', mms := mm\<rparr>)) = Inr t"
      using r(2) by (simp add: upd_pm_commute upd_upd)
    moreover have "keeps_lock (\<lambda>p. reset_proc (f p))" using h(2) by (simp add: keeps_lock_def reset_proc_def)
    moreover have "pstate (reset_proc (f p)) = UNUSED \<and> kont (reset_proc (f p)) = kont p" for p
      using h(3) by (simp add: reset_proc_def)
    ultimately show thesis using bad r(1) by blast
  qed
  show thesis
  proof (cases "a = 0")
    case True
    then show thesis using assms s2 by (intro fail [of ?f2 m1]) (simp_all add: keeps_lock_def)
  next
    case False
    then obtain root m2 where root: "proc_pgtbl_init im a m1 = Inr (root, m2)" using assms s2 by (auto simp: bindr_eq_Inr)
    let ?f3 = "\<lambda>p. (?f2 p)\<lparr>pgtbl := root\<rparr>"
    have e3: "upd i (\<lambda>p. p\<lparr>pgtbl := root\<rparr>) (?s2\<lparr>pm := m2\<rparr>) = upd i ?f3 (?g\<lparr>pm := m2\<rparr>)" by (simp add: upd_pm_commute upd_upd)
    show thesis
    proof (cases "root = 0")
      case True
      then show thesis using assms s2 False root e3 by (intro fail [of ?f3 m2]) (simp_all add: keeps_lock_def)
    next
      case nz: False
      obtain ks m3 where ks: "pmem_alloc True m2 = (ks, m3)" by (cases "pmem_alloc True m2")
      have e4: "(upd i ?f3 (?g\<lparr>pm := m2\<rparr>))\<lparr>pm := m3\<rparr> = upd i ?f3 (?g\<lparr>pm := m3\<rparr>)" by (simp add: upd_pm_commute)
      show thesis
      proof (cases "ks = 0")
        case True
        then show thesis using assms s2 False root nz e3 ks e4 by (intro fail [of ?f3 m3]) (simp_all add: keeps_lock_def)
      next
        case kz: False
        let ?f5 = "\<lambda>p. (?f3 p)\<lparr>ctx := \<lparr>ctx_ra = fork_return_pc im, ctx_sp = kstack p + PGSIZE, ctx_s = replicate 12 0\<rparr>, kont := ForkReturn\<rparr>"
        obtain m4 where "q = Some i" "t = upd i ?f5 (s\<lparr>global_pid := global_pid s + 1, pm := m4\<rparr>)"
          using assms s2 False root nz e3 ks e4 kz by (auto simp: Let_def lift_pm_def bindr_eq_Inr upd_pm_commute upd_upd)
        then show thesis by (intro ok [of ?f5 m4]) (simp_all add: keeps_lock_def)
      qed
    qed
  qed
qed

lemma quiet_frame:
  "quiet s \<Longrightarrow> procs t = procs s \<Longrightarrow> cur t = cur s \<Longrightarrow> timer_lk t = timer_lk s \<Longrightarrow> wait_lock t = wait_lock s \<Longrightarrow> noff (cpu t) = noff (cpu s) \<Longrightarrow> quiet t"
  using table_inv_frame [of t s] by (simp add: quiet_def)

lemma proc_setup_inv:
  assumes s0: "quiet s0" "i < NPROC" "pstate (proc_at s0 i) = UNUSED"
    and s: "slot_held i s" "procs s = (procs s0)[i := (proc_at s0 i)\<lparr>plk := held_lock (plk (proc_at s0 i))\<rparr>]" "global_pid s = global_pid s0" "cur s = cur s0"
    and r: "proc_setup im i s = Inr (q, t)"
  shows "cur t = cur s \<and> ctl t = ctl s \<and>
    (case q of None \<Rightarrow> quiet t \<and> pids_kept s0 t | Some n \<Rightarrow> n < NPROC \<and> allocated s0 n t)"
proof -
  have d: "length (procs s0) = NPROC" "cur s0 \<noteq> Some i" "kont_ok (proc_at s0 i)"
    using s0 table_invD(1) [of s0] table_invD(3,5) [of s0 i] by (auto simp: quiet_def)
  show ?thesis
  proof (cases rule: proc_setup_frame [OF r])
    case (1 f m)
    let ?s = "s\<lparr>global_pid := global_pid s + 1, pm := m\<rparr>"
    have "slot_held i ?s" by (rule slot_held_frame [OF s(1)]) simp_all
    then have "slot_held i t" unfolding 1(2) using 1(3,4) d(2) s(4) by (intro slot_held_upd) (simp_all add: kont_ok_def)
    then have "allocated s0 i t" using 1 s d(1) s0(2,3) by (simp add: allocated_def)
    then show ?thesis using 1(1,2) s0(2) by simp
  next
    case (2 f m mm)
    let ?s = "s\<lparr>global_pid := global_pid s + 1, pm := m, mms := mm\<rparr>"
    have at: "proc_at s i = (proc_at s0 i)\<lparr>plk := held_lock (plk (proc_at s0 i))\<rparr>" using s(2) d(1) s0(2) by simp
    have "slot_held i ?s" by (rule slot_held_frame [OF s(1)]) simp_all
    then have h: "slot_held i (upd i f ?s)" using 2(3,4) d(2,3) s(4) at by (intro slot_held_upd) (simp_all add: kont_ok_def)
    obtain l where t: "t = (upd i (\<lambda>p. p\<lparr>plk := l\<rparr>) (upd i f ?s))\<lparr>cpu := popped (cpu (upd i f ?s))\<rparr>"
      "table_inv t" "lock_free (wait_lock t)" "noff (cpu t) = 0"
      using slot_held_release [OF h] 2(2) by auto
    have p: "procs t = (procs s0)[i := (f (proc_at s i))\<lparr>plk := l\<rparr>]" using t(1) s(2) d(1) s0(2) by simp
    have "pids_kept s0 t" by (rule pids_kept_upd [OF p]) (use t(1) s(3) d(1) 2(4) in simp_all)
    then show ?thesis using t 2(1) by (simp add: quiet_def)
  qed
qed

lemma allocated_from:
  assumes "allocated s n t" "procs s = procs s0" "global_pid s = global_pid s0"
  shows "allocated s0 n t"
  using assms by (simp add: allocated_def)

lemma proc_alloc_loop_inv:
  assumes "quiet s" "set js \<subseteq> {..<NPROC}" "proc_alloc_loop im js s = Inr (q, t)"
  shows "cur t = cur s \<and> ctl t = ctl s \<and>
    (case q of None \<Rightarrow> quiet t \<and> pids_kept s t | Some n \<Rightarrow> n < NPROC \<and> allocated s n t)"
  using assms
proof (induction js arbitrary: s)
  case Nil
  then show ?case by (simp add: pids_kept_same)
next
  case (Cons i js)
  have i: "i < NPROC" using Cons.prems(2) by simp
  have q: "table_inv s" "lock_free (wait_lock s)" "noff (cpu s) = 0" using Cons.prems(1) by (auto simp: quiet_def)
  note d = table_invD [OF q(1)]
  obtain a where a: "acquire_proc i s = Inr a" "slot_held i a" "cur a = cur s" "ctl a = ctl s" "global_pid a = global_pid s"
    "procs a = (procs s)[i := (proc_at s i)\<lparr>plk := held_lock (plk (proc_at s i))\<rparr>]"
    using slot_held_acquire [OF q i] by blast
  have st: "pstate (proc_at a i) = pstate (proc_at s i)" using a(6) d(1) i by simp
  show ?case
  proof (cases "pstate (proc_at s i) = UNUSED")
    case True
    then have "proc_setup im i a = Inr (q, t)" using Cons.prems(3) a(1) st by simp
    from proc_setup_inv [OF Cons.prems(1) i True a(2,6,5,3) this] show ?thesis using a(3,4) by simp
  next
    case False
    have il: "i < length (procs s)" using d(1) i by simp
    have "cpu_ok (cpu s)" using q(3) by (simp add: cpu_ok_def)
    from critical [OF il d(2) [OF i] this, of "\<lambda>p. p"] a(1)
    have rel: "release_proc i a = Inr (s\<lparr>cpu := settled (cpu s)\<rparr>)" by (simp add: keeps_lock_def)
    let ?s = "s\<lparr>cpu := settled (cpu s)\<rparr>"
    have "quiet ?s" by (rule quiet_frame [OF Cons.prems(1)]) simp_all
    moreover have "proc_alloc_loop im js ?s = Inr (q, t)" using Cons.prems(3) a(1) st False rel by simp
    ultimately have IH: "cur t = cur ?s \<and> ctl t = ctl ?s \<and>
        (case q of None \<Rightarrow> quiet t \<and> pids_kept ?s t | Some n \<Rightarrow> n < NPROC \<and> allocated ?s n t)"
      using Cons.IH Cons.prems(2) by simp
    have "pids_kept s ?s" by (rule pids_kept_same) simp_all
    with IH show ?thesis using allocated_from [of ?s _ t s] pids_kept_trans by (auto split: option.splits)
  qed
qed

text \<open>The process a fork makes: runnable, in a slot that was unused, child of the caller, with a number no process has had.\<close>

definition forked :: "kernel \<Rightarrow> nat \<Rightarrow> nat \<Rightarrow> kernel \<Rightarrow> bool" where
  "forked s i n t \<longleftrightarrow> n < NPROC \<and> n \<noteq> i \<and> pstate (proc_at s n) = UNUSED \<and> pstate (proc_at t n) = RUNNABLE \<and> parent (proc_at t n) = Some i \<and>
     kont (proc_at t n) = ForkReturn \<and> heap_top (proc_at t n) = heap_top (proc_at s i) \<and>
     pid (proc_at t n) = global_pid s \<and> global_pid t = global_pid s + 1 \<and> (\<forall>j < NPROC. j \<noteq> n \<longrightarrow> proc_at t j = proc_at s j)"

lemma proc_fork_inv:
  assumes "running i s" "proc_fork im i s = Inr (r, t)"
  shows "running i t \<and> (r = - 1 \<and> pids_kept s t \<or> (\<exists>n. r = global_pid s \<and> forked s i n t))"
proof -
  note rs = running_simps [OF assms(1)]
  have qs: "quiet s" using assms(1) by (simp add: quiet_def running_def)
  obtain q u where u: "proc_alloc im s = Inr (q, u)" using assms(2) by (auto simp: proc_fork_def bindr_eq_Inr)
  have a: "cur u = cur s" "ctl u = ctl s" "case q of None \<Rightarrow> quiet u \<and> pids_kept s u | Some n \<Rightarrow> n < NPROC \<and> allocated s n u"
    using proc_alloc_loop_inv [OF qs table_range] u unfolding proc_alloc_def by auto
  show ?thesis
  proof (cases q)
    case None
    then show ?thesis using a u assms(2) rs by (simp add: proc_fork_def running_def quiet_def)
  next
    case (Some n)
    then have al: "n < NPROC" "allocated s n u" using a(3) by auto
    then have l: "slot_held n u" "pstate (proc_at s n) = UNUSED" "pstate (proc_at u n) = RUNNABLE" "kont (proc_at u n) = ForkReturn"
      "pid (proc_at u n) = global_pid s" "global_pid u = global_pid s + 1" "length (procs u) = NPROC" "\<forall>j < NPROC. j \<noteq> n \<longrightarrow> proc_at u j = proc_at s j"
      by (auto simp: allocated_def)
    have run: "pstate (proc_at s i) = RUNNING" using table_invD(3) [OF rs(1,2)] rs(3) by simp
    have ni: "n \<noteq> i" using run l(2) by auto
    have pi: "proc_at u i = proc_at s i" using l(8) rs(2) ni by simp
    obtain m mm hd f where f: "f = (\<lambda>q. q\<lparr>heap_top := heap_top (proc_at u i), ustack_base := ustack_base (proc_at u i),
        ustack_pages := ustack_pages (proc_at u i), pmmap := hd, parent := Some i, pstate := RUNNABLE\<rparr>)"
      "release_proc n (upd n f (u\<lparr>mms := mm, pm := m\<rparr>)) = Inr t" "r = pid (proc_at t n)"
    proof -
      from assms(2) u Some obtain u1 hd mm where x: "lift_pm (uvm_copy_pgtbl (pgtbl (proc_at u i)) (pgtbl (proc_at u n)) (heap_top (proc_at u i))
            (ustack_base (proc_at u i)) (ucast (ustack_pages (proc_at u i))) (pmmap (proc_at u i)) (mms u)) u = Inr u1"
          "fork_regions N_MMAP (pmmap (proc_at u i)) None None (mms u1) = Inr (hd, mm)"
          and y: "release_proc n (upd n (\<lambda>q. q\<lparr>parent := Some i, pstate := RUNNABLE\<rparr>)
            (let s = upd n (\<lambda>q. q\<lparr>heap_top := heap_top (proc_at u i), ustack_base := ustack_base (proc_at u i), ustack_pages := ustack_pages (proc_at u i),
                                  pmmap := hd\<rparr>) (u1\<lparr>mms := mm\<rparr>);
                m = mem (pm s);
                s = s\<lparr>pm := (pm s)\<lparr>mem := store_bytes m (tf (proc_at s n)) (load_bytes m (tf (proc_at u i)) 288)\<rparr>\<rparr>
             in tf_set n TF_A0 0 s)) = Inr t" "r = pid (proc_at t n)"
        by (auto simp: proc_fork_def bindr_eq_Inr Let_def)
      obtain m1 where u1: "u1 = u\<lparr>pm := m1\<rparr>" using x(1) by (auto simp: lift_pm_def bindr_eq_Inr)
      let ?f = "\<lambda>q. q\<lparr>heap_top := heap_top (proc_at u i), ustack_base := ustack_base (proc_at u i),
          ustack_pages := ustack_pages (proc_at u i), pmmap := hd, parent := Some i, pstate := RUNNABLE\<rparr>"
      have "\<exists>m. release_proc n (upd n ?f (u\<lparr>mms := mm, pm := m\<rparr>)) = Inr t"
        using y(1) unfolding u1 Let_def tf_set_def upd_pm_commute upd_upd by auto
      then show thesis using that [of ?f] y(2) by blast
    qed
    let ?u = "u\<lparr>mms := mm, pm := m\<rparr>"
    have "slot_held n ?u" by (rule slot_held_frame [OF l(1)]) simp_all
    moreover have "keeps_lock f" by (simp add: f(1) keeps_lock_def)
    ultimately have h: "slot_held n (upd n f ?u)"
      by (rule slot_held_upd) (use l(4) a(1) rs(3) ni in \<open>simp_all add: f(1) kont_ok_def\<close>)
    obtain k where t: "t = (upd n (\<lambda>p. p\<lparr>plk := k\<rparr>) (upd n f ?u))\<lparr>cpu := popped (cpu (upd n f ?u))\<rparr>"
      "table_inv t" "lock_free (wait_lock t)" "noff (cpu t) = 0"
      using slot_held_release [OF h] f(2) by auto
    have "proc_at t n = (f (proc_at u n))\<lparr>plk := k\<rparr>" "\<forall>j < NPROC. j \<noteq> n \<longrightarrow> proc_at t j = proc_at s j" "global_pid t = global_pid s + 1"
      using t(1) l al(1) by simp_all
    then have "forked s i n t" "r = global_pid s" using f(1,3) l al(1) ni pi by (simp_all add: forked_def)
    moreover have "cur t = cur s" "ctl t = ctl s" using t(1) a(1,2) by simp_all
    then have "running i t" using t(2-4) rs by (simp add: running_def)
    ultimately show ?thesis by blast
  qed
qed

lemma forked_pids:
  assumes "pids_ok s" "forked s i n t"
  shows "pids_ok t"
proof -
  have at: "proc_at t j = proc_at s j" if "j < NPROC" "j \<noteq> n" for j using assms(2) that by (auto simp: forked_def)
  have n: "pid (proc_at t n) = global_pid s" "global_pid t = global_pid s + 1" using assms(2) by (auto simp: forked_def)
  have old: "pid (proc_at s j) < global_pid s" if "j < NPROC" "pstate (proc_at s j) \<noteq> UNUSED" for j
    using assms(1) that unfolding pids_ok_def by blast
  have "pid (proc_at t j) < global_pid t" if "j < NPROC" "pstate (proc_at t j) \<noteq> UNUSED" for j
    using at [OF that(1)] old [OF that(1)] n that by (cases "j = n") fastforce+
  moreover have "a = b" if "a < NPROC" "b < NPROC" "pstate (proc_at t a) \<noteq> UNUSED" "pstate (proc_at t b) \<noteq> UNUSED"
    "pid (proc_at t a) = pid (proc_at t b)" for a b
  proof -
    consider "a = n" "b = n" | "a = n" "b \<noteq> n" | "a \<noteq> n" "b = n" | "a \<noteq> n" "b \<noteq> n" by blast
    then show ?thesis
    proof cases
      case 4
      then show ?thesis using at that assms(1) unfolding pids_ok_def by metis
    qed (use at [of a] at [of b] old [of a] old [of b] n that in fastforce)+
  qed
  ultimately show ?thesis unfolding pids_ok_def by blast
qed

section \<open>The kernel as a transition system\<close>

text \<open>The first process: the state \<^verbatim>\<open>proc_make_first\<close> leaves when it enters the scheduler.\<close>

lemma proc_make_first_inv:
  assumes "quiet s" "cur s = None" "proc_make_first im s = Inr t"
  shows "scheduling NPROC t \<and> (\<exists>n < NPROC. proczero t = Some n \<and> pstate (proc_at t n) = RUNNABLE \<and> kont (proc_at t n) = ForkRet \<and>
    pid (proc_at t n) = global_pid s \<and> global_pid t = global_pid s + 1 \<and> (\<forall>j < NPROC. j \<noteq> n \<longrightarrow> proc_at t j = proc_at s j))"
proof -
  obtain q u where u: "proc_alloc im s = Inr (q, u)" using assms(3) by (auto simp: proc_make_first_def bindr_eq_Inr)
  note a = proc_alloc_loop_inv [OF assms(1) table_range u [unfolded proc_alloc_def]]
  obtain n where n: "q = Some n" using assms(3) u by (cases q) (auto simp: proc_make_first_def)
  then have al: "n < NPROC" "allocated s n u" using a by auto
  have mz: "\<exists>m. s' = s\<lparr>pm := m\<rparr>" if "map_zero_page i va perm msg s = Inr (pa, s')" for i va perm msg s pa s'
    using that by (auto simp: map_zero_page_def Let_def bindr_eq_Inr split: prod.splits)
  let ?g = "\<lambda>p. p\<lparr>ctx := (ctx p)\<lparr>ctx_ra := forkret_pc im\<rparr>, kont := ForkRet\<rparr>"
  obtain m1 pa where m1: "map_zero_page n 0 (PTE_R OR PTE_W OR PTE_X OR PTE_U) ''proc_make_first: pmem_alloc'' (upd n ?g (u\<lparr>proczero := Some n\<rparr>)) =
      Inr (pa, (upd n ?g (u\<lparr>proczero := Some n\<rparr>))\<lparr>pm := m1\<rparr>)"
    using assms(3) u n mz by (fastforce simp: proc_make_first_def bindr_eq_Inr Let_def)
  let ?f = "\<lambda>p. (?g p)\<lparr>heap_top := PGSIZE, ustack_base := 0x10000, ustack_pages := 1\<rparr>"
  let ?s2 = "upd n ?f (u\<lparr>proczero := Some n, pm := m1\<lparr>mem := store_bytes (mem m1) pa (initcode im)\<rparr>\<rparr>)"
  obtain pa2 m2 where m2: "map_zero_page n 0x10000 (PTE_R OR PTE_W OR PTE_U) ''proc_make_first: pmem_alloc for stack'' ?s2 = Inr (pa2, ?s2\<lparr>pm := m2\<rparr>)"
    using assms(3) u n m1 mz by (fastforce simp: proc_make_first_def bindr_eq_Inr Let_def upd_pm_commute upd_upd)
  let ?h = "\<lambda>p. (?f p)\<lparr>pstate := RUNNABLE\<rparr>"
  have "\<exists>m x. release_proc n (upd n ?h (u\<lparr>proczero := Some n, pm := m\<rparr>)) = Inr x \<and> t = x\<lparr>cur := None, ctl := Scheduler NPROC\<rparr>"
    using assms(3) u n m1 m2 by (auto simp: proc_make_first_def bindr_eq_Inr Let_def upd_pm_commute upd_upd tf_set_def)
  then obtain m x where x: "release_proc n (upd n ?h (u\<lparr>proczero := Some n, pm := m\<rparr>)) = Inr x" "t = x\<lparr>cur := None, ctl := Scheduler NPROC\<rparr>" by blast
  let ?u = "u\<lparr>proczero := Some n, pm := m\<rparr>"
  have l: "slot_held n u" "pid (proc_at u n) = global_pid s" "global_pid u = global_pid s + 1" "length (procs u) = NPROC"
    "\<forall>j < NPROC. j \<noteq> n \<longrightarrow> proc_at u j = proc_at s j" using al(2) by (auto simp: allocated_def)
  have "slot_held n ?u" by (rule slot_held_frame [OF l(1)]) simp_all
  then have "slot_held n (upd n ?h ?u)"
    by (rule slot_held_upd) (use a assms(2) in \<open>simp_all add: keeps_lock_def kont_ok_def\<close>)
  from slot_held_release [OF this] x(1) obtain k where k: "x = (upd n (\<lambda>p. p\<lparr>plk := k\<rparr>) (upd n ?h ?u))\<lparr>cpu := popped (cpu (upd n ?h ?u))\<rparr>"
    "table_inv x" "lock_free (wait_lock x)" "noff (cpu x) = 0" by auto
  have "cur x = None" using k(1) a assms(2) by simp
  then have "table_inv t" using k(2) x(2) table_inv_frame [of t x] by simp
  then have "scheduling NPROC t" using k x(2) by (simp add: scheduling_def)
  moreover have "proczero t = Some n" "proc_at t n = (?h (proc_at u n))\<lparr>plk := k\<rparr>" "\<forall>j < NPROC. j \<noteq> n \<longrightarrow> proc_at t j = proc_at s j"
    "global_pid t = global_pid s + 1"
    unfolding x(2) k(1) using l al(1) by simp_all
  ultimately show ?thesis using al(1) l(2) by auto
qed

lemma booted_quiet:
  assumes "length (procs b) = NPROC" "\<forall>j < NPROC. kont (proc_at b j) = Gone" "noff (cpu b) = 0" "cur b = None"
  shows "quiet (timer_create (proc_init b)) \<and> cur (timer_create (proc_init b)) = None \<and> pids_ok (timer_create (proc_init b))"
  using assms by (simp add: quiet_def table_inv_def slot_ok_def kont_ok_def lock_free_def timer_create_def proc_init_def
      spinlock_init_def pids_ok_def)

text \<open>The scheduler starts after \<^verbatim>\<open>proc_init\<close> and \<^verbatim>\<open>timer_create\<close> on a table without saved contexts, with the first process made or with no
  process at all.\<close>

definition kstart :: "image \<Rightarrow> kernel \<Rightarrow> bool" where
  "kstart im s \<longleftrightarrow> (\<exists>b. length (procs b) = NPROC \<and> (\<forall>j < NPROC. kont (proc_at b j) = Gone) \<and> noff (cpu b) = 0 \<and> cur b = None \<and>
     (proc_make_first im (timer_create (proc_init b)) = Inr s \<or> s = (timer_create (proc_init b))\<lparr>ctl := Scheduler NPROC\<rparr>))"

text \<open>A step: a round of the scheduler, the code after a switch, a system call of the running process, an interrupt of the timer
  while the hart holds no lock, or a change of memory by the running process.\<close>

abbreviation in_process :: "nat \<Rightarrow> kernel \<Rightarrow> bool" where
  "in_process i s \<equiv> ctl s = Process i \<and> \<not> spinlock_holding 0 (plk (proc_at s i))"

inductive kstep :: "image \<Rightarrow> kernel \<Rightarrow> kernel \<Rightarrow> bool" for im where
  k_sched: "ctl s = Scheduler i \<Longrightarrow> proc_scheduler i s = Inr t \<Longrightarrow> kstep im s t"
| k_resume: "ctl s = Process i \<Longrightarrow> spinlock_holding 0 (plk (proc_at s i)) \<Longrightarrow> fs_keeps fs \<Longrightarrow>
    proc_resume im fs i s = Inr (r, t) \<Longrightarrow> kstep im s t"
| k_yield: "in_process i s \<Longrightarrow> proc_yield i s = Inr t \<Longrightarrow> kstep im s t"
| k_exit: "in_process i s \<Longrightarrow> proc_exit i st s = Inr t \<Longrightarrow> kstep im s t"
| k_wait: "in_process i s \<Longrightarrow> proc_wait im i addr s = Inr (r, t) \<Longrightarrow> kstep im s t"
| k_fork: "in_process i s \<Longrightarrow> proc_fork im i s = Inr (n, t) \<Longrightarrow> kstep im s t"
| k_tick: "noff (cpu s) = 0 \<Longrightarrow> timer_update s = Inr t \<Longrightarrow> kstep im s t"
| k_work: "in_process i s \<Longrightarrow> kstep im s (s\<lparr>pm := m, mms := mm\<rparr>)"

definition kernel_inv :: "kernel \<Rightarrow> bool" where
  "kernel_inv s \<longleftrightarrow> sched_inv s \<and> pids_ok s"

lemma not_entering: "running i s \<Longrightarrow> \<not> spinlock_holding 0 (plk (proc_at s i))"
  using running_simps(9) [of i s] by (simp add: lock_free_def spinlock_holding_def)

lemma entering_holding: "entering i s \<Longrightarrow> spinlock_holding 0 (plk (proc_at s i))"
  by (auto simp: entering_def slot_held_def held_lock_def spinlock_holding_def)

lemma in_process_running: "kernel_inv s \<Longrightarrow> in_process i s \<Longrightarrow> running i s"
  using entering_holding by (auto simp: kernel_inv_def sched_inv_def)

lemma holding_entering: "kernel_inv s \<Longrightarrow> ctl s = Process i \<Longrightarrow> spinlock_holding 0 (plk (proc_at s i)) \<Longrightarrow> entering i s"
  using not_entering by (auto simp: kernel_inv_def sched_inv_def)

lemma running_pids: "running i s \<Longrightarrow> length (procs s) = NPROC \<and> pstate (proc_at s i) \<noteq> UNUSED"
  using running_simps(1,2,3) [of i s] table_invD(1) [of s] table_invD(3) [of s i] by auto

lemma exit_pids:
  assumes "running i s" "proczero s \<noteq> Some i" "proc_exit i st s = Inr t"
  shows "scheduling (Suc i) t \<and> pids_kept s t"
proof -
  obtain t1 t2 where e: "scheduling (Suc i) t" "global_pid t = global_pid s" "\<forall>j < NPROC. touched s (map_option ChanProc (proczero s)) t1 j"
    "\<forall>j < NPROC. j \<noteq> i \<longrightarrow> proc_at t2 j = wake (map_option ChanProc (parent (proc_at t1 i))) (proc_at t1 j)"
    "proc_at t2 i = proc_at t1 i" "procs t = (procs t2)[i := (proc_at t2 i)\<lparr>exit_state := st, pstate := ZOMBIE, kont := Gone\<rparr>]" "length (procs t2) = NPROC"
    using exit_ok [OF assms(1,2), of st] assms(3) by fastforce
  have "pstate (proc_at t j) = UNUSED \<or> pid (proc_at t j) = pid (proc_at s j) \<and> pstate (proc_at s j) \<noteq> UNUSED" if j: "j < NPROC" for j
  proof (cases "j = i")
    case True
    then show ?thesis
      using e(3,5,6,7) j running_pids [OF assms(1)] touched_sleep [of s _ t1 i] by auto
  next
    case False
    then have "proc_at t j = wake (map_option ChanProc (parent (proc_at t1 i))) (proc_at t1 j)" using e(4,6) j by simp
    then show ?thesis using e(3) j touched_sleep [of s _ t1 j] wake_pids by (auto simp: touched_def)
  qed
  then show ?thesis using e(1,2) by (simp add: pids_kept_def)
qed

lemma kstep_inv:
  assumes "kernel_inv s" "kstep im s t"
  shows "kernel_inv t"
  using assms(2)
proof (cases rule: kstep.cases)
  case (k_sched i)
  have sc: "scheduling i s" using assms(1) k_sched(1) by (simp add: kernel_inv_def sched_inv_def)
  have len: "length (procs s) = NPROC" using sc table_invD(1) by (auto simp: scheduling_def)
  have "sched_inv t \<and> pids_kept s t"
  proof (cases "i < NPROC \<and> pstate (proc_at s i) = RUNNABLE")
    case True
    then have e: "entering i t" "global_pid t = global_pid s"
      "procs t = (procs s)[i := (proc_at s i)\<lparr>plk := held_lock (plk (proc_at s i)), pstate := RUNNING\<rparr>]"
      using proc_scheduler_ok [OF sc] k_sched(2) by auto
    have "pids_kept s t" by (rule pids_kept_upd [OF e(3)]) (use e(2) len True in simp_all)
    then show ?thesis using e(1) by (simp add: sched_inv_def entering_def)
  next
    case False
    then have "procs t = procs s" "global_pid t = global_pid s" "\<exists>n. scheduling n t"
      using proc_scheduler_ok [OF sc] k_sched(2) by (auto split: if_splits)
    then show ?thesis using pids_kept_same [of t s] by (auto simp: sched_inv_def scheduling_def)
  qed
  then show ?thesis using assms(1) pids_ok_kept by (auto simp: kernel_inv_def)
next
  case (k_resume i fs r)
  from resume_inv [OF holding_entering [OF assms(1) k_resume(1,2)] k_resume(3,4)] show ?thesis
    using assms(1) pids_ok_kept by (auto simp: kernel_inv_def)
next
  case (k_yield i)
  note r = in_process_running [OF assms(1) k_yield(1)]
  have y: "scheduling (Suc i) t" "procs t = (procs s)[i := (proc_at s i)\<lparr>pstate := RUNNABLE, kont := AfterYield\<rparr>]" "global_pid t = global_pid s"
    using proc_yield_ok [OF r] k_yield(2) by auto
  have "pids_kept s t" by (rule pids_kept_upd [OF y(2)]) (use y(3) running_pids [OF r] in simp_all)
  then show ?thesis using y(1) assms(1) pids_ok_kept by (auto simp: kernel_inv_def sched_inv_def scheduling_def)
next
  case (k_exit i st)
  note r = in_process_running [OF assms(1) k_exit(1)]
  have "proczero s \<noteq> Some i" using k_exit(2) by (auto simp: proc_exit_def bindr_eq_Inr)
  from exit_pids [OF r this k_exit(2)] show ?thesis
    using assms(1) pids_ok_kept by (auto simp: kernel_inv_def sched_inv_def scheduling_def)
next
  case (k_wait i addr r)
  obtain u where u: "proc_wait im i addr s = wait_round im i addr u" "waiting i u" "procs u = procs s" "global_pid u = global_pid s"
    using wait_enter [OF in_process_running [OF assms(1) k_wait(1)]] by metis
  have "wait_round im i addr u = Inr (r, t)" using u(1) k_wait(2) by simp
  then have "sched_inv t" "pids_kept u t" using wait_round_inv [OF u(2)] by auto
  then show ?thesis using pids_kept_trans [OF pids_kept_same [OF u(3,4)]] assms(1) pids_ok_kept by (auto simp: kernel_inv_def)
next
  case (k_fork i n)
  note r = in_process_running [OF assms(1) k_fork(1)]
  have "pids_ok s" using assms(1) by (simp add: kernel_inv_def)
  then have "running i t" "pids_ok t"
    using proc_fork_inv [OF r k_fork(2)] pids_ok_kept [of s t] forked_pids [of s i _ t] by blast+
  then show ?thesis by (simp add: kernel_inv_def sched_inv_def running_def)
next
  case k_tick
  have ti: "table_inv s" "lock_free (wait_lock s)" "case ctl s of Scheduler i \<Rightarrow> cur s = None | Process i \<Rightarrow> i < NPROC \<and> cur s = Some i"
    using assms(1) k_tick(1) by (auto simp: kernel_inv_def sched_inv_def scheduling_def running_def entering_def slot_held_def split: ctl.splits)
  have t: "table_inv t" "noff (cpu t) = 0" "cur t = cur s" "ctl t = ctl s" "wait_lock t = wait_lock s" "global_pid t = global_pid s"
    "\<forall>j < NPROC. proc_at t j = (if cur s \<noteq> Some j then wake (Some ChanTimer) (proc_at s j) else proc_at s j)"
    using timer_update_ok [OF ti(1) k_tick(1)] k_tick(2) by auto
  from pids_kept_wake [OF t(6,7)] show ?thesis
    using t ti assms(1) pids_ok_kept by (auto simp: kernel_inv_def sched_inv_def scheduling_def running_def split: ctl.splits)
next
  case (k_work i m mm)
  have "running i t" unfolding k_work(1) by (rule running_frame [OF in_process_running [OF assms(1) k_work(2)]]) simp_all
  moreover have "pids_kept s t" unfolding k_work(1) by (rule pids_kept_same) simp_all
  ultimately show ?thesis using assms(1) pids_ok_kept by (auto simp: kernel_inv_def sched_inv_def running_def)
qed

lemma kstart_inv: "kstart im s \<Longrightarrow> kernel_inv s"
proof -
  assume "kstart im s"
  then obtain b where b: "length (procs b) = NPROC" "\<forall>j < NPROC. kont (proc_at b j) = Gone" "noff (cpu b) = 0" "cur b = None"
    "proc_make_first im (timer_create (proc_init b)) = Inr s \<or> s = (timer_create (proc_init b))\<lparr>ctl := Scheduler NPROC\<rparr>" by (auto simp: kstart_def)
  let ?b = "timer_create (proc_init b)"
  have q: "quiet ?b" "cur ?b = None" "pids_ok ?b" using booted_quiet [OF b(1-4)] by auto
  show ?thesis
  proof (cases "s = ?b\<lparr>ctl := Scheduler NPROC\<rparr>")
    case True
    then show ?thesis using q table_inv_frame [of s ?b]
      by (simp add: kernel_inv_def sched_inv_def scheduling_def quiet_def pids_ok_def)
  next
    case False
    obtain n where n: "scheduling NPROC s" "n < NPROC" "pid (proc_at s n) = global_pid ?b" "global_pid s = global_pid ?b + 1"
      "\<forall>j < NPROC. j \<noteq> n \<longrightarrow> proc_at s j = proc_at ?b j"
      using proc_make_first_inv [OF q(1,2)] b(5) False by blast
    have "pstate (proc_at ?b j) = UNUSED" if "j < NPROC" for j using that by (simp add: timer_create_def proc_init_def)
    then have un: "pstate (proc_at s j) = UNUSED" if "j < NPROC" "j \<noteq> n" for j using n(5) that by simp
    then have "pids_ok s" using n(3,4) unfolding pids_ok_def by (metis zless_add1_eq)
    then show ?thesis using n(1) by (simp add: kernel_inv_def sched_inv_def scheduling_def)
  qed
qed

interpretation ksys: inductive_invariant "kstart im" "kstep im" kernel_inv for im
  by unfold_locales (auto intro: kstart_inv kstep_inv)

end
