(* ===== verification/Proc_Props.thy ===== *)
theory Proc_Props
  imports Sched
begin

text \<open>
  The properties of processes and of the scheduler, over the lemmas of \<open>Sched\<close>.
\<close>

section \<open>Example states\<close>

definition blank_proc :: proc where
  "blank_proc = \<lparr>plk = spinlock_init ''proc'', pid = 0, pstate = UNUSED, parent = None, exit_state = 0, sleep_space = None, pgtbl = 0,
     heap_top = 0, ustack_base = 0, ustack_pages = 0, pmmap = None, tf = 0, kstack = 0,
     ctx = \<lparr>ctx_ra = 0, ctx_sp = 0, ctx_s = replicate 12 0\<rparr>, cwd = None, filelist = replicate FILE_PER_PROC None, kont = Gone\<rparr>"

definition kernel_with :: "proc list \<Rightarrow> nat option \<Rightarrow> ctl \<Rightarrow> kernel" where
  "kernel_with ps c w = \<lparr>pm = pmem_small, mms = \<lparr>regions = (\<lambda>_. \<lparr>m_begin = 0, npages = 0, m_next = None\<rparr>), node_next = (\<lambda>_. None)\<rparr>,
     procs = ps @ replicate (NPROC - length ps) blank_proc, proczero = Some 0, global_pid = 10, first = False, kernel_pgtbl = 0,
     wait_lock = spinlock_init ''wait_lock'', ticks = 0, timer_lk = spinlock_init ''sys_timer'',
     cpu = \<lparr>noff = 0, origin = False, sie = True\<rparr>, cur = c, ctl = w\<rparr>"

lemma kernel_with_simps [simp]:
  "procs (kernel_with ps c w) = ps @ replicate (NPROC - length ps) blank_proc" "cur (kernel_with ps c w) = c" "ctl (kernel_with ps c w) = w"
  "wait_lock (kernel_with ps c w) = spinlock_init ''wait_lock''" "timer_lk (kernel_with ps c w) = spinlock_init ''sys_timer''"
  "noff (cpu (kernel_with ps c w)) = 0" "proczero (kernel_with ps c w) = Some 0" "global_pid (kernel_with ps c w) = 10"
  "ticks (kernel_with ps c w) = 0"
  by (simp_all add: kernel_with_def)

lemma lock_free_init [simp]: "lock_free (spinlock_init nm)"
  by (simp add: lock_free_def spinlock_init_def)

text \<open>A table of processes with free locks, of which the one the hart names runs.\<close>

lemma kernel_with_table:
  assumes "length ps \<le> NPROC" "\<forall>j < length ps. slot_ok (kernel_with ps c w) j (ps ! j)" "\<forall>j. c = Some j \<longrightarrow> j < length ps"
  shows "table_inv (kernel_with ps c w)"
proof -
  have "slot_ok (kernel_with ps c w) j (proc_at (kernel_with ps c w) j)" if "j < NPROC" for j
  proof (cases "j < length ps")
    case True
    then show ?thesis using assms(2) by (simp add: nth_append)
  next
    case False
    then have "c \<noteq> Some j" using assms(3) by blast
    then show ?thesis using False that by (simp add: nth_append slot_ok_def blank_proc_def kont_ok_def)
  qed
  then show ?thesis using assms(1) by (simp add: table_inv_def)
qed

definition init_proc :: proc where
  "init_proc = blank_proc\<lparr>pid := 1, pstate := SLEEPING, sleep_space := Some (ChanProc 0), kont := AfterSleep WaitLock (InWait 0)\<rparr>"

definition user_proc :: proc where
  "user_proc = blank_proc\<lparr>pid := 2, pstate := RUNNING, parent := Some 0, kont := ForkReturn\<rparr>"

text \<open>The first process waits for its child, which runs.\<close>

lemma running_example: "running 1 (kernel_with [init_proc, user_proc] (Some 1) (Process 1))"
proof -
  have "table_inv (kernel_with [init_proc, user_proc] (Some 1) (Process 1))"
    by (rule kernel_with_table) (auto simp: slot_ok_def init_proc_def user_proc_def blank_proc_def kont_ok_def less_Suc_eq)
  then show ?thesis by (simp add: running_def)
qed

section \<open>The transition system\<close>

text \<open>C1. In every state the kernel can reach, at most one process is in state RUNNING and it is the process the hart names; the scheduler
  runs only when there is none; the locks of all other processes are free; and no two processes have the same number.\<close>

theorem one_process_runs:
  assumes "reach (kstart im) (kstep im) s"
  shows "(\<forall>j < NPROC. pstate (proc_at s j) = RUNNING \<longleftrightarrow> cur s = Some j) \<and>
    (\<forall>j < NPROC. cur s \<noteq> Some j \<longrightarrow> \<not> locked (plk (proc_at s j))) \<and> \<not> locked (wait_lock s) \<and> \<not> locked (timer_lk s) \<and>
    (case ctl s of Scheduler _ \<Rightarrow> cur s = None | Process i \<Rightarrow> cur s = Some i) \<and>
    (\<forall>j < NPROC. \<forall>k < NPROC. pstate (proc_at s j) \<noteq> UNUSED \<longrightarrow> pstate (proc_at s k) \<noteq> UNUSED \<longrightarrow>
       pid (proc_at s j) = pid (proc_at s k) \<longrightarrow> j = k)"
proof -
  have inv: "sched_inv s" "pids_ok s" using ksys.reach_inv [OF assms] by (simp_all add: kernel_inv_def)
  have base: "(\<forall>j < NPROC. pstate (proc_at s j) = RUNNING \<longleftrightarrow> cur s = Some j) \<and>
      (\<forall>j < NPROC. cur s \<noteq> Some j \<longrightarrow> \<not> locked (plk (proc_at s j))) \<and> \<not> locked (timer_lk s)" if "table_inv s"
    using table_invD [OF that] by (auto simp: lock_free_def)
  have held: "(\<forall>j < NPROC. pstate (proc_at s j) = RUNNING \<longleftrightarrow> cur s = Some j) \<and>
      (\<forall>j < NPROC. cur s \<noteq> Some j \<longrightarrow> \<not> locked (plk (proc_at s j))) \<and> \<not> locked (timer_lk s)" if en: "entering i s" for i
  proof -
    obtain l where l: "table_inv (upd i (\<lambda>p. p\<lparr>plk := l\<rparr>) s)" "cur s = Some i" "i < NPROC"
      using en by (auto simp: entering_def slot_held_def)
    note d = table_invD [OF l(1)]
    have len: "length (procs s) = NPROC" using d(1) by simp
    have "pstate (proc_at s j) = RUNNING \<longleftrightarrow> cur s = Some j" if "j < NPROC" for j
      using d(3) [OF that] len l(3) that by (cases "j = i") auto
    moreover have "\<not> locked (plk (proc_at s j))" if "j < NPROC" "cur s \<noteq> Some j" for j
      using d(2) [OF that(1)] that l(2) by (auto simp: lock_free_def)
    ultimately show ?thesis using d(4) by (simp add: lock_free_def)
  qed
  have pids: "\<forall>j < NPROC. \<forall>k < NPROC. pstate (proc_at s j) \<noteq> UNUSED \<longrightarrow> pstate (proc_at s k) \<noteq> UNUSED \<longrightarrow>
       pid (proc_at s j) = pid (proc_at s k) \<longrightarrow> j = k" using inv(2) by (simp add: pids_ok_def)
  show ?thesis
  proof (cases "ctl s")
    case (Scheduler i)
    then show ?thesis using inv(1) base pids by (auto simp: sched_inv_def scheduling_def lock_free_def)
  next
    case (Process i)
    then consider "running i s" | "entering i s" using inv(1) by (auto simp: sched_inv_def)
    then show ?thesis
    proof cases
      case 1
      then show ?thesis using base pids Process by (auto simp: running_def lock_free_def)
    next
      case 2
      then show ?thesis using held [OF 2] pids Process by (auto simp: entering_def slot_held_def lock_free_def)
    qed
  qed
qed

definition image_example :: image where
  "image_example = \<lparr>trampoline = 0x80000000, ALLOC_BEGIN = 0x80010000, fork_return_pc = 0x80001000, forkret_pc = 0x80002000, initcode = []\<rparr>"

lemma reach_example:
  "reach (kstart im) (kstep im) ((timer_create (proc_init (kernel_with [] None (Scheduler 0))))\<lparr>ctl := Scheduler NPROC\<rparr>)"
proof -
  have "\<forall>j < NPROC. kont (proc_at (kernel_with [] None (Scheduler 0)) j) = Gone" by (simp add: blank_proc_def)
  then show ?thesis unfolding kstart_def by (intro reach_start exI [of _ "kernel_with [] None (Scheduler 0)"]) simp
qed

theorem one_process_runs_witness:
  "\<exists>s. reach (kstart image_example) (kstep image_example) s \<and> ctl s = Scheduler 0 \<and> cur s = None \<and> \<not> locked (wait_lock s) \<and>
     pstate (proc_at s 3) \<noteq> RUNNING"
proof -
  let ?s = "(timer_create (proc_init (kernel_with [] None (Scheduler 0))))\<lparr>ctl := Scheduler NPROC\<rparr>"
  obtain t where t: "proc_scheduler NPROC ?s = Inr t" "ctl t = Scheduler 0" by (simp add: proc_scheduler_def)
  have "kstep image_example ?s t" by (rule k_sched [of ?s NPROC]) (simp_all add: t(1))
  then have "reach (kstart image_example) (kstep image_example) t" using reach_step [OF reach_example] by blast
  then show ?thesis using one_process_runs [of image_example t] t(2) by - (rule exI [of _ t], auto)
qed



section \<open>Scheduling\<close>

text \<open>Rounds of the scheduler until it switches to a process.\<close>

primrec sched_run :: "nat \<Rightarrow> kernel \<Rightarrow> kernel res" where
  "sched_run 0 s = Inr s"
| "sched_run (Suc n) s = (case ctl s of Scheduler i \<Rightarrow> bindr (proc_scheduler i s) (sched_run n) | Process i \<Rightarrow> Inr s)"

lemma sched_run_add: "sched_run m s = Inr t \<Longrightarrow> sched_run (m + n) s = sched_run n t"
proof (induction m arbitrary: s)
  case 0
  then show ?case by simp
next
  case (Suc m)
  show ?case
  proof (cases "ctl s")
    case (Scheduler i)
    then show ?thesis using Suc by (auto simp: bindr_eq_Inr)
  next
    case (Process i)
    then show ?thesis using Suc.prems by (cases n) auto
  qed
qed

lemma sched_skip:
  assumes "scheduling i s" "i + n \<le> NPROC" "\<forall>k. i \<le> k \<and> k < i + n \<longrightarrow> pstate (proc_at s k) \<noteq> RUNNABLE"
  shows "\<exists>t. sched_run n s = Inr t \<and> scheduling (i + n) t \<and> procs t = procs s"
  using assms
proof (induction n arbitrary: i s)
  case 0
  then show ?case by simp
next
  case (Suc n)
  obtain u where u: "proc_scheduler i s = Inr u" "scheduling (Suc i) u" "procs u = procs s"
    using proc_scheduler_ok [OF Suc.prems(1)] Suc.prems(2,3) by auto
  obtain t where "sched_run n u = Inr t" "scheduling (Suc i + n) t" "procs t = procs s"
    using Suc.IH [OF u(2)] Suc.prems(2,3) u(3) by auto
  moreover have "ctl s = Scheduler i" using Suc.prems(1) by (simp add: scheduling_def)
  ultimately show ?case using u(1) by simp
qed

lemma sched_pick:
  assumes "scheduling i s" "i \<le> j" "j < NPROC" "pstate (proc_at s j) = RUNNABLE" "\<forall>k. i \<le> k \<and> k < j \<longrightarrow> pstate (proc_at s k) \<noteq> RUNNABLE"
  shows "\<exists>t. sched_run (Suc (j - i)) s = Inr t \<and> ctl t = Process j \<and> cur t = Some j \<and> pstate (proc_at t j) = RUNNING \<and>
    (\<forall>k. k \<noteq> j \<longrightarrow> proc_at t k = proc_at s k)"
proof -
  obtain u where u: "sched_run (j - i) s = Inr u" "scheduling j u" "procs u = procs s"
    using sched_skip [OF assms(1), of "j - i"] assms(2,3,5) by auto
  obtain t where t: "proc_scheduler j u = Inr t" "entering j t"
    "procs t = (procs u)[j := (proc_at u j)\<lparr>plk := held_lock (plk (proc_at u j)), pstate := RUNNING\<rparr>]"
    using proc_scheduler_ok [OF u(2)] u(3) assms(3,4) by auto
  have "sched_run (Suc (j - i)) s = Inr t"
    using sched_run_add [OF u(1), of 1] u(2) t(1) by (simp add: scheduling_def)
  moreover have "ctl t = Process j" "cur t = Some j" using t(2) by (auto simp: entering_def)
  moreover have "pstate (proc_at t j) = RUNNING" using entering_state(3) [OF t(2)] .
  ultimately show ?thesis using t(3) u(3) by auto
qed

text \<open>C9. The scheduler makes progress: if some process is runnable, then within \<open>2 * 64 + 1\<close> rounds the scheduler has switched to a
  runnable process, namely the next runnable one in the order of the table, starting at the current slot and going round; no other slot
  has changed.  So a runnable process waits for at most the processes that come before it in that order.\<close>

theorem scheduler_finds_next:
  assumes "scheduling i s" and "i \<le> NPROC" and "r < NPROC" and "pstate (proc_at s r) = RUNNABLE"
  shows "\<exists>n t j. n \<le> 2 * NPROC + 1 \<and> sched_run n s = Inr t \<and> ctl t = Process j \<and> cur t = Some j \<and> j < NPROC \<and>
    pstate (proc_at s j) = RUNNABLE \<and> pstate (proc_at t j) = RUNNING \<and> (\<forall>k. k \<noteq> j \<longrightarrow> proc_at t k = proc_at s k) \<and>
    (if i \<le> j then \<forall>k. i \<le> k \<and> k < j \<longrightarrow> pstate (proc_at s k) \<noteq> RUNNABLE
     else \<forall>k < NPROC. i \<le> k \<or> k < j \<longrightarrow> pstate (proc_at s k) \<noteq> RUNNABLE)"
proof (cases "\<exists>j. i \<le> j \<and> j < NPROC \<and> pstate (proc_at s j) = RUNNABLE")
  case True
  let ?P = "\<lambda>j. i \<le> j \<and> j < NPROC \<and> pstate (proc_at s j) = RUNNABLE"
  obtain j where j: "?P j" "\<forall>k < j. \<not> ?P k" using exists_least_iff [of ?P] True by blast
  then have before: "\<forall>k. i \<le> k \<and> k < j \<longrightarrow> pstate (proc_at s k) \<noteq> RUNNABLE" by auto
  from sched_pick [OF assms(1) _ _ _ before] j(1)
  obtain t where "sched_run (Suc (j - i)) s = Inr t" "ctl t = Process j" "cur t = Some j" "pstate (proc_at t j) = RUNNING"
    "\<forall>k. k \<noteq> j \<longrightarrow> proc_at t k = proc_at s k" by auto
  moreover have "Suc (j - i) \<le> 2 * NPROC + 1" using j(1) diff_le_self [of j i] by linarith
  ultimately show ?thesis using j(1) before by (intro exI [of _ "Suc (j - i)"] exI [of _ t] exI [of _ j]) simp
next
  case False
  then have none: "\<forall>k. i \<le> k \<and> k < i + (NPROC - i) \<longrightarrow> pstate (proc_at s k) \<noteq> RUNNABLE" using assms(2) by auto
  obtain u where u: "sched_run (NPROC - i) s = Inr u" "scheduling NPROC u" "procs u = procs s"
    using sched_skip [OF assms(1) _ none] assms(2) by auto
  obtain v where v: "proc_scheduler NPROC u = Inr v" "scheduling 0 v" "procs v = procs s"
    using proc_scheduler_ok [OF u(2)] u(3) by auto
  have sv: "sched_run (NPROC - i + 1) s = Inr v" using sched_run_add [OF u(1), of 1] u(2) v(1) by (simp add: scheduling_def)
  let ?P = "\<lambda>j. j < NPROC \<and> pstate (proc_at s j) = RUNNABLE"
  obtain j where j: "?P j" "\<forall>k < j. \<not> ?P k" using exists_least_iff [of ?P] assms(3,4) by blast
  have "\<forall>k. 0 \<le> k \<and> k < j \<longrightarrow> pstate (proc_at v k) \<noteq> RUNNABLE" using j v(3) by auto
  from sched_pick [OF v(2) _ _ _ this] j(1) v(3)
  obtain t where t: "sched_run (Suc j) v = Inr t" "ctl t = Process j" "cur t = Some j" "pstate (proc_at t j) = RUNNING"
    "\<forall>k. k \<noteq> j \<longrightarrow> proc_at t k = proc_at s k" by auto
  have "sched_run (NPROC - i + 1 + Suc j) s = Inr t" using sched_run_add [OF sv, of "Suc j"] t(1) by (simp only:)
  moreover have "NPROC - i + 1 + Suc j \<le> 2 * NPROC + 1" "\<not> i \<le> j" using j(1) False by auto
  moreover have "\<forall>k < NPROC. i \<le> k \<or> k < j \<longrightarrow> pstate (proc_at s k) \<noteq> RUNNABLE" using False j by auto
  ultimately show ?thesis using j(1) t by (intro exI [of _ "NPROC - i + 1 + Suc j"] exI [of _ t] exI [of _ j]) simp
qed

theorem scheduler_finds_next_witness:
  "\<exists>n t. sched_run n (kernel_with [init_proc, user_proc\<lparr>pstate := RUNNABLE\<rparr>] None (Scheduler 5)) = Inr t \<and> ctl t = Process 1 \<and>
     pstate (proc_at t 1) = RUNNING"
proof -
  let ?s = "kernel_with [init_proc, user_proc\<lparr>pstate := RUNNABLE\<rparr>] None (Scheduler 5)"
  have "table_inv ?s"
    by (rule kernel_with_table) (auto simp: slot_ok_def init_proc_def user_proc_def blank_proc_def kont_ok_def less_Suc_eq)
  then have s: "scheduling 5 ?s" by (simp add: scheduling_def)
  obtain n t j where t: "sched_run n ?s = Inr t" "ctl t = Process j" "j < NPROC" "pstate (proc_at ?s j) = RUNNABLE" "pstate (proc_at t j) = RUNNING"
    using scheduler_finds_next [OF s, of 1] by (auto simp: user_proc_def)
  have "j = 1"
  proof (rule ccontr)
    assume "j \<noteq> 1"
    then have "proc_at ?s j = (if j = 0 then init_proc else blank_proc)" using t(3) by (cases j) (auto simp: nth_Cons' )
    then show False using t(4) by (simp add: init_proc_def blank_proc_def split: if_splits)
  qed
  then show ?thesis using t by auto
qed

section \<open>Sleep, wakeup, exit and wait\<close>

text \<open>A wakeup makes runnable exactly the processes other than the caller that sleep on the channel; every other field of the
  table, the locks and the interrupt state are as before.\<close>

theorem proc_wakeup_exact:
  assumes "length (procs s) = NPROC" and "\<forall>j < NPROC. cur s \<noteq> Some j \<longrightarrow> lock_free (plk (proc_at s j))" and "cpu_ok (cpu s)"
  shows "\<exists>t. proc_wakeup c s = Inr t \<and> t = s\<lparr>procs := procs t, cpu := cpu t\<rparr> \<and> noff (cpu t) = noff (cpu s) \<and> sie (cpu t) = sie (cpu s) \<and>
    (\<forall>j < NPROC. proc_at t j =
       (if cur s \<noteq> Some j \<and> pstate (proc_at s j) = SLEEPING \<and> sleep_space (proc_at s j) = c
        then (proc_at s j)\<lparr>pstate := RUNNABLE\<rparr> else proc_at s j))"
proof (rule proc_wakeup_ok [OF assms])
  fix t assume t: "proc_wakeup c s = Inr t" "same_but_table s t" "length (procs t) = NPROC"
    "\<forall>j < NPROC. proc_at t j = (if cur s \<noteq> Some j then wake c (proc_at s j) else proc_at s j)"
  then show ?thesis by (intro exI [of _ t]) (auto simp: same_but_table_def wake_def)
qed

theorem proc_wakeup_exact_witness:
  "\<exists>t. proc_wakeup (Some (ChanProc 0)) (kernel_with [init_proc, user_proc] (Some 1) (Process 1)) = Inr t \<and>
     pstate (proc_at t 0) = RUNNABLE \<and> pstate (proc_at t 1) = RUNNING"
proof -
  let ?s = "kernel_with [init_proc, user_proc] (Some 1) (Process 1)"
  note r = running_simps [OF running_example]
  have "\<forall>j < NPROC. cur ?s \<noteq> Some j \<longrightarrow> lock_free (plk (proc_at ?s j))" using table_invD(2) [OF r(1)] by blast
  from proc_wakeup_exact [OF table_invD(1) [OF r(1)] this r(7), of "Some (ChanProc 0)"]
  obtain t where t: "proc_wakeup (Some (ChanProc 0)) ?s = Inr t" "\<forall>j < NPROC. proc_at t j =
       (if cur ?s \<noteq> Some j \<and> pstate (proc_at ?s j) = SLEEPING \<and> sleep_space (proc_at ?s j) = Some (ChanProc 0)
        then (proc_at ?s j)\<lparr>pstate := RUNNABLE\<rparr> else proc_at ?s j)" by blast
  then have "proc_at t 0 = init_proc\<lparr>pstate := RUNNABLE\<rparr>" "proc_at t 1 = user_proc"
    by (simp_all add: init_proc_def user_proc_def)
  then show ?thesis using t(1) by (simp add: user_proc_def)
qed

text \<open>C15. Exit: the process becomes a zombie with its exit state and gives up the hart; its children become children of the first
  process; its parent, if it sleeps in wait, is runnable afterwards, so the exit is never missed; and no process changes state in
  another way than being woken.\<close>

theorem proc_exit_correct:
  assumes "running i s" and "proczero s \<noteq> Some i" and "parent (proc_at s i) \<noteq> Some i"
  shows "\<exists>t. proc_exit i st s = Inr t \<and> scheduling (Suc i) t \<and>
    pstate (proc_at t i) = ZOMBIE \<and> exit_state (proc_at t i) = st \<and> parent (proc_at t i) = parent (proc_at s i) \<and>
    (\<forall>j < NPROC. j \<noteq> i \<longrightarrow>
       parent (proc_at t j) = (if parent (proc_at s j) = Some i then proczero s else parent (proc_at s j)) \<and>
       pid (proc_at t j) = pid (proc_at s j) \<and>
       (pstate (proc_at t j) = pstate (proc_at s j) \<or> pstate (proc_at s j) = SLEEPING \<and> pstate (proc_at t j) = RUNNABLE) \<and>
       (parent (proc_at s i) = Some j \<longrightarrow> pstate (proc_at s j) = SLEEPING \<longrightarrow> sleep_space (proc_at s j) = Some (ChanProc j) \<longrightarrow>
          pstate (proc_at t j) = RUNNABLE))"
proof -
  have i: "i < NPROC" using running_simps(2) [OF assms(1)] .
  obtain t1 t2 t where e: "proc_exit i st s = Inr t" "scheduling (Suc i) t"
    "\<forall>j < NPROC. touched s (map_option ChanProc (proczero s)) t1 j \<and>
      parent (proc_at t1 j) = (if parent (proc_at s j) = Some i then proczero s else parent (proc_at s j))"
    "\<forall>j < NPROC. j \<noteq> i \<longrightarrow> proc_at t2 j = wake (map_option ChanProc (parent (proc_at t1 i))) (proc_at t1 j)"
    "proc_at t2 i = proc_at t1 i" "procs t = (procs t2)[i := (proc_at t2 i)\<lparr>exit_state := st, pstate := ZOMBIE, kont := Gone\<rparr>]" "length (procs t2) = NPROC"
    using exit_ok [OF assms(1,2), of st] by blast
  have pi: "parent (proc_at t1 i) = parent (proc_at s i)" using e(3) i assms(3) by simp
  have self: "proc_at t i = (proc_at t1 i)\<lparr>exit_state := st, pstate := ZOMBIE, kont := Gone\<rparr>" using e(5,6,7) i by simp
  have oth: "proc_at t j = wake (map_option ChanProc (parent (proc_at s i))) (proc_at t1 j)" if "j < NPROC" "j \<noteq> i" for j
    using e(4,6) that pi by simp
  have "parent (proc_at t j) = (if parent (proc_at s j) = Some i then proczero s else parent (proc_at s j)) \<and>
       pid (proc_at t j) = pid (proc_at s j) \<and>
       (pstate (proc_at t j) = pstate (proc_at s j) \<or> pstate (proc_at s j) = SLEEPING \<and> pstate (proc_at t j) = RUNNABLE) \<and>
       (parent (proc_at s i) = Some j \<longrightarrow> pstate (proc_at s j) = SLEEPING \<longrightarrow> sleep_space (proc_at s j) = Some (ChanProc j) \<longrightarrow>
          pstate (proc_at t j) = RUNNABLE)" if j: "j < NPROC" "j \<noteq> i" for j
  proof -
    have t1: "touched s (map_option ChanProc (proczero s)) t1 j"
      "parent (proc_at t1 j) = (if parent (proc_at s j) = Some i then proczero s else parent (proc_at s j))" using e(3) j(1) by auto
    show ?thesis
      using t1 touched_sleep [OF t1(1)] unfolding oth [OF j] by (auto simp: touched_def wake_def)
  qed
  then show ?thesis using e(1,2) self pi by auto
qed

theorem proc_exit_correct_witness:
  "\<exists>t. proc_exit 1 42 (kernel_with [init_proc, user_proc] (Some 1) (Process 1)) = Inr t \<and> pstate (proc_at t 1) = ZOMBIE \<and>
     exit_state (proc_at t 1) = 42 \<and> pstate (proc_at t 0) = RUNNABLE"
proof -
  let ?s = "kernel_with [init_proc, user_proc] (Some 1) (Process 1)"
  have p: "proc_at ?s 1 = user_proc" "proc_at ?s 0 = init_proc" by simp_all
  have h: "proczero ?s \<noteq> Some 1" "parent (proc_at ?s 1) \<noteq> Some 1" unfolding p by (simp_all add: user_proc_def)
  obtain t where t: "proc_exit 1 42 ?s = Inr t" "pstate (proc_at t 1) = ZOMBIE" "exit_state (proc_at t 1) = 42"
    "\<forall>j < NPROC. j \<noteq> 1 \<longrightarrow> parent (proc_at ?s 1) = Some j \<longrightarrow> pstate (proc_at ?s j) = SLEEPING \<longrightarrow> sleep_space (proc_at ?s j) = Some (ChanProc j) \<longrightarrow>
          pstate (proc_at t j) = RUNNABLE"
    using proc_exit_correct [OF running_example h, of 42] by blast
  have "pstate (proc_at t 0) = RUNNABLE" using t(4) [rule_format, of 0] unfolding p by (simp add: user_proc_def init_proc_def)
  then show ?thesis using t by blast
qed



text \<open>A timer interrupt counts one tick and wakes exactly the processes that sleep on the timer; the current process, the locks and
  everything else in the table stay as they are.\<close>

theorem timer_update_correct:
  assumes "table_inv s" and "noff (cpu s) = 0"
  shows "\<exists>t. timer_update s = Inr t \<and> ticks t = ticks s + 1 \<and> table_inv t \<and> noff (cpu t) = 0 \<and> cur t = cur s \<and> ctl t = ctl s \<and>
    (\<forall>j < NPROC. proc_at t j = (if cur s \<noteq> Some j \<and> pstate (proc_at s j) = SLEEPING \<and> sleep_space (proc_at s j) = Some ChanTimer
       then (proc_at s j)\<lparr>pstate := RUNNABLE\<rparr> else proc_at s j))"
  using timer_update_ok [OF assms] by (auto simp: wake_def)

theorem timer_update_correct_witness:
  "\<exists>t. timer_update (kernel_with [init_proc, user_proc] (Some 1) (Process 1)) = Inr t \<and> ticks t = 1 \<and> pstate (proc_at t 0) = SLEEPING"
proof -
  let ?s = "kernel_with [init_proc, user_proc] (Some 1) (Process 1)"
  obtain t where t: "timer_update ?s = Inr t" "ticks t = ticks ?s + 1" "\<forall>j < NPROC. proc_at t j =
       (if cur ?s \<noteq> Some j \<and> pstate (proc_at ?s j) = SLEEPING \<and> sleep_space (proc_at ?s j) = Some ChanTimer
        then (proc_at ?s j)\<lparr>pstate := RUNNABLE\<rparr> else proc_at ?s j)"
    using timer_update_correct [OF running_simps(1,5) [OF running_example]] by blast
  then have "proc_at t 0 = init_proc" by (simp add: init_proc_def)
  then show ?thesis using t(1,2) by (simp add: init_proc_def)
qed

text \<open>C37. \<^verbatim>\<open>sys_sleep\<close> as it is written stops the kernel: its loop calls \<^verbatim>\<open>proc_sleep\<close> without holding the timer lock, which then releases
  a lock that is not held.\<close>

theorem sleep_until_panics:
  assumes "running i s" and "ticks s < target"
  shows "sleep_until i target s = Inl (Panic ''release'')"
proof -
  note r = running_simps [OF assms(1)]
  have "lock_free (timer_lk s)" using table_invD(4) [OF r(1)] .
  then have "release TimerLock (upd i (\<lambda>p. p\<lparr>plk := held_lock (plk (proc_at s i))\<rparr>) (s\<lparr>cpu := push_off (cpu s)\<rparr>)) = Inl (Panic ''release'')"
    by (simp add: release_def spinlock_release_def lock_drop_def spinlock_holding_def lock_free_def)
  then show ?thesis using assms(2) acquire_proc_free [OF r(9)] by (simp add: sleep_until_def proc_sleep_def)
qed

theorem sleep_until_panics_witness:
  "sleep_until 1 5 (kernel_with [init_proc, user_proc] (Some 1) (Process 1)) = Inl (Panic ''release'')"
  by (rule sleep_until_panics [OF running_example]) simp

end
