(* ===== verification/Virtio.thy ===== *)
theory Virtio
  imports Procs Bufcache
begin

text \<open>
  \<^verbatim>\<open>kernel/dev/virtio.c\<close>: the driver of the virtio disk.  The ring (descriptors, available and used area) is shared
  with the device; the request header, the data of the buffers and the status bytes are in \<open>dma\<close>, the byte
  memory the device reads and writes.  A \<^verbatim>\<open>buf_t*\<close> is the index of its buffer; \<open>disk_flag b\<close> is \<^verbatim>\<open>b->disk\<close> and
  \<open>bnum b\<close> is \<^verbatim>\<open>b->block_num\<close>.

  The request header is on the kernel stack of the calling process, which is not mapped one to one: the driver
  asks the kernel page table for its physical address.  The page table (\<open>kpt\<close>, in \<open>kpm\<close>) is not in the memory
  the driver and the device write.

  \<^verbatim>\<open>virtio_disk_rw\<close> sleeps in two places; \<open>frames p\<close> is what is left of the call of process \<open>p\<close>, with the local
  variables it still uses, and \<open>sleeping p\<close> what it sleeps on.  Between two sleeps the driver holds
  \<^verbatim>\<open>vdisk_lock\<close>.
\<close>

section \<open>Data\<close>

abbreviation NUM :: nat where "NUM \<equiv> 8"
abbreviation VRING_DESC_F_NEXT :: u16 where "VRING_DESC_F_NEXT \<equiv> 1"
abbreviation VRING_DESC_F_WRITE :: u16 where "VRING_DESC_F_WRITE \<equiv> 2"
abbreviation VIRTIO_BLK_T_IN :: u32 where "VIRTIO_BLK_T_IN \<equiv> 0"
abbreviation VIRTIO_BLK_T_OUT :: u32 where "VIRTIO_BLK_T_OUT \<equiv> 1"

record VRingDesc =
  d_addr :: u64
  d_len :: u32
  d_flags :: u16
  d_next :: u16

record VRingUsedElem =
  ue_id :: u32
  ue_len :: u32

record UsedArea =
  ua_flags :: u16
  ua_idx :: u16
  ua_elems :: "VRingUsedElem list"

datatype frame = Outside | WaitDesc nat bool | WaitData nat bool "nat list"

record vdisk =
  desc :: "VRingDesc list"
  avail :: "u16 list"
  used :: UsedArea
  vfree :: "bool list"
  used_idx :: u16
  info_b :: "nat option list"
  vdisk_lock :: spinlock
  dma :: mem
  disk_flag :: "nat \<Rightarrow> bool"
  bnum :: "nat \<Rightarrow> u32"
  frames :: "nat \<Rightarrow> frame"
  sleeping :: "nat \<Rightarrow> chan option"
  intr_status :: u32
  notified :: bool

text \<open>The addresses the linker and the compiler choose: of the header on the stack of a process, of the data of a
  buffer, of \<^verbatim>\<open>disk.info\<close>, whose elements have 16 bytes with the status at offset 8, and of \<^verbatim>\<open>disk.pages\<close>.\<close>

record vlayout =
  hdr_va :: "nat \<Rightarrow> u64"
  data_addr :: "nat \<Rightarrow> u64"
  info_addr :: u64
  pages_addr :: u64
  kpt :: u64
  kpm :: pmem

definition status_addr :: "vlayout \<Rightarrow> nat \<Rightarrow> u64" where
  "status_addr lay i = info_addr lay + of_nat (16 * i + 8)"

section \<open>Start\<close>

text \<open>The registers the driver reads, and those it writes with their values in order.\<close>

record mmio =
  MAGIC_VALUE :: u32
  VERSION :: u32
  DEVICE_ID :: u32
  VENDOR_ID :: u32
  DEVICE_FEATURES :: u32
  QUEUE_NUM_MAX :: u32

datatype reg = STATUS | DRIVER_FEATURES | GUEST_PAGE_SIZE | QUEUE_SEL | QUEUE_NUM | QUEUE_PFN

definition driver_features :: "u32 \<Rightarrow> u32" where
  "driver_features f = (let features = (ucast f :: u64) in
     ucast (foldl (\<lambda>features k. features AND NOT (push_bit k 1)) features [5, 7, 11, 12, 27, 29, 28]))"

definition virtio_disk_init :: "vlayout \<Rightarrow> mmio \<Rightarrow> vdisk \<Rightarrow> ((reg \<times> u32) list \<times> vdisk) res" where
  "virtio_disk_init lay r s =
     (let s = s\<lparr>vdisk_lock := spinlock_init ''virtio_disk''\<rparr>
      in if MAGIC_VALUE r \<noteq> 0x74726976 \<or> VERSION r \<noteq> 1 \<or> DEVICE_ID r \<noteq> 2 \<or> VENDOR_ID r \<noteq> 0x554d4551
         then Inl (Panic ''could not find virtio disk'')
         else if QUEUE_NUM_MAX r = 0 then Inl (Panic ''virtio disk has no queue 0'')
         else if QUEUE_NUM_MAX r < of_nat NUM then Inl (Panic ''virtio disk max queue too short'')
         else Inr ([(STATUS, 1), (STATUS, 3), (DRIVER_FEATURES, driver_features (DEVICE_FEATURES r)), (STATUS, 11), (STATUS, 15),
                    (GUEST_PAGE_SIZE, 4096), (QUEUE_SEL, 0), (QUEUE_NUM, of_nat NUM),
                    (QUEUE_PFN, ucast (drop_bit 12 (pages_addr lay)))],
                s\<lparr>desc := replicate NUM \<lparr>d_addr = 0, d_len = 0, d_flags = 0, d_next = 0\<rparr>, avail := replicate (2 + NUM) 0,
                  used := \<lparr>ua_flags = 0, ua_idx = 0, ua_elems = replicate NUM \<lparr>ue_id = 0, ue_len = 0\<rparr>\<rparr>,
                  vfree := replicate NUM True\<rparr>))"

section \<open>Descriptors\<close>

text \<open>\<^verbatim>\<open>proc_wakeup\<close>, as the driver sees it.\<close>

definition wake_chan :: "chan \<Rightarrow> vdisk \<Rightarrow> vdisk" where
  "wake_chan c s = s\<lparr>sleeping := (\<lambda>p. if sleeping s p = Some c then None else sleeping s p)\<rparr>"

primrec alloc_desc_loop :: "nat list \<Rightarrow> vdisk \<Rightarrow> nat option \<times> vdisk" where
  "alloc_desc_loop [] s = (None, s)"
| "alloc_desc_loop (i # is) s =
     (if vfree s ! i then (Some i, s\<lparr>vfree := (vfree s)[i := False]\<rparr>) else alloc_desc_loop is s)"

definition alloc_desc :: "vdisk \<Rightarrow> nat option \<times> vdisk" where
  "alloc_desc s = alloc_desc_loop [0..<NUM] s"

definition free_desc :: "nat \<Rightarrow> vdisk \<Rightarrow> vdisk res" where
  "free_desc i s =
     (if NUM \<le> i then Inl (Panic ''virtio_disk_intr 1'')
      else if vfree s ! i then Inl (Panic ''virtio_disk_intr 2'')
      else Inr (wake_chan ChanDesc (s\<lparr>desc := (desc s)[i := (desc s ! i)\<lparr>d_addr := 0\<rparr>], vfree := (vfree s)[i := True]\<rparr>)))"

text \<open>The loop frees a descriptor per round or panics, so it ends after at most \<^verbatim>\<open>NUM\<close> rounds that free one.\<close>

primrec free_chain_loop :: "nat \<Rightarrow> nat \<Rightarrow> vdisk \<Rightarrow> vdisk res" where
  "free_chain_loop 0 i s = Inl Hang"
| "free_chain_loop (Suc fuel) i s =
     bindr (free_desc i s) (\<lambda>s.
     if d_flags (desc s ! i) AND VRING_DESC_F_NEXT \<noteq> 0 then free_chain_loop fuel (unat (d_next (desc s ! i))) s
     else Inr s)"

definition free_chain :: "nat \<Rightarrow> vdisk \<Rightarrow> vdisk res" where
  "free_chain i s = free_chain_loop (Suc NUM) i s"

primrec free_descs :: "nat list \<Rightarrow> vdisk \<Rightarrow> vdisk res" where
  "free_descs [] s = Inr s"
| "free_descs (i # is) s = bindr (free_desc i s) (free_descs is)"

primrec alloc_descs :: "nat \<Rightarrow> nat list \<Rightarrow> vdisk \<Rightarrow> (nat list option \<times> vdisk) res" where
  "alloc_descs 0 idx s = Inr (Some idx, s)"
| "alloc_descs (Suc n) idx s =
     (case alloc_desc s of
        (Some i, s) \<Rightarrow> alloc_descs n (idx @ [i]) s
      | (None, s) \<Rightarrow> bindr (free_descs idx s) (\<lambda>s. Inr (None, s)))"

definition alloc3_desc :: "vdisk \<Rightarrow> (nat list option \<times> vdisk) res" where
  "alloc3_desc s = alloc_descs 3 [] s"

section \<open>Requests\<close>

text \<open>\<^verbatim>\<open>b->block_num * (BLOCK_SIZE / 512)\<close> is computed in 32 bits.\<close>

definition sector_of :: "u32 \<Rightarrow> u64" where
  "sector_of bn = ucast (bn * 2)"

definition outhdr :: "bool \<Rightarrow> u64 \<Rightarrow> byte list" where
  "outhdr wr sector = le_bytes 4 (if wr then VIRTIO_BLK_T_OUT else VIRTIO_BLK_T_IN) @ le_bytes 4 (0 :: u32) @ le_bytes 8 sector"

definition kernel_pa :: "vlayout \<Rightarrow> u64 \<Rightarrow> u64 res" where
  "kernel_pa lay va =
     bindr (vm_getpte (kpt lay) (PG_ROUND_DOWN va) False (kpm lay)) (\<lambda>(pte, _).
     if pte = 0 then Inl Undefined else Inr (PTE_TO_PA (load64 (mem (kpm lay)) pte) + va mod PGSIZE))"

definition set_desc :: "nat \<Rightarrow> VRingDesc \<Rightarrow> vdisk \<Rightarrow> vdisk" where
  "set_desc i d s = s\<lparr>desc := (desc s)[i := d]\<rparr>"

definition submit :: "vlayout \<Rightarrow> nat \<Rightarrow> nat \<Rightarrow> bool \<Rightarrow> nat list \<Rightarrow> vdisk \<Rightarrow> vdisk res" where
  "submit lay p b wr idx s =
     (let i0 = idx ! 0; i1 = idx ! 1; i2 = idx ! 2
      in bindr (kernel_pa lay (hdr_va lay p)) (\<lambda>pa.
         let s = s\<lparr>dma := store_bytes (dma s) pa (outhdr wr (sector_of (bnum s b)))\<rparr>;
             s = set_desc i0 \<lparr>d_addr = pa, d_len = 16, d_flags = VRING_DESC_F_NEXT, d_next = of_nat i1\<rparr> s;
             s = set_desc i1 \<lparr>d_addr = data_addr lay b, d_len = of_nat BLOCK_SIZE,
                              d_flags = (if wr then 0 else VRING_DESC_F_WRITE) OR VRING_DESC_F_NEXT, d_next = of_nat i2\<rparr> s;
             s = s\<lparr>dma := (dma s)(status_addr lay i0 := 0)\<rparr>;
             s = set_desc i2 \<lparr>d_addr = status_addr lay i0, d_len = 1, d_flags = VRING_DESC_F_WRITE, d_next = 0\<rparr> s;
             s = s\<lparr>disk_flag := (disk_flag s)(b := True), info_b := (info_b s)[i0 := Some b]\<rparr>;
             s = s\<lparr>avail := (avail s)[2 + unat (avail s ! 1 mod of_nat NUM) := of_nat i0]\<rparr>;
             s = s\<lparr>avail := (avail s)[1 := avail s ! 1 + 1]\<rparr>
         in Inr (s\<lparr>notified := True\<rparr>)))"

definition sleep_on :: "nat \<Rightarrow> chan \<Rightarrow> frame \<Rightarrow> vdisk \<Rightarrow> vdisk res" where
  "sleep_on p c k s =
     bindr (lock_drop 0 (vdisk_lock s)) (\<lambda>l.
     Inr (s\<lparr>vdisk_lock := l, frames := (frames s)(p := k), sleeping := (sleeping s)(p := Some c)\<rparr>))"

text \<open>The second loop of \<^verbatim>\<open>virtio_disk_rw\<close> and what follows it.\<close>

definition rw_wait :: "nat \<Rightarrow> nat \<Rightarrow> bool \<Rightarrow> nat list \<Rightarrow> vdisk \<Rightarrow> vdisk res" where
  "rw_wait p b wr idx s =
     (if disk_flag s b then sleep_on p (ChanBuf b) (WaitData b wr idx) s
      else bindr (free_chain (idx ! 0) (s\<lparr>info_b := (info_b s)[idx ! 0 := None]\<rparr>)) (\<lambda>s.
           bindr (lock_drop 0 (vdisk_lock s)) (\<lambda>l.
           Inr (s\<lparr>vdisk_lock := l, frames := (frames s)(p := Outside)\<rparr>))))"

text \<open>A round of the first loop, and the request when it has its descriptors.\<close>

definition rw_start :: "vlayout \<Rightarrow> nat \<Rightarrow> nat \<Rightarrow> bool \<Rightarrow> vdisk \<Rightarrow> vdisk res" where
  "rw_start lay p b wr s =
     bindr (alloc3_desc s) (\<lambda>(r, s).
     case r of
       None \<Rightarrow> sleep_on p ChanDesc (WaitDesc b wr) s
     | Some idx \<Rightarrow> bindr (submit lay p b wr idx s) (rw_wait p b wr idx))"

definition take_vlock :: "vdisk \<Rightarrow> vdisk res" where
  "take_vlock s = bindr (lock_take 0 (vdisk_lock s)) (\<lambda>l. Inr (s\<lparr>vdisk_lock := l\<rparr>))"

definition virtio_disk_rw :: "vlayout \<Rightarrow> nat \<Rightarrow> nat \<Rightarrow> bool \<Rightarrow> vdisk \<Rightarrow> vdisk res" where
  "virtio_disk_rw lay p b wr s = bindr (take_vlock s) (rw_start lay p b wr)"

text \<open>The call goes on when the process was woken and \<^verbatim>\<open>proc_sleep\<close> has taken the lock again.\<close>

definition rw_resume :: "vlayout \<Rightarrow> nat \<Rightarrow> vdisk \<Rightarrow> vdisk res" where
  "rw_resume lay p s =
     bindr (take_vlock s) (\<lambda>s.
     case frames s p of
       Outside \<Rightarrow> Inl Undefined
     | WaitDesc b wr \<Rightarrow> rw_start lay p b wr s
     | WaitData b wr idx \<Rightarrow> rw_wait p b wr idx s)"

section \<open>The completion interrupt\<close>

definition intr_one :: "vlayout \<Rightarrow> vdisk \<Rightarrow> vdisk res" where
  "intr_one lay s =
     (let i = unat (ue_id (ua_elems (used s) ! unat (used_idx s mod of_nat NUM)))
      in if NUM \<le> i then Inl Undefined
         else if dma s (status_addr lay i) \<noteq> 0 then Inl (Panic ''virtio_disk_intr status'')
         else case info_b s ! i of
           None \<Rightarrow> Inl Undefined
         | Some b \<Rightarrow> Inr ((wake_chan (ChanBuf b) (s\<lparr>disk_flag := (disk_flag s)(b := False)\<rparr>))\<lparr>used_idx := used_idx s + 1\<rparr>))"

primrec intr_loop :: "vlayout \<Rightarrow> nat \<Rightarrow> vdisk \<Rightarrow> vdisk res" where
  "intr_loop lay 0 s = (if used_idx s = ua_idx (used s) then Inr s else Inl Hang)"
| "intr_loop lay (Suc fuel) s =
     (if used_idx s = ua_idx (used s) then Inr s else bindr (intr_one lay s) (intr_loop lay fuel))"

text \<open>Each round advances the 16-bit index by one, so the distance to the device's index is enough fuel.\<close>

definition virtio_disk_intr :: "vlayout \<Rightarrow> vdisk \<Rightarrow> vdisk res" where
  "virtio_disk_intr lay s =
     bindr (take_vlock s) (\<lambda>s.
     let s = s\<lparr>intr_status := intr_status s AND NOT (intr_status s AND 3)\<rparr>
     in bindr (intr_loop lay (unat (ua_idx (used s) - used_idx s)) s) (\<lambda>s.
        bindr (lock_drop 0 (vdisk_lock s)) (\<lambda>l. Inr (s\<lparr>vdisk_lock := l\<rparr>))))"

end
