(* ===== verification/Traps.thy ===== *)
theory Traps
  imports Exec Virtio
begin

text \<open>
  \<^verbatim>\<open>kernel/trap/trap_kernel.c\<close>, \<^verbatim>\<open>kernel/trap/trap_user.c\<close> and \<^verbatim>\<open>kernel/dev/plic.c\<close>: what the kernel does on a trap.  The
  state of the machine holds the kernel state with the console (\<open>sy\<close>), the disk driver, the serial line, the
  interrupt controller and the control registers the handlers use.  Of \<^verbatim>\<open>sstatus\<close> the bit SPP is \<open>spp\<close>; the bit
  SIE is \<open>sie\<close> of the hart.  Addresses of code are in a \<open>tcode\<close>.  The assembly around the handlers (\<^verbatim>\<open>trap.S\<close>,
  \<^verbatim>\<open>trampoline.S\<close>) saves and restores the registers; the jump to it is recorded in \<open>leave\<close>.
\<close>

section \<open>The interrupt controller\<close>

abbreviation UART_IRQ :: u32 where "UART_IRQ \<equiv> 10"
abbreviation VIRTIO_IRQ :: u32 where "VIRTIO_IRQ \<equiv> 1"

definition PLIC_PRIORITY :: "u32 \<Rightarrow> u64" where
  "PLIC_PRIORITY n = 0x0c000000 + ucast n * 4"

definition PLIC_SENABLE :: "nat \<Rightarrow> u64" where
  "PLIC_SENABLE hartid = 0x0c000000 + 0x2080 + of_nat hartid * 0x100"

definition PLIC_SPRIORITY :: "nat \<Rightarrow> u64" where
  "PLIC_SPRIORITY hartid = 0x0c000000 + 0x201000 + of_nat hartid * 0x2000"

text \<open>The registers the kernel writes; the interrupts that are pending, in the order in which reading the claim register
  gives them, those claimed and not yet completed, and those completed.\<close>

record plic =
  p_regs :: "u64 \<Rightarrow> u32"
  p_pending :: "u32 list"
  p_claimed :: "u32 list"
  p_done :: "u32 list"

definition plic_init :: "plic \<Rightarrow> plic" where
  "plic_init c = c\<lparr>p_regs := (p_regs c)(PLIC_PRIORITY UART_IRQ := 1, PLIC_PRIORITY VIRTIO_IRQ := 1)\<rparr>"

definition plic_inithart :: "nat \<Rightarrow> plic \<Rightarrow> plic" where
  "plic_inithart hartid c =
     c\<lparr>p_regs := (p_regs c)(PLIC_SENABLE hartid := push_bit 10 1 OR push_bit 1 1, PLIC_SPRIORITY hartid := 0)\<rparr>"

definition plic_claim :: "plic \<Rightarrow> u32 \<times> plic" where
  "plic_claim c = (case p_pending c of
       [] \<Rightarrow> (0, c)
     | irq # rest \<Rightarrow> (irq, c\<lparr>p_pending := rest, p_claimed := irq # p_claimed c\<rparr>))"

definition plic_complete :: "u32 \<Rightarrow> plic \<Rightarrow> plic" where
  "plic_complete irq c = c\<lparr>p_claimed := remove1 irq (p_claimed c), p_done := p_done c @ [irq]\<rparr>"

section \<open>The machine\<close>

record tstate =
  sy :: sys
  vd :: vdisk
  ser :: uart
  plc :: plic
  spp :: bool
  scause :: u64
  sepc :: u64
  stval :: u64
  stvec :: u64
  satp :: u64
  sip :: u64
  tp :: u64
  leave :: "(u64 \<times> u64 \<times> u64) option"

record tcode =
  t_env :: env
  t_lay :: vlayout
  kernel_vector :: u64
  user_vector :: u64
  user_return :: u64
  trap_user_handler_pc :: u64

definition interrupt_info :: "string list" where
  "interrupt_info = [''U-mode software interrupt'', ''S-mode software interrupt'', ''reserved-1'', ''M-mode software interrupt'',
     ''U-mode timer interrupt'', ''S-mode timer interrupt'', ''reserved-2'', ''M-mode timer interrupt'',
     ''U-mode external interrupt'', ''S-mode external interrupt'', ''reserved-3'', ''M-mode external interrupt'',
     ''reserved-4'', ''reserved-5'', ''reserved-6'', ''reserved-7'']"

definition exception_info :: "string list" where
  "exception_info = [''Instruction address misaligned'', ''Instruction access fault'', ''Illegal instruction'', ''Breakpoint'',
     ''Load address misaligned'', ''Load access fault'', ''Store/AMO address misaligned'', ''Store/AMO access fault'',
     ''Environment call from U-mode'', ''Environment call from S-mode'', ''reserved-1'', ''Environment call from M-mode'',
     ''Instruction page fault'', ''Load page fault'', ''reserved-2'', ''Store/AMO page fault'']"

definition set_ker :: "kernel \<Rightarrow> tstate \<Rightarrow> tstate" where
  "set_ker k s = s\<lparr>sy := (sy s)\<lparr>ker := k\<rparr>\<rparr>"

definition say :: "byte list \<Rightarrow> arg list \<Rightarrow> tstate \<Rightarrow> tstate res" where
  "say fmt args s = bindr (printf fmt args) (\<lambda>out. Inr (s\<lparr>sy := (sy s)\<lparr>con := con (sy s) @ out\<rparr>\<rparr>))"

section \<open>Traps from the kernel\<close>

definition trap_kernel_init :: "tstate \<Rightarrow> tstate" where
  "trap_kernel_init s = set_ker (timer_create (ker (sy s))) s"

definition trap_kernel_inithart :: "tcode \<Rightarrow> tstate \<Rightarrow> tstate" where
  "trap_kernel_inithart tc s = s\<lparr>stvec := kernel_vector tc\<rparr>"

definition external_interrupt_handler :: "tcode \<Rightarrow> tstate \<Rightarrow> tstate res" where
  "external_interrupt_handler tc s =
     (let (irq, c) = plic_claim (plc s); s = s\<lparr>plc := c\<rparr>
      in bindr (if irq = UART_IRQ then Inr (s\<lparr>ser := uart_intr (ser s)\<rparr>)
                else if irq = VIRTIO_IRQ then bindr (virtio_disk_intr (t_lay tc) (vd s)) (\<lambda>v. Inr (s\<lparr>vd := v\<rparr>))
                else if irq \<noteq> 0 then say (chars ''[EXT_INTR] Unknown IRQ: %d'' @ [newline]) [ArgInt irq] s
                else Inr s) (\<lambda>s.
         Inr (if irq \<noteq> 0 then s\<lparr>plc := plic_complete irq (plc s)\<rparr> else s)))"

definition timer_interrupt_handler :: "tstate \<Rightarrow> tstate res" where
  "timer_interrupt_handler s =
     (let s = s\<lparr>sip := sip s AND NOT 2\<rparr>
      in bindr (timer_update (ker (sy s))) (\<lambda>k. Inr (set_ker k s)))"

definition trap_kernel_handler :: "tcode \<Rightarrow> tstate \<Rightarrow> tstate res" where
  "trap_kernel_handler tc s =
     bindr (assert_that (spp s) ''trap_kernel_handler: not from s-mode'') (\<lambda>_.
     bindr (assert_that (\<not> sie (cpu (ker (sy s)))) ''trap_kernel_handler: interreput enabled'') (\<lambda>_.
     let trap_id = unat (scause s AND 0xf)
     in if scause s AND push_bit 63 1 \<noteq> 0
        then (if trap_id = 1 then timer_interrupt_handler s
              else if trap_id = 5 then say (chars ''S-mode timer interrupt'' @ [newline]) [] s
              else if trap_id = 9 then external_interrupt_handler tc s
              else say (chars ''Unknown interrupt: %s'' @ [newline]) [ArgStr (Some (chars (interrupt_info ! trap_id)))] s)
        else bindr (say (chars ''Exception in kernel at sepc=0x%lx: %s'' @ [newline])
                      [ArgPtr (sepc s), ArgStr (Some (chars (exception_info ! trap_id)))] s) (\<lambda>s.
             bindr (say (chars ''  stval = 0x%lx'' @ [newline]) [ArgPtr (stval s)] s) (\<lambda>s.
             Inl (Panic ''Unhandled exception in kernel mode'')))))"

section \<open>Traps from user programs\<close>

abbreviation TF_KERNEL_SATP :: u64 where "TF_KERNEL_SATP \<equiv> 0"
abbreviation TF_KERNEL_SP :: u64 where "TF_KERNEL_SP \<equiv> 8"
abbreviation TF_KERNEL_TRAP :: u64 where "TF_KERNEL_TRAP \<equiv> 16"
abbreviation TF_KERNEL_HARTID :: u64 where "TF_KERNEL_HARTID \<equiv> 32"

definition set_sie :: "bool \<Rightarrow> tstate \<Rightarrow> tstate" where
  "set_sie b s = set_ker ((ker (sy s))\<lparr>cpu := (cpu (ker (sy s)))\<lparr>sie := b\<rparr>\<rparr>) s"

definition trap_user_return :: "tcode \<Rightarrow> nat \<Rightarrow> tstate \<Rightarrow> tstate" where
  "trap_user_return tc i s =
     (let s = set_sie False s;
          tramp = trampoline (img (t_env tc));
          s = s\<lparr>stvec := TRAMPOLINE + (user_vector tc - tramp)\<rparr>;
          k = tf_set i TF_KERNEL_SATP (satp s) (ker (sy s));
          k = tf_set i TF_KERNEL_SP (kstack (proc_at k i) + PGSIZE) k;
          k = tf_set i TF_KERNEL_TRAP (trap_user_handler_pc tc) k;
          k = tf_set i TF_KERNEL_HARTID (tp s) k
      in (set_ker k s)\<lparr>sepc := tf_get i TF_EPC k,
           leave := Some (user_return tc - tramp + TRAMPOLINE, TRAPFRAME, MAKE_SATP (pgtbl (proc_at k i)))\<rparr>)"

text \<open>When the system call gives up the hart the handler goes on when the process is resumed.\<close>

definition trap_user_handler :: "tcode \<Rightarrow> tstate \<Rightarrow> tstate res" where
  "trap_user_handler tc s =
     (case cur (ker (sy s)) of
        None \<Rightarrow> Inl Undefined
      | Some i \<Rightarrow>
          let s = set_ker (tf_set i TF_EPC (sepc s) (ker (sy s))) s
          in bindr (assert_that (\<not> spp s) ''trap_user_handler: not from u-mode'') (\<lambda>_.
             if scause s AND push_bit 63 1 \<noteq> 0 then Inr (trap_user_return tc i s)
             else let cause = unat (scause s AND 0xff)
               in if cause = 8
                  then bindr (say (chars ''[User Trap] System call from user mode %p scause:%p,stval:%p'' @ [newline])
                               [ArgPtr (tf_get i TF_EPC (ker (sy s))), ArgPtr (scause s), ArgPtr (stval s)] s) (\<lambda>s.
                       let s = set_ker (tf_set i TF_EPC (tf_get i TF_EPC (ker (sy s)) + 4) (ker (sy s))) s;
                           s = set_sie True s
                       in bindr (syscall (t_env tc) i (sy s)) (\<lambda>(r, y).
                          let s = s\<lparr>sy := y\<rparr>
                          in case r of Ret v \<Rightarrow> Inr (trap_user_return tc i s) | Blocked \<Rightarrow> Inr s))
                  else if length exception_info \<le> cause then Inl Undefined
                  else bindr (say (chars ''[User Trap] Exception: %s'' @ [newline]) [ArgStr (Some (chars (exception_info ! cause)))] s) (\<lambda>s.
                       bindr (say (chars ''  sepc = %p, scause = %p,stval = %p'' @ [newline])
                               [ArgPtr (tf_get i TF_EPC (ker (sy s))), ArgPtr (scause s), ArgPtr (stval s)] s) (\<lambda>s.
                       Inl (Panic ''trap_user_handler: unhandled exception'')))))"

end
