(* ===== verification/Ring_Queues.thy ===== *)
theory Ring_Queues
  imports Kernel_Prelude
begin

text \<open>
  Shared by the disk driver: regions of byte memory that do not overlap, and queues kept in an array of eight
  slots between two free-running 16-bit indices.
\<close>

section \<open>Regions\<close>

text \<open>The \<open>n\<close> bytes at \<open>a\<close> and the \<open>m\<close> bytes at \<open>b\<close> have no byte in common, also when one of them wraps around.\<close>

definition apart :: "u64 \<Rightarrow> nat \<Rightarrow> u64 \<Rightarrow> nat \<Rightarrow> bool" where
  "apart a n b m \<longleftrightarrow> n \<le> unat (b - a) \<and> m \<le> unat (a - b)"

lemma apart_sym: "apart a n b m \<longleftrightarrow> apart b m a n"
  by (auto simp: apart_def)

lemma unat_diff_sum:
  fixes a b :: u64
  assumes "a \<noteq> b"
  shows "unat (b - a) + unat (a - b) = 2 ^ 64"
proof -
  have z: "unat ((b - a) + (a - b)) = 0" by simp
  have "unat (b - a) \<noteq> 0" using assms by (simp add: unat_eq_0)
  moreover have "unat ((b - a) + (a - b)) =
      (if unat (b - a) + unat (a - b) < 2 ^ LENGTH(64) then unat (b - a) + unat (a - b)
       else unat (b - a) + unat (a - b) - 2 ^ LENGTH(64))" by (rule unat_plus_if')
  ultimately show ?thesis using z by (simp split: if_splits)
qed

lemma apart_outside:
  assumes "apart a n b m" and "i < m"
  shows "n \<le> unat (b + of_nat i - a)"
proof (cases "a = b")
  case True
  with assms show ?thesis by (simp add: apart_def)
next
  case False
  have sum: "unat (b - a) + i < 2 ^ 64"
    using unat_diff_sum [OF False] assms by (simp add: apart_def)
  then have i: "unat (of_nat i :: u64) = i" by (intro unat_of_nat64) simp
  have "unat (b - a) + unat (of_nat i :: u64) < 2 ^ LENGTH(64)" using sum i by simp
  from iffD1 [OF unat_add_lem this] have "unat (b - a + of_nat i) = unat (b - a) + i" by (simp only: i)
  moreover have "b + of_nat i - a = b - a + of_nat i" by simp
  ultimately have "unat (b + of_nat i - a) = unat (b - a) + i" by (simp only:)
  moreover have "n \<le> unat (b - a)" using assms(1) by (simp add: apart_def)
  ultimately show ?thesis by (simp only: trans_le_add1)
qed

lemma load_store_apart:
  assumes "apart a (length bs) b n" and "length bs \<le> 2 ^ 64"
  shows "load_bytes (store_bytes m a bs) b n = load_bytes m b n"
proof (rule nth_equalityI)
  fix i assume "i < length (load_bytes (store_bytes m a bs) b n)"
  then have i: "i < n" by simp
  then have "\<not> unat (b + of_nat i - a) < length bs" using apart_outside [OF assms(1) i] by (simp only: not_less)
  with i show "load_bytes (store_bytes m a bs) b n ! i = load_bytes m b n ! i"
    by (simp only: nth_load_bytes store_bytes_apply [OF assms(2)] if_False)
qed simp

lemma load_upd_apart:
  assumes "apart a 1 b n"
  shows "load_bytes (m(a := v)) b n = load_bytes m b n"
  using load_store_apart [of a "[v]" b n m] assms by simp

lemma store_bytes_apart_at:
  assumes "apart a (length bs) b 1" and "length bs \<le> 2 ^ 64"
  shows "store_bytes m a bs b = m b"
  using apart_outside [OF assms(1), of 0] assms(2) by (simp add: store_bytes_apply not_less)

section \<open>Queues between two indices\<close>

lemma unat_mod8: "unat ((a + of_nat k) mod 8 :: u16) = (unat a + k) mod 8"
proof -
  have "unat (a + of_nat k) = (unat a + k) mod 65536"
    by (simp add: unat_word_ariths unat_of_nat mod_simps take_bit_eq_mod)
  moreover have "(unat a + k) mod 65536 mod 8 = (unat a + k) mod 8"
    by (rule mod_mod_cancel) simp
  ultimately show ?thesis by (simp add: unat_mod)
qed

lemma mod8_ne:
  assumes "k < n" and "n < 8"
  shows "(x + k) mod 8 \<noteq> (x + n) mod (8 :: nat)"
proof
  assume "(x + k) mod 8 = (x + n) mod 8"
  then have "8 dvd (x + n) - (x + k)" using assms(1) by (metis mod_eq_dvd_iff_nat nat_add_left_cancel_le less_imp_le)
  then have "8 dvd n - k" by simp
  then show False using assms by (auto dest: dvd_imp_le)
qed

definition ring :: "(nat \<Rightarrow> 'a) \<Rightarrow> u16 \<Rightarrow> u16 \<Rightarrow> 'a list" where
  "ring get fro til = map (\<lambda>k. get (unat ((fro + of_nat k) mod 8))) [0..<unat (til - fro)]"

lemma ring_empty [simp]: "ring g a a = []"
  by (simp add: ring_def)

lemma length_ring [simp]: "length (ring g a b) = unat (b - a)"
  by (simp add: ring_def)

lemma ring_Nil [simp]: "ring g a b = [] \<longleftrightarrow> a = b"
  by (metis length_0_conv length_ring unat_eq_0 right_minus_eq)

lemma unat_pred16: "a \<noteq> b \<Longrightarrow> unat (b - a :: u16) = Suc (unat (b - (a + 1)))"
proof -
  assume "a \<noteq> b"
  then have n: "b - a \<noteq> 0" by simp
  have "unat (b - a - 1) = unat (b - a) - 1" by (rule unat_minus_one [OF n])
  moreover have "b - a - 1 = b - (a + 1)" by simp
  moreover have "unat (b - a) \<noteq> 0" using n by (simp add: unat_eq_0)
  ultimately show ?thesis by simp
qed

lemma ring_pop: "a \<noteq> b \<Longrightarrow> ring g a b = g (unat (a mod 8)) # ring g (a + 1) b"
proof -
  assume "a \<noteq> b"
  then have "[0..<unat (b - a)] = 0 # map Suc [0..<unat (b - (a + 1))]"
    by (simp add: unat_pred16 upt_conv_Cons map_Suc_upt del: upt_Suc)
  then show ?thesis by (simp add: ring_def ac_simps del: upt_Suc)
qed

lemma ring_push:
  assumes "unat (b - a) < 8"
  shows "ring (g(unat (b mod 8) := x)) a (b + 1) = ring g a b @ [x]"
proof -
  let ?n = "unat (b - a)"
  have n: "unat (b + 1 - a) = Suc ?n"
  proof -
    have "unat (b - a) + unat (1 :: u16) < 2 ^ LENGTH(16)" using assms by simp
    from iffD1 [OF unat_add_lem this] have "unat (b - a + 1) = Suc ?n" by simp
    moreover have "b - a + 1 = b + 1 - a" by simp
    ultimately show ?thesis by (simp only:)
  qed
  have b: "b = a + of_nat ?n" by simp
  have bn: "unat (b mod 8) = (unat a + ?n) mod 8" using unat_mod8 [of a ?n] b by simp
  have ne: "unat ((a + of_nat k) mod 8) \<noteq> unat (b mod 8)" if "k < ?n" for k
  proof -
    have "(unat a + k) mod 8 \<noteq> (unat a + ?n) mod 8"
      using that assms by (rule mod8_ne)
    then show ?thesis by (simp only: unat_mod8 bn not_False_eq_True)
  qed
  have "map (\<lambda>k. (g(unat (b mod 8) := x)) (unat ((a + of_nat k) mod 8))) [0..<?n] = ring g a b"
    using ne by (simp add: ring_def)
  moreover have "(g(unat (b mod 8) := x)) (unat ((a + of_nat ?n) mod 8)) = x"
    using b by simp
  ultimately show ?thesis by (simp add: ring_def n)
qed

lemma ring_cong: "(\<And>i. i < 8 \<Longrightarrow> f i = g i) \<Longrightarrow> ring f a b = ring g a b"
proof -
  assume eq: "\<And>i. i < 8 \<Longrightarrow> f i = g i"
  have "unat ((a + of_nat k) mod 8) < 8" for k by (simp add: unat_mod8)
  then show ?thesis by (simp add: ring_def eq)
qed

lemma short_queue:
  assumes "distinct xs" "set xs \<subseteq> {..<8} - {h}" "h < (8 :: nat)"
  shows "length xs < 8"
proof -
  have "card (set xs) \<le> card ({..<8} - {h})" by (rule card_mono) (use assms in auto)
  moreover have "card ({..<8} - {h}) = 7" using assms(3) by simp
  ultimately show ?thesis using distinct_card [OF assms(1)] by simp
qed

end
