(* ===== verification/Disk_System.thy ===== *)
theory Disk_System
  imports Virtio Ring_Queues
begin

text \<open>
  The disk driver with the processes that call it and the device: what the device does with a request, the
  transition system of all of them, the specification it refines and its invariant; and the allocation of
  descriptors.
\<close>

section \<open>The device\<close>

text \<open>
  What the virtio specification says of a block device on the legacy interface.  \<open>sectors\<close> is the medium.  The
  device takes the next chain from the available ring when it likes (\<open>dv_taken\<close> counts them) and completes the
  chains it works on (\<open>dv_work\<close>) in any order: it reads the header, moves the data, writes the status 0 and
  puts the chain in the used ring.
\<close>

record vdev =
  sectors :: "u64 \<Rightarrow> byte list"
  dv_taken :: u16
  dv_work :: "nat list"

definition read_sectors :: "(u64 \<Rightarrow> byte list) \<Rightarrow> u64 \<Rightarrow> nat \<Rightarrow> byte list" where
  "read_sectors f sec n = concat (map (\<lambda>k. f (sec + of_nat k)) [0..<n])"

definition write_sectors :: "(u64 \<Rightarrow> byte list) \<Rightarrow> u64 \<Rightarrow> byte list \<Rightarrow> u64 \<Rightarrow> byte list" where
  "write_sectors f sec bs x = (if unat (x - sec) < length bs div 512 then slice (512 * unat (x - sec)) 512 bs else f x)"

definition dev_take :: "vdisk \<times> vdev \<Rightarrow> vdisk \<times> vdev" where
  "dev_take = (\<lambda>(s, d). (s, d\<lparr>dv_taken := dv_taken d + 1,
     dv_work := dv_work d @ [unat (avail s ! (2 + unat (dv_taken d mod 8)))]\<rparr>))"

definition dev_complete :: "nat \<Rightarrow> u32 \<Rightarrow> vdisk \<times> vdev \<Rightarrow> vdisk \<times> vdev" where
  "dev_complete h len = (\<lambda>(s, d).
     let d0 = desc s ! h; d1 = desc s ! unat (d_next d0); d2 = desc s ! unat (d_next d1);
         typ = (le_word (load_bytes (dma s) (d_addr d0) 4) :: u32);
         sec = (le_word (load_bytes (dma s) (d_addr d0 + 8) 8) :: u64);
         n = unat (d_len d1);
         m = (if typ = VIRTIO_BLK_T_IN then store_bytes (dma s) (d_addr d1) (read_sectors (sectors d) sec (n div 512)) else dma s);
         f = (if typ = VIRTIO_BLK_T_OUT then write_sectors (sectors d) sec (load_bytes (dma s) (d_addr d1) n) else sectors d);
         u = used s
     in (s\<lparr>dma := m(d_addr d2 := 0),
           used := u\<lparr>ua_elems := (ua_elems u)[unat (ua_idx u mod 8) := \<lparr>ue_id = of_nat h, ue_len = len\<rparr>], ua_idx := ua_idx u + 1\<rparr>,
           intr_status := intr_status s OR 1\<rparr>,
         d\<lparr>sectors := f, dv_work := remove1 h (dv_work d)\<rparr>))"

definition virtio_blk :: "(vdisk \<times> vdev \<Rightarrow> vdisk \<times> vdev \<Rightarrow> bool) \<Rightarrow> bool" where
  "virtio_blk dev \<longleftrightarrow> (\<forall>s d y. dev (s, d) y \<longrightarrow>
     (avail s ! 1 \<noteq> dv_taken d \<and> y = dev_take (s, d)) \<or>
     (\<exists>h len. h \<in> set (dv_work d) \<and> y = dev_complete h len (s, d)))"

section \<open>The system\<close>

primrec frame_buf :: "frame \<Rightarrow> nat option" where
  "frame_buf Outside = None"
| "frame_buf (WaitDesc b wr) = Some b"
| "frame_buf (WaitData b wr idx) = Some b"

definition unused_buf :: "vdisk \<Rightarrow> nat \<Rightarrow> bool" where
  "unused_buf s b \<longleftrightarrow> (\<forall>p. frame_buf (frames s p) \<noteq> Some b)"

text \<open>
  A process calls the driver for a buffer whose lock it holds, so no other call is on that buffer; it goes on
  when it was woken; the interrupt may come at any time, and the device moves by itself.  While no call is on a
  buffer its holder changes the block number and the data.
\<close>

inductive vstep :: "vlayout \<Rightarrow> (vdisk \<times> vdev \<Rightarrow> vdisk \<times> vdev \<Rightarrow> bool) \<Rightarrow> vdisk \<times> vdev \<Rightarrow> vdisk \<times> vdev \<Rightarrow> bool"
  for lay dev where
  v_call: "frames s p = Outside \<Longrightarrow> p < NPROC \<Longrightarrow> b < N_BLOCK_BUF \<Longrightarrow> unused_buf s b \<Longrightarrow> unat (bnum s b) < 2 ^ 31 \<Longrightarrow>
     virtio_disk_rw lay p b wr s = Inr t \<Longrightarrow> vstep lay dev (s, d) (t, d)"
| v_resume: "frames s p \<noteq> Outside \<Longrightarrow> sleeping s p = None \<Longrightarrow> rw_resume lay p s = Inr t \<Longrightarrow> vstep lay dev (s, d) (t, d)"
| v_intr: "virtio_disk_intr lay s = Inr t \<Longrightarrow> vstep lay dev (s, d) (t, d)"
| v_device: "dev (s, d) y \<Longrightarrow> vstep lay dev (s, d) y"
| v_edit: "b < N_BLOCK_BUF \<Longrightarrow> unused_buf s b \<Longrightarrow> length bs = BLOCK_SIZE \<Longrightarrow>
     vstep lay dev (s, d) (s\<lparr>bnum := (bnum s)(b := n), dma := store_bytes (dma s) (data_addr lay b) bs\<rparr>, d)"

text \<open>The start: \<^verbatim>\<open>virtio_disk_init\<close> has run, nobody is in the driver, the device has seen nothing.\<close>

definition vstart :: "vlayout \<Rightarrow> vdisk \<times> vdev \<Rightarrow> bool" where
  "vstart lay = (\<lambda>(s, d). (\<exists>r w z. virtio_disk_init lay r z = Inr (w, s) \<and> used_idx z = 0 \<and> length (info_b z) = NUM \<and>
       (\<forall>p. frames z p = Outside \<and> sleeping z p = None) \<and> (\<forall>b. \<not> disk_flag z b)) \<and>
     dv_taken d = 0 \<and> dv_work d = [] \<and> (\<forall>x. length (sectors d x) = 512))"

text \<open>The addresses: the stacks are mapped, and headers, data and status bytes do not overlap.\<close>

definition hdr_pa :: "vlayout \<Rightarrow> nat \<Rightarrow> u64" where
  "hdr_pa lay p = (case kernel_pa lay (hdr_va lay p) of Inr a \<Rightarrow> a | Inl _ \<Rightarrow> 0)"

definition layout_ok :: "vlayout \<Rightarrow> bool" where
  "layout_ok lay \<longleftrightarrow>
     (\<forall>p < NPROC. kernel_pa lay (hdr_va lay p) = Inr (hdr_pa lay p)) \<and>
     (\<forall>p < NPROC. \<forall>q < NPROC. p \<noteq> q \<longrightarrow> apart (hdr_pa lay p) 16 (hdr_pa lay q) 16) \<and>
     (\<forall>p < NPROC. \<forall>b < N_BLOCK_BUF. apart (hdr_pa lay p) 16 (data_addr lay b) BLOCK_SIZE) \<and>
     (\<forall>p < NPROC. \<forall>i < NUM. apart (hdr_pa lay p) 16 (status_addr lay i) 1) \<and>
     (\<forall>b < N_BLOCK_BUF. \<forall>c < N_BLOCK_BUF. b \<noteq> c \<longrightarrow> apart (data_addr lay b) BLOCK_SIZE (data_addr lay c) BLOCK_SIZE) \<and>
     (\<forall>b < N_BLOCK_BUF. \<forall>i < NUM. apart (data_addr lay b) BLOCK_SIZE (status_addr lay i) 1)"

section \<open>The specification\<close>

text \<open>A disk of blocks, the buffers, and the calls: a call is requested, performed in one step, and returns.\<close>

datatype acall = Idle | Requested nat bool | Performed nat bool

record aspec =
  ablocks :: "u32 \<Rightarrow> byte list"
  abuf :: "nat \<Rightarrow> byte list"
  anum :: "nat \<Rightarrow> u32"
  acalls :: "nat \<Rightarrow> acall"

definition transfer :: "nat \<Rightarrow> bool \<Rightarrow> aspec \<Rightarrow> aspec" where
  "transfer b wr a =
     (if wr then a\<lparr>ablocks := (ablocks a)(anum a b := abuf a b)\<rparr> else a\<lparr>abuf := (abuf a)(b := ablocks a (anum a b))\<rparr>)"

inductive astep :: "aspec \<Rightarrow> aspec \<Rightarrow> bool" where
  a_request: "acalls a p = Idle \<Longrightarrow> astep a (a\<lparr>acalls := (acalls a)(p := Requested b wr)\<rparr>)"
| a_perform: "acalls a p = Requested b wr \<Longrightarrow>
     astep a (transfer b wr (a\<lparr>acalls := (acalls a)(p := Performed b wr)\<rparr>))"
| a_return: "acalls a p = Performed b wr \<Longrightarrow> astep a (a\<lparr>acalls := (acalls a)(p := Idle)\<rparr>)"
| a_edit: "\<forall>p wr. acalls a p \<noteq> Requested b wr \<and> acalls a p \<noteq> Performed b wr \<Longrightarrow>
     astep a (a\<lparr>abuf := (abuf a)(b := bs), anum := (anum a)(b := n)\<rparr>)"

text \<open>The chains that wait in the available ring, and those in the used ring that the driver has not seen.\<close>

definition pend :: "vdisk \<Rightarrow> vdev \<Rightarrow> nat list" where
  "pend s d = ring (\<lambda>i. unat (avail s ! (2 + i))) (dv_taken d) (avail s ! 1)"

definition unseen :: "vdisk \<Rightarrow> nat list" where
  "unseen s = ring (\<lambda>i. unat (ue_id (ua_elems (used s) ! i))) (used_idx s) (ua_idx (used s))"

definition acall_of :: "nat list \<Rightarrow> frame \<Rightarrow> acall" where
  "acall_of todo k = (case k of
       Outside \<Rightarrow> Idle
     | WaitDesc b wr \<Rightarrow> Requested b wr
     | WaitData b wr idx \<Rightarrow> if idx ! 0 \<in> set todo then Requested b wr else Performed b wr)"

definition disk_abs :: "vlayout \<Rightarrow> vdisk \<times> vdev \<Rightarrow> aspec" where
  "disk_abs lay = (\<lambda>(s, d).
     \<lparr>ablocks = (\<lambda>n. if unat n < 2 ^ 31 then read_sectors (sectors d) (sector_of n) 2 else []),
      abuf = (\<lambda>b. if b < N_BLOCK_BUF then load_bytes (dma s) (data_addr lay b) BLOCK_SIZE else []),
      anum = bnum s,
      acalls = (\<lambda>p. acall_of (pend s d @ dv_work d) (frames s p))\<rparr>)"

section \<open>The invariant\<close>

text \<open>A request as the driver has laid it out for the device.\<close>

definition request_ok :: "vlayout \<Rightarrow> vdisk \<Rightarrow> nat \<Rightarrow> nat \<Rightarrow> bool \<Rightarrow> nat list \<Rightarrow> bool" where
  "request_ok lay s p b wr idx \<longleftrightarrow>
     length idx = 3 \<and> distinct idx \<and> set idx \<subseteq> {..<NUM} \<and>
     desc s ! (idx ! 0) = \<lparr>d_addr = hdr_pa lay p, d_len = 16, d_flags = VRING_DESC_F_NEXT, d_next = of_nat (idx ! 1)\<rparr> \<and>
     desc s ! (idx ! 1) = \<lparr>d_addr = data_addr lay b, d_len = of_nat BLOCK_SIZE,
       d_flags = (if wr then 0 else VRING_DESC_F_WRITE) OR VRING_DESC_F_NEXT, d_next = of_nat (idx ! 2)\<rparr> \<and>
     desc s ! (idx ! 2) = \<lparr>d_addr = status_addr lay (idx ! 0), d_len = 1, d_flags = VRING_DESC_F_WRITE, d_next = 0\<rparr> \<and>
     info_b s ! (idx ! 0) = Some b \<and>
     load_bytes (dma s) (hdr_pa lay p) 16 = outhdr wr (sector_of (bnum s b)) \<and>
     dma s (status_addr lay (idx ! 0)) = 0"

definition shape_ok :: "vdisk \<Rightarrow> vdev \<Rightarrow> bool" where
  "shape_ok s d \<longleftrightarrow> length (desc s) = NUM \<and> length (avail s) = 2 + NUM \<and> length (ua_elems (used s)) = NUM \<and>
     length (vfree s) = NUM \<and> length (info_b s) = NUM \<and> (\<forall>x. length (sectors d x) = 512)"

definition frames_ok :: "vlayout \<Rightarrow> vdisk \<Rightarrow> bool" where
  "frames_ok lay s \<longleftrightarrow>
     (\<forall>p b. frame_buf (frames s p) = Some b \<longrightarrow> p < NPROC \<and> b < N_BLOCK_BUF \<and> unat (bnum s b) < 2 ^ 31) \<and>
     (\<forall>p q b. frame_buf (frames s p) = Some b \<longrightarrow> frame_buf (frames s q) = Some b \<longrightarrow> p = q) \<and>
     (\<forall>p b wr idx. frames s p = WaitData b wr idx \<longrightarrow> request_ok lay s p b wr idx) \<and>
     (\<forall>b. disk_flag s b \<longrightarrow> (\<exists>p wr idx. frames s p = WaitData b wr idx))"

text \<open>Every descriptor is free or part of exactly one request.\<close>

definition owners_ok :: "vdisk \<Rightarrow> bool" where
  "owners_ok s \<longleftrightarrow>
     (\<forall>i < NUM. vfree s ! i \<longleftrightarrow> (\<forall>p b wr idx. frames s p = WaitData b wr idx \<longrightarrow> i \<notin> set idx)) \<and>
     (\<forall>p q b wr idx b' wr' idx'. frames s p = WaitData b wr idx \<longrightarrow> frames s q = WaitData b' wr' idx' \<longrightarrow> p \<noteq> q \<longrightarrow>
        set idx \<inter> set idx' = {})"

text \<open>The requests the device still has, or has completed unseen, are each in one queue once.\<close>

definition heads :: "vdisk \<Rightarrow> nat set" where
  "heads s = {idx ! 0 | p b wr idx. frames s p = WaitData b wr idx \<and> disk_flag s b}"

lemma headsI: "frames s p = WaitData b wr idx \<Longrightarrow> disk_flag s b \<Longrightarrow> idx ! 0 \<in> heads s"
  unfolding heads_def by blast

lemma headsE:
  assumes "h \<in> heads s"
  obtains p b wr idx where "frames s p = WaitData b wr idx" "disk_flag s b" "h = idx ! 0"
  using assms unfolding heads_def by blast

definition queue_ok :: "vdisk \<Rightarrow> vdev \<Rightarrow> bool" where
  "queue_ok s d \<longleftrightarrow> distinct (pend s d @ dv_work d @ unseen s) \<and>
     set (pend s d @ dv_work d @ unseen s) = heads s"

text \<open>Who sleeps has a reason to.\<close>

definition free_set :: "vdisk \<Rightarrow> nat set" where
  "free_set s = {i. i < NUM \<and> vfree s ! i}"

definition sleep_why :: "vdisk \<Rightarrow> frame \<Rightarrow> chan \<Rightarrow> bool" where
  "sleep_why s k c \<longleftrightarrow> (case k of
       Outside \<Rightarrow> False
     | WaitDesc b wr \<Rightarrow> c = ChanDesc \<and> card (free_set s) < 3
     | WaitData b wr idx \<Rightarrow> c = ChanBuf b \<and> disk_flag s b)"

lemma sleep_why_cong: "disk_flag u = disk_flag s \<Longrightarrow> free_set u = free_set s \<Longrightarrow> sleep_why u = sleep_why s"
  by (auto simp: fun_eq_iff sleep_why_def split: frame.splits)

definition sleep_ok :: "vdisk \<Rightarrow> bool" where
  "sleep_ok s \<longleftrightarrow> (\<forall>p c. sleeping s p = Some c \<longrightarrow> sleep_why s (frames s p) c)"

lemma sleepD: "sleep_ok s \<Longrightarrow> sleeping s p = Some c \<Longrightarrow> sleep_why s (frames s p) c"
  by (simp add: sleep_ok_def)

definition vinv :: "vlayout \<Rightarrow> vdisk \<times> vdev \<Rightarrow> bool" where
  "vinv lay = (\<lambda>(s, d). shape_ok s d \<and> frames_ok lay s \<and> owners_ok s \<and> queue_ok s d \<and> sleep_ok s)"

definition unlocked :: "vdisk \<times> vdev \<Rightarrow> bool" where
  "unlocked = (\<lambda>(s, d). \<not> locked (vdisk_lock s))"

section \<open>Descriptors\<close>

lemma alloc_desc_loop_Some:
  "alloc_desc_loop is s = (Some i, t) \<Longrightarrow> i \<in> set is \<and> vfree s ! i \<and> t = s\<lparr>vfree := (vfree s)[i := False]\<rparr>"
  by (induction "is") (auto split: if_splits)

lemma alloc_desc_loop_None: "alloc_desc_loop is s = (None, t) \<Longrightarrow> t = s \<and> (\<forall>i \<in> set is. \<not> vfree s ! i)"
  by (induction "is") (auto split: if_splits)

lemma alloc_desc_Some:
  assumes "alloc_desc s = (Some i, t)"
  shows "i < NUM" and "vfree s ! i" and "t = s\<lparr>vfree := (vfree s)[i := False]\<rparr>"
  using alloc_desc_loop_Some [OF assms [unfolded alloc_desc_def]] by (simp_all del: upt_Suc)

lemma alloc_desc_None:
  assumes "alloc_desc s = (None, t)"
  shows "t = s" and "\<forall>i < NUM. \<not> vfree s ! i"
  using alloc_desc_loop_None [OF assms [unfolded alloc_desc_def]] by (simp_all del: upt_Suc)

definition ring_wf :: "vdisk \<Rightarrow> bool" where
  "ring_wf s \<longleftrightarrow> length (desc s) = NUM \<and> length (vfree s) = NUM"

definition desc_alloc :: "vdisk \<Rightarrow> (nat \<times> vdisk) option" where
  "desc_alloc s = (case alloc_desc s of (Some i, t) \<Rightarrow> Some (i, t) | (None, t) \<Rightarrow> None)"

definition desc_release :: "nat \<Rightarrow> vdisk \<Rightarrow> vdisk option" where
  "desc_release i s = (case free_desc i s of Inr t \<Rightarrow> Some t | Inl e \<Rightarrow> None)"

lemma finite_free_set [simp]: "finite (free_set s)"
  by (simp add: free_set_def)

text \<open>The descriptors are an allocator like the page and block allocators.\<close>

interpretation descs: alloc_pool ring_wf "\<lambda>_. {..<NUM}" free_set desc_alloc desc_release
proof (unfold_locales, goal_cases)
  case (1 s)
  then show ?case by (auto simp: free_set_def)
next
  case (2 s)
  then show ?case by simp
next
  case (3 s x t)
  then have a: "alloc_desc s = (Some x, t)" by (auto simp: desc_alloc_def split: prod.splits option.splits)
  show ?case using 3(1) alloc_desc_Some [OF a] by (auto simp: ring_wf_def free_set_def nth_list_update)
next
  case (4 s)
  then show ?case
    by (auto simp: desc_alloc_def free_set_def split: prod.splits option.splits dest: alloc_desc_None)
next
  case (5 s x)
  then show ?case
    by (auto simp: desc_release_def free_desc_def ring_wf_def free_set_def wake_chan_def nth_list_update)
qed

text \<open>\<open>released idx s t\<close>: \<open>t\<close> is \<open>s\<close> with the descriptors \<open>idx\<close> freed, the addresses of descriptors that are free
  now perhaps cleared, and the processes that waited for descriptors woken, if there was any to free.\<close>

definition released :: "nat list \<Rightarrow> vdisk \<Rightarrow> vdisk \<Rightarrow> bool" where
  "released idx s t \<longleftrightarrow> (\<exists>D V W. t = s\<lparr>desc := D, vfree := V, sleeping := W\<rparr> \<and> length D = NUM \<and> length V = NUM \<and>
     (\<forall>i < NUM. V ! i \<longleftrightarrow> vfree s ! i \<or> i \<in> set idx) \<and> (\<forall>i < NUM. \<not> V ! i \<longrightarrow> D ! i = desc s ! i) \<and>
     (\<forall>p. W p = sleeping s p \<or> sleeping s p = Some ChanDesc \<and> W p = None) \<and>
     (idx \<noteq> [] \<longrightarrow> (\<forall>p. W p \<noteq> Some ChanDesc)))"

lemma released_Nil: "ring_wf s \<Longrightarrow> released [] s s"
  unfolding released_def ring_wf_def
  by (rule exI [of _ "desc s"], rule exI [of _ "vfree s"], rule exI [of _ "sleeping s"]) simp

lemma released_wf: "released idx s t \<Longrightarrow> ring_wf t"
  by (auto simp: released_def ring_wf_def)

lemma released_trans:
  assumes "released xs s t" "released ys t u"
  shows "released (xs @ ys) s u"
proof -
  obtain D V W where t: "t = s\<lparr>desc := D, vfree := V, sleeping := W\<rparr>"
    "\<forall>i < NUM. V ! i \<longleftrightarrow> vfree s ! i \<or> i \<in> set xs" "\<forall>i < NUM. \<not> V ! i \<longrightarrow> D ! i = desc s ! i"
    "\<forall>p. W p = sleeping s p \<or> sleeping s p = Some ChanDesc \<and> W p = None" "xs \<noteq> [] \<longrightarrow> (\<forall>p. W p \<noteq> Some ChanDesc)"
    using assms(1) unfolding released_def by blast
  obtain D' V' W' where u: "u = t\<lparr>desc := D', vfree := V', sleeping := W'\<rparr>" "length D' = NUM" "length V' = NUM"
    "\<forall>i < NUM. V' ! i \<longleftrightarrow> vfree t ! i \<or> i \<in> set ys" "\<forall>i < NUM. \<not> V' ! i \<longrightarrow> D' ! i = desc t ! i"
    "\<forall>p. W' p = sleeping t p \<or> sleeping t p = Some ChanDesc \<and> W' p = None" "ys \<noteq> [] \<longrightarrow> (\<forall>p. W' p \<noteq> Some ChanDesc)"
    using assms(2) unfolding released_def by blast
  have "u = s\<lparr>desc := D', vfree := V', sleeping := W'\<rparr>" using t(1) u(1) by simp
  moreover have "\<forall>i < NUM. V' ! i \<longleftrightarrow> vfree s ! i \<or> i \<in> set (xs @ ys)" using u(4) t(1,2) by auto
  moreover have "\<forall>i < NUM. \<not> V' ! i \<longrightarrow> D' ! i = desc s ! i" using u(4,5) t(1,2,3) by simp
  moreover have "\<forall>p. W' p = sleeping s p \<or> sleeping s p = Some ChanDesc \<and> W' p = None"
  proof
    fix p show "W' p = sleeping s p \<or> sleeping s p = Some ChanDesc \<and> W' p = None"
      using u(6) [rule_format, of p] t(4) [rule_format, of p] t(1) by auto
  qed
  moreover have "xs @ ys \<noteq> [] \<longrightarrow> (\<forall>p. W' p \<noteq> Some ChanDesc)"
  proof (intro impI allI)
    fix p assume "xs @ ys \<noteq> []"
    then show "W' p \<noteq> Some ChanDesc" using u(6) [rule_format, of p] u(7) t(1,5) by (cases "ys = []") auto
  qed
  ultimately show ?thesis unfolding released_def using u(2,3) by blast
qed

lemma free_desc_released:
  assumes "ring_wf s" "i < NUM" "\<not> vfree s ! i"
  obtains t where "free_desc i s = Inr t" "released [i] s t"
proof -
  let ?D = "(desc s)[i := (desc s ! i)\<lparr>d_addr := 0\<rparr>]" and ?V = "(vfree s)[i := True]"
  let ?W = "\<lambda>p. if sleeping s p = Some ChanDesc then None else sleeping s p"
  have "free_desc i s = Inr (s\<lparr>desc := ?D, vfree := ?V, sleeping := ?W\<rparr>)"
    using assms by (simp add: free_desc_def wake_chan_def cong: if_cong)
  moreover have "released [i] s (s\<lparr>desc := ?D, vfree := ?V, sleeping := ?W\<rparr>)"
    unfolding released_def
    by (rule exI [of _ ?D], rule exI [of _ ?V], rule exI [of _ ?W])
      (use assms in \<open>auto simp: ring_wf_def nth_list_update\<close>)
  ultimately show thesis by (rule that)
qed

lemma released_vfree: "released idx s t \<Longrightarrow> i < NUM \<Longrightarrow> vfree t ! i \<longleftrightarrow> vfree s ! i \<or> i \<in> set idx"
  by (auto simp: released_def)

lemma free_descs_released:
  assumes "ring_wf s" "distinct idx" "\<forall>i \<in> set idx. i < NUM \<and> \<not> vfree s ! i"
  shows "\<exists>t. free_descs idx s = Inr t \<and> released idx s t"
  using assms
proof (induction idx arbitrary: s)
  case Nil
  then show ?case by (simp add: released_Nil)
next
  case (Cons i idx)
  obtain t where t: "free_desc i s = Inr t" "released [i] s t"
    by (rule free_desc_released [of s i]) (use Cons.prems in auto)
  have "\<forall>j \<in> set idx. j < NUM \<and> \<not> vfree t ! j"
    using Cons.prems released_vfree [OF t(2)] by auto
  with Cons.IH [OF released_wf [OF t(2)]] Cons.prems obtain u where "free_descs idx t = Inr u" "released idx t u" by auto
  then show ?case using t(1) released_trans [OF t(2), of idx u] by simp
qed

lemma desc_alloc_simps:
  "desc_alloc s = Some (i, t) \<longleftrightarrow> alloc_desc s = (Some i, t)"
  "desc_alloc s = None \<longleftrightarrow> alloc_desc s = (None, s)"
  using alloc_desc_None(1) [of s] by (auto simp: desc_alloc_def split: prod.splits option.splits)

lemma alloc_descs_Some: "descs.alloc_many n s = Some (xs, t) \<Longrightarrow> alloc_descs n idx s = Inr (Some (idx @ xs), t)"
  by (induction n arbitrary: s idx xs) (auto simp: desc_alloc_simps split: option.splits)

lemma alloc_many_frame: "descs.alloc_many n s = Some (xs, t) \<Longrightarrow> \<exists>V. t = s\<lparr>vfree := V\<rparr>"
proof (induction n arbitrary: s xs)
  case 0
  then show ?case by (auto intro: exI [of _ "vfree s"])
next
  case (Suc n)
  then obtain i u ys where a: "alloc_desc s = (Some i, u)" and m: "descs.alloc_many n u = Some (ys, t)"
    by (auto simp: desc_alloc_simps split: option.splits)
  obtain V where "t = u\<lparr>vfree := V\<rparr>" using Suc.IH [OF m] by blast
  then show ?case using alloc_desc_Some(3) [OF a] by auto
qed

lemma alloc_descs_None:
  assumes "ring_wf s" "descs.alloc_many n s = None" "distinct idx" "\<forall>i \<in> set idx. i < NUM \<and> \<not> vfree s ! i"
  shows "\<exists>t. alloc_descs n idx s = Inr (None, t) \<and> released idx s t"
  using assms
proof (induction n arbitrary: s idx)
  case 0
  then show ?case by simp
next
  case (Suc n)
  show ?case
  proof (cases "desc_alloc s")
    case None
    then show ?thesis using free_descs_released [OF Suc.prems(1,3,4)] by (auto simp: desc_alloc_simps)
  next
    case (Some x)
    then obtain i u where a: "alloc_desc s = (Some i, u)" and x: "desc_alloc s = Some (i, u)"
      by (cases x) (auto simp: desc_alloc_simps)
    note r = alloc_desc_Some [OF a]
    have len: "length (vfree s) = NUM" using Suc.prems(1) by (simp add: ring_wf_def)
    have m: "descs.alloc_many n u = None" using Suc.prems(2) x by (auto split: option.splits)
    have wf: "ring_wf u" using descs.alloc_Some [OF Suc.prems(1) x] by simp
    have "i \<notin> set idx" using Suc.prems(4) r(2) by auto
    then have "distinct (idx @ [i])" "\<forall>j \<in> set (idx @ [i]). j < NUM \<and> \<not> vfree u ! j"
      using Suc.prems(3,4) r len by (auto simp: nth_list_update)
    from Suc.IH [OF wf m this] obtain t where t: "alloc_descs n (idx @ [i]) u = Inr (None, t)" "released (idx @ [i]) u t"
      by blast
    obtain D V W where q: "t = u\<lparr>desc := D, vfree := V, sleeping := W\<rparr>" "length D = NUM" "length V = NUM"
      "\<forall>j < NUM. V ! j \<longleftrightarrow> vfree u ! j \<or> j \<in> set (idx @ [i])" "\<forall>j < NUM. \<not> V ! j \<longrightarrow> D ! j = desc u ! j"
      "\<forall>p. W p = sleeping u p \<or> sleeping u p = Some ChanDesc \<and> W p = None" "\<forall>p. W p \<noteq> Some ChanDesc"
      using t(2) unfolding released_def by auto
    have "released idx s t"
      unfolding released_def
      by (rule exI [of _ D], rule exI [of _ V], rule exI [of _ W])
        (use q r len in \<open>auto simp: nth_list_update\<close>)
    then show ?thesis using t(1) a by auto
  qed
qed

lemma alloc3_cases:
  assumes "ring_wf s"
  obtains (got) i j k V where "alloc3_desc s = Inr (Some [i, j, k], s\<lparr>vfree := V\<rparr>)" "distinct [i, j, k]"
      "\<forall>x \<in> {i, j, k}. x < NUM \<and> vfree s ! x" "length V = NUM" "\<forall>x < NUM. V ! x \<longleftrightarrow> vfree s ! x \<and> x \<notin> {i, j, k}"
    | (none) t where "alloc3_desc s = Inr (None, t)" "released [] s t" "card (free_set s) < 3"
proof (cases "descs.alloc_many 3 s")
  case None
  then obtain t where t: "alloc3_desc s = Inr (None, t)" "released [] s t"
    using alloc_descs_None [OF assms None, of "[]"] by (auto simp: alloc3_desc_def)
  have "\<not> 3 \<le> card (free_set s)" using descs.alloc_many_all [OF assms, of 3] None by auto
  then show thesis using none [OF t] by simp
next
  case (Some x)
  then obtain xs t where m: "descs.alloc_many 3 s = Some (xs, t)" by (cases x) auto
  have r: "length xs = 3" "distinct xs" "set xs \<subseteq> free_set s" "free_set t = free_set s - set xs" "ring_wf t"
    using descs.alloc_many_Some [OF assms m] by auto
  obtain V where V: "t = s\<lparr>vfree := V\<rparr>" using alloc_many_frame [OF m] by blast
  obtain i j k where xs: "xs = [i, j, k]" using r(1) by (auto simp: numeral_3_eq_3 length_Suc_conv)
  have eq: "x \<in> free_set t \<longleftrightarrow> x \<in> free_set s \<and> x \<notin> {i, j, k}" for x using r(4) xs by auto
  show thesis
  proof (rule got)
    show "alloc3_desc s = Inr (Some [i, j, k], s\<lparr>vfree := V\<rparr>)"
      using alloc_descs_Some [OF m, of "[]"] xs V by (simp add: alloc3_desc_def)
    show "distinct [i, j, k]" using r(2) xs by simp
    show "\<forall>x \<in> {i, j, k}. x < NUM \<and> vfree s ! x" using r(3) xs by (auto simp: free_set_def)
    show "length V = NUM" using r(5) V by (simp add: ring_wf_def)
    show "\<forall>x < NUM. V ! x \<longleftrightarrow> vfree s ! x \<and> x \<notin> {i, j, k}" using eq V by (simp add: free_set_def) blast
  qed
qed

lemma free_chain_descs:
  assumes "ring_wf s" "distinct [i, j, k]" "set [i, j, k] \<subseteq> {..<NUM}" "\<forall>x \<in> set [i, j, k]. \<not> vfree s ! x"
    and "d_flags (desc s ! i) AND 1 \<noteq> 0" "unat (d_next (desc s ! i)) = j"
    and "d_flags (desc s ! j) AND 1 \<noteq> 0" "unat (d_next (desc s ! j)) = k" "d_flags (desc s ! k) AND 1 = 0"
  shows "free_chain i s = free_descs [i, j, k] s"
proof -
  have "free_chain_loop (Suc (Suc (Suc n))) i s = free_descs [i, j, k] s" for n
    using assms by (simp add: free_desc_def wake_chan_def ring_wf_def cong: if_cong)
  from this [of 6] show ?thesis by (simp add: free_chain_def)
qed

text \<open>Whatever the ring holds, also a chain that runs into itself, \<^verbatim>\<open>free_chain\<close> does not loop: each round takes a
  descriptor that is not free, or panics.\<close>

lemma free_chain_loop_ends:
  assumes "ring_wf s" "card ({..<NUM} - free_set s) < fuel"
  shows "free_chain_loop fuel i s \<noteq> Inl Hang"
  using assms
proof (induction fuel arbitrary: i s)
  case 0
  then show ?case by simp
next
  case (Suc fuel)
  show ?case
  proof (cases "NUM \<le> i \<or> vfree s ! i")
    case True
    then show ?thesis by (auto simp: free_desc_def)
  next
    case False
    then obtain t where t: "free_desc i s = Inr t" "released [i] s t"
      using free_desc_released [OF Suc.prems(1), of i] by auto
    have "{..<NUM} - free_set t = ({..<NUM} - free_set s) - {i}" "i \<in> {..<NUM} - free_set s"
      using released_vfree [OF t(2)] False by (auto simp: free_set_def)
    then have "card ({..<NUM} - free_set t) < card ({..<NUM} - free_set s)" by (metis card_Diff1_less finite_Diff finite_lessThan)
    then show ?thesis using Suc.IH [OF released_wf [OF t(2)]] Suc.prems(2) t(1) by auto
  qed
qed

lemma intr_loop_ends:
  "unat (ua_idx (used s) - used_idx s) \<le> fuel \<Longrightarrow> intr_loop lay fuel s \<noteq> Inl Hang"
proof (induction fuel arbitrary: s)
  case 0
  then show ?case by (simp add: unat_eq_0)
next
  case (Suc fuel)
  show ?case
  proof (cases "used_idx s = ua_idx (used s)")
    case True
    then show ?thesis by simp
  next
    case False
    have "intr_loop lay fuel t \<noteq> Inl Hang" if t: "intr_one lay s = Inr t" for t
    proof -
      have "used t = used s" "used_idx t = used_idx s + 1"
        using t by (auto simp: intr_one_def wake_chan_def Let_def split: if_splits option.splits)
      then have "unat (ua_idx (used t) - used_idx t) \<le> fuel"
        using unat_pred16 [OF False] Suc.prems by (simp only:)
      then show ?thesis by (rule Suc.IH)
    qed
    moreover have "intr_one lay s \<noteq> Inl Hang"
      by (auto simp: intr_one_def Let_def split: option.splits)
    ultimately show ?thesis using False by (auto simp: bindr_eq_Inl)
  qed
qed

end
