(* ===== verification/Disk_Refine.thy ===== *)
theory Disk_Refine
  imports Disk_System
begin

text \<open>
  The driver and the device refine a disk on which every call takes effect at one moment between its start and its
  return: every step of the system keeps the invariant and is a step of the specification or none.
\<close>

section \<open>Consequences of the layout and the invariant\<close>

lemma layoutD:
  assumes "layout_ok lay"
  shows "p < NPROC \<Longrightarrow> kernel_pa lay (hdr_va lay p) = Inr (hdr_pa lay p)"
    and "p < NPROC \<Longrightarrow> q < NPROC \<Longrightarrow> p \<noteq> q \<Longrightarrow> apart (hdr_pa lay p) 16 (hdr_pa lay q) 16"
    and "p < NPROC \<Longrightarrow> b < N_BLOCK_BUF \<Longrightarrow> apart (hdr_pa lay p) 16 (data_addr lay b) BLOCK_SIZE"
    and "p < NPROC \<Longrightarrow> i < NUM \<Longrightarrow> apart (hdr_pa lay p) 16 (status_addr lay i) 1"
    and "b < N_BLOCK_BUF \<Longrightarrow> c < N_BLOCK_BUF \<Longrightarrow> b \<noteq> c \<Longrightarrow> apart (data_addr lay b) BLOCK_SIZE (data_addr lay c) BLOCK_SIZE"
    and "b < N_BLOCK_BUF \<Longrightarrow> i < NUM \<Longrightarrow> apart (data_addr lay b) BLOCK_SIZE (status_addr lay i) 1"
  using assms unfolding layout_ok_def by blast+

lemma status_addr_inj: "i < NUM \<Longrightarrow> j < NUM \<Longrightarrow> status_addr lay i = status_addr lay j \<longleftrightarrow> i = j"
proof -
  assume "i < NUM" "j < NUM"
  then have "unat (of_nat (16 * i + 8) :: u64) = 16 * i + 8" "unat (of_nat (16 * j + 8) :: u64) = 16 * j + 8"
    by (intro unat_of_nat64, simp)+
  then have "(of_nat (16 * i + 8) :: u64) = of_nat (16 * j + 8) \<Longrightarrow> 16 * i + 8 = 16 * j + 8" by metis
  then show ?thesis unfolding status_addr_def add_left_cancel by auto
qed

lemma length_outhdr [simp]: "length (outhdr wr sec) = 16"
  by (simp add: outhdr_def)

lemma request_idx:
  assumes "request_ok lay s p b wr idx"
  obtains i j k where "idx = [i, j, k]" "i < NUM" "j < NUM" "k < NUM" "distinct [i, j, k]"
proof -
  have "length idx = 3" "distinct idx" "set idx \<subseteq> {..<NUM}" using assms by (auto simp: request_ok_def)
  then obtain i j k where "idx = [i, j, k]" by (auto simp: numeral_3_eq_3 length_Suc_conv)
  then show thesis using \<open>distinct idx\<close> \<open>set idx \<subseteq> {..<NUM}\<close> by (intro that) auto
qed

lemma vinvD:
  assumes "vinv lay (s, d)"
  shows "shape_ok s d" "frames_ok lay s" "owners_ok s" "queue_ok s d" "sleep_ok s" "ring_wf s"
  using assms by (auto simp: vinv_def shape_ok_def ring_wf_def)

lemma frames_okD:
  assumes "frames_ok lay s"
  shows "frame_buf (frames s p) = Some b \<Longrightarrow> p < NPROC \<and> b < N_BLOCK_BUF \<and> unat (bnum s b) < 2 ^ 31"
    and "frame_buf (frames s p) = Some b \<Longrightarrow> frame_buf (frames s q) = Some b \<Longrightarrow> p = q"
    and "frames s p = WaitData b wr idx \<Longrightarrow> request_ok lay s p b wr idx"
    and "disk_flag s b \<Longrightarrow> \<exists>p wr idx. frames s p = WaitData b wr idx"
  using assms unfolding frames_ok_def by blast+

lemma request_in_use:
  assumes "vinv lay (s, d)" "frames s p = WaitData b wr idx" "i \<in> set idx"
  shows "i < NUM" "\<not> vfree s ! i"
proof -
  have r: "request_ok lay s p b wr idx" using frames_okD(3) [OF vinvD(2) [OF assms(1)] assms(2)] .
  show "i < NUM" using r assms(3) by (auto simp: request_ok_def)
  then show "\<not> vfree s ! i" using vinvD(3) [OF assms(1)] assms(2,3) unfolding owners_ok_def by blast
qed

lemma request_disjoint:
  assumes "vinv lay (s, d)" "frames s p = WaitData b wr idx" "frames s q = WaitData b' wr' idx'" "p \<noteq> q"
  shows "set idx \<inter> set idx' = {}"
  using vinvD(3) [OF assms(1)] assms(2-4) unfolding owners_ok_def by blast

lemma queue_head:
  assumes "vinv lay (s, d)" "h \<in> set (pend s d @ dv_work d @ unseen s)"
  obtains p b wr idx where "frames s p = WaitData b wr idx" "h = idx ! 0" "disk_flag s b" "request_ok lay s p b wr idx"
proof -
  have "h \<in> heads s"
    using vinvD(4) [OF assms(1)] assms(2) unfolding queue_ok_def by (simp only:)
  then obtain p b wr idx where q: "frames s p = WaitData b wr idx" "h = idx ! 0" "disk_flag s b"
    unfolding heads_def by blast
  then show thesis using frames_okD(3) [OF vinvD(2) [OF assms(1)] q(1)] by (rule that)
qed

lemma queue_head_in_use:
  assumes "vinv lay (s, d)" "h \<in> set (pend s d @ dv_work d @ unseen s)"
  shows "h < NUM" "\<not> vfree s ! h"
proof -
  obtain p b wr idx where q: "frames s p = WaitData b wr idx" "h = idx ! 0" "request_ok lay s p b wr idx"
    by (rule queue_head [OF assms])
  obtain i j k where "idx = [i, j, k]" by (rule request_idx [OF q(3)])
  then have "h \<in> set idx" using q(2) by simp
  then show "h < NUM" "\<not> vfree s ! h" using request_in_use [OF assms(1) q(1)] by auto
qed

lemma queue_short:
  assumes "vinv lay (s, d)" "h < NUM" "distinct xs" "set xs \<subseteq> set (pend s d @ dv_work d @ unseen s)" "h \<notin> set xs"
  shows "length xs < 8"
proof (rule short_queue [OF assms(3) _ assms(2)])
  show "set xs \<subseteq> {..<8} - {h}"
    using assms(4,5) queue_head_in_use(1) [OF assms(1)] by blast
qed

lemma queue_distinct: "vinv lay (s, d) \<Longrightarrow> distinct (pend s d @ dv_work d @ unseen s)"
  by (auto simp: queue_ok_def dest!: vinvD(4))

lemma acall_of_simps [simp]:
  "acall_of T Outside = Idle"
  "acall_of T (WaitDesc b wr) = Requested b wr"
  "acall_of T (WaitData b wr idx) = (if idx ! 0 \<in> set T then Requested b wr else Performed b wr)"
  by (simp_all add: acall_of_def)

section \<open>Starting a request\<close>

lemma request_ok_cong:
  assumes "request_ok lay s p b wr idx" "\<forall>i \<in> set idx. desc t ! i = desc s ! i"
    "info_b t ! (idx ! 0) = info_b s ! (idx ! 0)" "load_bytes (dma t) (hdr_pa lay p) 16 = load_bytes (dma s) (hdr_pa lay p) 16"
    "dma t (status_addr lay (idx ! 0)) = dma s (status_addr lay (idx ! 0))" "bnum t b = bnum s b"
  shows "request_ok lay t p b wr idx"
proof -
  obtain i j k where "idx = [i, j, k]" by (rule request_idx [OF assms(1)])
  then show ?thesis using assms by (simp add: request_ok_def)
qed

text \<open>What every part of a call is entitled to: the invariant, the lock, and a buffer of its own.\<close>

definition in_call :: "vlayout \<Rightarrow> vdisk \<Rightarrow> vdev \<Rightarrow> nat \<Rightarrow> nat \<Rightarrow> bool \<Rightarrow> bool" where
  "in_call lay s d p b wr \<longleftrightarrow> vinv lay (s, d) \<and> spinlock_holding 0 (vdisk_lock s) \<and>
     (frames s p = Outside \<or> frames s p = WaitDesc b wr) \<and> p < NPROC \<and> b < N_BLOCK_BUF \<and> unat (bnum s b) < 2 ^ 31 \<and>
     (\<forall>q. frame_buf (frames s q) = Some b \<longrightarrow> q = p)"

lemma start_none:
  assumes "in_call lay s d p b wr" "released [] s t" "card (free_set s) < 3"
  shows "\<exists>u. sleep_on p ChanDesc (WaitDesc b wr) t = Inr u \<and> vinv lay (u, d) \<and> unlocked (u, d) \<and>
    disk_abs lay (u, d) = (disk_abs lay (s, d))\<lparr>acalls := (acalls (disk_abs lay (s, d)))(p := Requested b wr)\<rparr>"
proof -
  have inv: "vinv lay (s, d)" and lk: "spinlock_holding 0 (vdisk_lock s)"
    and fr: "frames s p = Outside \<or> frames s p = WaitDesc b wr" and p: "p < NPROC" "b < N_BLOCK_BUF" "unat (bnum s b) < 2 ^ 31"
    and own: "\<forall>q. frame_buf (frames s q) = Some b \<longrightarrow> q = p"
    using assms(1) by (auto simp: in_call_def)
  note iv = vinvD [OF inv]
  obtain D V W where t: "t = s\<lparr>desc := D, vfree := V, sleeping := W\<rparr>" "length D = NUM" "length V = NUM"
    "\<forall>i < NUM. V ! i \<longleftrightarrow> vfree s ! i" "\<forall>i < NUM. \<not> V ! i \<longrightarrow> D ! i = desc s ! i"
    "\<forall>p. W p = sleeping s p \<or> sleeping s p = Some ChanDesc \<and> W p = None"
    using assms(2) unfolding released_def by auto
  have V: "V = vfree s" using t(3,4) iv(6) by (auto simp: ring_wf_def intro: nth_equalityI)
  have nodata: "frames s p \<noteq> WaitData b' wr' idx" for b' wr' idx using fr by auto
  let ?k = "WaitDesc b wr"
  obtain l where l: "lock_drop 0 (vdisk_lock s) = Inr l" "\<not> locked l" using lk by (auto simp: lock_drop_def)
  define u where "u = s\<lparr>desc := D, sleeping := W(p := Some ChanDesc), vdisk_lock := l, frames := (frames s)(p := ?k)\<rparr>"
  have eq: "sleep_on p ChanDesc ?k t = Inr u" using l V by (simp add: sleep_on_def t(1) u_def)
  have fields: "desc u = D" "avail u = avail s" "used u = used s" "vfree u = vfree s" "used_idx u = used_idx s"
    "info_b u = info_b s" "dma u = dma s" "disk_flag u = disk_flag s" "bnum u = bnum s" "vdisk_lock u = l"
    "frames u = (frames s)(p := ?k)" "sleeping u = W(p := Some ChanDesc)" by (simp_all add: u_def)
  have data: "frames u q = WaitData b' wr' idx \<longleftrightarrow> frames s q = WaitData b' wr' idx" for q b' wr' idx
    using nodata by (simp add: fields)
  have "shape_ok u d" using iv(1) t(2) by (simp add: shape_ok_def fields)
  moreover have "frames_ok lay u"
    unfolding frames_ok_def
  proof (intro conjI)
    show "\<forall>q c. frame_buf (frames u q) = Some c \<longrightarrow> q < NPROC \<and> c < N_BLOCK_BUF \<and> unat (bnum u c) < 2 ^ 31"
      using frames_okD(1) [OF iv(2)] p by (simp add: fields)
    show "\<forall>q r c. frame_buf (frames u q) = Some c \<longrightarrow> frame_buf (frames u r) = Some c \<longrightarrow> q = r"
      using frames_okD(2) [OF iv(2)] own by (simp add: fields)
    show "\<forall>q c wr' idx. frames u q = WaitData c wr' idx \<longrightarrow> request_ok lay u q c wr' idx"
    proof (intro allI impI)
      fix q c wr' idx assume "frames u q = WaitData c wr' idx"
      then have f: "frames s q = WaitData c wr' idx" by (simp only: data)
      show "request_ok lay u q c wr' idx"
        by (rule request_ok_cong [OF frames_okD(3) [OF iv(2) f]])
          (use request_in_use [OF inv f] t(5) V in \<open>simp_all add: fields\<close>)
    qed
    show "\<forall>c. disk_flag u c \<longrightarrow> (\<exists>q wr' idx. frames u q = WaitData c wr' idx)"
      unfolding data fields(8) by (intro allI impI frames_okD(4) [OF iv(2)])
  qed
  moreover have "owners_ok u" using iv(3) unfolding owners_ok_def data fields(4) .
  moreover have qs: "pend u d = pend s d" "unseen u = unseen s" by (simp_all add: pend_def unseen_def fields)
  then have "queue_ok u d" using iv(4) unfolding queue_ok_def heads_def data fields(8) by simp
  moreover have "sleep_ok u"
    unfolding sleep_ok_def
  proof (intro allI impI)
    fix q c assume sl: "sleeping u q = Some c"
    have fs: "free_set u = free_set s" by (simp add: free_set_def fields)
    show "sleep_why u (frames u q) c"
    proof (cases "q = p")
      case True
      then show ?thesis using sl assms(3) by (simp add: fields sleep_why_def fs)
    next
      case False
      then have "sleeping s q = Some c" using sl t(6) by (metis fields(12) fun_upd_other option.distinct(1))
      then have "sleep_why s (frames s q) c" using iv(5) unfolding sleep_ok_def by simp
      then show ?thesis using False by (auto simp: fields sleep_why_def fs split: frame.splits)
    qed
  qed
  ultimately have "vinv lay (u, d)" by (simp add: vinv_def)
  moreover have "disk_abs lay (u, d) = (disk_abs lay (s, d))\<lparr>acalls := (acalls (disk_abs lay (s, d)))(p := Requested b wr)\<rparr>"
    using qs by (auto simp: disk_abs_def fields fun_eq_iff)
  ultimately show ?thesis using eq l(2) by (auto simp: unlocked_def fields)
qed

text \<open>The state after a request has been posted and its process has gone to sleep.\<close>

definition posted :: "vlayout \<Rightarrow> vdisk \<Rightarrow> nat \<Rightarrow> nat \<Rightarrow> bool \<Rightarrow> nat \<Rightarrow> nat \<Rightarrow> nat \<Rightarrow> bool list \<Rightarrow> spinlock \<Rightarrow> vdisk" where
  "posted lay s p b wr i j k V l = s\<lparr>
     desc := (desc s)[i := \<lparr>d_addr = hdr_pa lay p, d_len = 16, d_flags = VRING_DESC_F_NEXT, d_next = of_nat j\<rparr>,
                      j := \<lparr>d_addr = data_addr lay b, d_len = of_nat BLOCK_SIZE,
                            d_flags = (if wr then 0 else VRING_DESC_F_WRITE) OR VRING_DESC_F_NEXT, d_next = of_nat k\<rparr>,
                      k := \<lparr>d_addr = status_addr lay i, d_len = 1, d_flags = VRING_DESC_F_WRITE, d_next = 0\<rparr>],
     avail := (avail s)[2 + unat (avail s ! 1 mod 8) := of_nat i, 1 := avail s ! 1 + 1],
     vfree := V, info_b := (info_b s)[i := Some b], vdisk_lock := l,
     dma := (store_bytes (dma s) (hdr_pa lay p) (outhdr wr (sector_of (bnum s b))))(status_addr lay i := 0),
     disk_flag := (disk_flag s)(b := True), frames := (frames s)(p := WaitData b wr [i, j, k]),
     sleeping := (sleeping s)(p := Some (ChanBuf b)), notified := True\<rparr>"

lemma post_eq:
  assumes "kernel_pa lay (hdr_va lay p) = Inr (hdr_pa lay p)" "lock_drop 0 (vdisk_lock s) = Inr l"
  shows "bindr (submit lay p b wr [i, j, k] (s\<lparr>vfree := V\<rparr>)) (rw_wait p b wr [i, j, k]) = Inr (posted lay s p b wr i j k V l)"
  using assms by (simp add: submit_def rw_wait_def sleep_on_def set_desc_def Let_def posted_def)

lemma pend_posted:
  assumes "length (avail s) = 2 + NUM" "length (pend s d) < 8" "i < NUM"
  shows "pend (posted lay s p b wr i j k V l) d = pend s d @ [i]"
proof -
  let ?a = "avail s ! 1"
  let ?g = "\<lambda>x. unat (avail s ! (2 + x))"
  have ui: "unat (of_nat i :: u16) = i" using assms(3) by (simp add: unat_of_nat take_bit_nat_eq_self)
  have m: "unat (?a mod 8) < 8" using unat_mod8 [of ?a 0] by simp
  have "ring (\<lambda>x. unat (avail (posted lay s p b wr i j k V l) ! (2 + x))) (dv_taken d) (?a + 1) =
      ring (?g(unat (?a mod 8) := i)) (dv_taken d) (?a + 1)"
    by (rule ring_cong) (use assms(1) m ui in \<open>simp add: posted_def nth_list_update\<close>)
  also have "\<dots> = ring ?g (dv_taken d) ?a @ [i]"
    by (rule ring_push) (use assms(2) in \<open>simp add: pend_def\<close>)
  finally show ?thesis using assms(1) by (simp add: pend_def posted_def)
qed

lemma posted_request:
  assumes "layout_ok lay" "p < NPROC" "length (desc s) = NUM" "length (info_b s) = NUM"
    "i < NUM" "j < NUM" "k < NUM" "distinct [i, j, k]"
  shows "request_ok lay (posted lay s p b wr i j k V l) p b wr [i, j, k]"
proof -
  have "apart (status_addr lay i) 1 (hdr_pa lay p) 16" using layoutD(4) [OF assms(1,2,5)] by (simp add: apart_sym)
  then show ?thesis
    using assms by (simp add: request_ok_def posted_def load_upd_apart load_store_bytes)
qed

lemma posted_other_request:
  assumes "layout_ok lay" "p < NPROC" "q < NPROC" "q \<noteq> p" "i < NUM" "request_ok lay s q c wr' idx" "{i, j, k} \<inter> set idx = {}"
  shows "request_ok lay (posted lay s p b wr i j k V l) q c wr' idx"
proof (rule request_ok_cong [OF assms(6)])
  obtain x y z where idx: "idx = [x, y, z]" "x < NUM" by (rule request_idx [OF assms(6)])
  have ne: "i \<noteq> x" using assms(7) idx by auto
  show "\<forall>x \<in> set idx. desc (posted lay s p b wr i j k V l) ! x = desc s ! x"
  proof
    fix x assume "x \<in> set idx"
    then have "i \<noteq> x" "j \<noteq> x" "k \<noteq> x" using assms(7) by auto
    then show "desc (posted lay s p b wr i j k V l) ! x = desc s ! x" by (simp add: posted_def)
  qed
  show "info_b (posted lay s p b wr i j k V l) ! (idx ! 0) = info_b s ! (idx ! 0)"
    using ne idx by (simp add: posted_def)
  have "apart (status_addr lay i) 1 (hdr_pa lay q) 16" using layoutD(4) [OF assms(1,3,5)] by (simp add: apart_sym)
  moreover have "apart (hdr_pa lay p) 16 (hdr_pa lay q) 16" using layoutD(2) [OF assms(1-3)] assms(4) by simp
  ultimately show "load_bytes (dma (posted lay s p b wr i j k V l)) (hdr_pa lay q) 16 = load_bytes (dma s) (hdr_pa lay q) 16"
    by (simp add: posted_def load_upd_apart load_store_apart)
  have "apart (hdr_pa lay p) 16 (status_addr lay x) 1" using layoutD(4) [OF assms(1,2) idx(2)] .
  moreover have "status_addr lay x \<noteq> status_addr lay i" using status_addr_inj [of x i lay] idx(2) assms(5) ne by simp
  ultimately show "dma (posted lay s p b wr i j k V l) (status_addr lay (idx ! 0)) = dma s (status_addr lay (idx ! 0))"
    using idx by (simp add: posted_def store_bytes_apart_at)
qed (simp add: posted_def)

lemma posted_data:
  assumes "layout_ok lay" "p < NPROC" "i < NUM" "c < N_BLOCK_BUF"
  shows "load_bytes (dma (posted lay s p b wr i j k V l)) (data_addr lay c) BLOCK_SIZE = load_bytes (dma s) (data_addr lay c) BLOCK_SIZE"
proof -
  have "apart (status_addr lay i) 1 (data_addr lay c) BLOCK_SIZE" using layoutD(6) [OF assms(1,4,3)] by (simp add: apart_sym)
  moreover have "apart (hdr_pa lay p) 16 (data_addr lay c) BLOCK_SIZE" using layoutD(3) [OF assms(1,2,4)] .
  ultimately show ?thesis by (simp add: posted_def load_upd_apart load_store_apart)
qed

lemma start_some:
  assumes lay: "layout_ok lay" and call: "in_call lay s d p b wr" and sl: "sleeping s p = None"
    and dist: "distinct [i, j, k]" and fr3: "\<forall>x \<in> {i, j, k}. x < NUM \<and> vfree s ! x"
    and V: "length V = NUM" "\<forall>x < NUM. V ! x \<longleftrightarrow> vfree s ! x \<and> x \<notin> {i, j, k}" and l: "\<not> locked l"
  defines "u \<equiv> posted lay s p b wr i j k V l"
  shows "vinv lay (u, d)"
    and "disk_abs lay (u, d) = (disk_abs lay (s, d))\<lparr>acalls := (acalls (disk_abs lay (s, d)))(p := Requested b wr)\<rparr>"
proof -
  have inv: "vinv lay (s, d)" and fr: "frames s p = Outside \<or> frames s p = WaitDesc b wr"
    and p: "p < NPROC" "b < N_BLOCK_BUF" "unat (bnum s b) < 2 ^ 31"
    and own: "\<forall>q. frame_buf (frames s q) = Some b \<longrightarrow> q = p"
    using call by (auto simp: in_call_def)
  note iv = vinvD [OF inv]
  have ijk: "i < NUM" "j < NUM" "k < NUM" using fr3 by auto
  have nodata: "frames s p \<noteq> WaitData b' wr' idx" for b' wr' idx using fr by auto
  have sh: "length (desc s) = NUM" "length (info_b s) = NUM" "length (avail s) = 2 + NUM" using iv(1) by (auto simp: shape_ok_def)
  have fields: "used u = used s" "vfree u = V" "used_idx u = used_idx s" "disk_flag u = (disk_flag s)(b := True)" "bnum u = bnum s"
    "frames u = (frames s)(p := WaitData b wr [i, j, k])" "sleeping u = (sleeping s)(p := Some (ChanBuf b))"
    by (simp_all add: u_def posted_def)
  have data: "frames u q = WaitData b' wr' idx \<longleftrightarrow>
      (if q = p then b' = b \<and> wr' = wr \<and> idx = [i, j, k] else frames s q = WaitData b' wr' idx)" for q b' wr' idx
    by (auto simp: fields)
  have disj: "{i, j, k} \<inter> set idx = {}" if "frames s q = WaitData c wr' idx" for q c wr' idx
    using request_in_use [OF inv that] fr3 by blast
  have noq: "i \<notin> set (pend s d @ dv_work d @ unseen s)" using queue_head_in_use [OF inv] fr3 by blast
  have "length (pend s d) < 8"
    by (rule queue_short [OF inv ijk(1)]) (use queue_distinct [OF inv] noq in simp_all)
  then have pend: "pend u d = pend s d @ [i]" unfolding u_def by (intro pend_posted sh(3) ijk(1))
  have uns: "unseen u = unseen s" by (simp add: unseen_def fields)
  have "shape_ok u d" using iv(1) V(1) by (simp add: shape_ok_def u_def posted_def)
  moreover have "frames_ok lay u"
    unfolding frames_ok_def
  proof (intro conjI)
    show "\<forall>q c. frame_buf (frames u q) = Some c \<longrightarrow> q < NPROC \<and> c < N_BLOCK_BUF \<and> unat (bnum u c) < 2 ^ 31"
      using frames_okD(1) [OF iv(2)] p by (simp add: fields)
    show "\<forall>q r c. frame_buf (frames u q) = Some c \<longrightarrow> frame_buf (frames u r) = Some c \<longrightarrow> q = r"
      using frames_okD(2) [OF iv(2)] own by (simp add: fields)
    show "\<forall>q c wr' idx. frames u q = WaitData c wr' idx \<longrightarrow> request_ok lay u q c wr' idx"
    proof (intro allI impI)
      fix q c wr' idx assume f: "frames u q = WaitData c wr' idx"
      show "request_ok lay u q c wr' idx"
      proof (cases "q = p")
        case True
        then have "c = b" "wr' = wr" "idx = [i, j, k]" using f by (simp_all add: data)
        then show ?thesis using True posted_request [OF lay p(1) sh(1,2) ijk dist] by (simp add: u_def)
      next
        case False
        then have f: "frames s q = WaitData c wr' idx" using f by (simp add: data)
        then have "q < NPROC" using frames_okD(1) [OF iv(2), of q c] by simp
        then show ?thesis unfolding u_def
          by (rule posted_other_request [OF lay p(1) _ False ijk(1) frames_okD(3) [OF iv(2) f] disj [OF f]])
      qed
    qed
    show "\<forall>c. disk_flag u c \<longrightarrow> (\<exists>q wr' idx. frames u q = WaitData c wr' idx)"
    proof (intro allI impI)
      fix c assume c: "disk_flag u c"
      show "\<exists>q wr' idx. frames u q = WaitData c wr' idx"
      proof (cases "c = b")
        case True
        then show ?thesis unfolding data by (intro exI [of _ p]) simp
      next
        case False
        then obtain q wr' idx where q: "frames s q = WaitData c wr' idx" using frames_okD(4) [OF iv(2), of c] c by (auto simp: fields)
        then have "q \<noteq> p" using nodata by auto
        then show ?thesis using q unfolding data by (intro exI [of _ q]) simp
      qed
    qed
  qed
  moreover have "owners_ok u"
    unfolding owners_ok_def
  proof (intro conjI)
    have all: "(\<forall>q c wr' idx. frames u q = WaitData c wr' idx \<longrightarrow> x \<notin> set idx) \<longleftrightarrow>
        x \<notin> {i, j, k} \<and> (\<forall>q c wr' idx. frames s q = WaitData c wr' idx \<longrightarrow> x \<notin> set idx)" for x
    proof (intro iffI conjI allI impI)
      assume a: "\<forall>q c wr' idx. frames u q = WaitData c wr' idx \<longrightarrow> x \<notin> set idx"
      show "x \<notin> {i, j, k}" using a [rule_format, of p b wr "[i, j, k]"] by (simp add: data)
      fix q c wr' idx assume "frames s q = WaitData c wr' idx"
      moreover from this have "q \<noteq> p" using nodata by auto
      ultimately show "x \<notin> set idx" using a [rule_format, of q c wr' idx] by (simp add: data)
    next
      fix q c wr' idx
      assume "x \<notin> {i, j, k} \<and> (\<forall>q c wr' idx. frames s q = WaitData c wr' idx \<longrightarrow> x \<notin> set idx)" "frames u q = WaitData c wr' idx"
      then show "x \<notin> set idx" by (cases "q = p") (auto simp: data)
    qed
    show "\<forall>x < NUM. vfree u ! x \<longleftrightarrow> (\<forall>q c wr' idx. frames u q = WaitData c wr' idx \<longrightarrow> x \<notin> set idx)"
    proof (intro allI impI)
      fix x assume x: "x < NUM"
      have "vfree s ! x \<longleftrightarrow> (\<forall>q c wr' idx. frames s q = WaitData c wr' idx \<longrightarrow> x \<notin> set idx)"
        using iv(3) x unfolding owners_ok_def by blast
      then show "vfree u ! x \<longleftrightarrow> (\<forall>q c wr' idx. frames u q = WaitData c wr' idx \<longrightarrow> x \<notin> set idx)"
        using V(2) x unfolding all fields(2) by (simp add: conj_ac)
    qed
    show "\<forall>q r c wr' idx c' wr'' idx'. frames u q = WaitData c wr' idx \<longrightarrow> frames u r = WaitData c' wr'' idx' \<longrightarrow> q \<noteq> r \<longrightarrow>
        set idx \<inter> set idx' = {}"
      using request_disjoint [OF inv] disj unfolding data by (auto split: if_splits)
  qed
  moreover have "queue_ok u d"
  proof -
    have "heads u = insert i (heads s)"
    proof (intro subset_antisym subsetI)
      fix h assume "h \<in> heads u"
      then obtain q c wr' idx where q: "frames u q = WaitData c wr' idx" "disk_flag u c" "h = idx ! 0" by (rule headsE)
      show "h \<in> insert i (heads s)"
      proof (cases "q = p")
        case True
        then show ?thesis using q by (simp add: data)
      next
        case False
        then have f: "frames s q = WaitData c wr' idx" using q(1) by (simp add: data)
        then have "c \<noteq> b" using own False by auto
        then show ?thesis using headsI [OF f] q(2,3) by (simp add: fields)
      qed
    next
      fix h assume h: "h \<in> insert i (heads s)"
      show "h \<in> heads u"
      proof (cases "h = i")
        case True
        then show ?thesis using headsI [of u p b wr "[i, j, k]"] by (simp add: fields)
      next
        case False
        then have "h \<in> heads s" using h by simp
        then obtain q c wr' idx where q: "frames s q = WaitData c wr' idx" "disk_flag s c" "h = idx ! 0" by (rule headsE)
        have "q \<noteq> p" using q(1) nodata by auto
        then show ?thesis using headsI [of u q c wr' idx] q by (simp add: fields)
      qed
    qed
    then show ?thesis
      using iv(4) noq unfolding queue_ok_def pend uns by auto
  qed
  moreover have "sleep_ok u"
    unfolding sleep_ok_def
  proof (intro allI impI)
    fix q c assume c: "sleeping u q = Some c"
    have "card (free_set u) \<le> card (free_set s)"
      by (rule card_mono) (use V(2) in \<open>auto simp: fields free_set_def\<close>)
    moreover have "q \<noteq> p \<Longrightarrow> sleep_why s (frames s q) c" using iv(5) c unfolding sleep_ok_def by (simp add: fields)
    ultimately show "sleep_why u (frames u q) c"
      using c by (cases "q = p") (auto simp: fields sleep_why_def split: frame.splits)
  qed
  ultimately show "vinv lay (u, d)" by (simp add: vinv_def)
  have acalls: "acall_of (pend u d @ dv_work d) (frames u q) =
      ((\<lambda>q. acall_of (pend s d @ dv_work d) (frames s q))(p := Requested b wr)) q" for q
  proof (cases "q = p")
    case True
    then show ?thesis by (simp add: fields pend)
  next
    case False
    have "x \<noteq> i" if "frames s q = WaitData c wr' idx" "x \<in> set idx" for c wr' idx x using disj [OF that(1)] that(2) by blast
    then have "idx ! 0 \<noteq> i" if "frames s q = WaitData c wr' idx" for c wr' idx
      using that request_idx [OF frames_okD(3) [OF iv(2) that]] by (metis list.set_intros(1) nth_Cons_0)
    then show ?thesis using False by (cases "frames s q") (auto simp: fields pend)
  qed
  have "load_bytes (dma u) (data_addr lay c) BLOCK_SIZE = load_bytes (dma s) (data_addr lay c) BLOCK_SIZE" if "c < N_BLOCK_BUF" for c
    unfolding u_def by (rule posted_data [OF lay p(1) ijk(1) that])
  then show "disk_abs lay (u, d) = (disk_abs lay (s, d))\<lparr>acalls := (acalls (disk_abs lay (s, d)))(p := Requested b wr)\<rparr>"
    using acalls by (simp add: disk_abs_def fields(5) fun_eq_iff)
qed

lemma rw_start_ok:
  assumes "layout_ok lay" "in_call lay s d p b wr" "sleeping s p = None"
  shows "\<exists>u. rw_start lay p b wr s = Inr u \<and> vinv lay (u, d) \<and> unlocked (u, d) \<and>
    disk_abs lay (u, d) = (disk_abs lay (s, d))\<lparr>acalls := (acalls (disk_abs lay (s, d)))(p := Requested b wr)\<rparr>"
proof -
  have inv: "vinv lay (s, d)" and p: "p < NPROC" and lk: "spinlock_holding 0 (vdisk_lock s)" using assms(2) by (auto simp: in_call_def)
  obtain l where l: "lock_drop 0 (vdisk_lock s) = Inr l" "\<not> locked l" using lk by (auto simp: lock_drop_def)
  show ?thesis
  proof (rule alloc3_cases [OF vinvD(6) [OF inv]])
    fix t assume t: "alloc3_desc s = Inr (None, t)" "released [] s t" "card (free_set s) < 3"
    then show ?thesis using start_none [OF assms(2) t(2,3)] by (simp add: rw_start_def)
  next
    fix i j k V
    assume a: "alloc3_desc s = Inr (Some [i, j, k], s\<lparr>vfree := V\<rparr>)" "distinct [i, j, k]"
      "\<forall>x \<in> {i, j, k}. x < NUM \<and> vfree s ! x" "length V = NUM" "\<forall>x < NUM. V ! x \<longleftrightarrow> vfree s ! x \<and> x \<notin> {i, j, k}"
    let ?u = "posted lay s p b wr i j k V l"
    have "rw_start lay p b wr s = Inr ?u"
      using a(1) post_eq [OF layoutD(1) [OF assms(1) p] l(1)] by (simp add: rw_start_def)
    moreover have "unlocked (?u, d)" using l(2) by (simp add: unlocked_def posted_def)
    ultimately show ?thesis using start_some [OF assms a(2-5) l(2)] by blast
  qed
qed

section \<open>Finishing a request\<close>

text \<open>A process that is woken but whose request is not done sleeps again.\<close>

lemma wait_again:
  assumes inv: "vinv lay (s, d)" and lk: "spinlock_holding 0 (vdisk_lock s)" and fr: "frames s p = WaitData b wr idx"
    and flag: "disk_flag s b"
  shows "\<exists>u. rw_wait p b wr idx s = Inr u \<and> vinv lay (u, d) \<and> unlocked (u, d) \<and> disk_abs lay (u, d) = disk_abs lay (s, d)"
proof -
  obtain l where l: "lock_drop 0 (vdisk_lock s) = Inr l" "\<not> locked l" using lk by (auto simp: lock_drop_def)
  define u where "u = s\<lparr>sleeping := (sleeping s)(p := Some (ChanBuf b)), vdisk_lock := l\<rparr>"
  have "(frames s)(p := WaitData b wr idx) = frames s" using fr by (simp add: fun_upd_idem)
  then have eq: "rw_wait p b wr idx s = Inr u" using flag l by (simp add: rw_wait_def sleep_on_def u_def)
  have fields: "frames u = frames s" "disk_flag u = disk_flag s" "vfree u = vfree s" "bnum u = bnum s" "dma u = dma s"
    "sleeping u = (sleeping s)(p := Some (ChanBuf b))" "pend u d = pend s d" "unseen u = unseen s"
    by (simp_all add: u_def pend_def unseen_def)
  have "request_ok lay u q c w x = request_ok lay s q c w x" for q c w x by (simp add: request_ok_def u_def)
  then have "frames_ok lay u" using vinvD(2) [OF inv] by (simp add: frames_ok_def fields)
  moreover have "shape_ok u d" using vinvD(1) [OF inv] by (simp add: shape_ok_def u_def)
  moreover have "owners_ok u" "queue_ok u d" using vinvD(3,4) [OF inv] by (simp_all add: owners_ok_def queue_ok_def heads_def fields)
  moreover have "sleep_why u = sleep_why s" by (rule sleep_why_cong) (simp_all add: fields free_set_def)
  then have "sleep_ok u"
    using vinvD(5) [OF inv] fr flag by (simp add: sleep_ok_def fields) (simp add: sleep_why_def)
  ultimately have "vinv lay (u, d)" by (simp add: vinv_def)
  moreover have "disk_abs lay (u, d) = disk_abs lay (s, d)" by (simp add: disk_abs_def fields cong: if_cong)
  ultimately show ?thesis using eq l(2) by (auto simp: unlocked_def u_def)
qed

lemma wait_done:
  assumes inv: "vinv lay (s, d)" and lk: "spinlock_holding 0 (vdisk_lock s)" and fr: "frames s p = WaitData b wr idx"
    and flag: "\<not> disk_flag s b"
  shows "\<exists>u. rw_wait p b wr idx s = Inr u \<and> vinv lay (u, d) \<and> unlocked (u, d) \<and>
    disk_abs lay (u, d) = (disk_abs lay (s, d))\<lparr>acalls := (acalls (disk_abs lay (s, d)))(p := Idle)\<rparr>"
    and "acalls (disk_abs lay (s, d)) p = Performed b wr"
proof -
  note iv = vinvD [OF inv]
  have rq: "request_ok lay s p b wr idx" using frames_okD(3) [OF iv(2) fr] .
  obtain i j k where idx: "idx = [i, j, k]" "i < NUM" "j < NUM" "k < NUM" "distinct [i, j, k]" by (rule request_idx [OF rq])
  have use: "\<forall>x \<in> set [i, j, k]. x < NUM \<and> \<not> vfree s ! x" using request_in_use [OF inv fr] idx(1) by simp
  have nohead: "i \<notin> heads s"
  proof
    assume "i \<in> heads s"
    then obtain q c wr' x where q: "frames s q = WaitData c wr' x" "disk_flag s c" "i = x ! 0" by (rule headsE)
    obtain x0 x1 x2 where x: "x = [x0, x1, x2]" by (rule request_idx [OF frames_okD(3) [OF iv(2) q(1)]])
    have "q = p" using request_disjoint [OF inv fr q(1)] q(3) x idx(1) by auto
    then show False using q(1,2) fr flag by simp
  qed
  have todo: "i \<notin> set (pend s d @ dv_work d)" using nohead iv(4) unfolding queue_ok_def by auto
  then show "acalls (disk_abs lay (s, d)) p = Performed b wr" using fr idx(1) by (simp add: disk_abs_def)
  let ?s = "s\<lparr>info_b := (info_b s)[i := None]\<rparr>"
  have wf: "ring_wf ?s" using iv(6) by (simp add: ring_wf_def)
  have un: "unat (of_nat n :: u16) = n" if "n < NUM" for n using that by (simp add: unat_of_nat take_bit_nat_eq_self)
  have "free_chain i ?s = free_descs [i, j, k] ?s"
    by (rule free_chain_descs [OF wf idx(5)]) (use rq idx un use in \<open>auto simp: request_ok_def\<close>)
  then obtain t where t: "free_chain i ?s = Inr t" "released [i, j, k] ?s t"
    using free_descs_released [OF wf idx(5)] use by auto
  obtain D V W where q: "t = ?s\<lparr>desc := D, vfree := V, sleeping := W\<rparr>" "length D = NUM" "length V = NUM"
    "\<forall>x < NUM. V ! x \<longleftrightarrow> vfree s ! x \<or> x \<in> {i, j, k}" "\<forall>x < NUM. \<not> V ! x \<longrightarrow> D ! x = desc s ! x"
    "\<forall>p. W p = sleeping s p \<or> sleeping s p = Some ChanDesc \<and> W p = None" "\<forall>p. W p \<noteq> Some ChanDesc"
    using t(2) unfolding released_def by auto
  obtain l where l: "lock_drop 0 (vdisk_lock s) = Inr l" "\<not> locked l" using lk by (auto simp: lock_drop_def)
  define u where "u = s\<lparr>info_b := (info_b s)[i := None], desc := D, vfree := V, sleeping := W, vdisk_lock := l,
    frames := (frames s)(p := Outside)\<rparr>"
  have eq: "rw_wait p b wr idx s = Inr u" using flag t(1) l by (simp add: rw_wait_def idx(1) q(1) u_def)
  have fields: "frames u = (frames s)(p := Outside)" "disk_flag u = disk_flag s" "vfree u = V" "bnum u = bnum s" "dma u = dma s"
    "sleeping u = W" "pend u d = pend s d" "unseen u = unseen s" "desc u = D" "info_b u = (info_b s)[i := None]"
    by (simp_all add: u_def pend_def unseen_def)
  have data: "frames u r = WaitData c wr' x \<longleftrightarrow> r \<noteq> p \<and> frames s r = WaitData c wr' x" for r c wr' x by (auto simp: fields)
  have disj: "{i, j, k} \<inter> set x = {}" if "r \<noteq> p" "frames s r = WaitData c wr' x" for r c wr' x
    using request_disjoint [OF inv fr that(2)] that(1) idx(1) by auto
  have "shape_ok u d" using iv(1) q(2,3) by (simp add: shape_ok_def u_def)
  moreover have "frames_ok lay u"
    unfolding frames_ok_def
  proof (intro conjI)
    show "\<forall>q c. frame_buf (frames u q) = Some c \<longrightarrow> q < NPROC \<and> c < N_BLOCK_BUF \<and> unat (bnum u c) < 2 ^ 31"
      using frames_okD(1) [OF iv(2)] by (simp add: fields)
    show "\<forall>q r c. frame_buf (frames u q) = Some c \<longrightarrow> frame_buf (frames u r) = Some c \<longrightarrow> q = r"
      using frames_okD(2) [OF iv(2)] by (simp add: fields)
    show "\<forall>r c wr' x. frames u r = WaitData c wr' x \<longrightarrow> request_ok lay u r c wr' x"
    proof (intro allI impI)
      fix r c wr' x assume "frames u r = WaitData c wr' x"
      then have f: "frames s r = WaitData c wr' x" and ne: "r \<noteq> p" by (simp_all add: data)
      note rr = frames_okD(3) [OF iv(2) f]
      obtain x0 x1 x2 where x: "x = [x0, x1, x2]" by (rule request_idx [OF rr])
      have "\<forall>y \<in> set x. desc u ! y = desc s ! y"
        using disj [OF ne f] request_in_use [OF inv f] q(4,5) unfolding fields by blast
      moreover have "i \<noteq> x ! 0" using disj [OF ne f] x by auto
      ultimately show "request_ok lay u r c wr' x" by (intro request_ok_cong [OF rr]) (simp_all add: fields)
    qed
    show "\<forall>c. disk_flag u c \<longrightarrow> (\<exists>r wr' x. frames u r = WaitData c wr' x)"
    proof (intro allI impI)
      fix c assume c: "disk_flag u c"
      then obtain r wr' x where r: "frames s r = WaitData c wr' x" using frames_okD(4) [OF iv(2), of c] by (auto simp: fields)
      have "r \<noteq> p" using r c fr flag by (auto simp: fields)
      then show "\<exists>r wr' x. frames u r = WaitData c wr' x" using r unfolding data by blast
    qed
  qed
  moreover have "owners_ok u"
    unfolding owners_ok_def
  proof (intro conjI allI impI)
    fix x assume x: "x < NUM"
    have o: "vfree s ! x \<longleftrightarrow> (\<forall>r c wr' y. frames s r = WaitData c wr' y \<longrightarrow> x \<notin> set y)"
      using iv(3) x unfolding owners_ok_def by blast
    show "vfree u ! x \<longleftrightarrow> (\<forall>r c wr' y. frames u r = WaitData c wr' y \<longrightarrow> x \<notin> set y)"
    proof
      assume "vfree u ! x"
      then have "vfree s ! x \<or> x \<in> {i, j, k}" using q(4) x by (simp add: fields)
      then show "\<forall>r c wr' y. frames u r = WaitData c wr' y \<longrightarrow> x \<notin> set y" using o disj unfolding data by blast
    next
      assume a: "\<forall>r c wr' y. frames u r = WaitData c wr' y \<longrightarrow> x \<notin> set y"
      have "vfree s ! x \<or> x \<in> set idx"
      proof (rule disjCI)
        assume "x \<notin> set idx"
        then have "x \<notin> set y" if "frames s r = WaitData c wr' y" for r c wr' y
          using a that fr unfolding data by (cases "r = p") auto
        then show "vfree s ! x" unfolding o by blast
      qed
      then show "vfree u ! x" using q(4) x idx(1) by (simp add: fields)
    qed
  next
    fix r r' c wr' y c' wr'' y'
    assume "frames u r = WaitData c wr' y" "frames u r' = WaitData c' wr'' y'" "r \<noteq> r'"
    then show "set y \<inter> set y' = {}" using request_disjoint [OF inv] unfolding data by blast
  qed
  moreover have "heads u = heads s"
  proof (intro subset_antisym subsetI)
    fix h assume "h \<in> heads u"
    then show "h \<in> heads s" by (rule headsE) (auto simp: data fields(2) intro: headsI)
  next
    fix h assume "h \<in> heads s"
    then obtain r c wr' x where r: "frames s r = WaitData c wr' x" "disk_flag s c" "h = x ! 0" by (rule headsE)
    have "r \<noteq> p" using r(1,2) fr flag by auto
    then show "h \<in> heads u" using headsI [of u r c wr' x] r by (simp add: fields)
  qed
  then have "queue_ok u d" using iv(4) by (simp add: queue_ok_def fields)
  moreover have "sleep_ok u"
    unfolding sleep_ok_def
  proof (intro allI impI)
    fix r c assume c: "sleeping u r = Some c"
    then have s: "sleeping s r = Some c" "c \<noteq> ChanDesc" using q(6,7) by (metis fields(6) option.distinct(1))+
    then have "sleep_why s (frames s r) c" using iv(5) unfolding sleep_ok_def by simp
    then show "sleep_why u (frames u r) c" using s(2) fr flag by (cases "r = p") (auto simp: fields sleep_why_def split: frame.splits)
  qed
  ultimately have "vinv lay (u, d)" by (simp add: vinv_def)
  moreover have "disk_abs lay (u, d) = (disk_abs lay (s, d))\<lparr>acalls := (acalls (disk_abs lay (s, d)))(p := Idle)\<rparr>"
    by (simp add: disk_abs_def fields fun_eq_iff)
  ultimately show "\<exists>u. rw_wait p b wr idx s = Inr u \<and> vinv lay (u, d) \<and> unlocked (u, d) \<and>
    disk_abs lay (u, d) = (disk_abs lay (s, d))\<lparr>acalls := (acalls (disk_abs lay (s, d)))(p := Idle)\<rparr>"
    using eq l(2) by (auto simp: unlocked_def u_def)
qed

section \<open>The interrupt\<close>

lemma intr_one_ok:
  assumes inv: "vinv lay (s, d)" and ne: "used_idx s \<noteq> ua_idx (used s)"
  shows "\<exists>u. intr_one lay s = Inr u \<and> vinv lay (u, d) \<and> vdisk_lock u = vdisk_lock s \<and> used u = used s \<and>
    used_idx u = used_idx s + 1 \<and> pend u d = pend s d \<and> disk_abs lay (u, d) = disk_abs lay (s, d)"
proof -
  note iv = vinvD [OF inv]
  let ?g = "\<lambda>i. unat (ue_id (ua_elems (used s) ! i))"
  let ?h = "?g (unat (used_idx s mod 8))"
  have uns: "unseen s = ?h # ring ?g (used_idx s + 1) (ua_idx (used s))"
    unfolding unseen_def by (rule ring_pop [OF ne])
  have qd: "distinct (pend s d @ dv_work d @ unseen s)" using queue_distinct [OF inv] .
  have qs: "set (pend s d @ dv_work d @ unseen s) = heads s" using iv(4) by (simp add: queue_ok_def)
  have "?h \<in> set (pend s d @ dv_work d @ unseen s)" using uns by simp
  then obtain p b wr idx where r: "frames s p = WaitData b wr idx" "?h = idx ! 0" "disk_flag s b" "request_ok lay s p b wr idx"
    by (rule queue_head [OF inv])
  obtain i j k where idx: "idx = [i, j, k]" "i < NUM" by (rule request_idx [OF r(4)])
  have h: "?h = i" using r(2) idx(1) by simp
  define u where "u = s\<lparr>disk_flag := (disk_flag s)(b := False),
    sleeping := (\<lambda>p. if sleeping s p = Some (ChanBuf b) then None else sleeping s p), used_idx := used_idx s + 1\<rparr>"
  have eq: "intr_one lay s = Inr u"
    using r(4) idx h by (simp add: intr_one_def Let_def request_ok_def wake_chan_def u_def cong: if_cong)
  have fields: "frames u = frames s" "disk_flag u = (disk_flag s)(b := False)" "vfree u = vfree s" "bnum u = bnum s" "dma u = dma s"
    "sleeping u = (\<lambda>p. if sleeping s p = Some (ChanBuf b) then None else sleeping s p)" "pend u d = pend s d"
    "unseen u = ring ?g (used_idx s + 1) (ua_idx (used s))" "used u = used s" "used_idx u = used_idx s + 1" "vdisk_lock u = vdisk_lock s"
    by (simp_all add: u_def pend_def unseen_def)
  have "request_ok lay u q c w x = request_ok lay s q c w x" for q c w x by (simp add: request_ok_def u_def)
  then have "frames_ok lay u" using iv(2) by (simp add: frames_ok_def fields)
  moreover have "shape_ok u d" using iv(1) by (simp add: shape_ok_def u_def)
  moreover have "owners_ok u" using iv(3) by (simp add: owners_ok_def fields)
  moreover have "heads u = heads s - {i}"
  proof (intro subset_antisym subsetI)
    fix x assume "x \<in> heads u"
    then obtain q c w y where q: "frames s q = WaitData c w y" "disk_flag u c" "x = y ! 0" by (rule headsE) (simp add: fields)
    then have c: "c \<noteq> b" "disk_flag s c" by (auto simp: fields split: if_splits)
    then have "q \<noteq> p" using q(1) r(1) by auto
    obtain y0 y1 y2 where y: "y = [y0, y1, y2]" by (rule request_idx [OF frames_okD(3) [OF iv(2) q(1)]])
    have "x \<noteq> i" using request_disjoint [OF inv q(1) r(1) \<open>q \<noteq> p\<close>] y idx q(3) by auto
    then show "x \<in> heads s - {i}" using headsI [OF q(1) c(2)] q(3) by simp
  next
    fix x assume x: "x \<in> heads s - {i}"
    then have "x \<in> heads s" by simp
    then obtain q c w y where q: "frames s q = WaitData c w y" "disk_flag s c" "x = y ! 0" by (rule headsE)
    have "q \<noteq> p" using q(1,3) r(1) x idx by auto
    then have "c \<noteq> b" using frames_okD(2) [OF iv(2), of q c p] q(1) r(1) by auto
    then show "x \<in> heads u" using headsI [of u q c w y] q by (simp add: fields)
  qed
  then have "queue_ok u d" using qd qs unfolding queue_ok_def fields uns h by auto
  moreover have "sleep_ok u"
    unfolding sleep_ok_def
  proof (intro allI impI)
    fix q c assume "sleeping u q = Some c"
    then have c: "sleeping s q = Some c" "c \<noteq> ChanBuf b" by (auto simp: fields split: if_splits)
    then have "sleep_why s (frames s q) c" using iv(5) unfolding sleep_ok_def by simp
    moreover have "free_set u = free_set s" by (simp add: free_set_def fields)
    ultimately show "sleep_why u (frames u q) c" using c(2) by (auto simp: fields sleep_why_def split: frame.splits)
  qed
  ultimately have "vinv lay (u, d)" by (simp add: vinv_def)
  moreover have "disk_abs lay (u, d) = disk_abs lay (s, d)" by (simp add: disk_abs_def fields cong: if_cong)
  ultimately show ?thesis using eq fields(7,9-11) by blast
qed

lemma intr_loop_ok:
  assumes "vinv lay (s, d)" "unat (ua_idx (used s) - used_idx s) \<le> fuel"
  shows "\<exists>u. intr_loop lay fuel s = Inr u \<and> vinv lay (u, d) \<and> vdisk_lock u = vdisk_lock s \<and> used_idx u = ua_idx (used u) \<and>
    pend u d = pend s d \<and> disk_abs lay (u, d) = disk_abs lay (s, d)"
  using assms
proof (induction fuel arbitrary: s)
  case 0
  then show ?case by (simp add: unat_eq_0)
next
  case (Suc fuel)
  show ?case
  proof (cases "used_idx s = ua_idx (used s)")
    case True
    then show ?thesis using Suc.prems by auto
  next
    case False
    obtain t where t: "intr_one lay s = Inr t" "vinv lay (t, d)" "vdisk_lock t = vdisk_lock s" "used t = used s"
      "used_idx t = used_idx s + 1" "pend t d = pend s d" "disk_abs lay (t, d) = disk_abs lay (s, d)"
      using intr_one_ok [OF Suc.prems(1) False] by blast
    have "unat (ua_idx (used t) - used_idx t) \<le> fuel"
      using unat_pred16 [OF False] Suc.prems(2) unfolding t(4,5) by simp
    from Suc.IH [OF t(2) this] show ?thesis using t False by auto
  qed
qed

text \<open>The invariant and the specification do not see the lock and the registers.\<close>

lemma vinv_lock [simp]:
  "vinv lay (s\<lparr>vdisk_lock := l\<rparr>, d) = vinv lay (s, d)"
  "vinv lay (s\<lparr>intr_status := r\<rparr>, d) = vinv lay (s, d)"
  by (simp_all add: vinv_def shape_ok_def frames_ok_def request_ok_def owners_ok_def queue_ok_def heads_def sleep_ok_def
      sleep_why_def free_set_def pend_def unseen_def cong: frame.case_cong)

lemma abs_lock [simp]:
  "disk_abs lay (s\<lparr>vdisk_lock := l\<rparr>, d) = disk_abs lay (s, d)"
  "disk_abs lay (s\<lparr>intr_status := r\<rparr>, d) = disk_abs lay (s, d)"
  by (simp_all add: disk_abs_def pend_def cong: if_cong)

lemma take_vlock_ok:
  assumes "unlocked (s, d)"
  obtains l where "take_vlock s = Inr (s\<lparr>vdisk_lock := l\<rparr>)" "spinlock_holding 0 l"
  using lock_take_free [of "vdisk_lock s" 0] assms
  by (auto simp: take_vlock_def unlocked_def spinlock_holding_def)

lemma virtio_disk_intr_ok:
  assumes "vinv lay (s, d)" "unlocked (s, d)"
  shows "\<exists>u. virtio_disk_intr lay s = Inr u \<and> vinv lay (u, d) \<and> unlocked (u, d) \<and> unseen u = [] \<and>
    pend u d = pend s d \<and> disk_abs lay (u, d) = disk_abs lay (s, d)"
proof -
  obtain l where l: "take_vlock s = Inr (s\<lparr>vdisk_lock := l\<rparr>)" "spinlock_holding 0 l" by (rule take_vlock_ok [OF assms(2)])
  let ?s = "s\<lparr>vdisk_lock := l, intr_status := intr_status s AND NOT (intr_status s AND 3)\<rparr>"
  have "vinv lay (?s, d)" using assms(1) by simp
  from intr_loop_ok [OF this order_refl] obtain u where u:
    "intr_loop lay (unat (ua_idx (used ?s) - used_idx ?s)) ?s = Inr u" "vinv lay (u, d)" "vdisk_lock u = l"
    "used_idx u = ua_idx (used u)" "pend u d = pend s d" "disk_abs lay (u, d) = disk_abs lay (s, d)" by (auto simp: pend_def)
  obtain l' where l': "lock_drop 0 l = Inr l'" "\<not> locked l'" using l(2) by (auto simp: lock_drop_def)
  have "virtio_disk_intr lay s = Inr (u\<lparr>vdisk_lock := l'\<rparr>)"
    using l(1) l'(1) u(1,3) by (simp add: virtio_disk_intr_def)
  then show ?thesis using u l'(2) by (auto simp: unlocked_def unseen_def pend_def)
qed

section \<open>The device\<close>

lemma header_read:
  assumes "load_bytes m a 16 = outhdr wr sec"
  shows "(le_word (load_bytes m a 4) :: u32) = (if wr then VIRTIO_BLK_T_OUT else VIRTIO_BLK_T_IN)"
    and "(le_word (load_bytes m (a + 8) 8) :: u64) = sec"
proof -
  let ?t = "le_bytes 4 (if wr then VIRTIO_BLK_T_OUT else VIRTIO_BLK_T_IN)"
  have "load_bytes m a 4 @ load_bytes m (a + 4) 4 @ load_bytes m (a + 8) 8 = outhdr wr sec"
    using load_bytes_append [of m a 4 12] load_bytes_append [of m "a + 4" 4 8] assms by (simp add: add.commute)
  then have "load_bytes m a 4 = ?t \<and> load_bytes m (a + 4) 4 = le_bytes 4 (0 :: u32) \<and> load_bytes m (a + 8) 8 = le_bytes 8 sec"
    unfolding outhdr_def by simp
  then show "(le_word (load_bytes m a 4) :: u32) = (if wr then VIRTIO_BLK_T_OUT else VIRTIO_BLK_T_IN)"
    "(le_word (load_bytes m (a + 8) 8) :: u64) = sec" by simp_all
qed

lemma read_sectors_2: "read_sectors f sec 2 = f sec @ f (sec + 1)"
  by (simp add: read_sectors_def numeral_2_eq_2)

lemma unat_sector:
  assumes "unat n < 2 ^ 31" "k < 2"
  shows "unat (sector_of n + of_nat k) = 2 * unat n + k"
proof -
  have "unat n * unat (2 :: u32) < 2 ^ LENGTH(32)" using assms(1) by simp
  from iffD1 [OF unat_mult_lem this] have "unat (n * 2) = 2 * unat n" by simp
  then have s: "unat (sector_of n) = 2 * unat n" by (simp add: sector_of_def)
  have k: "unat (of_nat k :: u64) = k" using assms(2) by (intro unat_of_nat64) simp
  have "unat (sector_of n) + unat (of_nat k :: u64) < 2 ^ LENGTH(64)" using s k assms by simp
  from iffD1 [OF unat_add_lem this] show ?thesis using s k by simp
qed

lemma sectors_other:
  assumes "unat n < 2 ^ 31" "unat m < 2 ^ 31" "n \<noteq> m" "k < 2"
  shows "\<not> unat (sector_of n + of_nat k - sector_of m) < 2"
proof
  let ?e = "unat (sector_of n + of_nat k - sector_of m)"
  assume e: "?e < 2"
  have "sector_of n + of_nat k = sector_of m + of_nat ?e" by simp
  then have "unat (sector_of n + of_nat k) = unat (sector_of m + of_nat ?e)" by (rule arg_cong)
  then have "2 * unat n + k = 2 * unat m + ?e" by (simp only: unat_sector [OF assms(1,4)] unat_sector [OF assms(2) e])
  then have "unat n = unat m" using assms(4) e by presburger
  then show False using assms(3) by (simp add: word_unat_eq_iff)
qed

lemma read_written_block:
  assumes "unat n < 2 ^ 31" "unat m < 2 ^ 31" "length bs = BLOCK_SIZE"
  shows "read_sectors (write_sectors f (sector_of m) bs) (sector_of n) 2 =
    (if n = m then bs else read_sectors f (sector_of n) 2)"
proof (cases "n = m")
  case True
  have "slice 0 512 bs @ slice (0 + 512) 512 bs = slice 0 (512 + 512) bs" by (rule slice_append_slice)
  then have "slice 0 512 bs @ slice 512 512 bs = bs" using assms(3) by simp
  then show ?thesis using True assms(3) by (simp add: read_sectors_2 write_sectors_def)
next
  case False
  have "write_sectors f (sector_of m) bs (sector_of n + of_nat k) = f (sector_of n + of_nat k)" if "k < 2" for k
    using sectors_other [OF assms(1,2) False that] assms(3) by (simp add: write_sectors_def)
  from this [of 0] this [of 1] show ?thesis using False by (simp add: read_sectors_2)
qed

lemma length_write_sectors:
  assumes "\<forall>x. length (f x) = 512" "length bs = BLOCK_SIZE"
  shows "length (write_sectors f sec bs x) = 512"
proof (cases "unat (x - sec) < 2")
  case True
  then have "512 * unat (x - sec) + 512 \<le> length bs" using assms(2) by simp
  then show ?thesis using True assms(2) by (simp add: write_sectors_def)
next
  case False
  then show ?thesis using assms by (simp add: write_sectors_def)
qed

lemma dev_take_ok:
  assumes inv: "vinv lay (s, d)" and ne: "avail s ! 1 \<noteq> dv_taken d"
  shows "vinv lay (dev_take (s, d))" "disk_abs lay (dev_take (s, d)) = disk_abs lay (s, d)"
proof -
  note iv = vinvD [OF inv]
  let ?g = "\<lambda>i. unat (avail s ! (2 + i))"
  let ?h = "?g (unat (dv_taken d mod 8))"
  have pend: "pend s d = ?h # ring ?g (dv_taken d + 1) (avail s ! 1)"
    unfolding pend_def by (rule ring_pop) (use ne in auto)
  define e where "e = d\<lparr>dv_taken := dv_taken d + 1, dv_work := dv_work d @ [?h]\<rparr>"
  have eq: "dev_take (s, d) = (s, e)" by (simp add: dev_take_def e_def)
  have e: "pend s e = ring ?g (dv_taken d + 1) (avail s ! 1)" "dv_work e = dv_work d @ [?h]" "sectors e = sectors d"
    by (simp_all add: e_def pend_def)
  have "queue_ok s e" using iv(4) unfolding queue_ok_def e pend by auto
  then show "vinv lay (dev_take (s, d))" using iv unfolding eq by (simp add: vinv_def shape_ok_def e)
  have "set (pend s e @ dv_work e) = set (pend s d @ dv_work d)" unfolding e pend by auto
  then have "acall_of (pend s e @ dv_work e) k = acall_of (pend s d @ dv_work d) k" for k by (cases k) simp_all
  then show "disk_abs lay (dev_take (s, d)) = disk_abs lay (s, d)" unfolding eq by (simp add: disk_abs_def e(3) cong: if_cong)
qed

text \<open>The memory after the device has completed the request of a process.\<close>

definition dma_done :: "vlayout \<Rightarrow> vdisk \<Rightarrow> vdev \<Rightarrow> nat \<Rightarrow> bool \<Rightarrow> nat \<Rightarrow> mem" where
  "dma_done lay s d b wr i =
     (if wr then dma s else store_bytes (dma s) (data_addr lay b) (read_sectors (sectors d) (sector_of (bnum s b)) 2))
       (status_addr lay i := 0)"

definition sectors_done :: "vlayout \<Rightarrow> vdisk \<Rightarrow> vdev \<Rightarrow> nat \<Rightarrow> bool \<Rightarrow> u64 \<Rightarrow> byte list" where
  "sectors_done lay s d b wr =
     (if wr then write_sectors (sectors d) (sector_of (bnum s b)) (load_bytes (dma s) (data_addr lay b) BLOCK_SIZE) else sectors d)"

lemma dma_done_simps:
  assumes lay: "layout_ok lay" and b: "b < N_BLOCK_BUF" and i: "i < NUM" and sz: "\<forall>x. length (sectors d x) = 512"
  shows "q < NPROC \<Longrightarrow> load_bytes (dma_done lay s d b wr i) (hdr_pa lay q) 16 = load_bytes (dma s) (hdr_pa lay q) 16"
    and "x < NUM \<Longrightarrow> x \<noteq> i \<Longrightarrow> dma_done lay s d b wr i (status_addr lay x) = dma s (status_addr lay x)"
    and "dma_done lay s d b wr i (status_addr lay i) = 0"
    and "c < N_BLOCK_BUF \<Longrightarrow> load_bytes (dma_done lay s d b wr i) (data_addr lay c) BLOCK_SIZE =
      (if c = b \<and> \<not> wr then read_sectors (sectors d) (sector_of (bnum s b)) 2 else load_bytes (dma s) (data_addr lay c) BLOCK_SIZE)"
proof -
  let ?bs = "read_sectors (sectors d) (sector_of (bnum s b)) 2"
  have len: "length ?bs = BLOCK_SIZE" using sz by (simp add: read_sectors_2)
  show "load_bytes (dma_done lay s d b wr i) (hdr_pa lay q) 16 = load_bytes (dma s) (hdr_pa lay q) 16" if q: "q < NPROC"
  proof -
    have "apart (data_addr lay b) (length ?bs) (hdr_pa lay q) 16" "apart (status_addr lay i) 1 (hdr_pa lay q) 16"
      using layoutD(3) [OF lay q b] layoutD(4) [OF lay q i] len by (simp_all add: apart_sym)
    then show ?thesis using len by (simp add: dma_done_def load_upd_apart load_store_apart)
  qed
  show "dma_done lay s d b wr i (status_addr lay x) = dma s (status_addr lay x)" if x: "x < NUM" "x \<noteq> i"
  proof -
    have "apart (data_addr lay b) (length ?bs) (status_addr lay x) 1" using layoutD(6) [OF lay b x(1)] len by simp
    moreover have "status_addr lay x \<noteq> status_addr lay i" using status_addr_inj [OF x(1) i] x(2) by simp
    ultimately show ?thesis using len by (simp add: dma_done_def store_bytes_apart_at)
  qed
  show "dma_done lay s d b wr i (status_addr lay i) = 0" by (simp add: dma_done_def)
  show "load_bytes (dma_done lay s d b wr i) (data_addr lay c) BLOCK_SIZE =
      (if c = b \<and> \<not> wr then ?bs else load_bytes (dma s) (data_addr lay c) BLOCK_SIZE)" if c: "c < N_BLOCK_BUF"
  proof -
    have "apart (status_addr lay i) 1 (data_addr lay c) BLOCK_SIZE" using layoutD(6) [OF lay c i] by (simp add: apart_sym)
    moreover have "c \<noteq> b \<Longrightarrow> apart (data_addr lay b) (length ?bs) (data_addr lay c) BLOCK_SIZE" using layoutD(5) [OF lay b c] len by simp
    ultimately show ?thesis using len by (simp add: dma_done_def load_upd_apart load_store_apart load_store_bytes)
  qed
qed

lemma unseen_push:
  assumes "length (ua_elems (used s)) = NUM" "length (unseen s) < 8" "h < NUM" "used_idx u = used_idx s"
    "used u = (used s)\<lparr>ua_elems := (ua_elems (used s))[unat (ua_idx (used s) mod 8) := \<lparr>ue_id = of_nat h, ue_len = len\<rparr>],
      ua_idx := ua_idx (used s) + 1\<rparr>"
  shows "unseen u = unseen s @ [h]"
proof -
  let ?a = "ua_idx (used s)"
  let ?g = "\<lambda>i. unat (ue_id (ua_elems (used s) ! i))"
  have uh: "unat (of_nat h :: u32) = h" using assms(3) by (simp add: unat_of_nat take_bit_nat_eq_self)
  have "ring (\<lambda>i. unat (ue_id (ua_elems (used u) ! i))) (used_idx s) (?a + 1) = ring (?g(unat (?a mod 8) := h)) (used_idx s) (?a + 1)"
    by (rule ring_cong) (use assms(1) uh in \<open>simp add: assms(5) nth_list_update\<close>)
  also have "\<dots> = ring ?g (used_idx s) ?a @ [h]"
    by (rule ring_push) (use assms(2) in \<open>simp add: unseen_def\<close>)
  finally show ?thesis by (simp add: unseen_def assms(4,5))
qed

lemma dev_complete_ok:
  assumes lay: "layout_ok lay" and inv: "vinv lay (s, d)" and h: "h \<in> set (dv_work d)"
  shows "vinv lay (dev_complete h len (s, d))"
    and "\<exists>p b wr. acalls (disk_abs lay (s, d)) p = Requested b wr \<and> disk_abs lay (dev_complete h len (s, d)) =
      transfer b wr ((disk_abs lay (s, d))\<lparr>acalls := (acalls (disk_abs lay (s, d)))(p := Performed b wr)\<rparr>)"
proof -
  note iv = vinvD [OF inv]
  have qd: "distinct (pend s d @ dv_work d @ unseen s)" using queue_distinct [OF inv] .
  have "h \<in> set (pend s d @ dv_work d @ unseen s)" using h by simp
  then obtain p b wr idx where r: "frames s p = WaitData b wr idx" "h = idx ! 0" "disk_flag s b" "request_ok lay s p b wr idx"
    by (rule queue_head [OF inv])
  obtain i j k where idx: "idx = [i, j, k]" "i < NUM" "j < NUM" "k < NUM" by (rule request_idx [OF r(4)])
  have hi: "h = i" using r(2) idx(1) by simp
  have pb: "p < NPROC" "b < N_BLOCK_BUF" "unat (bnum s b) < 2 ^ 31" using frames_okD(1) [OF iv(2), of p b] r(1) by auto
  have sz: "\<forall>x. length (sectors d x) = 512" using iv(1) by (simp add: shape_ok_def)
  note dd = dma_done_simps [OF lay pb(2) idx(2) sz, where s = s and wr = wr]
  define u where "u = s\<lparr>dma := dma_done lay s d b wr i,
    used := (used s)\<lparr>ua_elems := (ua_elems (used s))[unat (ua_idx (used s) mod 8) := \<lparr>ue_id = of_nat h, ue_len = len\<rparr>],
      ua_idx := ua_idx (used s) + 1\<rparr>, intr_status := intr_status s OR 1\<rparr>"
  define e where "e = d\<lparr>sectors := sectors_done lay s d b wr, dv_work := remove1 h (dv_work d)\<rparr>"
  have un: "unat (of_nat n :: u16) = n" if "n < NUM" for n using that by (simp add: unat_of_nat take_bit_nat_eq_self)
  have hd: "load_bytes (dma s) (hdr_pa lay p) 16 = outhdr wr (sector_of (bnum s b))" using r(4) by (simp add: request_ok_def)
  have eq: "dev_complete h len (s, d) = (u, e)"
    using r(4) idx hi un header_read [OF hd]
    by (simp add: dev_complete_def Let_def request_ok_def u_def e_def dma_done_def sectors_done_def)
  have fields: "frames u = frames s" "disk_flag u = disk_flag s" "vfree u = vfree s" "bnum u = bnum s" "dma u = dma_done lay s d b wr i"
    "sleeping u = sleeping s" "pend u e = pend s d" "desc u = desc s" "info_b u = info_b s" "dv_work e = remove1 h (dv_work d)"
    "sectors e = sectors_done lay s d b wr" by (simp_all add: u_def e_def pend_def)
  have "length (unseen s) < 8"
    by (rule queue_short [OF inv, of i]) (use qd h hi idx in auto)
  then have uns: "unseen u = unseen s @ [h]"
    by (intro unseen_push) (use iv(1) hi idx in \<open>simp_all add: shape_ok_def u_def\<close>)
  have sz': "length (sectors_done lay s d b wr x) = 512" for x
    using sz by (simp add: sectors_done_def length_write_sectors)
  have "shape_ok u e" using iv(1) sz' by (simp add: shape_ok_def u_def e_def)
  moreover have "frames_ok lay u"
  proof -
    have "request_ok lay u q c w x" if f: "frames s q = WaitData c w x" for q c w x
    proof -
      note rr = frames_okD(3) [OF iv(2) f]
      obtain x0 x1 x2 where x: "x = [x0, x1, x2]" "x0 < NUM" by (rule request_idx [OF rr])
      have "q < NPROC" using frames_okD(1) [OF iv(2), of q c] f by simp
      moreover have "dma u (status_addr lay x0) = 0 \<and> dma s (status_addr lay x0) = 0"
        using rr dd(2) [OF x(2)] dd(3) x(1) by (cases "x0 = i") (simp_all add: request_ok_def fields)
      ultimately show ?thesis by (intro request_ok_cong [OF rr]) (simp_all add: fields dd(1) x(1))
    qed
    then show ?thesis using iv(2) by (simp add: frames_ok_def fields)
  qed
  moreover have "owners_ok u" using iv(3) by (simp add: owners_ok_def fields)
  moreover have "heads u = heads s" by (simp add: heads_def fields)
  then have "queue_ok u e" using iv(4) h unfolding queue_ok_def fields uns by (auto simp: set_remove1_eq)
  moreover have "sleep_why u = sleep_why s" by (rule sleep_why_cong) (simp_all add: fields free_set_def)
  then have "sleep_ok u" using iv(5) by (simp add: sleep_ok_def fields)
  ultimately show "vinv lay (dev_complete h len (s, d))" unfolding eq by (simp add: vinv_def)
  have req: "acalls (disk_abs lay (s, d)) p = Requested b wr" using r(1,2) h by (simp add: disk_abs_def)
  have calls: "acall_of (pend u e @ dv_work e) (frames u q) =
      ((\<lambda>q. acall_of (pend s d @ dv_work d) (frames s q))(p := Performed b wr)) q" for q
  proof (cases "q = p")
    case True
    then show ?thesis using r(1,2) qd h by (auto simp: fields set_remove1_eq)
  next
    case False
    have "x ! 0 \<noteq> h" if f: "frames s q = WaitData c w x" for c w x
    proof -
      obtain x0 x1 x2 where x: "x = [x0, x1, x2]" by (rule request_idx [OF frames_okD(3) [OF iv(2) f]])
      show ?thesis using request_disjoint [OF inv f r(1) False] x idx(1) hi by auto
    qed
    then show ?thesis using False qd by (cases "frames s q") (auto simp: fields set_remove1_eq)
  qed
  have blk: "read_sectors (sectors e) (sector_of n) 2 =
      (if wr \<and> n = bnum s b then load_bytes (dma s) (data_addr lay b) BLOCK_SIZE else read_sectors (sectors d) (sector_of n) 2)"
    if "unat n < 2 ^ 31" for n
    using read_written_block [OF that pb(3), of "load_bytes (dma s) (data_addr lay b) BLOCK_SIZE" "sectors d"]
    by (auto simp: fields sectors_done_def)
  have "disk_abs lay (u, e) = transfer b wr ((disk_abs lay (s, d))\<lparr>acalls := (acalls (disk_abs lay (s, d)))(p := Performed b wr)\<rparr>)"
  proof (cases wr)
    case True
    then show ?thesis using calls blk dd(4) pb
      by (auto simp: disk_abs_def transfer_def fields(4,5) fun_eq_iff)
  next
    case False
    then show ?thesis using calls blk dd(4) pb
      by (auto simp: disk_abs_def transfer_def fields(4,5) fun_eq_iff)
  qed
  then show "\<exists>p b wr. acalls (disk_abs lay (s, d)) p = Requested b wr \<and> disk_abs lay (dev_complete h len (s, d)) =
      transfer b wr ((disk_abs lay (s, d))\<lparr>acalls := (acalls (disk_abs lay (s, d)))(p := Performed b wr)\<rparr>)"
    using req unfolding eq by blast
qed

section \<open>Every step\<close>

lemma virtio_disk_rw_ok:
  assumes lay: "layout_ok lay" and inv: "vinv lay (s, d)" and ul: "unlocked (s, d)"
    and fr: "frames s p = Outside" and p: "p < NPROC" and b: "b < N_BLOCK_BUF" "unused_buf s b" "unat (bnum s b) < 2 ^ 31"
  shows "\<exists>u. virtio_disk_rw lay p b wr s = Inr u \<and> vinv lay (u, d) \<and> unlocked (u, d) \<and>
    acalls (disk_abs lay (u, d)) p = Requested b wr \<and> astep (disk_abs lay (s, d)) (disk_abs lay (u, d))"
proof -
  obtain l where l: "take_vlock s = Inr (s\<lparr>vdisk_lock := l\<rparr>)" "spinlock_holding 0 l" by (rule take_vlock_ok [OF ul])
  have "sleeping s p = None"
    using sleepD [OF vinvD(5) [OF inv], of p] fr by (cases "sleeping s p") (auto simp: sleep_why_def)
  moreover have "in_call lay (s\<lparr>vdisk_lock := l\<rparr>) d p b wr"
    using inv l(2) fr p b by (simp add: in_call_def unused_buf_def)
  ultimately obtain u where u: "rw_start lay p b wr (s\<lparr>vdisk_lock := l\<rparr>) = Inr u" "vinv lay (u, d)" "unlocked (u, d)"
    "disk_abs lay (u, d) = (disk_abs lay (s, d))\<lparr>acalls := (acalls (disk_abs lay (s, d)))(p := Requested b wr)\<rparr>"
    using rw_start_ok [OF lay, of "s\<lparr>vdisk_lock := l\<rparr>" d p b wr] by auto
  have "acalls (disk_abs lay (s, d)) p = Idle" using fr by (simp add: disk_abs_def)
  then have "astep (disk_abs lay (s, d)) (disk_abs lay (u, d))" unfolding u(4) by (rule a_request)
  then show ?thesis using u l(1) by (simp add: virtio_disk_rw_def)
qed

lemma rw_resume_ok:
  assumes lay: "layout_ok lay" and inv: "vinv lay (s, d)" and ul: "unlocked (s, d)"
    and fr: "frames s p \<noteq> Outside" and sl: "sleeping s p = None"
  shows "\<exists>u. rw_resume lay p s = Inr u \<and> vinv lay (u, d) \<and> unlocked (u, d) \<and>
    (disk_abs lay (u, d) = disk_abs lay (s, d) \<or> astep (disk_abs lay (s, d)) (disk_abs lay (u, d)))"
proof -
  obtain l where l: "take_vlock s = Inr (s\<lparr>vdisk_lock := l\<rparr>)" "spinlock_holding 0 l" by (rule take_vlock_ok [OF ul])
  let ?s = "s\<lparr>vdisk_lock := l\<rparr>"
  note fo = frames_okD [OF vinvD(2) [OF inv]]
  show ?thesis
  proof (cases "frames s p")
    case Outside
    then show ?thesis using fr by simp
  next
    case (WaitDesc b wr)
    have "in_call lay ?s d p b wr"
      using inv l(2) WaitDesc fo(1) [of p b] fo(2) [of p b] by (simp add: in_call_def)
    with rw_start_ok [OF lay this] sl obtain u where u: "rw_start lay p b wr ?s = Inr u" "vinv lay (u, d)" "unlocked (u, d)"
      "disk_abs lay (u, d) = (disk_abs lay (s, d))\<lparr>acalls := (acalls (disk_abs lay (s, d)))(p := Requested b wr)\<rparr>" by auto
    have "(acalls (disk_abs lay (s, d)))(p := Requested b wr) = acalls (disk_abs lay (s, d))"
      by (rule fun_upd_idem) (use WaitDesc in \<open>simp add: disk_abs_def\<close>)
    then have "disk_abs lay (u, d) = disk_abs lay (s, d)" unfolding u(4) by (simp only:) simp
    then show ?thesis using u l(1) WaitDesc by (simp add: rw_resume_def)
  next
    case (WaitData b wr idx)
    have f: "frames ?s p = WaitData b wr idx" "vinv lay (?s, d)" "spinlock_holding 0 (vdisk_lock ?s)" using WaitData inv l(2) by simp_all
    show ?thesis
    proof (cases "disk_flag s b")
      case True
      then show ?thesis using wait_again [OF f(2,3,1)] l(1) WaitData by (auto simp: rw_resume_def)
    next
      case False
      then obtain u where u: "rw_wait p b wr idx ?s = Inr u" "vinv lay (u, d)" "unlocked (u, d)"
        "disk_abs lay (u, d) = (disk_abs lay (s, d))\<lparr>acalls := (acalls (disk_abs lay (s, d)))(p := Idle)\<rparr>"
        "acalls (disk_abs lay (s, d)) p = Performed b wr"
        using wait_done [OF f(2,3,1)] by auto
      have "astep (disk_abs lay (s, d)) (disk_abs lay (u, d))" unfolding u(4) by (rule a_return [OF u(5)])
      then show ?thesis using u l(1) WaitData by (simp add: rw_resume_def)
    qed
  qed
qed

lemma edit_ok:
  fixes n :: u32
  assumes lay: "layout_ok lay" and inv: "vinv lay (s, d)" and b: "b < N_BLOCK_BUF" "unused_buf s b" "length bs = BLOCK_SIZE"
  defines "u \<equiv> s\<lparr>bnum := (bnum s)(b := n), dma := store_bytes (dma s) (data_addr lay b) bs\<rparr>"
  shows "vinv lay (u, d)" "astep (disk_abs lay (s, d)) (disk_abs lay (u, d))"
proof -
  note iv = vinvD [OF inv]
  have fields: "frames u = frames s" "disk_flag u = disk_flag s" "vfree u = vfree s" "bnum u = (bnum s)(b := n)"
    "dma u = store_bytes (dma s) (data_addr lay b) bs" "sleeping u = sleeping s" "pend u d = pend s d" "unseen u = unseen s"
    by (simp_all add: u_def pend_def unseen_def)
  have nb: "c \<noteq> b" if "frame_buf (frames s q) = Some c" for q c using that b(2) by (auto simp: unused_buf_def)
  have "request_ok lay u q c w x" if f: "frames s q = WaitData c w x" for q c w x
  proof (rule request_ok_cong [OF frames_okD(3) [OF iv(2) f]])
    have c: "c \<noteq> b" "q < NPROC" using nb [of q c] frames_okD(1) [OF iv(2), of q c] f by simp_all
    obtain x0 x1 x2 where x: "x = [x0, x1, x2]" "x0 < NUM" by (rule request_idx [OF frames_okD(3) [OF iv(2) f]])
    show "load_bytes (dma u) (hdr_pa lay q) 16 = load_bytes (dma s) (hdr_pa lay q) 16"
      using layoutD(3) [OF lay c(2) b(1)] b(3) by (simp add: fields load_store_apart apart_sym)
    show "dma u (status_addr lay (x ! 0)) = dma s (status_addr lay (x ! 0))"
      using layoutD(6) [OF lay b(1) x(2)] b(3) x(1) by (simp add: fields store_bytes_apart_at)
    show "bnum u c = bnum s c" using c by (simp add: fields)
  qed (simp_all add: u_def)
  then have "frames_ok lay u"
    using iv(2) nb unfolding frames_ok_def fields by auto
  moreover have "shape_ok u d" using iv(1) by (simp add: shape_ok_def u_def)
  moreover have "owners_ok u" "queue_ok u d" using iv(3,4) by (simp_all add: owners_ok_def queue_ok_def heads_def fields)
  moreover have "sleep_why u = sleep_why s" by (rule sleep_why_cong) (simp_all add: fields free_set_def)
  then have "sleep_ok u" using iv(5) by (simp add: sleep_ok_def fields)
  ultimately show "vinv lay (u, d)" by (simp add: vinv_def)
  have ap: "load_bytes (store_bytes (dma s) (data_addr lay b) bs) (data_addr lay c) BLOCK_SIZE =
      (if c = b then bs else load_bytes (dma s) (data_addr lay c) BLOCK_SIZE)" if "c < N_BLOCK_BUF" for c
    using layoutD(5) [OF lay b(1) that] b(3) by (auto simp: load_store_bytes load_store_apart)
  have eq: "disk_abs lay (u, d) = (disk_abs lay (s, d))\<lparr>abuf := (abuf (disk_abs lay (s, d)))(b := bs), anum := (anum (disk_abs lay (s, d)))(b := n)\<rparr>"
    using ap b(1) by (auto simp: disk_abs_def fields fun_eq_iff)
  show "astep (disk_abs lay (s, d)) (disk_abs lay (u, d))"
    unfolding eq
  proof (rule a_edit, intro allI)
    fix p wr
    show "acalls (disk_abs lay (s, d)) p \<noteq> Requested b wr \<and> acalls (disk_abs lay (s, d)) p \<noteq> Performed b wr"
      using nb [of p] by (cases "frames s p") (auto simp: disk_abs_def)
  qed
qed

lemma vstart_ok:
  assumes "vstart lay (s, d)"
  shows "vinv lay (s, d)" "unlocked (s, d)"
proof -
  obtain r w z where z: "virtio_disk_init lay r z = Inr (w, s)" "used_idx z = 0" "length (info_b z) = NUM"
    "\<forall>p. frames z p = Outside \<and> sleeping z p = None" "\<forall>b. \<not> disk_flag z b"
    and d: "dv_taken d = 0" "dv_work d = []" "\<forall>x. length (sectors d x) = 512"
    using assms by (auto simp: vstart_def)
  have s: "desc s = replicate NUM \<lparr>d_addr = 0, d_len = 0, d_flags = 0, d_next = 0\<rparr>" "avail s = replicate (2 + NUM) 0"
    "used s = \<lparr>ua_flags = 0, ua_idx = 0, ua_elems = replicate NUM \<lparr>ue_id = 0, ue_len = 0\<rparr>\<rparr>"
    "vfree s = replicate NUM True" "used_idx s = 0" "info_b s = info_b z" "frames s = frames z" "sleeping s = sleeping z"
    "disk_flag s = disk_flag z" "\<not> locked (vdisk_lock s)"
    using z(1,2) by (auto simp: virtio_disk_init_def Let_def spinlock_init_def simp del: replicate.simps replicate_Suc split: if_splits)
  show "unlocked (s, d)" using s(10) by (simp add: unlocked_def)
  have fr: "frames s p = Outside" "sleeping s p = None" "\<not> disk_flag s b" for p b using s(7-9) z(4,5) by auto
  have "pend s d = []" "unseen s = []" by (simp_all add: pend_def unseen_def s(2,3,5) d(1))
  then have "queue_ok s d" using fr d(2) by (simp add: queue_ok_def heads_def)
  moreover have "shape_ok s d" using z(3) d(3) by (simp add: shape_ok_def s(1-4,6))
  moreover have "frames_ok lay s" "owners_ok s" "sleep_ok s" using fr by (simp_all add: frames_ok_def owners_ok_def sleep_ok_def s(4))
  ultimately show "vinv lay (s, d)" by (simp add: vinv_def)
qed

definition good :: "vlayout \<Rightarrow> vdisk \<times> vdev \<Rightarrow> bool" where
  "good lay x \<longleftrightarrow> vinv lay x \<and> unlocked x"

lemma device_ok:
  assumes lay: "layout_ok lay" and dev: "virtio_blk dev" and g: "good lay (s, d)" and step: "dev (s, d) y"
  shows "good lay y \<and> (disk_abs lay y = disk_abs lay (s, d) \<or> astep (disk_abs lay (s, d)) (disk_abs lay y))"
proof -
  have inv: "vinv lay (s, d)" and ul: "unlocked (s, d)" using g by (simp_all add: good_def)
  consider (take) "avail s ! 1 \<noteq> dv_taken d" "y = dev_take (s, d)"
    | (complete) h len where "h \<in> set (dv_work d)" "y = dev_complete h len (s, d)"
    using dev step unfolding virtio_blk_def by blast
  then show ?thesis
  proof cases
    case take
    have "unlocked y" using ul by (simp add: take(2) dev_take_def unlocked_def)
    then show ?thesis using dev_take_ok [OF inv take(1)] by (simp add: take(2) good_def)
  next
    case complete
    obtain p b wr where p: "acalls (disk_abs lay (s, d)) p = Requested b wr"
      "disk_abs lay y = transfer b wr ((disk_abs lay (s, d))\<lparr>acalls := (acalls (disk_abs lay (s, d)))(p := Performed b wr)\<rparr>)"
      using dev_complete_ok(2) [OF lay inv complete(1)] complete(2) by blast
    have "astep (disk_abs lay (s, d)) (disk_abs lay y)" unfolding p(2) by (rule a_perform [OF p(1)])
    moreover have "unlocked y" using ul by (simp add: complete(2) dev_complete_def Let_def unlocked_def)
    ultimately show ?thesis using dev_complete_ok(1) [OF lay inv complete(1)] by (simp add: complete(2) good_def)
  qed
qed

lemma vstep_ok:
  assumes lay: "layout_ok lay" and dev: "virtio_blk dev" and step: "vstep lay dev x y" and g: "good lay x"
  shows "good lay y \<and> (disk_abs lay y = disk_abs lay x \<or> astep (disk_abs lay x) (disk_abs lay y))"
  using step g
proof cases
  case (v_call s p b wr t d)
  then show ?thesis using virtio_disk_rw_ok [OF lay, of s d p b wr] g by (auto simp: good_def)
next
  case (v_resume s p t d)
  then show ?thesis using rw_resume_ok [OF lay, of s d p] g by (auto simp: good_def)
next
  case (v_intr s t d)
  then show ?thesis using virtio_disk_intr_ok [of lay s d] g by (auto simp: good_def)
next
  case (v_device s d)
  then show ?thesis using device_ok [OF lay dev, of s d y] g by simp
next
  case (v_edit b s bs d n)
  have "unlocked y" using g v_edit(1,2) by (simp add: good_def unlocked_def)
  then show ?thesis using edit_ok [OF lay _ v_edit(3-5), of d n] g v_edit(1,2) by (simp add: good_def)
qed

text \<open>The invariant of the driver and the device, through the contract of inductive invariants.\<close>

lemma vstart_good: "vstart lay x \<Longrightarrow> good lay x"
  using vstart_ok [of lay "fst x" "snd x"] by (cases x) (simp add: good_def)

interpretation vsys: inductive_invariant "\<lambda>x. layout_ok lay \<and> virtio_blk dev \<and> vstart lay x" "vstep lay dev"
  "\<lambda>x. layout_ok lay \<and> virtio_blk dev \<and> good lay x" for lay dev
proof (unfold_locales, goal_cases)
  case (1 s)
  then show ?case using vstart_good by blast
next
  case (2 s t)
  then show ?case using vstep_ok by blast
qed

lemma reach_good:
  assumes "layout_ok lay" "virtio_blk dev" "reach (vstart lay) (vstep lay dev) x"
  shows "good lay x"
proof -
  have "reach (\<lambda>x. layout_ok lay \<and> virtio_blk dev \<and> vstart lay x) (vstep lay dev) x"
    using assms(3) by (induction rule: reach.induct) (auto intro: reach_start reach_step assms)
  from vsys.reach_inv [OF this] show ?thesis by simp
qed

text \<open>A request that is not done is in one of the queues; a process that waits for descriptors waits for requests
  of others.\<close>

lemma queue_nonempty:
  assumes "vinv lay (s, d)" "sleeping s p = Some c" "\<forall>q. frames s q \<noteq> Outside \<longrightarrow> sleeping s q \<noteq> None"
  shows "pend s d @ dv_work d @ unseen s \<noteq> []"
proof -
  note iv = vinvD [OF assms(1)]
  have data: "heads s \<noteq> {}" if f: "frames s q = WaitData b wr idx" "sleeping s q = Some e" for q b wr idx e
  proof -
    have "disk_flag s b" using sleepD [OF iv(5) that(2)] f(1) by (simp add: sleep_why_def)
    then show ?thesis using headsI [OF f(1)] by blast
  qed
  have "heads s \<noteq> {}"
  proof (cases "frames s p")
    case Outside
    then show ?thesis using sleepD [OF iv(5) assms(2)] by (simp add: sleep_why_def)
  next
    case (WaitData b wr idx)
    then show ?thesis using data assms(2) by blast
  next
    case (WaitDesc b wr)
    then have "card (free_set s) < 3" using sleepD [OF iv(5) assms(2)] by (simp add: sleep_why_def)
    moreover have "card (free_set s) = NUM" if "free_set s = {..<NUM}" using that by simp
    ultimately have "free_set s \<noteq> {..<NUM}" by linarith
    then obtain i where i: "i < NUM" "\<not> vfree s ! i" unfolding free_set_def by blast
    then have "\<not> (\<forall>q b wr idx. frames s q = WaitData b wr idx \<longrightarrow> i \<notin> set idx)"
      using iv(3) unfolding owners_ok_def by blast
    then obtain q b' wr' idx where q: "frames s q = WaitData b' wr' idx" by blast
    then have "sleeping s q \<noteq> None" using assms(3) by simp
    then obtain e where "sleeping s q = Some e" by blast
    then show ?thesis using data q by blast
  qed
  then show ?thesis using iv(4) unfolding queue_ok_def by auto
qed

end
