(* ===== verification/Disk_Props.thy ===== *)
theory Disk_Props
  imports Disk_Refine
begin

text \<open>
  The properties of the disk driver, with a concrete machine on which they are applied: a layout, a device that
  serves the requests in order, and the first steps of a run.
\<close>

section \<open>The transfer of the buffer cache\<close>

text \<open>The state of the buffer cache as the specification of the driver sees it.\<close>

definition cache_abs :: "(nat \<Rightarrow> acall) \<Rightarrow> 'a buf_state_scheme \<Rightarrow> aspec" where
  "cache_abs c s = \<lparr>ablocks = disk s, abuf = (\<lambda>i. if i < length (bufs s) then data (bufs s ! i) else []),
     anum = (\<lambda>i. if i < length (bufs s) then block_num (bufs s ! i) else 0), acalls = c\<rparr>"

section \<open>At most two requests\<close>

definition requests :: "vdisk \<Rightarrow> nat set" where
  "requests s = {p. \<exists>b wr idx. frames s p = WaitData b wr idx}"

lemma requests_bound:
  assumes "vinv lay (s, d)"
  shows "card (requests s) \<le> 2"
proof -
  define I where "I p = (case frames s p of WaitData b wr idx \<Rightarrow> set idx | _ \<Rightarrow> {})" for p
  note fo = frames_okD [OF vinvD(2) [OF assms]]
  have r: "\<exists>b wr idx. frames s p = WaitData b wr idx \<and> I p = set idx \<and> p < NPROC" if "p \<in> requests s" for p
    using that fo(1) unfolding requests_def I_def by fastforce
  have fin: "finite (requests s)" by (rule finite_subset [of _ "{..<NPROC}"]) (use r in blast, simp)
  have sub: "(\<Union>p \<in> requests s. I p) \<subseteq> {..<NUM}"
    using r request_in_use(1) [OF assms] by blast
  have c3: "card (I p) = 3" if pr: "p \<in> requests s" for p
  proof -
    obtain b wr idx where f: "frames s p = WaitData b wr idx" "I p = set idx" using r [OF pr] by blast
    have "length idx = 3" "distinct idx" using fo(3) [OF f(1)] by (simp_all add: request_ok_def)
    then show ?thesis using f(2) by (simp add: distinct_card)
  qed
  have "card (\<Union>p \<in> requests s. I p) = (\<Sum>p \<in> requests s. card (I p))"
  proof (rule card_UN_disjoint [OF fin])
    show "\<forall>p \<in> requests s. finite (I p)" using r by (metis finite_set)
    show "\<forall>p \<in> requests s. \<forall>q \<in> requests s. p \<noteq> q \<longrightarrow> I p \<inter> I q = {}"
      using r request_disjoint [OF assms] by metis
  qed
  moreover have "card (\<Union>p \<in> requests s. I p) \<le> card {..<NUM}" by (rule card_mono [OF _ sub]) simp
  moreover have "(\<Sum>p \<in> requests s. card (I p)) = 3 * card (requests s)" using c3 by simp
  ultimately show ?thesis by simp
qed

section \<open>A concrete machine\<close>

lemma unat_diff_nat:
  assumes "a \<le> b" "b < 2 ^ 64"
  shows "unat (of_nat b - of_nat a :: u64) = b - a"
proof -
  have "(of_nat b - of_nat a :: u64) = of_nat (b - a)" using assms(1) by (simp add: of_nat_diff)
  then show ?thesis using assms(2) by (simp add: unat_of_nat64)
qed

lemma apart_nat:
  assumes "a + n \<le> b" "b + m < 2 ^ 64" "0 < n"
  shows "apart (of_nat a) n (of_nat b) m" "apart (of_nat b) m (of_nat a) n"
proof -
  have "unat (of_nat a :: u64) = a" "unat (of_nat b :: u64) = b" using assms by (intro unat_of_nat64, simp)+
  then have ne: "(of_nat a :: u64) \<noteq> of_nat b" using assms by auto
  have "unat (of_nat b - of_nat a :: u64) = b - a" using assms by (intro unat_diff_nat) auto
  moreover from this have "unat (of_nat a - of_nat b :: u64) = 2 ^ 64 - (b - a)" using unat_diff_sum [OF ne] by simp
  ultimately show "apart (of_nat a) n (of_nat b) m" using assms unfolding apart_def by linarith
  then show "apart (of_nat b) m (of_nat a) n" by (simp add: apart_sym)
qed

definition wit_kpm :: pmem where
  "wit_kpm = \<lparr>mem = (\<lambda>a. if a = 0x1000 then 1 else if a = 0x1001 then 4 else 0),
     kern_region = \<lparr>r_begin = 0, r_end = 0, allocable = 0, list_head = 0\<rparr>,
     user_region = \<lparr>r_begin = 0, r_end = 0, allocable = 0, list_head = 0\<rparr>\<rparr>"

definition wit_lay :: vlayout where
  "wit_lay = \<lparr>hdr_va = (\<lambda>p. of_nat (16 * p)), data_addr = (\<lambda>b. of_nat (0x10000 + 1024 * b)), info_addr = of_nat 0x100000,
     pages_addr = 0x80000000, kpt = 0x1000, kpm = wit_kpm\<rparr>"

lemma wit_kernel_pa:
  assumes "p < 64"
  shows "kernel_pa wit_lay (hdr_va wit_lay p) = Inr (of_nat (0x1000 + 16 * p))"
proof -
  let ?va = "of_nat (16 * p) :: u64"
  have u: "unat ?va = 16 * p" using assms by (intro unat_of_nat64) simp
  have "unat (PG_ROUND_DOWN ?va) = 0" unfolding unat_round_down u using assms by simp
  then have page: "PG_ROUND_DOWN ?va = 0" by (simp only: unat_eq_0)
  have "unat (?va mod PGSIZE) = unat ?va" using assms unfolding unat_mod u by simp
  then have off: "?va mod PGSIZE = ?va" by (simp only: word_unat_eq_iff)
  have pte: "load64 (mem wit_kpm) 0x1000 = 0x401" by (simp add: load64_def wit_kpm_def upt_rec)
  have pa: "PTE_TO_PA 0x401 = 0x1000" by (simp add: PTE_TO_PA_def)
  have vpn: "VA_TO_VPN 0 n = 0" for n by (simp add: VA_TO_VPN_def)
  have "walk (Suc (Suc 0)) 0x1000 0 False wit_kpm = Inr (0x1000, wit_kpm)" by (simp add: pte pa vpn)
  then have "walk 2 0x1000 0 False wit_kpm = Inr (0x1000, wit_kpm)" by (simp only: numeral_2_eq_2)
  then have "vm_getpte 0x1000 0 False wit_kpm = Inr (0x1000, wit_kpm)" by (simp add: vm_getpte_def)
  then have "kernel_pa wit_lay ?va = Inr (0x1000 + ?va)"
    unfolding kernel_pa_def wit_lay_def by (simp only: vlayout.simps page off bindr_Inr prod.case pte pa) simp
  then show ?thesis by (simp add: wit_lay_def)
qed

lemma wit_hdr_pa: "p < 64 \<Longrightarrow> hdr_pa wit_lay p = of_nat (0x1000 + 16 * p)"
  by (simp only: hdr_pa_def wit_kernel_pa sum.case)

lemma wit_status: "status_addr wit_lay i = of_nat (0x100008 + 16 * i)"
  by (simp add: status_addr_def wit_lay_def)

lemma wit_data: "data_addr wit_lay b = of_nat (0x10000 + 1024 * b)"
  by (simp add: wit_lay_def)

lemma apart_steps:
  assumes "x \<noteq> y" "x < k" "y < k" "base + n * k < 2 ^ 64" "0 < n"
  shows "apart (of_nat (base + n * x)) n (of_nat (base + n * y)) n"
proof -
  have step: "base + n * x + n \<le> base + n * y \<and> base + n * y + n < 2 ^ 64" if "x < y" "y < k" for x y
  proof -
    have "n * Suc x \<le> n * y" "n * Suc y \<le> n * k" using that by (intro mult_le_mono2, simp)+
    then show ?thesis using assms(4) by simp
  qed
  show ?thesis
  proof (cases "x < y")
    case True
    then show ?thesis using step [OF True assms(3)] assms(5) by (intro apart_nat(1)) auto
  next
    case False
    then have "y < x" using assms(1) by simp
    then show ?thesis using step [OF _ assms(2)] assms(5) by (intro apart_nat(2)) auto
  qed
qed

lemma wit_layout: "layout_ok wit_lay"
  unfolding layout_ok_def
proof (intro conjI allI impI)
  fix p q :: nat assume "p < NPROC" "q < NPROC" "p \<noteq> q"
  then show "apart (hdr_pa wit_lay p) 16 (hdr_pa wit_lay q) 16"
    unfolding wit_hdr_pa [OF \<open>p < NPROC\<close>] wit_hdr_pa [OF \<open>q < NPROC\<close>] by (intro apart_steps [of _ _ 64]) auto
next
  fix b c :: nat assume "b < N_BLOCK_BUF" "c < N_BLOCK_BUF" "b \<noteq> c"
  then show "apart (data_addr wit_lay b) BLOCK_SIZE (data_addr wit_lay c) BLOCK_SIZE"
    unfolding wit_data by (intro apart_steps [of _ _ 64]) auto
next
  fix p assume "p < NPROC"
  then show "kernel_pa wit_lay (hdr_va wit_lay p) = Inr (hdr_pa wit_lay p)" by (simp only: wit_kernel_pa wit_hdr_pa)
next
  fix p b :: nat assume "p < NPROC" "b < N_BLOCK_BUF"
  then show "apart (hdr_pa wit_lay p) 16 (data_addr wit_lay b) BLOCK_SIZE"
    unfolding wit_hdr_pa [OF \<open>p < NPROC\<close>] wit_data by (intro apart_nat(1)) auto
next
  fix p i :: nat assume "p < NPROC" "i < NUM"
  then show "apart (hdr_pa wit_lay p) 16 (status_addr wit_lay i) 1"
    unfolding wit_hdr_pa [OF \<open>p < NPROC\<close>] wit_status by (intro apart_nat(1)) auto
next
  fix b i :: nat assume "b < N_BLOCK_BUF" "i < NUM"
  then show "apart (data_addr wit_lay b) BLOCK_SIZE (status_addr wit_lay i) 1"
    unfolding wit_data wit_status by (intro apart_nat(1)) auto
qed

section \<open>A call that nobody disturbs\<close>

text \<open>The device can take a chain that is available, and complete one it works on.\<close>

definition serves :: "(vdisk \<times> vdev \<Rightarrow> vdisk \<times> vdev \<Rightarrow> bool) \<Rightarrow> bool" where
  "serves dev \<longleftrightarrow> (\<forall>s d. avail s ! 1 \<noteq> dv_taken d \<longrightarrow> dev (s, d) (dev_take (s, d))) \<and>
     (\<forall>s d h. h \<in> set (dv_work d) \<longrightarrow> (\<exists>len. dev (s, d) (dev_complete h len (s, d))))"

lemma quiet_queue:
  assumes "vinv lay (s, d)" "\<forall>q. frames s q = Outside"
  shows "pend s d = []" "dv_work d = []" "unseen s = []" "card (free_set s) = NUM"
proof -
  have "heads s = {}" using assms(2) by (simp add: heads_def)
  then have "set (pend s d @ dv_work d @ unseen s) = {}" using vinvD(4) [OF assms(1)] by (simp only: queue_ok_def)
  then show "pend s d = []" "dv_work d = []" "unseen s = []" by simp_all
  have "free_set s = {..<NUM}" using vinvD(3) [OF assms(1)] assms(2) by (auto simp: owners_ok_def free_set_def)
  then show "card (free_set s) = NUM" by simp
qed

lemma quiet_call:
  assumes lay: "layout_ok lay" and g: "good lay (s, d)" and quiet: "\<forall>q. frames s q = Outside"
    and p: "p < NPROC" and b: "b < N_BLOCK_BUF" "unat (bnum s b) < 2 ^ 31"
  obtains u i idx where "virtio_disk_rw lay p b wr s = Inr u" "good lay (u, d)" "pend u d = [i]" "unseen u = []"
    "disk_abs lay (u, d) = (disk_abs lay (s, d))\<lparr>acalls := (acalls (disk_abs lay (s, d)))(p := Requested b wr)\<rparr>"
proof -
  have inv: "vinv lay (s, d)" and ul: "unlocked (s, d)" using g by (simp_all add: good_def)
  note q = quiet_queue [OF inv quiet]
  obtain l where l: "take_vlock s = Inr (s\<lparr>vdisk_lock := l\<rparr>)" "spinlock_holding 0 l" by (rule take_vlock_ok [OF ul])
  let ?s = "s\<lparr>vdisk_lock := l\<rparr>"
  have call: "in_call lay ?s d p b wr" using inv l(2) quiet p b by (simp add: in_call_def)
  have sl: "sleeping ?s p = None"
    using sleepD [OF vinvD(5) [OF inv], of p] quiet by (cases "sleeping s p") (auto simp: sleep_why_def)
  obtain l' where l': "lock_drop 0 (vdisk_lock ?s) = Inr l'" "\<not> locked l'" using l(2) by (auto simp: lock_drop_def)
  have wf: "ring_wf ?s" using vinvD(6) [OF inv] by (simp add: ring_wf_def)
  have fs: "free_set ?s = free_set s" by (simp add: free_set_def)
  show thesis
  proof (rule alloc3_cases [OF wf])
    fix t assume "card (free_set ?s) < 3"
    then show thesis using q(4) fs by simp
  next
    fix i j k V
    assume a: "alloc3_desc ?s = Inr (Some [i, j, k], ?s\<lparr>vfree := V\<rparr>)" "distinct [i, j, k]"
      "\<forall>x \<in> {i, j, k}. x < NUM \<and> vfree ?s ! x" "length V = NUM" "\<forall>x < NUM. V ! x \<longleftrightarrow> vfree ?s ! x \<and> x \<notin> {i, j, k}"
    let ?u = "posted lay ?s p b wr i j k V l'"
    have "bindr (submit lay p b wr [i, j, k] (?s\<lparr>vfree := V\<rparr>)) (rw_wait p b wr [i, j, k]) = Inr ?u"
      by (rule post_eq [OF layoutD(1) [OF lay p] l'(1)])
    then have "virtio_disk_rw lay p b wr s = Inr ?u" using a(1) l(1) by (simp add: virtio_disk_rw_def rw_start_def)
    moreover have "pend ?u d = [i]"
      using pend_posted [of ?s d i lay p b wr j k V l'] q(1) a(3) vinvD(1) [OF inv] by (simp add: shape_ok_def pend_def)
    moreover have "unseen ?u = []" using q(3) by (simp add: posted_def unseen_def)
    moreover have "unlocked (?u, d)" using l'(2) by (simp add: unlocked_def posted_def)
    ultimately show thesis using start_some [OF lay call sl a(2-5) l'(2)] by (intro that) (simp_all add: good_def)
  qed
qed

lemma performed_frame:
  "acalls (disk_abs lay (s, d)) p = Performed b wr \<Longrightarrow> \<exists>idx. frames s p = WaitData b wr idx"
  by (cases "frames s p") (auto simp: disk_abs_def split: if_splits)

lemma quiet_run:
  assumes lay: "layout_ok lay" and dev: "virtio_blk dev" "serves dev" and g: "good lay (s, d)"
    and quiet: "\<forall>q. frames s q = Outside" and p: "p < NPROC" and b: "b < N_BLOCK_BUF" "unat (bnum s b) < 2 ^ 31"
  obtains y where "(vstep lay dev)\<^sup>*\<^sup>* (s, d) y" "disk_abs lay y = transfer b wr (disk_abs lay (s, d))"
proof -
  let ?A = "disk_abs lay (s, d)"
  obtain u i idx where u: "virtio_disk_rw lay p b wr s = Inr u" "good lay (u, d)" "pend u d = [i]" "unseen u = []"
    "disk_abs lay (u, d) = ?A\<lparr>acalls := (acalls ?A)(p := Requested b wr)\<rparr>"
    by (rule quiet_call [OF lay g quiet p b])
  have inv: "vinv lay (u, d)" using u(2) by (simp add: good_def)
  have work: "dv_work d = []" using quiet_queue(2) [OF _ quiet] g by (auto simp: good_def)
  have s1: "vstep lay dev (s, d) (u, d)"
    using u(1) quiet p b by (intro v_call [where p = p and b = b and wr = wr]) (simp_all add: unused_buf_def)
  have ne: "avail u ! 1 \<noteq> dv_taken d" using u(3) unfolding pend_def by auto
  obtain e where e: "dev_take (u, d) = (u, e)" by (simp add: dev_take_def)
  have s2: "vstep lay dev (u, d) (u, e)" using dev(2) ne e unfolding serves_def by (metis v_device)
  have inv2: "vinv lay (u, e)" and abs2: "disk_abs lay (u, e) = disk_abs lay (u, d)" using dev_take_ok [OF inv ne] e by simp_all
  have e': "pend u e = []" "dv_work e = [i]"
  proof -
    let ?g = "\<lambda>i. unat (avail u ! (2 + i))"
    have "[i] = ?g (unat (dv_taken d mod 8)) # ring ?g (dv_taken d + 1) (avail u ! 1)"
      using u(3) ring_pop [OF ne [symmetric], of ?g] unfolding pend_def by (simp only:)
    then have "ring ?g (dv_taken d + 1) (avail u ! 1) = []" "?g (unat (dv_taken d mod 8)) = i" by (simp_all only: list.inject)
    moreover have "e = d\<lparr>dv_taken := dv_taken d + 1, dv_work := dv_work d @ [?g (unat (dv_taken d mod 8))]\<rparr>"
      using e by (simp add: dev_take_def)
    ultimately show "pend u e = []" "dv_work e = [i]" using work by (simp_all add: pend_def)
  qed
  obtain len where s3: "dev (u, e) (dev_complete i len (u, e))" using dev(2) e'(2) unfolding serves_def by fastforce
  obtain u' e2 where c: "dev_complete i len (u, e) = (u', e2)" by (cases "dev_complete i len (u, e)")
  have g3: "good lay (u', e2)" using device_ok [OF lay dev(1) _ s3] inv2 u(2) unfolding c by (simp add: good_def unlocked_def)
  obtain p' b' wr' where pr: "acalls (disk_abs lay (u, e)) p' = Requested b' wr'"
    "disk_abs lay (u', e2) = transfer b' wr' ((disk_abs lay (u, e))\<lparr>acalls := (acalls (disk_abs lay (u, e)))(p' := Performed b' wr')\<rparr>)"
    using dev_complete_ok(2) [OF lay inv2, of i len] e'(2) unfolding c by auto
  have idle: "acalls ?A q = Idle" for q using quiet by (simp add: disk_abs_def)
  have eqs: "p' = p" "b' = b" "wr' = wr" using pr(1) idle [of p'] by (auto simp: abs2 u(5) split: if_splits)
  have "(acalls ?A)(p := Idle) = acalls ?A" by (rule fun_upd_idem) (rule idle)
  then have fin: "(disk_abs lay (u', e2))\<lparr>acalls := (acalls (disk_abs lay (u', e2)))(p := Idle)\<rparr> = transfer b wr ?A"
    unfolding pr(2) eqs abs2 u(5) by (simp add: transfer_def)
  have e2: "pend u' e2 = []" "dv_work e2 = []" using c e' by (auto simp: dev_complete_def Let_def pend_def)
  obtain v where v: "virtio_disk_intr lay u' = Inr v" "vinv lay (v, e2)" "unlocked (v, e2)" "unseen v = []" "pend v e2 = pend u' e2"
    "disk_abs lay (v, e2) = disk_abs lay (u', e2)" using virtio_disk_intr_ok [of lay u' e2] g3 by (auto simp: good_def)
  have s4: "vstep lay dev (u', e2) (v, e2)" by (rule v_intr [OF v(1)])
  have "acalls (disk_abs lay (v, e2)) p = Performed b wr" unfolding v(6) pr(2) eqs by (simp add: transfer_def)
  from performed_frame [OF this] obtain idx where f: "frames v p = WaitData b wr idx" by blast
  have "heads v = {}" using vinvD(4) [OF v(2)] v(4,5) e2 by (simp add: queue_ok_def)
  then have flag: "\<not> disk_flag v b" using headsI [OF f] by blast
  have sl: "sleeping v p = None"
    using sleepD [OF vinvD(5) [OF v(2)], of p] f flag by (cases "sleeping v p") (auto simp: sleep_why_def)
  obtain l where l: "take_vlock v = Inr (v\<lparr>vdisk_lock := l\<rparr>)" "spinlock_holding 0 l" by (rule take_vlock_ok [OF v(3)])
  obtain w where w: "rw_wait p b wr idx (v\<lparr>vdisk_lock := l\<rparr>) = Inr w"
    "disk_abs lay (w, e2) = (disk_abs lay (v, e2))\<lparr>acalls := (acalls (disk_abs lay (v, e2)))(p := Idle)\<rparr>"
    using wait_done(1) [of lay "v\<lparr>vdisk_lock := l\<rparr>" e2 p b wr idx] v(2) l(2) f flag by auto
  have "rw_resume lay p v = Inr w" using l(1) w(1) f by (simp add: rw_resume_def)
  then have s5: "vstep lay dev (v, e2) (w, e2)" using f sl by (intro v_resume) simp_all
  have "vstep lay dev (u, e) (u', e2)" using s3 unfolding c by (rule v_device)
  then have "(vstep lay dev)\<^sup>*\<^sup>* (s, d) (w, e2)" using s1 s2 s4 s5
    by (meson converse_rtranclp_into_rtranclp rtranclp.rtrancl_refl)
  then show thesis using w(2) fin unfolding v(6) by (intro that) simp_all
qed

section \<open>The start of the concrete machine\<close>

definition wit_dev :: "vdisk \<times> vdev \<Rightarrow> vdisk \<times> vdev \<Rightarrow> bool" where
  "wit_dev x y \<longleftrightarrow> (avail (fst x) ! 1 \<noteq> dv_taken (snd x) \<and> y = dev_take x) \<or>
     (\<exists>h \<in> set (dv_work (snd x)). y = dev_complete h 1025 x)"

lemma wit_blk: "virtio_blk wit_dev" "serves wit_dev"
  unfolding virtio_blk_def serves_def wit_dev_def by auto

definition wit_regs :: mmio where
  "wit_regs = \<lparr>MAGIC_VALUE = 0x74726976, VERSION = 1, DEVICE_ID = 2, VENDOR_ID = 0x554d4551, DEVICE_FEATURES = 0x31006ed4, QUEUE_NUM_MAX = 1024\<rparr>"

definition wit_zero :: vdisk where
  "wit_zero = \<lparr>desc = [], avail = [], used = \<lparr>ua_flags = 0, ua_idx = 0, ua_elems = []\<rparr>, vfree = [], used_idx = 0,
     info_b = replicate NUM None, vdisk_lock = spinlock_init [], dma = (\<lambda>a. 0), disk_flag = (\<lambda>b. False), bnum = (\<lambda>b. of_nat b),
     frames = (\<lambda>p. Outside), sleeping = (\<lambda>p. None), intr_status = 0, notified = False\<rparr>"

definition wit_s :: vdisk where
  "wit_s = (case virtio_disk_init wit_lay wit_regs wit_zero of Inr (w, s) \<Rightarrow> s | Inl _ \<Rightarrow> wit_zero)"

definition wit_d :: vdev where
  "wit_d = \<lparr>sectors = (\<lambda>x. replicate 512 (ucast x)), dv_taken = 0, dv_work = []\<rparr>"

lemma virtio_disk_init_frame: "virtio_disk_init lay r z = Inr (w, s) \<Longrightarrow> frames s = frames z \<and> bnum s = bnum z"
  by (auto simp: virtio_disk_init_def Let_def split: if_splits)

lemma wit_start: "vstart wit_lay (wit_s, wit_d)" "frames wit_s = (\<lambda>p. Outside)" "bnum wit_s = (\<lambda>b. of_nat b)"
proof -
  obtain w where i: "virtio_disk_init wit_lay wit_regs wit_zero = Inr (w, wit_s)"
    by (simp add: virtio_disk_init_def wit_regs_def wit_s_def)
  show "vstart wit_lay (wit_s, wit_d)"
    unfolding vstart_def
    by (simp add: wit_d_def) (rule exI [of _ wit_regs], rule exI [of _ w], rule exI [of _ wit_zero], simp add: i, simp add: wit_zero_def)
  show "frames wit_s = (\<lambda>p. Outside)" "bnum wit_s = (\<lambda>b. of_nat b)"
    using virtio_disk_init_frame [OF i] by (simp_all add: wit_zero_def)
qed

lemma wit_reach: "reach (vstart wit_lay) (vstep wit_lay wit_dev) (wit_s, wit_d)"
  by (rule reach_start) (rule wit_start(1))

text \<open>The machine after process 0 has asked for a write of buffer 0.\<close>

lemma wit_called:
  obtains t where "virtio_disk_rw wit_lay 0 0 True wit_s = Inr t" "frames t 0 \<noteq> Outside"
    "vstep wit_lay wit_dev (wit_s, wit_d) (t, wit_d)" "reach (vstart wit_lay) (vstep wit_lay wit_dev) (t, wit_d)"
proof -
  have g: "good wit_lay (wit_s, wit_d)" by (rule reach_good [OF wit_layout wit_blk(1) wit_reach])
  obtain t where t: "virtio_disk_rw wit_lay 0 0 True wit_s = Inr t" "acalls (disk_abs wit_lay (t, wit_d)) 0 = Requested 0 True"
    using virtio_disk_rw_ok [OF wit_layout, of wit_s wit_d 0 0 True] g by (auto simp: good_def wit_start unused_buf_def)
  have f: "frames t 0 \<noteq> Outside" using t(2) by (auto simp: disk_abs_def)
  have st: "vstep wit_lay wit_dev (wit_s, wit_d) (t, wit_d)"
    by (rule v_call [OF _ _ _ _ _ t(1)]) (simp_all add: wit_start unused_buf_def)
  show thesis by (rule that [OF t(1) f st reach_step [OF wit_reach st]])
qed

section \<open>Properties\<close>

text \<open>C2. Refinement of an atomic disk.  In every run of the driver with any number of processes, interrupts at any
  time and a device that completes the requests in any order, each step is either invisible or a step of the
  specification, in which a call is requested, is performed at one moment, with exactly the transfer between the
  buffer and its block, and returns only after that.\<close>

theorem virtio_refines_atomic_disk:
  assumes "layout_ok lay" and "virtio_blk dev" and "reach (vstart lay) (vstep lay dev) x" and "vstep lay dev x y"
  shows "disk_abs lay y = disk_abs lay x \<or> astep (disk_abs lay x) (disk_abs lay y)"
  using vstep_ok [OF assms(1,2,4) reach_good [OF assms(1-3)]] by blast

theorem virtio_refines_atomic_disk_witness:
  "\<exists>t. vstep wit_lay wit_dev (wit_s, wit_d) (t, wit_d) \<and>
     (disk_abs wit_lay (t, wit_d) = disk_abs wit_lay (wit_s, wit_d) \<or>
      astep (disk_abs wit_lay (wit_s, wit_d)) (disk_abs wit_lay (t, wit_d)))"
proof -
  obtain t where t: "virtio_disk_rw wit_lay 0 0 True wit_s = Inr t" "frames t 0 \<noteq> Outside"
    "vstep wit_lay wit_dev (wit_s, wit_d) (t, wit_d)" "reach (vstart wit_lay) (vstep wit_lay wit_dev) (t, wit_d)"
    by (rule wit_called)
  show ?thesis using virtio_refines_atomic_disk [OF wit_layout wit_blk(1) wit_reach t(3)] t(3) by blast
qed







text \<open>C14. No lost wakeup: while a call has not returned, some process in the driver is awake and can go on, or a request is
  with the device or waits for the interrupt handler.\<close>

theorem disk_driver_not_stuck:
  assumes "layout_ok lay" and "virtio_blk dev" and "reach (vstart lay) (vstep lay dev) (s, d)" and "frames s p \<noteq> Outside"
  shows "(\<exists>q t. frames s q \<noteq> Outside \<and> sleeping s q = None \<and> rw_resume lay q s = Inr t) \<or>
    pend s d \<noteq> [] \<or> dv_work d \<noteq> [] \<or> unseen s \<noteq> []"
proof (cases "\<exists>q. frames s q \<noteq> Outside \<and> sleeping s q = None")
  case True
  have g: "vinv lay (s, d)" "unlocked (s, d)" using reach_good [OF assms(1-3)] by (simp_all add: good_def)
  show ?thesis using True rw_resume_ok [OF assms(1) g] by blast
next
  case False
  have g: "vinv lay (s, d)" using reach_good [OF assms(1-3)] by (simp add: good_def)
  obtain c where "sleeping s p = Some c" using False assms(4) by (cases "sleeping s p") auto
  from queue_nonempty [OF g this] False show ?thesis by auto
qed

theorem disk_driver_not_stuck_witness:
  "\<exists>t. frames t 0 \<noteq> Outside \<and> ((\<exists>q u. frames t q \<noteq> Outside \<and> sleeping t q = None \<and> rw_resume wit_lay q t = Inr u) \<or>
     pend t wit_d \<noteq> [] \<or> dv_work wit_d \<noteq> [] \<or> unseen t \<noteq> [])"
proof -
  obtain t where t: "virtio_disk_rw wit_lay 0 0 True wit_s = Inr t" "frames t 0 \<noteq> Outside"
    "vstep wit_lay wit_dev (wit_s, wit_d) (t, wit_d)" "reach (vstart wit_lay) (vstep wit_lay wit_dev) (t, wit_d)"
    by (rule wit_called)
  show ?thesis using disk_driver_not_stuck [OF wit_layout wit_blk(1) t(4,2)] t(2) by blast
qed

text \<open>C19. Ownership of descriptors: in every reachable state a descriptor is free exactly when no request has it, two requests
  share none, and at most two requests are under way.\<close>

theorem descriptors_owned_once:
  assumes "layout_ok lay" and "virtio_blk dev" and "reach (vstart lay) (vstep lay dev) (s, d)"
  shows "(\<forall>i < NUM. vfree s ! i = (\<forall>p b wr idx. frames s p = WaitData b wr idx \<longrightarrow> i \<notin> set idx)) \<and>
    (\<forall>p q b wr idx b' wr' idx'. frames s p = WaitData b wr idx \<longrightarrow> frames s q = WaitData b' wr' idx' \<longrightarrow> p \<noteq> q \<longrightarrow>
       set idx \<inter> set idx' = {}) \<and> card (requests s) \<le> 2"
proof -
  have g: "vinv lay (s, d)" using reach_good [OF assms] by (simp add: good_def)
  show ?thesis using vinvD(3) [OF g] requests_bound [OF g] unfolding owners_ok_def by simp
qed

theorem descriptors_owned_once_witness: "vfree wit_s ! 0 \<and> card (requests wit_s) \<le> 2"
  using descriptors_owned_once [OF wit_layout wit_blk(1) wit_reach] by (simp add: wit_start)

text \<open>C34. The loops of the driver end.  On every content of the ring, also on a chain that runs into itself, freeing a chain
  ends, with a panic at a descriptor that is free already; the interrupt handler ends whatever the device wrote.\<close>

theorem disk_driver_loops_end:
  assumes "ring_wf s" and "\<not> locked (vdisk_lock s)"
  shows "free_chain i s \<noteq> Inl Hang \<and> virtio_disk_intr lay s \<noteq> Inl Hang"
proof
  have "card ({..<NUM} - free_set s) \<le> card {..<NUM}" by (rule card_mono) auto
  then show "free_chain i s \<noteq> Inl Hang" unfolding free_chain_def by (intro free_chain_loop_ends [OF assms(1)]) simp
  have "lock_take 0 (vdisk_lock s) = Inr ((vdisk_lock s)\<lparr>locked := True, cpuid := 0\<rparr>)" using assms(2) by (rule lock_take_free)
  then show "virtio_disk_intr lay s \<noteq> Inl Hang"
    by (auto simp: virtio_disk_intr_def take_vlock_def bindr_eq_Inl lock_drop_def intr_loop_ends split: if_splits)
qed

theorem disk_driver_loops_end_witness:
  "free_chain 3 (wit_s\<lparr>desc := replicate NUM \<lparr>d_addr = 0, d_len = 0, d_flags = 1, d_next = 3\<rparr>, vfree := replicate NUM False\<rparr>) \<noteq> Inl Hang"
proof -
  let ?s = "wit_s\<lparr>desc := replicate NUM \<lparr>d_addr = 0, d_len = 0, d_flags = 1, d_next = 3\<rparr>, vfree := replicate NUM False\<rparr>"
  have "ring_wf ?s" by (simp add: ring_wf_def)
  moreover have "\<not> locked (vdisk_lock ?s)" using vstart_ok(2) [OF wit_start(1)] by (simp add: unlocked_def)
  ultimately show ?thesis using disk_driver_loops_end [of ?s 3 wit_lay] by blast
qed


lemma bit_clear_all:
  "bit (foldl (\<lambda>x k. x AND NOT (push_bit k 1)) (x :: u64) ks) n \<longleftrightarrow> bit x n \<and> n \<notin> set ks"
proof (induction ks arbitrary: x)
  case Nil
  then show ?case by simp
next
  case (Cons k ks)
  have "bit (x AND NOT (push_bit k 1)) n \<longleftrightarrow> bit x n \<and> n \<noteq> k"
    using bit_imp_le_length [of x n] by (auto simp: bit_simps)
  then show ?case using Cons by auto
qed

text \<open>The features the driver accepts are those the device offers less the seven it cannot handle.\<close>

theorem driver_features_correct:
  "bit (driver_features f) n = (bit f n \<and> n \<notin> {5, 7, 11, 12, 27, 28, 29})"
proof -
  have "bit f n \<Longrightarrow> n < 32" using bit_imp_le_length [of f n] by simp
  then show ?thesis unfolding driver_features_def Let_def bit_ucast_iff bit_clear_all by (auto simp: possible_bit_def)
qed

end
