(* ===== verification/Trap_Props.thy ===== *)
theory Trap_Props
  imports Traps Disk_Props Proc_Props
begin

text \<open>
  The properties of the trap handlers: the timer and the devices, the way back to a user program, system calls, and
  what happens to interrupts and exceptions the handlers do not expect.
\<close>

section \<open>Output\<close>

text \<open>The messages of the handlers, the last of which has a conversion \<^verbatim>\<open>printf\<close> does not know.\<close>

lemma printf_irq: "\<exists>out. printf (chars ''[EXT_INTR] Unknown IRQ: %d'' @ [newline]) [ArgInt n] = Inr out"
  by (simp add: printf_def chars_def convert_def)

lemma printf_ecall: "\<exists>out. printf (chars ''[User Trap] System call from user mode %p scause:%p,stval:%p'' @ [newline])
    [ArgPtr a, ArgPtr b, ArgPtr c] = Inr out"
  by (simp add: printf_def chars_def convert_def)

lemma printf_unknown: "\<exists>out. printf (chars ''syscall: unknown syscall number %d'' @ [newline]) [ArgInt n] = Inr out"
  by (simp add: printf_def chars_def convert_def)

lemma printf_exception: "printf (chars ''Exception in kernel at sepc=0x%lx: %s'' @ [newline]) (ArgPtr a # args) = Inl Undefined"
  by (simp add: printf_def chars_def convert_def)

section \<open>The trapframe\<close>

lemma aligned_add: "aligned k a \<Longrightarrow> aligned k b \<Longrightarrow> aligned k (a + b)"
  by (simp add: aligned_def take_bit_eq_0_iff)

lemma tf_get_set:
  assumes "aligned 3 (tf (proc_at k i))" "aligned 3 off" "aligned 3 off'"
  shows "tf_get i off (tf_set i off' v k) = (if off = off' then v else tf_get i off k)"
proof (cases "off = off'")
  case True
  then show ?thesis by (simp add: tf_get_def tf_set_def)
next
  case False
  then show ?thesis
    using load64_store64_other [OF aligned_add [OF assms(1,3)] aligned_add [OF assms(1,2)]] by (simp add: tf_get_def tf_set_def)
qed

lemma tf_offsets: "aligned 3 0" "aligned 3 8" "aligned 3 16" "aligned 3 24" "aligned 3 32" "aligned 3 112" "aligned 3 168"
  by (simp_all add: aligned_def)

lemma tf_set_simps [simp]:
  "procs (tf_set i off v k) = procs k" "cpu (tf_set i off v k) = cpu k" "cur (tf_set i off v k) = cur k" "ticks (tf_set i off v k) = ticks k"
  by (simp_all add: tf_set_def)

lemma tf_get_cpu [simp]: "tf_get i off (k\<lparr>cpu := c\<rparr>) = tf_get i off k"
  by (simp add: tf_get_def)

lemma set_ker_simps [simp]: "ker (sy (set_ker k s)) = k" "set_ker k (set_ker k' s) = set_ker k s"
  by (simp_all add: set_ker_def)

section \<open>Witnesses\<close>

text \<open>A machine whose process 1 runs, with a trapframe at address \<open>0x8000\<close> in which register \<^verbatim>\<open>a7\<close> is 99.\<close>

definition wit_proc :: proc where
  "wit_proc = user_proc\<lparr>tf := 0x8000\<rparr>"

definition wit_ker :: kernel where
  "wit_ker = (kernel_with [init_proc, wit_proc] (Some 1) (Process 1))\<lparr>cpu := \<lparr>noff = 0, origin = False, sie = False\<rparr>,
     pm := pmem_small\<lparr>mem := (\<lambda>a. if a = 0x8000 + 168 then 99 else 0)\<rparr>\<rparr>"

definition wit_fsys :: file_state where
  "wit_fsys = \<lparr>disk = (\<lambda>n. []), bufs = [], nxt = (\<lambda>n. None), prv = (\<lambda>n. None),
     sb = \<lparr>magic = 0, block_size = 0, inode_bitmap_start = 0, inode_start = 0, data_bitmap_start = 0, data_start = 0, inode_blocks = 0,
       data_blocks = 0, total_blocks = 0\<rparr>, icache = [], ftable = [], devlist = []\<rparr>"

definition wit_tc :: tcode where
  "wit_tc = \<lparr>t_env = \<lparr>img = \<lparr>trampoline = 0, ALLOC_BEGIN = 0, fork_return_pc = 0, forkret_pc = 0, initcode = []\<rparr>,
       call = (\<lambda>_ _ _ _ m. Inr (0, m)), junk = [], pad = []\<rparr>,
     t_lay = wit_lay, kernel_vector = 0, user_vector = 0, user_return = 0, trap_user_handler_pc = 0\<rparr>"

definition wit_t :: "bool \<Rightarrow> u64 \<Rightarrow> tstate" where
  "wit_t sp c = \<lparr>sy = \<lparr>ker = wit_ker, fsys = wit_fsys, con = []\<rparr>, vd = wit_s, ser = \<lparr>rx = [65], tx = []\<rparr>,
     plc = \<lparr>p_regs = (\<lambda>a. 0), p_pending = [10, 1], p_claimed = [], p_done = []\<rparr>, spp = sp, scause = c, sepc = 0x40, stval = 0,
     stvec = 0, satp = 0, sip = 2, tp = 0, leave = None\<rparr>"

lemma wit_t_simps [simp]:
  "spp (wit_t sp c) = sp" "scause (wit_t sp c) = c" "ker (sy (wit_t sp c)) = wit_ker" "vd (wit_t sp c) = wit_s" "sip (wit_t sp c) = 2"
  "sepc (wit_t sp c) = 0x40" "p_pending (plc (wit_t sp c)) = [10, 1]" "ser (wit_t sp c) = \<lparr>rx = [65], tx = []\<rparr>" "t_lay wit_tc = wit_lay"
  by (simp_all add: wit_t_def wit_tc_def)

lemma wit_ker_simps:
  "\<not> sie (cpu wit_ker)" "noff (cpu wit_ker) = 0" "table_inv wit_ker" "cur wit_ker = Some 1" "ticks wit_ker = 0"
  "proc_at wit_ker 1 = wit_proc" "tf_get 1 TF_A7 wit_ker = 99"
proof -
  have "table_inv (kernel_with [init_proc, wit_proc] (Some 1) (Process 1))"
    by (rule kernel_with_table) (auto simp: slot_ok_def init_proc_def wit_proc_def user_proc_def blank_proc_def kont_ok_def less_Suc_eq)
  then show "table_inv wit_ker" by (simp add: wit_ker_def table_inv_def slot_ok_def)
qed (simp_all add: wit_ker_def tf_get_def wit_proc_def load64_def upt_rec)

section \<open>Interrupts in the kernel\<close>



lemma plic_claim_complete:
  assumes "p_pending c = irq # rest"
  shows "plic_claim c = (irq, c\<lparr>p_pending := rest, p_claimed := irq # p_claimed c\<rparr>)"
    and "plic_complete irq (c\<lparr>p_pending := rest, p_claimed := irq # p_claimed c\<rparr>) = c\<lparr>p_pending := rest, p_done := p_done c @ [irq]\<rparr>"
  using assms by (simp_all add: plic_claim_def plic_complete_def)



section \<open>Traps from user programs\<close>

lemma syscall_unknown:
  assumes "syscalls e i (tf_get i TF_A7 (ker y)) = None"
    "printf (chars ''syscall: unknown syscall number %d'' @ [newline]) [ArgInt (ucast (tf_get i TF_A7 (ker y)))] = Inr out"
  shows "syscall e i y = Inr (Ret ERR, syscall_return i ERR (y\<lparr>con := con y @ out\<rparr>))"
  using assms by (simp add: syscall_def)

lemma user_return_frame:
  assumes "aligned 3 (tf (proc_at (ker (sy s)) i))" "aligned 3 off"
  shows "tf_get i off (ker (sy (trap_user_return tc i s))) =
    (if off = TF_KERNEL_SATP then satp s else if off = TF_KERNEL_SP then kstack (proc_at (ker (sy s)) i) + PGSIZE
     else if off = TF_KERNEL_TRAP then trap_user_handler_pc tc else if off = TF_KERNEL_HARTID then tp s
     else tf_get i off (ker (sy s)))"
proof -
  have al: "aligned 3 (tf (proc_at ((ker (sy s))\<lparr>cpu := (cpu (ker (sy s)))\<lparr>sie := False\<rparr>\<rparr>) i))" using assms by simp
  show ?thesis
    using al assms(2) by (simp add: trap_user_return_def Let_def set_sie_def tf_get_set tf_offsets) (simp add: set_ker_def)
qed

lemma user_return_regs:
  assumes "aligned 3 (tf (proc_at (ker (sy s)) i))"
  shows "sepc (trap_user_return tc i s) = tf_get i TF_EPC (ker (sy s))"
    and "leave (trap_user_return tc i s) =
      Some (user_return tc - trampoline (img (t_env tc)) + TRAMPOLINE, TRAPFRAME, MAKE_SATP (pgtbl (proc_at (ker (sy s)) i)))"
    and "stvec (trap_user_return tc i s) = TRAMPOLINE + (user_vector tc - trampoline (img (t_env tc)))"
    and "\<not> sie (cpu (ker (sy (trap_user_return tc i s))))"
    and "sip (trap_user_return tc i s) = sip s" "plc (trap_user_return tc i s) = plc s"
    and "ticks (ker (sy (trap_user_return tc i s))) = ticks (ker (sy s))" "con (sy (trap_user_return tc i s)) = con (sy s)"
proof -
  have al: "aligned 3 (tf (proc_at ((ker (sy s))\<lparr>cpu := (cpu (ker (sy s)))\<lparr>sie := False\<rparr>\<rparr>) i))" using assms by simp
  then show "sepc (trap_user_return tc i s) = tf_get i TF_EPC (ker (sy s))"
    by (simp add: trap_user_return_def Let_def set_sie_def tf_get_set tf_offsets)
qed (simp_all add: trap_user_return_def Let_def set_sie_def set_ker_def)

text \<open>C31. The way back to a user program: execution goes on at the saved counter with the page table of the process, interrupts are off until
  then, the trapframe has what the next trap needs, and the saved registers of the user are untouched.\<close>

theorem trap_user_return_correct:
  assumes "aligned 3 (tf (proc_at (ker (sy s)) i))"
  shows "sepc (trap_user_return tc i s) = tf_get i TF_EPC (ker (sy s)) \<and>
    leave (trap_user_return tc i s) =
      Some (user_return tc - trampoline (img (t_env tc)) + TRAMPOLINE, TRAPFRAME, MAKE_SATP (pgtbl (proc_at (ker (sy s)) i))) \<and>
    stvec (trap_user_return tc i s) = TRAMPOLINE + (user_vector tc - trampoline (img (t_env tc))) \<and>
    \<not> sie (cpu (ker (sy (trap_user_return tc i s)))) \<and>
    tf_get i TF_KERNEL_SATP (ker (sy (trap_user_return tc i s))) = satp s \<and>
    tf_get i TF_KERNEL_SP (ker (sy (trap_user_return tc i s))) = kstack (proc_at (ker (sy s)) i) + PGSIZE \<and>
    tf_get i TF_KERNEL_TRAP (ker (sy (trap_user_return tc i s))) = trap_user_handler_pc tc \<and>
    tf_get i TF_KERNEL_HARTID (ker (sy (trap_user_return tc i s))) = tp s \<and>
    (\<forall>off. aligned 3 off \<longrightarrow> off \<notin> {TF_KERNEL_SATP, TF_KERNEL_SP, TF_KERNEL_TRAP, TF_KERNEL_HARTID} \<longrightarrow>
      tf_get i off (ker (sy (trap_user_return tc i s))) = tf_get i off (ker (sy s)))"
  using user_return_frame [OF assms, of _ tc] user_return_regs [OF assms, of tc] by (simp add: tf_offsets)

theorem trap_user_return_correct_witness:
  "sepc (trap_user_return wit_tc 1 (wit_t False 8)) = 0 \<and> tf_get 1 TF_A7 (ker (sy (trap_user_return wit_tc 1 (wit_t False 8)))) = 99"
proof -
  have al: "aligned 3 (tf (proc_at (ker (sy (wit_t False 8))) 1))" using wit_ker_simps(6) by (simp add: wit_proc_def aligned_def)
  have e: "tf_get 1 TF_EPC wit_ker = 0" using wit_ker_simps(6) by (simp add: tf_get_def wit_ker_def wit_proc_def load64_def upt_rec)
  show ?thesis using trap_user_return_correct [OF al, of wit_tc] e wit_ker_simps(7) by (simp add: tf_offsets)
qed

text \<open>C32. A system call with a number that does not exist: the program goes on after its \<^verbatim>\<open>ecall\<close> with -1 in register \<^verbatim>\<open>a0\<close> and all its other
  registers as they were.\<close>

theorem unknown_syscall_returns:
  assumes "cur (ker (sy s)) = Some i" and "\<not> spp s" and "scause s = 8" and "aligned 3 (tf (proc_at (ker (sy s)) i))"
    and "8 < tf_get i TF_A7 (ker (sy s))"
  shows "\<exists>t. trap_user_handler tc s = Inr t \<and> sepc t = sepc s + 4 \<and> tf_get i TF_A0 (ker (sy t)) = ERR \<and> leave t \<noteq> None \<and>
    (\<forall>off. aligned 3 off \<longrightarrow> off \<notin> {TF_KERNEL_SATP, TF_KERNEL_SP, TF_KERNEL_TRAP, TF_KERNEL_HARTID, TF_EPC, TF_A0} \<longrightarrow>
      tf_get i off (ker (sy t)) = tf_get i off (ker (sy s)))"
proof -
  let ?k = "tf_set i TF_EPC (sepc s) (ker (sy s))"
  let ?k2 = "(tf_set i TF_EPC (sepc s + 4) ?k)\<lparr>cpu := (cpu (ker (sy s)))\<lparr>sie := True\<rparr>\<rparr>"
  obtain out where out: "printf (chars ''[User Trap] System call from user mode %p scause:%p,stval:%p'' @ [newline])
    [ArgPtr (sepc s), ArgPtr 8, ArgPtr (stval s)] = Inr out" using printf_ecall by blast
  obtain out' where out': "printf (chars ''syscall: unknown syscall number %d'' @ [newline])
    [ArgInt (ucast (tf_get i TF_A7 (ker (sy s))))] = Inr out'" using printf_unknown by blast
  have al: "aligned 3 (tf (proc_at ?k i))" "aligned 3 (tf (proc_at (ker (sy s)) i))" using assms(4) by simp_all
  have e: "tf_get i TF_EPC ?k = sepc s" using al by (simp add: tf_get_set tf_offsets)
  have a7: "tf_get i TF_A7 (tf_set i TF_EPC (sepc s + 4) ?k) = tf_get i TF_A7 (ker (sy s))"
    using al by (simp add: tf_get_set tf_offsets)
  have no: "syscalls (t_env tc) i (tf_get i TF_A7 (ker (sy s))) = None" using assms(5) by (auto simp: syscalls_def)
  let ?y = "(sy s)\<lparr>con := con (sy s) @ out, ker := ?k2\<rparr>"
  let ?y' = "(sy s)\<lparr>con := con (sy s) @ out @ out', ker := tf_set i TF_A0 ERR ?k2\<rparr>"
  have sc: "syscall (t_env tc) i ?y = Inr (Ret ERR, ?y')"
  proof -
    have "syscall (t_env tc) i ?y = Inr (Ret ERR, syscall_return i ERR (?y\<lparr>con := con ?y @ out'\<rparr>))"
      by (rule syscall_unknown) (use no out' a7 in simp_all)
    then show ?thesis by (simp add: syscall_return_def)
  qed
  let ?t = "trap_user_return tc i (s\<lparr>sy := ?y'\<rparr>)"
  have h: "trap_user_handler tc s = Inr ?t"
    using assms(1-3) e out sc by (simp add: trap_user_handler_def say_def set_ker_def set_sie_def Let_def)
  have al2: "aligned 3 (tf (proc_at (ker (sy (s\<lparr>sy := ?y'\<rparr>))) i))" using assms(4) by simp
  have al3: "aligned 3 (tf (proc_at ?k2 i))" "aligned 3 (tf (proc_at (tf_set i TF_EPC (sepc s + 4) ?k) i))" using assms(4) by simp_all
  have get: "tf_get i off (tf_set i TF_A0 ERR ?k2) =
      (if off = TF_A0 then ERR else if off = TF_EPC then sepc s + 4 else tf_get i off (ker (sy s)))" if "aligned 3 off" for off
    using that al al3 by (simp add: tf_get_set tf_offsets)
  have "sepc ?t = sepc s + 4" using user_return_regs(1) [OF al2, of tc] get [OF tf_offsets(4)] by simp
  moreover have "leave ?t \<noteq> None" using user_return_regs(2) [OF al2, of tc] by simp
  moreover have "tf_get i TF_A0 (ker (sy ?t)) = ERR" using user_return_frame [OF al2 tf_offsets(6), of tc] get [OF tf_offsets(6)] by simp
  moreover have "tf_get i off (ker (sy ?t)) = tf_get i off (ker (sy s))"
    if "aligned 3 off" "off \<notin> {TF_KERNEL_SATP, TF_KERNEL_SP, TF_KERNEL_TRAP, TF_KERNEL_HARTID, TF_EPC, TF_A0}" for off
    using user_return_frame [OF al2 that(1), of tc] get [OF that(1)] that(2) by simp
  ultimately show ?thesis using h by blast
qed

theorem unknown_syscall_returns_witness:
  "\<exists>t. trap_user_handler wit_tc (wit_t False 8) = Inr t \<and> sepc t = 0x44 \<and> tf_get 1 TF_A0 (ker (sy t)) = ERR"
proof -
  have al: "aligned 3 (tf (proc_at (ker (sy (wit_t False 8))) 1))" using wit_ker_simps(6) by (simp add: wit_proc_def aligned_def)
  show ?thesis using unknown_syscall_returns [OF _ _ _ al, of wit_tc] wit_ker_simps(4,7) by auto
qed

text \<open>C38. An interrupt that arrives while a user program runs is dropped: the handler returns to the same instruction and neither clears
  the pending bits nor claims the device interrupt, counts a tick or wakes anybody, so the interrupt is taken again at once.\<close>

theorem user_interrupt_ignored:
  assumes "cur (ker (sy s)) = Some i" and "\<not> spp s" and "scause s AND push_bit 63 1 \<noteq> 0" and "aligned 3 (tf (proc_at (ker (sy s)) i))"
  shows "\<exists>t. trap_user_handler tc s = Inr t \<and> sepc t = sepc s \<and> leave t \<noteq> None \<and> sip t = sip s \<and> plc t = plc s \<and>
    ticks (ker (sy t)) = ticks (ker (sy s)) \<and> procs (ker (sy t)) = procs (ker (sy s))"
proof -
  let ?s = "set_ker (tf_set i TF_EPC (sepc s) (ker (sy s))) s"
  let ?t = "trap_user_return tc i ?s"
  have h: "trap_user_handler tc s = Inr ?t" using assms(1-3) by (simp add: trap_user_handler_def Let_def set_ker_def)
  have al: "aligned 3 (tf (proc_at (ker (sy ?s)) i))" using assms(4) by simp
  have "sepc ?t = sepc s" using user_return_regs(1) [OF al, of tc] assms(4) by (simp add: tf_get_set tf_offsets)
  moreover have "procs (ker (sy ?t)) = procs (ker (sy s))" by (simp add: trap_user_return_def Let_def set_sie_def)
  ultimately show ?thesis using h user_return_regs(2,5,6,7) [OF al, of tc] by (simp add: set_ker_def)
qed

theorem user_interrupt_ignored_witness:
  "\<exists>t. trap_user_handler wit_tc (wit_t False 0x8000000000000001) = Inr t \<and> sepc t = 0x40 \<and> sip t = 2 \<and> ticks (ker (sy t)) = 0"
proof -
  let ?s = "wit_t False 0x8000000000000001"
  have al: "aligned 3 (tf (proc_at (ker (sy ?s)) 1))" using wit_ker_simps(6) by (simp add: wit_proc_def aligned_def)
  show ?thesis using user_interrupt_ignored [OF _ _ _ al, of wit_tc] wit_ker_simps(4,5) by auto
qed

text \<open>An exception in the kernel does not reach its panic: the message has the conversion \<^verbatim>\<open>%lx\<close>, which \<^verbatim>\<open>printf\<close> does not know, and
  the \<^verbatim>\<open>%s\<close> behind it takes the program counter for a string.\<close>

theorem kernel_exception_undefined:
  assumes "spp s" and "\<not> sie (cpu (ker (sy s)))" and "scause s AND push_bit 63 1 = 0"
  shows "trap_kernel_handler tc s = Inl Undefined"
  using assms printf_exception by (simp add: trap_kernel_handler_def say_def Let_def)

theorem kernel_exception_undefined_witness: "trap_kernel_handler wit_tc (wit_t True 13) = Inl Undefined"
  by (rule kernel_exception_undefined) (use wit_ker_simps(1) in simp_all)

end
