(* ===== verification/Kvm.thy ===== *)
theory Kvm
  imports Vmem
begin

text \<open>
  The kernel's own page table (\<^verbatim>\<open>kvm_init\<close> of \<^verbatim>\<open>kernel/mem/kvm.c\<close>).  The rest of the development reads and writes physical
  memory; that the kernel may do so with paging switched on rests on what is shown here: \<^verbatim>\<open>kvm_init\<close> succeeds with the pages
  \<^verbatim>\<open>pmem_init\<close> provides, and the table it builds maps the devices and the whole physical memory to itself.
\<close>

section \<open>Fresh pages\<close>

lemma page_regions_disjoint:
  assumes "pmem_inv s" and "p \<in> free_pages k s"
  shows "p \<notin> free_pages (\<not> k) s"
proof
  assume "p \<in> free_pages (\<not> k) s"
  obtain ps qs where ps: "region_list (mem s) (region k s) ps" and qs: "region_list (mem s) (region (\<not> k) s) qs"
    using pmem_inv_region [OF assms(1)] by metis
  have "p \<in> set ps" "p \<in> set qs"
    using assms(2) \<open>p \<in> free_pages (\<not> k) s\<close> free_pages_eq [OF ps] free_pages_eq [OF qs] by auto
  then have "page_ok (region k s) p" "page_ok (region (\<not> k) s) p" using ps qs by (auto simp: region_list_def)
  then have "page_ok (region True s) p" "page_ok (region False s) p" by (cases k; simp)+
  then show False using assms(1) page_ok_disjoint [of "region True s" p "region False s"] by (auto simp: pmem_inv_def)
qed

text \<open>A page from a pool that is not empty.\<close>

lemma fresh_page:
  assumes inv: "pmem_inv s" and ne: "free_pages k s \<noteq> {}"
  obtains p t where "pmem_alloc k s = (p, t)" "p \<in> free_pages k s" "p \<noteq> 0" "aligned 12 p" "pmem_inv t" "mem t = mem s"
    "\<And>j. free_pages j t = free_pages j s - {p}"
proof -
  obtain ps where ps: "region_list (mem s) (region k s) ps" using pmem_inv_region [OF inv] by blast
  then obtain p qs where c: "ps = p # qs" using ne free_pages_eq [OF ps] by (cases ps) auto
  with pmem_alloc_list [OF inv ps] obtain t where t: "pmem_alloc k s = (p, t)" "pmem_inv t" "mem t = mem s" by auto
  have p: "p \<in> free_pages k s" using free_pages_eq [OF ps] c by simp
  note a = free_page_aligned [OF inv p]
  from pmem_alloc_correct [OF inv t(1)] a(2) have f: "free_pages k t = free_pages k s - {p}" "free_pages (\<not> k) t = free_pages (\<not> k) s"
    by simp_all
  have "free_pages j t = free_pages j s - {p}" for j
    using f page_regions_disjoint [OF inv p] by (cases "j = k") auto
  then show thesis by (rule that [OF t(1) p a(2,1) t(2,3)])
qed

text \<open>Zeroing a page that is not free.\<close>

lemma zero_page:
  assumes inv: "pmem_inv t" and p: "aligned 12 p" "\<And>j. p \<notin> free_pages j t"
  defines "u \<equiv> t\<lparr>mem := store_bytes (mem t) p (replicate 4096 0)\<rparr>"
  shows "memset (mem t) p 0 4096 = Inr (mem u)" "pmem_inv u" "free_pages j u = free_pages j t"
    "aligned 12 q \<Longrightarrow> q \<noteq> p \<Longrightarrow> same_page q (mem t) (mem u)"
proof -
  have sp: "same_page q (mem t) (mem u)" if "aligned 12 q" "q \<noteq> p" for q
    using store_bytes_page [of p q 0 "replicate 4096 0" "mem t"] p(1) that by (simp add: u_def)
  then show "aligned 12 q \<Longrightarrow> q \<noteq> p \<Longrightarrow> same_page q (mem t) (mem u)" .
  have sf: "same_page q (mem t) (mem u)" if "q \<in> free_pages k t" for q k
    using sp free_page_aligned(1) [OF inv that] p(2) [of k] that by blast
  show "memset (mem t) p 0 4096 = Inr (mem u)" by (simp add: u_def memset_def memset_loop_eq)
  show "pmem_inv u" "free_pages j u = free_pages j t"
    using pmem_mem_upd [OF inv, of "mem u"] sf by (simp_all add: u_def)
qed

text \<open>A zeroed page is an empty page table.\<close>

lemma zero_root:
  assumes inv: "pmem_inv t" and p: "aligned 12 p" "p \<noteq> 0" "\<And>j. p \<notin> free_pages j t"
  defines "u \<equiv> t\<lparr>mem := store_bytes (mem t) p (replicate 4096 0)\<rparr>"
  shows "pt_inv u p" "pt_tables (mem u) p = {p}" "pt_entry (mem u) p x = 0"
proof -
  note z = zero_page [OF inv p(1,3), folded u_def]
  have e: "load64 (mem u) (p + 8 * i) = 0" if "i < 512" for i using load64_zero_page [OF that] by (simp add: u_def)
  have tb: "table (mem u) p q = (if q = [] then Some p else None)" if "pt_path q" for q
    using that e by (cases q) (auto simp: pt_path_def)
  show ts: "pt_tables (mem u) p = {p}"
    using tb by (auto simp: pt_tables_def pt_path_def split: if_splits intro: exI [of _ "[]"])
  have "pt_tree (mem u) p" unfolding pt_tree_def using tb p by (auto split: if_splits)
  then show "pt_inv u p" using z(2,3) p(3) ts by (simp add: pt_inv_def)
  show "pt_entry (mem u) p x = 0" using tb [OF pt_path_vpn(1), of x] pt_path_vpn(2) [of x] by (auto simp: pt_entry_def)
qed

section \<open>Mapping a range of pages\<close>

lemma unat_aligned: "aligned 12 (a :: u64) \<Longrightarrow> unat a = 4096 * (unat a div 4096)"
proof -
  assume "aligned 12 a"
  then have "a = PG_ROUND_DOWN a" by (simp add: round_down_plus aligned_def)
  then show "unat a = 4096 * (unat a div 4096)" using unat_round_down [of a] by simp
qed

lemma map_range:
  assumes inv: "pt_inv s root" and al: "aligned 12 va" "aligned 12 e" and lt: "va < e" "unat e \<le> 0x4000000000"
    and enough: "2 * ((unat e - 1) div 0x200000 - unat va div 0x200000 + 1) \<le> card (free_pages True s)"
  obtains t where "vm_mappages root va pa (e - va) perm s = Inr t" "pt_inv t root" "pt_grow root s t"
    "card (free_pages True s) \<le> card (free_pages True t) + 2 * ((unat e - 1) div 0x200000 - unat va div 0x200000 + 1)"
    "\<And>x. unat x < 2 ^ 39 \<Longrightarrow> pt_entry (mem t) root x =
       (if va \<le> x \<and> x < e then PA_TO_PTE (pa + (PG_ROUND_DOWN x - va)) OR perm OR PTE_V else pt_entry (mem s) root x)"
proof -
  have ul: "unat va + unat (e - va) = unat e" using lt(1) by (simp add: unat_sub word_le_nat_alt word_less_nat_alt)
  have ne: "e - va \<noteq> 0" using lt(1) by auto
  obtain t where t: "vm_mappages root va pa (e - va) perm s = Inr t" "pt_inv t root" "pt_grow root s t"
      "card (free_pages True s) \<le> card (free_pages True t) + 2 * ((unat e - 1) div 0x200000 - unat va div 0x200000 + 1)"
      "\<forall>x. unat x < 2 ^ 39 \<longrightarrow> pt_entry (mem t) root x =
       (if unat va div 4096 \<le> unat x div 4096 \<and> unat x div 4096 \<le> (unat e - 1) div 4096
        then PA_TO_PTE (pa + of_nat (unat x div 4096 - unat va div 4096) * PGSIZE) OR perm OR PTE_V else pt_entry (mem s) root x)"
    using vm_mappages_ok [OF inv ne, of va pa perm, unfolded ul, OF lt(2) enough] by blast
  define k m where km: "k = unat va div 4096" "m = unat e div 4096"
  have u: "unat va = 4096 * k" "unat e = 4096 * m" using unat_aligned al unfolding km by blast+
  have m0: "0 < m" using lt(1) u by (cases m) (auto simp: word_less_nat_alt)
  then have last: "(unat e - 1) div 4096 = m - 1" unfolding u by (cases m) auto
  have iff: "k \<le> unat x div 4096 \<and> unat x div 4096 \<le> m - 1 \<longleftrightarrow> va \<le> x \<and> x < e" for x
    unfolding word_le_nat_alt word_less_nat_alt u using m0
    by (auto simp: less_eq_div_iff_mult_less_eq div_less_iff_less_mult mult.commute le_diff_conv2 Suc_le_eq less_Suc_eq_le [symmetric])
  have page: "va + of_nat (unat x div 4096 - k) * PGSIZE = PG_ROUND_DOWN x" if "k \<le> unat x div 4096" for x
  proof -
    have "unat va + 4096 * (unat x div 4096 - k) = 4096 * (unat x div 4096)" unfolding u using that by (simp add: algebra_simps)
    moreover have "4096 * (unat x div 4096) < 2 ^ 64" using unat_lt64 [of x] by (rule le_less_trans [rotated]) simp
    ultimately have "unat (va + of_nat (unat x div 4096 - k) * PGSIZE) = unat (PG_ROUND_DOWN x)"
      using unat_page_add [of va "unat x div 4096 - k"] unfolding unat_round_down by simp
    then show ?thesis by (simp only: word_unat_eq_iff)
  qed
  have e: "pt_entry (mem t) root x =
       (if va \<le> x \<and> x < e then PA_TO_PTE (pa + (PG_ROUND_DOWN x - va)) OR perm OR PTE_V else pt_entry (mem s) root x)"
    if "unat x < 2 ^ 39" for x
  proof (cases "va \<le> x \<and> x < e")
    case True
    then have "k \<le> unat x div 4096" using iff by blast
    from page [OF this] have "PG_ROUND_DOWN x - va = of_nat (unat x div 4096 - k) * PGSIZE" by (simp add: algebra_simps)
    then show ?thesis using t(5) that True iff [of x] unfolding km(1) [symmetric] last by (simp only: if_True simp_thms)
  next
    case False
    then show ?thesis using t(5) that iff [of x] unfolding km(1) [symmetric] last by (simp only: if_False simp_thms)
  qed
  from t(1-4) e show thesis by (rule that)
qed

section \<open>The kernel's address space\<close>

text \<open>What the kernel's page table is to hold for the address \<open>x\<close>: \<open>ks\<close> is the page of the first kernel stack.\<close>

definition kernel_map :: "u64 \<Rightarrow> u64 \<Rightarrow> u64 \<Rightarrow> u64 \<Rightarrow> u64" where
  "kernel_map etext tramp ks x =
     (if 0x0c000000 \<le> x \<and> x < 0x0c400000 \<or> 0x10000000 \<le> x \<and> x < 0x10002000 \<or> etext \<le> x \<and> x < PHYSTOP
      then PA_TO_PTE (PG_ROUND_DOWN x) OR (PTE_R OR PTE_W) OR PTE_V
      else if 0x80000000 \<le> x \<and> x < etext then PA_TO_PTE (PG_ROUND_DOWN x) OR (PTE_R OR PTE_X) OR PTE_V
      else if TRAMPOLINE \<le> x \<and> x < TRAMPOLINE + PGSIZE then PA_TO_PTE tramp OR (PTE_R OR PTE_X) OR PTE_V
      else if KSTACK 0 \<le> x \<and> x < KSTACK 0 + PGSIZE then PA_TO_PTE ks OR (PTE_R OR PTE_W) OR PTE_V
      else 0)"

lemma one_page:
  assumes "aligned 12 va" and "va \<le> x" and "x < va + PGSIZE" and "unat va < 0x4000000000"
  shows "PG_ROUND_DOWN x = va"
proof -
  have "unat (va + PGSIZE) = unat va + 4096" by (rule unat_add_page [OF assms(4)])
  then have "unat va \<le> unat x" "unat x < unat va + 4096" using assms(2,3) by (simp_all add: word_le_nat_alt word_less_nat_alt)
  moreover obtain k where "unat va = 4096 * k" using unat_aligned [OF assms(1)] by blast
  ultimately have "4096 * (unat x div 4096) = unat va" using div_nat_eqI [of 4096 k "unat x"] by simp
  then have "unat (PG_ROUND_DOWN x) = unat va" by (simp only: unat_round_down)
  then show ?thesis by (simp only: word_unat_eq_iff)
qed

lemma region_count:
  assumes "unat a \<ge> 0x80000000" and "unat e \<le> 0x88000000"
  shows "2 * ((unat (e :: u64) - 1) div 0x200000 - unat (a :: u64) div 0x200000 + 1) \<le> 128"
proof -
  have "(unat e - 1) div 0x200000 \<le> (0x88000000 - 1) div 0x200000" using assms(2) by (intro div_le_mono) simp
  moreover have "0x80000000 div 0x200000 \<le> unat a div 0x200000" using assms(1) by (intro div_le_mono) simp
  ultimately show ?thesis by simp
qed

lemma aligned_lit [simp]:
  "aligned 12 (0x0c000000 :: u64)" "aligned 12 (0x0c400000 :: u64)" "aligned 12 (0x10000000 :: u64)" "aligned 12 (0x10001000 :: u64)"
  "aligned 12 (0x10002000 :: u64)" "aligned 12 (0x80000000 :: u64)" "aligned 12 (0x88000000 :: u64)"
  "aligned 12 (0x4000000000 :: u64)" "aligned 12 (0x3FFFFFF000 :: u64)" "aligned 12 (0x3FFFFFC000 :: u64)" "aligned 12 (0x3FFFFFD000 :: u64)"
  by (simp_all add: aligned_def take_bit_eq_mod)

lemma KSTACK_0: "KSTACK 0 = 0x3FFFFFC000" by (simp add: KSTACK_def)

text \<open>The part up to the trampoline, on a table without entries.\<close>

definition text_and_devices :: "u64 \<Rightarrow> u64 \<Rightarrow> u64 \<Rightarrow> u64" where
  "text_and_devices etext tramp x =
     (if TRAMPOLINE \<le> x \<and> x < TRAMPOLINE + PGSIZE then PA_TO_PTE (tramp + (PG_ROUND_DOWN x - TRAMPOLINE)) OR (PTE_R OR PTE_X) OR PTE_V
      else if etext \<le> x \<and> x < PHYSTOP then PA_TO_PTE (etext + (PG_ROUND_DOWN x - etext)) OR (PTE_R OR PTE_W) OR PTE_V
      else if 0x80000000 \<le> x \<and> x < etext then PA_TO_PTE (0x80000000 + (PG_ROUND_DOWN x - 0x80000000)) OR (PTE_R OR PTE_X) OR PTE_V
      else if 0x0c000000 \<le> x \<and> x < 0x0c400000 then PA_TO_PTE (0x0c000000 + (PG_ROUND_DOWN x - 0x0c000000)) OR (PTE_R OR PTE_W) OR PTE_V
      else if 0x10001000 \<le> x \<and> x < 0x10002000 then PA_TO_PTE (0x10001000 + (PG_ROUND_DOWN x - 0x10001000)) OR (PTE_R OR PTE_W) OR PTE_V
      else if 0x10000000 \<le> x \<and> x < 0x10001000 then PA_TO_PTE (0x10000000 + (PG_ROUND_DOWN x - 0x10000000)) OR (PTE_R OR PTE_W) OR PTE_V
      else 0)"

lemma kvm_ranges:
  assumes inv: "pt_inv s root" and z: "\<And>x. pt_entry (mem s) root x = 0" and enough: "268 \<le> card (free_pages True s)"
    and etext: "aligned 12 etext" "0x80000000 < etext" "etext < PHYSTOP"
  obtains t where
    "bindr (vm_mappages root 0x10000000 0x10000000 PGSIZE (PTE_R OR PTE_W) s) (\<lambda>s.
     bindr (vm_mappages root 0x10001000 0x10001000 PGSIZE (PTE_R OR PTE_W) s) (\<lambda>s.
     bindr (vm_mappages root 0x0C000000 0x0C000000 0x400000 (PTE_R OR PTE_W) s) (\<lambda>s.
     bindr (vm_mappages root 0x80000000 0x80000000 (etext - 0x80000000) (PTE_R OR PTE_X) s) (\<lambda>s.
     bindr (vm_mappages root etext etext (PHYSTOP - etext) (PTE_R OR PTE_W) s) (\<lambda>s.
     vm_mappages root TRAMPOLINE tramp PGSIZE (PTE_R OR PTE_X) s))))) = Inr t"
    "pt_inv t root" "pt_grow root s t" "card (free_pages True s) \<le> card (free_pages True t) + 266"
    "\<And>x. unat x < 2 ^ 39 \<Longrightarrow> pt_entry (mem t) root x = text_and_devices etext tramp x"
proof -
  have ue: "0x80000000 \<le> unat etext" "unat etext \<le> 0x88000000" using etext(2,3) by (simp_all add: word_less_nat_alt)
  obtain a where a: "vm_mappages root 0x10000000 0x10000000 PGSIZE (PTE_R OR PTE_W) s = Inr a" "pt_inv a root" "pt_grow root s a"
      "card (free_pages True s) \<le> card (free_pages True a) + 2"
      "\<And>x. unat x < 2 ^ 39 \<Longrightarrow> pt_entry (mem a) root x = (if 0x10000000 \<le> x \<and> x < 0x10001000
         then PA_TO_PTE (0x10000000 + (PG_ROUND_DOWN x - 0x10000000)) OR (PTE_R OR PTE_W) OR PTE_V else pt_entry (mem s) root x)"
    by (rule map_range [OF inv, of "0x10000000" "0x10001000" "0x10000000" "PTE_R OR PTE_W"]) (use enough in simp_all)
  obtain b where b: "vm_mappages root 0x10001000 0x10001000 PGSIZE (PTE_R OR PTE_W) a = Inr b" "pt_inv b root" "pt_grow root a b"
      "card (free_pages True a) \<le> card (free_pages True b) + 2"
      "\<And>x. unat x < 2 ^ 39 \<Longrightarrow> pt_entry (mem b) root x = (if 0x10001000 \<le> x \<and> x < 0x10002000
         then PA_TO_PTE (0x10001000 + (PG_ROUND_DOWN x - 0x10001000)) OR (PTE_R OR PTE_W) OR PTE_V else pt_entry (mem a) root x)"
    by (rule map_range [OF a(2), of "0x10001000" "0x10002000" "0x10001000" "PTE_R OR PTE_W"]) (use enough a(4) in simp_all)
  obtain c where c: "vm_mappages root 0x0c000000 0x0c000000 0x400000 (PTE_R OR PTE_W) b = Inr c" "pt_inv c root" "pt_grow root b c"
      "card (free_pages True b) \<le> card (free_pages True c) + 4"
      "\<And>x. unat x < 2 ^ 39 \<Longrightarrow> pt_entry (mem c) root x = (if 0x0c000000 \<le> x \<and> x < 0x0c400000
         then PA_TO_PTE (0x0c000000 + (PG_ROUND_DOWN x - 0x0c000000)) OR (PTE_R OR PTE_W) OR PTE_V else pt_entry (mem b) root x)"
    by (rule map_range [OF b(2), of "0x0c000000" "0x0c400000" "0x0c000000" "PTE_R OR PTE_W"]) (use enough a(4) b(4) in simp_all)
  have rd: "2 * ((unat etext - 1) div 0x200000 - unat (0x80000000 :: u64) div 0x200000 + 1) \<le> 128"
    "2 * ((unat PHYSTOP - 1) div 0x200000 - unat etext div 0x200000 + 1) \<le> 128"
    using region_count [of "0x80000000" etext] region_count [of etext PHYSTOP] ue by simp_all
  obtain d where d: "vm_mappages root 0x80000000 0x80000000 (etext - 0x80000000) (PTE_R OR PTE_X) c = Inr d" "pt_inv d root" "pt_grow root c d"
      "card (free_pages True c) \<le> card (free_pages True d) + 2 * ((unat etext - 1) div 0x200000 - unat (0x80000000 :: u64) div 0x200000 + 1)"
      "\<And>x. unat x < 2 ^ 39 \<Longrightarrow> pt_entry (mem d) root x = (if 0x80000000 \<le> x \<and> x < etext
         then PA_TO_PTE (0x80000000 + (PG_ROUND_DOWN x - 0x80000000)) OR (PTE_R OR PTE_X) OR PTE_V else pt_entry (mem c) root x)"
    by (rule map_range [OF c(2), of "0x80000000" etext "0x80000000" "PTE_R OR PTE_X"])
       (use rd(1) enough a(4) b(4) c(4) etext ue in linarith | use etext ue in simp)+
  have d4: "card (free_pages True c) \<le> card (free_pages True d) + 128" using d(4) rd(1) by linarith
  obtain e where e: "vm_mappages root etext etext (PHYSTOP - etext) (PTE_R OR PTE_W) d = Inr e" "pt_inv e root" "pt_grow root d e"
      "card (free_pages True d) \<le> card (free_pages True e) + 2 * ((unat PHYSTOP - 1) div 0x200000 - unat etext div 0x200000 + 1)"
      "\<And>x. unat x < 2 ^ 39 \<Longrightarrow> pt_entry (mem e) root x = (if etext \<le> x \<and> x < PHYSTOP
         then PA_TO_PTE (etext + (PG_ROUND_DOWN x - etext)) OR (PTE_R OR PTE_W) OR PTE_V else pt_entry (mem d) root x)"
    by (rule map_range [OF d(2), of etext PHYSTOP etext "PTE_R OR PTE_W"])
       (use rd(2) enough a(4) b(4) c(4) d4 etext ue in linarith | use etext ue in simp)+
  have e4: "card (free_pages True d) \<le> card (free_pages True e) + 128" using e(4) rd(2) by linarith
  obtain f where f: "vm_mappages root TRAMPOLINE tramp PGSIZE (PTE_R OR PTE_X) e = Inr f" "pt_inv f root" "pt_grow root e f"
      "card (free_pages True e) \<le> card (free_pages True f) + 2"
      "\<And>x. unat x < 2 ^ 39 \<Longrightarrow> pt_entry (mem f) root x = (if TRAMPOLINE \<le> x \<and> x < TRAMPOLINE + PGSIZE
         then PA_TO_PTE (tramp + (PG_ROUND_DOWN x - TRAMPOLINE)) OR (PTE_R OR PTE_X) OR PTE_V else pt_entry (mem e) root x)"
    by (rule map_range [OF e(2), of TRAMPOLINE "TRAMPOLINE + PGSIZE" tramp "PTE_R OR PTE_X"])
       (use enough a(4) b(4) c(4) d4 e4 in simp_all)
  show thesis
  proof (rule that [of f])
    show "pt_grow root s f" using a(3) b(3) c(3) d(3) e(3) f(3) by (meson pt_grow_trans)
    show "card (free_pages True s) \<le> card (free_pages True f) + 266" using a(4) b(4) c(4) d4 e4 f(4) by linarith
    show "pt_entry (mem f) root x = text_and_devices etext tramp x" if "unat x < 2 ^ 39" for x
      unfolding text_and_devices_def f(5) [OF that] e(5) [OF that] d(5) [OF that] c(5) [OF that] b(5) [OF that] a(5) [OF that] z ..
  qed (simp_all only: a(1) b(1) c(1) d(1) e(1) f(1,2) bindr_Inr)
qed

lemma alloc_pgtbl_fresh:
  assumes inv: "pmem_inv s" and ne: "free_pages True s \<noteq> {}"
  obtains p u where "alloc_pgtbl s = Inr (p, u)" "p \<in> free_pages True s" "p \<noteq> 0" "pt_inv u p" "pt_tables (mem u) p = {p}"
    "\<And>x. pt_entry (mem u) p x = 0" "\<And>j. free_pages j u = free_pages j s - {p}"
proof -
  obtain p t where t: "pmem_alloc True s = (p, t)" "p \<in> free_pages True s" "p \<noteq> 0" "aligned 12 p" "pmem_inv t" "mem t = mem s"
      "\<And>j. free_pages j t = free_pages j s - {p}"
    by (rule fresh_page [OF inv ne]) blast
  have nf: "p \<notin> free_pages j t" for j using t(7) by simp
  let ?u = "t\<lparr>mem := store_bytes (mem t) p (replicate 4096 0)\<rparr>"
  have "alloc_pgtbl s = Inr (p, ?u)" using t(1,3) zero_page(1) [OF t(5,4) nf] by (simp add: alloc_pgtbl_def)
  then show thesis
    using zero_root [OF t(5,4,3) nf] zero_page(3) [OF t(5,4) nf] t(2,3,7) by (intro that [of p ?u]) auto
qed

lemma pmem_alloc_pt:
  assumes inv: "pt_inv s root" and a: "pmem_alloc k s = (p, t)" "p \<in> free_pages k s" "pmem_inv t" "mem t = mem s"
    "\<And>j. free_pages j t = free_pages j s - {p}"
  shows "pt_inv t root" "p \<notin> pt_tables (mem t) root"
  using inv a unfolding pt_inv_def by auto

lemma kernel_map_split:
  assumes e: "0x80000000 < etext" "etext < PHYSTOP" and x: "unat x < 2 ^ 38"
  shows "kernel_map etext tramp ks x =
    (if KSTACK 0 \<le> x \<and> x < KSTACK 0 + PGSIZE then PA_TO_PTE (ks + (PG_ROUND_DOWN x - KSTACK 0)) OR (PTE_R OR PTE_W) OR PTE_V
     else text_and_devices etext tramp x)"
proof -
  have k: "PG_ROUND_DOWN x = KSTACK 0" if "KSTACK 0 \<le> x" "x < KSTACK 0 + PGSIZE"
    by (rule one_page [OF _ that]) (simp_all add: KSTACK_0)
  have t: "PG_ROUND_DOWN x = TRAMPOLINE" if "TRAMPOLINE \<le> x" "x < TRAMPOLINE + PGSIZE"
    by (rule one_page [OF _ that]) simp_all
  define K T D X P U V where r: "K \<longleftrightarrow> KSTACK 0 \<le> x \<and> x < KSTACK 0 + PGSIZE" "T \<longleftrightarrow> TRAMPOLINE \<le> x \<and> x < TRAMPOLINE + PGSIZE"
    "D \<longleftrightarrow> etext \<le> x \<and> x < PHYSTOP" "X \<longleftrightarrow> 0x80000000 \<le> x \<and> x < etext" "P \<longleftrightarrow> 0x0c000000 \<le> x \<and> x < 0x0c400000"
    "U \<longleftrightarrow> 0x10000000 \<le> x \<and> x < 0x10001000" "V \<longleftrightarrow> 0x10001000 \<le> x \<and> x < 0x10002000"
  have d: "\<not> (K \<and> T)" "\<not> (K \<and> D)" "\<not> (K \<and> X)" "\<not> (K \<and> P)" "\<not> (K \<and> U)" "\<not> (K \<and> V)"
    "\<not> (T \<and> D)" "\<not> (T \<and> X)" "\<not> (T \<and> P)" "\<not> (T \<and> U)" "\<not> (T \<and> V)" "\<not> (X \<and> D)" "\<not> (X \<and> P)" "\<not> (X \<and> U)" "\<not> (X \<and> V)"
    using e unfolding r by (simp_all add: word_le_nat_alt word_less_nat_alt KSTACK_0)
  have u: "0x10000000 \<le> x \<and> x < 0x10002000 \<longleftrightarrow> U \<or> V" unfolding r by (auto simp: word_le_nat_alt word_less_nat_alt)
  have id: "a + (PG_ROUND_DOWN x - a) = PG_ROUND_DOWN x" for a by simp
  have k: "ks + (PG_ROUND_DOWN x - KSTACK 0) = ks" if K using k that unfolding r by simp
  have t: "tramp + (PG_ROUND_DOWN x - TRAMPOLINE) = tramp" if T using t that unfolding r by simp
  show ?thesis
    unfolding kernel_map_def text_and_devices_def id u r [symmetric] using k t d by presburger
qed

lemma kvm_init_ok:
  assumes inv: "pmem_inv s" and enough: "272 \<le> card (free_pages True s)"
    and etext: "etext mod PGSIZE = 0" "0x80000000 < etext" "etext < PHYSTOP"
  obtains root t ks where "kvm_init etext tramp s = Inr (root, t)" "pt_inv t root"
    "ks \<in> free_pages True s" "ks \<notin> free_pages True t" "ks \<notin> pt_tables (mem t) root" "pt_tables (mem t) root \<subseteq> free_pages True s"
    "free_pages False t = free_pages False s" "card (free_pages True s) \<le> card (free_pages True t) + 270"
    "\<And>x. unat x < 2 ^ 38 \<Longrightarrow> pt_entry (mem t) root x = kernel_map etext tramp ks x"
proof -
  have fin: "finite (free_pages True s)" by (rule finite_free [OF inv])
  have al: "aligned 12 etext" using etext(1) by (simp add: aligned_def take_bit_eq_mod)
  have "free_pages True s \<noteq> {}" using enough by auto
  then obtain root a where a: "alloc_pgtbl s = Inr (root, a)" "root \<in> free_pages True s" "root \<noteq> 0" "pt_inv a root"
      "pt_tables (mem a) root = {root}" "\<And>x. pt_entry (mem a) root x = 0" "\<And>j. free_pages j a = free_pages j s - {root}"
    by (rule alloc_pgtbl_fresh [OF inv]) blast
  have ca: "card (free_pages True s) = card (free_pages True a) + 1" using card_Suc_Diff1 [OF fin a(2)] a(7) by simp
  have "268 \<le> card (free_pages True a)" using ca enough by simp
  from kvm_ranges [OF a(4,6) this al etext(2,3), of tramp] obtain b where b: "bindr (vm_mappages root 0x10000000 0x10000000 PGSIZE (PTE_R OR PTE_W) a) (\<lambda>s.
     bindr (vm_mappages root 0x10001000 0x10001000 PGSIZE (PTE_R OR PTE_W) s) (\<lambda>s.
     bindr (vm_mappages root 0x0C000000 0x0C000000 0x400000 (PTE_R OR PTE_W) s) (\<lambda>s.
     bindr (vm_mappages root 0x80000000 0x80000000 (etext - 0x80000000) (PTE_R OR PTE_X) s) (\<lambda>s.
     bindr (vm_mappages root etext etext (PHYSTOP - etext) (PTE_R OR PTE_W) s) (\<lambda>s.
     vm_mappages root TRAMPOLINE tramp PGSIZE (PTE_R OR PTE_X) s))))) = Inr b"
    "pt_inv b root" "pt_grow root a b" "card (free_pages True a) \<le> card (free_pages True b) + 266"
    "\<And>x. unat x < 2 ^ 39 \<Longrightarrow> pt_entry (mem b) root x = text_and_devices etext tramp x" by blast
  have bi: "pmem_inv b" "free_pages True b \<noteq> {}" using b(2,4) ca enough by (auto simp: pt_inv_def)
  then obtain ks c where c: "pmem_alloc True b = (ks, c)" "ks \<in> free_pages True b" "ks \<noteq> 0" "aligned 12 ks" "pmem_inv c" "mem c = mem b"
      "\<And>j. free_pages j c = free_pages j b - {ks}"
    by (rule fresh_page) blast
  note ci = pmem_alloc_pt [OF b(2) c(1,2,5,6,7)]
  have cc: "card (free_pages True b) = card (free_pages True c) + 1"
    using card_Suc_Diff1 [OF finite_free [OF bi(1)] c(2)] c(7) by simp
  obtain t where t: "vm_mappages root (KSTACK 0) ks PGSIZE (PTE_R OR PTE_W) c = Inr t" "pt_inv t root" "pt_grow root c t"
      "card (free_pages True c) \<le> card (free_pages True t) + 2"
      "\<And>x. unat x < 2 ^ 39 \<Longrightarrow> pt_entry (mem t) root x = (if KSTACK 0 \<le> x \<and> x < KSTACK 0 + PGSIZE
         then PA_TO_PTE (ks + (PG_ROUND_DOWN x - KSTACK 0)) OR (PTE_R OR PTE_W) OR PTE_V else pt_entry (mem c) root x)"
    by (rule map_range [OF ci(1), of "KSTACK 0" "KSTACK 0 + PGSIZE" ks "PTE_R OR PTE_W"])
       (use enough ca b(4) cc in \<open>simp_all add: KSTACK_0\<close>)
  have gs: "pt_tables (mem b) root \<subseteq> free_pages True s" "free_pages True b \<subseteq> free_pages True s" "free_pages False b = free_pages False s"
    using b(3) a(2,5,7) page_regions_disjoint [OF inv a(2)] by (auto simp: pt_grow_def)
  have gt: "pt_tables (mem t) root \<subseteq> pt_tables (mem b) root \<union> free_pages True c" "free_pages True t \<subseteq> free_pages True c"
    "free_pages False t = free_pages False c"
    using t(3) c(6) by (auto simp: pt_grow_def)
  show thesis
  proof (rule that [of root t ks])
    show "kvm_init etext tramp s = Inr (root, t)"
      using a(1,3) b(1) c(1,3) t(1) unfolding kvm_init_def by (auto simp: bindr_eq_Inr)
    show "pt_inv t root" by (rule t(2))
    show "ks \<in> free_pages True s" using c(2) gs(2) by blast
    show "ks \<notin> free_pages True t" using c(7) gt(2) by blast
    show "ks \<notin> pt_tables (mem t) root" using gt(1) ci(2) c(6,7) by auto
    show "pt_tables (mem t) root \<subseteq> free_pages True s" using gt(1) gs(1,2) c(7) by blast
    show "free_pages False t = free_pages False s" using gt(3) gs(3) c(7) page_regions_disjoint [OF bi(1) c(2)] by simp
    show "card (free_pages True s) \<le> card (free_pages True t) + 270" using ca cc b(4) t(4) by linarith
    show "pt_entry (mem t) root x = kernel_map etext tramp ks x" if "unat x < 2 ^ 38" for x
    proof -
      have x: "unat x < 2 ^ 39" using that by simp
      show ?thesis unfolding t(5) [OF x] c(6) b(5) [OF x] kernel_map_split [OF etext(2,3) that] ..
    qed
  qed
qed

section \<open>Properties\<close>

lemma PTE_TO_PA_leaf:
  assumes "aligned 12 p" and "f < 0x400"
  shows "PTE_TO_PA (PA_TO_PTE p OR f) = p"
proof (rule bit_word_eqI)
  fix n assume n: "n < LENGTH(64)"
  have low: "\<not> bit p j" if "j < 12" for j
    using assms(1) that by (metis aligned_def bit_0_eq bit_take_bit_iff bot_apply bot_bool_def)
  have "f = take_bit 10 f" using assms(2) by (simp add: take_bit_eq_mod mod_word_less)
  then have high: "\<not> bit f j" if "10 \<le> j" for j using that by (metis bit_take_bit_iff not_less)
  show "bit (PTE_TO_PA (PA_TO_PTE p OR f)) n = bit p n"
    unfolding PTE_TO_PA_def PA_TO_PTE_def using low [of n] high [of "n - 2"] n by (cases "n < 12") (auto simp: bit_simps)
qed

text \<open>C11. The kernel's address space.  With the sections in the order the linker script gives them, \<^verbatim>\<open>pmem_init\<close> and
  \<^verbatim>\<open>kvm_init\<close> succeed on any content of the memory, and the page table is the intended one at every virtual address: the
  interrupt controller, the serial line, the disk and the memory behind the code are mapped to themselves readable and
  writable, the code readable and executable, the trampoline and the first kernel stack at the top, and nothing else is
  mapped.  Every page that either pool will ever hand out is mapped to itself, and no free page is part of the table.\<close>

theorem kvm_init_correct:
  assumes "a mod PGSIZE = 0" and "etext mod PGSIZE = 0" and "0x80000000 < etext" and "etext \<le> a"
    and "unat a + 1024 * 4096 \<le> 0x88000000"
  shows "\<exists>s root t ks. pmem_init a m = Inr s \<and> kvm_init etext tramp s = Inr (root, t) \<and> pt_inv t root \<and>
    ks \<in> region_pages True s \<and> ks \<notin> free_pages True t \<and> ks \<notin> pt_tables (mem t) root \<and>
    free_pages False t = region_pages False s \<and> 1024 \<le> card (free_pages True t) + 270 \<and>
    (\<forall>x. unat x < 2 ^ 38 \<longrightarrow> pt_entry (mem t) root x = kernel_map etext tramp ks x) \<and>
    (\<forall>k. \<forall>p \<in> region_pages k s. PTE_TO_PA (pt_entry (mem t) root p) = p)"
proof -
  have ua: "unat etext \<le> unat a" "0x80000000 < unat etext" using assms(3,4) by (simp_all add: word_le_nat_alt word_less_nat_alt)
  have "0 < a" using ua by (simp add: word_less_nat_alt)
  then obtain s where s: "pmem_init a m = Inr s" "pmem_inv s" "free_pages True s = region_pages True s" "free_pages False s = region_pages False s"
      "card (free_pages True s) = 1024" "r_begin (kern_region s) = a" "r_end (kern_region s) = a + 1024 * PGSIZE"
      "r_begin (user_region s) = a + 1024 * PGSIZE" "r_end (user_region s) = 0x88000000"
    using pmem_init_correct [OF assms(1) _ assms(5), of m] by blast
  have e: "etext < PHYSTOP" using ua assms(5) by (simp add: word_less_nat_alt)
  have "272 \<le> card (free_pages True s)" using s(5) by simp
  then obtain root t ks where t: "kvm_init etext tramp s = Inr (root, t)" "pt_inv t root"
      "ks \<in> free_pages True s" "ks \<notin> free_pages True t" "ks \<notin> pt_tables (mem t) root"
      "free_pages False t = free_pages False s" "card (free_pages True s) \<le> card (free_pages True t) + 270"
      "\<And>x. unat x < 2 ^ 38 \<Longrightarrow> pt_entry (mem t) root x = kernel_map etext tramp ks x"
    by (rule kvm_init_ok [OF s(2) _ assms(2,3) e]) blast
  have mid: "unat (a + 1024 * PGSIZE) = unat a + 1024 * 4096" using assms(5) by (simp add: unat_word_ariths)
  have "PTE_TO_PA (pt_entry (mem t) root p) = p" if "p \<in> region_pages k s" for k p
  proof -
    have p: "p mod PGSIZE = 0" "unat a \<le> unat p" "unat p < 0x88000000"
      using that s(6-9) mid assms(5) by (cases k; force simp: region_pages_def page_ok_def word_le_nat_alt word_less_nat_alt)+
    then have al: "aligned 12 p" by (simp add: aligned_def take_bit_eq_mod)
    have "pt_entry (mem t) root p = PA_TO_PTE p OR (PTE_R OR PTE_W) OR PTE_V"
      using t(8) [of p] p ua al by (simp add: kernel_map_def word_le_nat_alt word_less_nat_alt round_down_plus aligned_def)
    moreover have "((PTE_R OR PTE_W) OR PTE_V) < 0x400" by simp
    ultimately show ?thesis using PTE_TO_PA_leaf [OF al] by (simp only:)
  qed
  then show ?thesis using s t by auto
qed

theorem kvm_init_correct_witness:
  "\<exists>s root t ks. pmem_init 0x80040000 (\<lambda>_. 0) = Inr s \<and> kvm_init 0x80008000 0x80007000 s = Inr (root, t) \<and>
    pt_entry (mem t) root 0x80040000 = PA_TO_PTE 0x80040000 OR (PTE_R OR PTE_W) OR PTE_V \<and>
    pt_entry (mem t) root 0x3FFFFFF008 = PA_TO_PTE 0x80007000 OR (PTE_R OR PTE_X) OR PTE_V \<and>
    pt_entry (mem t) root 0x1000 = 0"
proof -
  obtain s root t ks where t: "pmem_init 0x80040000 (\<lambda>_. 0) = Inr s" "kvm_init 0x80008000 0x80007000 s = Inr (root, t)"
      "\<forall>x. unat x < 2 ^ 38 \<longrightarrow> pt_entry (mem t) root x = kernel_map 0x80008000 0x80007000 ks x"
    using kvm_init_correct [of "0x80040000" "0x80008000" "\<lambda>_. 0" "0x80007000"] by auto
  have "kernel_map 0x80008000 0x80007000 ks 0x80040000 = PA_TO_PTE 0x80040000 OR (PTE_R OR PTE_W) OR PTE_V"
    "kernel_map 0x80008000 0x80007000 ks 0x3FFFFFF008 = PA_TO_PTE 0x80007000 OR (PTE_R OR PTE_X) OR PTE_V"
    "kernel_map 0x80008000 0x80007000 ks 0x1000 = 0"
    by (simp_all add: kernel_map_def KSTACK_0 PG_ROUND_DOWN_def)
  with t show ?thesis by (intro exI [of _ s] exI [of _ root] exI [of _ t]) simp
qed

end
