(* ===== verification/Page_Owners.thy ===== *)
theory Page_Owners
  imports Kvm
begin

text \<open>
  Several page tables in one memory.  \<open>own s R H\<close> says that the tables with the roots \<open>R\<close> are well formed and share no page,
  and that the pages \<open>H\<close>, which somebody uses for something else, are neither free nor part of a table.  Every operation the
  kernel uses to set up an address space keeps this, so that what is known of one address space survives work on another.
\<close>

definition own :: "pmem \<Rightarrow> u64 set \<Rightarrow> u64 set \<Rightarrow> bool" where
  "own s R H \<longleftrightarrow> pmem_inv s \<and> (\<forall>r \<in> R. pt_inv s r) \<and>
     (\<forall>r \<in> R. \<forall>r' \<in> R. r \<noteq> r' \<longrightarrow> pt_tables (mem s) r \<inter> pt_tables (mem s) r' = {}) \<and>
     (\<forall>h \<in> H. aligned 12 h \<and> h \<noteq> 0 \<and> (\<forall>k. h \<notin> free_pages k s) \<and> (\<forall>r \<in> R. h \<notin> pt_tables (mem s) r))"

lemma ownD:
  assumes "own s R H"
  shows "pmem_inv s" "r \<in> R \<Longrightarrow> pt_inv s r" "r \<in> R \<Longrightarrow> r' \<in> R \<Longrightarrow> r \<noteq> r' \<Longrightarrow> pt_tables (mem s) r \<inter> pt_tables (mem s) r' = {}"
    "h \<in> H \<Longrightarrow> aligned 12 h" "h \<in> H \<Longrightarrow> h \<noteq> 0" "h \<in> H \<Longrightarrow> h \<notin> free_pages k s" "h \<in> H \<Longrightarrow> r \<in> R \<Longrightarrow> h \<notin> pt_tables (mem s) r"
  using assms unfolding own_def by blast+

lemma table_aligned: "pt_inv s r \<Longrightarrow> q \<in> pt_tables (mem s) r \<Longrightarrow> aligned 12 q"
  unfolding pt_inv_def pt_tree_def pt_tables_def by blast

text \<open>A table whose pages keep their bytes is the same table.\<close>

lemma table_kept:
  assumes sp: "\<And>q. q \<in> pt_tables m r \<Longrightarrow> same_page q m m'" and p: "pt_path p"
  shows "table m' r p = table m r p"
proof (rule table_same)
  fix q1 j q2 t assume q: "p = q1 @ j # q2" "table m r q1 = Some t"
  then have "pt_path q1" "j < 512" using p by (auto simp: pt_path_def)
  then have "t \<in> pt_tables m r" using q(2) by (auto simp: pt_tables_def)
  from same_page_load64 [OF sp [OF this] \<open>j < 512\<close>] show "load64 m' (t + 8 * j) = load64 m (t + 8 * j)" .
qed

lemma pt_kept:
  assumes sp: "\<And>q. q \<in> pt_tables m r \<Longrightarrow> same_page q m m'"
  shows "pt_tables m' r = pt_tables m r" "pt_tree m' r = pt_tree m r" "pt_entry m' r x = pt_entry m r x"
proof -
  have tk: "table m' r p = table m r p" if "pt_path p" for p using table_kept [OF sp that] .
  show "pt_tables m' r = pt_tables m r" using tk by (auto simp: pt_tables_def)
  show "pt_tree m' r = pt_tree m r" unfolding pt_tree_def using tk by (simp cong: imp_cong)
  show "pt_entry m' r x = pt_entry m r x"
  proof (cases "table m r (leaf_path x)")
    case None
    then show ?thesis using tk [OF pt_path_vpn(1), of x] by (simp add: pt_entry_def)
  next
    case (Some t)
    then have "t \<in> pt_tables m r" using pt_path_vpn(1) by (auto simp: pt_tables_def)
    from same_page_load64 [OF sp [OF this] vpn_lt] show ?thesis
      using tk [OF pt_path_vpn(1), of x] Some by (simp add: pt_entry_def)
  qed
qed

text \<open>The three ways the state changes: a page is taken, a page in use is written, a table is extended.\<close>

lemma own_take:
  assumes "own s R H" and "free_pages k s \<noteq> {}"
  obtains p t where "pmem_alloc k s = (p, t)" "p \<noteq> 0" "p \<in> free_pages k s" "p \<notin> H" "own t R (insert p H)" "mem t = mem s"
    "\<And>j. free_pages j t = free_pages j s - {p}"
proof -
  obtain p t where t: "pmem_alloc k s = (p, t)" "p \<in> free_pages k s" "p \<noteq> 0" "aligned 12 p" "pmem_inv t" "mem t = mem s"
      "\<And>j. free_pages j t = free_pages j s - {p}"
    by (rule fresh_page [OF ownD(1) [OF assms(1)] assms(2)]) blast
  have pt: "pt_inv t r" "p \<notin> pt_tables (mem s) r" if "r \<in> R" for r
    using pmem_alloc_pt [OF ownD(2) [OF assms(1) that] t(1,2,5,6,7)] t(6) by simp_all
  have "own t R (insert p H)"
    unfolding own_def using t(3-7) pt ownD [OF assms(1)] by auto
  moreover have "p \<notin> H" using ownD(6) [OF assms(1)] t(2) by blast
  ultimately show thesis using that t by blast
qed

lemma own_write:
  assumes o: "own s R H" and h: "h \<in> H" and sp: "\<And>q. aligned 12 q \<Longrightarrow> q \<noteq> h \<Longrightarrow> same_page q (mem s) m"
  shows "own (s\<lparr>mem := m\<rparr>) R H" "free_pages k (s\<lparr>mem := m\<rparr>) = free_pages k s" "r \<in> R \<Longrightarrow> pt_entry m r x = pt_entry (mem s) r x"
proof -
  have sf: "same_page q (mem s) m" if "q \<in> free_pages k s" for q k
    using sp free_page_aligned(1) [OF ownD(1) [OF o] that] ownD(6) [OF o h, of k] that by blast
  have st: "same_page q (mem s) m" if "r \<in> R" "q \<in> pt_tables (mem s) r" for q r
    using sp table_aligned [OF ownD(2) [OF o that(1)] that(2)] ownD(7) [OF o h that(1)] that(2) by blast
  note pk = pt_kept [OF st]
  show "r \<in> R \<Longrightarrow> pt_entry m r x = pt_entry (mem s) r x" by (rule pk(3))
  note u = pmem_mem_upd [OF ownD(1) [OF o], of m, OF sf]
  show "free_pages k (s\<lparr>mem := m\<rparr>) = free_pages k s" by (rule u(2))
  show "own (s\<lparr>mem := m\<rparr>) R H"
    using o pk(1,2) u unfolding own_def pt_inv_def by simp
qed

lemma own_grow:
  assumes o: "own s R H" and r: "r \<in> R" and t: "pt_inv t r" "pt_grow r s t"
  shows "own t R H" "r' \<in> R \<Longrightarrow> r' \<noteq> r \<Longrightarrow> pt_entry (mem t) r' x = pt_entry (mem s) r' x"
    "h \<in> H \<Longrightarrow> same_page h (mem s) (mem t)"
proof -
  have new: "pt_tables (mem t) r \<subseteq> pt_tables (mem s) r \<union> free_pages True s"
    and fr: "free_pages k t \<subseteq> free_pages k s" for k
    using t(2) by (cases k; auto simp: pt_grow_def)+
  have sp: "same_page q (mem s) (mem t)" if "aligned 12 q" "q \<notin> pt_tables (mem t) r" for q
    using t(2) that by (simp add: pt_grow_def)
  have st: "same_page q (mem s) (mem t)" if "q \<in> pt_tables (mem s) x" "x \<in> R" "x \<noteq> r" for q x
  proof (rule sp)
    have x: "pt_inv s x" using ownD(2) [OF o that(2)] .
    show "aligned 12 q" by (rule table_aligned [OF x that(1)])
    have "pt_tables (mem s) x \<inter> free_pages True s = {}" using x by (simp add: pt_inv_def)
    then show "q \<notin> pt_tables (mem t) r" using new that(1) ownD(3) [OF o that(2) r that(3)] by blast
  qed
  have nh: "h \<notin> pt_tables (mem t) r" if "h \<in> H" for h
    using new ownD(6,7) [OF o that] r by blast
  then show "h \<in> H \<Longrightarrow> same_page h (mem s) (mem t)" using sp ownD(4) [OF o] by blast
  have pk: "pt_tables (mem t) x = pt_tables (mem s) x" "pt_tree (mem t) x = pt_tree (mem s) x" "pt_entry (mem t) x v = pt_entry (mem s) x v"
    if "x \<in> R" "x \<noteq> r" for x v
    using pt_kept [of "mem s" x "mem t"] st that by blast+
  then show "r' \<in> R \<Longrightarrow> r' \<noteq> r \<Longrightarrow> pt_entry (mem t) r' x = pt_entry (mem s) r' x" by blast
  have pm: "pmem_inv t" using t(1) by (simp add: pt_inv_def)
  have inv: "pt_inv t x" if "x \<in> R" for x
  proof (cases "x = r")
    case False
    then show ?thesis using ownD(2) [OF o that] pk [OF that False] pm fr unfolding pt_inv_def by blast
  qed (use t in simp)
  have dis: "pt_tables (mem t) x \<inter> pt_tables (mem t) r = {}" if "x \<in> R" "x \<noteq> r" for x
    using new pk(1) [OF that] ownD(2) [OF o that(1)] ownD(3) [OF o that(1) r that(2)] unfolding pt_inv_def by blast
  have dj: "pt_tables (mem t) x \<inter> pt_tables (mem t) y = {}" if "x \<in> R" "y \<in> R" "x \<noteq> y" for x y
  proof (cases "x = r \<or> y = r")
    case True
    then show ?thesis using dis that by blast
  next
    case False
    then show ?thesis using pk(1) that ownD(3) [OF o that] by simp
  qed
  have nt: "h \<notin> pt_tables (mem t) x" if "h \<in> H" "x \<in> R" for h x
    using nh [OF that(1)] pk(1) [OF that(2)] ownD(7) [OF o that] by (cases "x = r") auto
  have nf: "h \<notin> free_pages k t" if "h \<in> H" for h k using ownD(6) [OF o that] fr by blast
  show "own t R H"
    unfolding own_def by (intro conjI ballI impI allI pm inv dj nt nf ownD(4,5) [OF o])
qed

text \<open>A page in use, zeroed, becomes the root of a new table.\<close>

lemma own_root:
  assumes o: "own s R (insert p H)" and p: "p \<notin> H"
  defines "u \<equiv> s\<lparr>mem := store_bytes (mem s) p (replicate 4096 0)\<rparr>"
  shows "memset (mem s) p 0 4096 = Inr (mem u)" "own u (insert p R) H" "pt_entry (mem u) p x = 0" "p \<notin> R"
    "free_pages k u = free_pages k s" "r \<in> R \<Longrightarrow> pt_entry (mem u) r x = pt_entry (mem s) r x"
    "h \<in> H \<Longrightarrow> same_page h (mem s) (mem u)"
proof -
  have a: "aligned 12 p" "p \<noteq> 0" and nf: "p \<notin> free_pages j s" and nt: "r \<in> R \<Longrightarrow> p \<notin> pt_tables (mem s) r" for j r
    using ownD(4-7) [OF o] by blast+
  note z = zero_page [OF ownD(1) [OF o] a(1) nf, folded u_def] and r = zero_root [OF ownD(1) [OF o] a nf, folded u_def]
  show "memset (mem s) p 0 4096 = Inr (mem u)" "pt_entry (mem u) p x = 0" "free_pages k u = free_pages k s" by (rule z(1) r(3) z(3))+
  have root: "x \<in> pt_tables (mem s) x" for x by (auto simp: pt_tables_def pt_path_def intro: exI [of _ "[]"])
  then show np: "p \<notin> R" using nt by blast
  have u: "u = s\<lparr>mem := mem u\<rparr>" by (simp add: u_def)
  have sp: "same_page q (mem s) (mem u)" if "aligned 12 q" "q \<noteq> p" for q using z(4) that by blast
  note w = own_write [OF o insertI1 sp, folded u]
  then show "r \<in> R \<Longrightarrow> pt_entry (mem u) r x = pt_entry (mem s) r x" by blast
  show "h \<in> H \<Longrightarrow> same_page h (mem s) (mem u)" using sp ownD(4) [OF o] p by blast
  have "own u R (insert p H)" by (rule w(1))
  then show "own u (insert p R) H" using r(1,2) p unfolding own_def by auto
qed

end
