(* ===== verification/First_Proc.thy ===== *)
theory First_Proc
  imports Page_Owners Sched
begin

text \<open>
  The first process (\<^verbatim>\<open>proc_make_first\<close> of \<^verbatim>\<open>kernel/proc/proc.c\<close>): with free pages in both pools it is made, and its address space,
  its trap frame and the contents of its pages are what the code means to set up.  The proof goes through \<^verbatim>\<open>proc_alloc\<close>,
  \<^verbatim>\<open>proc_pgtbl_init\<close> and the mapping of the kernel stack in the kernel's own table, so two tables change in turn.
\<close>

section \<open>Setting up tables\<close>

abbreviation on_page :: "u64 \<Rightarrow> u64 \<Rightarrow> bool" where
  "on_page va x \<equiv> va \<le> x \<and> x < va + PGSIZE"

text \<open>What one operation on the table \<open>r\<close> may change, at the cost of at most \<open>n\<close> kernel pages.\<close>

definition step_on :: "u64 \<Rightarrow> nat \<Rightarrow> u64 set \<Rightarrow> u64 set \<Rightarrow> pmem \<Rightarrow> pmem \<Rightarrow> bool" where
  "step_on r n R H s t \<longleftrightarrow> own t R H \<and> card (free_pages True s) \<le> card (free_pages True t) + n \<and> free_pages False t = free_pages False s \<and>
     (\<forall>r' \<in> R. r' \<noteq> r \<longrightarrow> (\<forall>x. pt_entry (mem t) r' x = pt_entry (mem s) r' x)) \<and> (\<forall>h \<in> H. same_page h (mem s) (mem t))"

lemma step_on_trans: "step_on r n R H s t \<Longrightarrow> step_on r k R H t u \<Longrightarrow> step_on r (n + k) R H s u"
  unfolding step_on_def by (auto intro: same_page_trans)

lemma step_on_grow:
  assumes "own s R H" and "r \<in> R" and "pt_inv t r" and "pt_grow r s t" and "card (free_pages True s) \<le> card (free_pages True t) + n"
  shows "step_on r n R H s t"
  unfolding step_on_def using own_grow [OF assms(1-4)] assms(4,5) by (auto simp: pt_grow_def)

lemma own_map:
  assumes o: "own s R H" and r: "r \<in> R" and va: "aligned 12 va" "unat va + 4096 \<le> 0x4000000000" and c: "2 \<le> card (free_pages True s)"
  obtains t where "vm_mappages r va pa PGSIZE perm s = Inr t" "step_on r 2 R H s t"
    "\<And>x. unat x < 2 ^ 38 \<Longrightarrow> pt_entry (mem t) r x = (if on_page va x then PA_TO_PTE pa OR perm OR PTE_V else pt_entry (mem s) r x)"
proof -
  have uv: "unat va < 0x4000000000" using va(2) by simp
  have ue: "unat (va + PGSIZE) = unat va + 4096" by (rule unat_add_page [OF uv])
  have al: "aligned 12 (va + PGSIZE)" using va(1) by (simp add: aligned_def take_bit_eq_0_iff)
  have lt: "va < va + PGSIZE" "unat (va + PGSIZE) \<le> 0x4000000000" unfolding word_less_nat_alt ue using va(2) by simp_all
  obtain k where k: "unat va = 4096 * k" using unat_aligned [OF va(1)] by blast
  have "(4096 * k + 4096 - 1) div 0x200000 = 4096 * k div 0x200000"
    using div_mult2_eq [of "4096 * k + 4095" 4096 512] div_mult2_eq [of "4096 * k" 4096 512] by simp
  then have one: "2 * ((unat (va + PGSIZE) - 1) div 0x200000 - unat va div 0x200000 + 1) = 2" unfolding ue k by simp
  obtain t where t: "vm_mappages r va pa (va + PGSIZE - va) perm s = Inr t" "pt_inv t r" "pt_grow r s t"
      "card (free_pages True s) \<le> card (free_pages True t) + 2"
      "\<And>x. unat x < 2 ^ 39 \<Longrightarrow> pt_entry (mem t) r x = (if on_page va x then PA_TO_PTE (pa + (PG_ROUND_DOWN x - va)) OR perm OR PTE_V else pt_entry (mem s) r x)"
    by (rule map_range [OF ownD(2) [OF o r] va(1) al lt, of pa perm, unfolded one, OF c]) blast
  have "pt_entry (mem t) r x = (if on_page va x then PA_TO_PTE pa OR perm OR PTE_V else pt_entry (mem s) r x)" if "unat x < 2 ^ 38" for x
  proof -
    have x: "unat x < 2 ^ 39" using that by simp
    show ?thesis unfolding t(5) [OF x] using one_page [OF va(1) _ _ uv, of x] by auto
  qed
  moreover have "va + PGSIZE - va = PGSIZE" by simp
  ultimately show thesis using that t(1) step_on_grow [OF o r t(2-4)] by (simp only:)
qed

lemma own_getpte:
  assumes o: "own s R H" and r: "r \<in> R" and va: "\<not> VA_MAX \<le> va" and c: "2 \<le> card (free_pages True s)"
  obtains pte t where "vm_getpte r va True s = Inr (pte, t)" "pte \<noteq> 0" "step_on r 2 R H s t" "\<And>x. pt_entry (mem t) r x = pt_entry (mem s) r x"
proof -
  obtain pte t where t: "vm_getpte r va True s = Inr (pte, t)" "pt_inv t r" "pt_frame r s t"
      "if pte = 0 then card (free_pages True s) < missing s r va
       else card (free_pages True s) \<le> card (free_pages True t) + missing s r va \<and>
         (\<exists>u. table (mem t) r (leaf_path va) = Some u \<and> pte = u + 8 * VA_TO_VPN va 0)"
    using vm_getpte_alloc [OF ownD(2) [OF o r] va] by blast
  have "pte \<noteq> 0" "card (free_pages True s) \<le> card (free_pages True t) + 2"
    using t(4) c missing_le [of s r va] by (auto split: if_splits)
  then show thesis
    using that t(1) step_on_grow [OF o r t(2) pt_frame_grow [OF t(3)]] t(3) by (auto simp: pt_frame_def)
qed

text \<open>The entries \<^verbatim>\<open>proc_pgtbl_init\<close> makes.\<close>

definition bare_map :: "u64 \<Rightarrow> u64 \<Rightarrow> u64 \<Rightarrow> u64" where
  "bare_map tramp trapframe x =
     (if on_page TRAPFRAME x then PA_TO_PTE trapframe OR (PTE_R OR PTE_W) OR PTE_V
      else if on_page TRAMPOLINE x then PA_TO_PTE tramp OR (PTE_R OR PTE_X) OR PTE_V else 0)"

lemma aligned_top [simp]: "aligned 12 (0x3FFFFFE000 :: u64)" by (simp add: aligned_def take_bit_eq_mod)

lemma proc_pgtbl_init_ok:
  assumes o: "own s R H" and c: "8 \<le> card (free_pages True s)" "free_pages False s \<noteq> {}"
  obtains root t where "proc_pgtbl_init im trapframe s = Inr (root, t)" "root \<noteq> 0" "root \<notin> R" "root \<in> free_pages False s"
    "own t (insert root R) H" "card (free_pages True s) \<le> card (free_pages True t) + 8" "free_pages False t = free_pages False s - {root}"
    "\<And>x. unat x < 2 ^ 38 \<Longrightarrow> pt_entry (mem t) root x = bare_map (trampoline im) trapframe x"
    "\<And>r x. r \<in> R \<Longrightarrow> pt_entry (mem t) r x = pt_entry (mem s) r x" "\<And>h. h \<in> H \<Longrightarrow> same_page h (mem s) (mem t)"
proof -
  obtain root a where a: "pmem_alloc False s = (root, a)" "root \<noteq> 0" "root \<in> free_pages False s" "root \<notin> H" "own a R (insert root H)"
      "mem a = mem s" "\<And>j. free_pages j a = free_pages j s - {root}"
    by (rule own_take [OF o c(2)]) blast
  define b where "b = a\<lparr>mem := store_bytes (mem a) root (replicate 4096 0)\<rparr>"
  note z = own_root [OF a(5,4), folded b_def]
  have ft: "free_pages True b = free_pages True s" "free_pages False b = free_pages False s - {root}"
    using z(5) a(7) page_regions_disjoint [OF ownD(1) [OF o] a(3)] by simp_all
  have b2: "2 \<le> card (free_pages True b)" using c ft by simp
  let ?R = "insert root R"
  have top: "\<not> VA_MAX \<le> TRAMPOLINE" "\<not> VA_MAX \<le> TRAPFRAME" by simp_all
  obtain p1 d where d: "vm_getpte root TRAMPOLINE True b = Inr (p1, d)" "p1 \<noteq> 0" "step_on root 2 ?R H b d" "\<And>x. pt_entry (mem d) root x = pt_entry (mem b) root x"
    by (rule own_getpte [OF z(2) insertI1 top(1) b2]) blast
  have od: "own d ?R H" "2 \<le> card (free_pages True d)" using d(3) c ft by (auto simp: step_on_def)
  obtain e where e: "vm_mappages root TRAMPOLINE (trampoline im) PGSIZE (PTE_R OR PTE_X) d = Inr e" "step_on root 2 ?R H d e"
      "\<And>x. unat x < 2 ^ 38 \<Longrightarrow> pt_entry (mem e) root x = (if on_page TRAMPOLINE x then PA_TO_PTE (trampoline im) OR (PTE_R OR PTE_X) OR PTE_V else pt_entry (mem d) root x)"
    by (rule own_map [OF od(1) insertI1 _ _ od(2), of TRAMPOLINE "trampoline im" "PTE_R OR PTE_X"]) simp_all
  note be = step_on_trans [OF d(3) e(2)]
  have oe: "own e ?R H" "2 \<le> card (free_pages True e)" using be c ft by (auto simp: step_on_def)
  obtain p2 f where f: "vm_getpte root TRAPFRAME True e = Inr (p2, f)" "p2 \<noteq> 0" "step_on root 2 ?R H e f" "\<And>x. pt_entry (mem f) root x = pt_entry (mem e) root x"
    by (rule own_getpte [OF oe(1) insertI1 top(2) oe(2)]) blast
  note bf = step_on_trans [OF be f(3)]
  have of: "own f ?R H" "2 \<le> card (free_pages True f)" using bf c ft by (auto simp: step_on_def)
  obtain g where g: "vm_mappages root TRAPFRAME trapframe PGSIZE (PTE_R OR PTE_W) f = Inr g" "step_on root 2 ?R H f g"
      "\<And>x. unat x < 2 ^ 38 \<Longrightarrow> pt_entry (mem g) root x = (if on_page TRAPFRAME x then PA_TO_PTE trapframe OR (PTE_R OR PTE_W) OR PTE_V else pt_entry (mem f) root x)"
    by (rule own_map [OF of(1) insertI1 _ _ of(2), of TRAPFRAME trapframe "PTE_R OR PTE_W"]) simp_all
  have bg: "step_on root 8 ?R H b g" using step_on_trans [OF bf g(2)] by simp
  have mb: "a\<lparr>mem := mem b\<rparr> = b" by (simp add: b_def)
  show thesis
  proof (rule that [of root g])
    show "proc_pgtbl_init im trapframe s = Inr (root, g)"
      using a(1,2) z(1) d(1,2) e(1) f(1,2) g(1) by (simp add: proc_pgtbl_init_def mb)
    show "root \<noteq> 0" "root \<notin> R" "root \<in> free_pages False s" by (rule a(2) z(4) a(3))+
    show "own g ?R H" "card (free_pages True s) \<le> card (free_pages True g) + 8" "free_pages False g = free_pages False s - {root}"
      using bg ft by (simp_all add: step_on_def)
    show "pt_entry (mem g) root x = bare_map (trampoline im) trapframe x" if "unat x < 2 ^ 38" for x
      unfolding g(3) [OF that] f(4) e(3) [OF that] d(4) z(3) bare_map_def ..
    show "pt_entry (mem g) r x = pt_entry (mem s) r x" if "r \<in> R" for r x
      using bg that z(4) z(6) [OF that] a(6) by (auto simp: step_on_def)
    show "same_page h (mem s) (mem g)" if "h \<in> H" for h
      using bg that z(7) [OF that] a(6) by (auto simp: step_on_def intro: same_page_trans)
  qed
qed

section \<open>A new process\<close>

definition fresh_proc :: "image \<Rightarrow> int \<Rightarrow> u64 \<Rightarrow> u64 \<Rightarrow> proc \<Rightarrow> proc" where
  "fresh_proc im n trapframe root p = p\<lparr>pid := n, pstate := RUNNABLE, tf := trapframe, pgtbl := root,
     ctx := \<lparr>ctx_ra = fork_return_pc im, ctx_sp = kstack p + PGSIZE, ctx_s = replicate 12 0\<rparr>, kont := ForkReturn\<rparr>"

lemma proc_setup_ok:
  assumes o: "own (pm s) R H" and k: "kernel_pgtbl s \<in> R" and i: "i < length (procs s)"
    and pid: "0 \<le> global_pid s" "global_pid s < 2 ^ 31 - 1"
    and c: "12 \<le> card (free_pages True (pm s))" "free_pages False (pm s) \<noteq> {}"
    and ks: "aligned 12 (kstack (proc_at s i))" "unat (kstack (proc_at s i)) + 4096 \<le> 0x4000000000"
  obtains m root tfp stk where
    "proc_setup im i s = Inr (Some i, upd i (fresh_proc im (global_pid s) tfp root) (s\<lparr>global_pid := global_pid s + 1, pm := m\<rparr>))"
    "own m (insert root R) (insert stk (insert tfp H))" "root \<notin> R" "stk \<noteq> tfp" "stk \<notin> H" "tfp \<notin> H"
    "root \<in> free_pages False (pm s)" "card (free_pages True (pm s)) \<le> card (free_pages True m) + 12"
    "free_pages False m = free_pages False (pm s) - {root}"
    "\<And>x. unat x < 2 ^ 38 \<Longrightarrow> pt_entry (mem m) root x = bare_map (trampoline im) tfp x"
    "\<And>x. unat x < 2 ^ 38 \<Longrightarrow> pt_entry (mem m) (kernel_pgtbl s) x =
       (if on_page (kstack (proc_at s i)) x then PA_TO_PTE stk OR (PTE_R OR PTE_W) OR PTE_V else pt_entry (mem (pm s)) (kernel_pgtbl s) x)"
    "\<And>h. h \<in> H \<Longrightarrow> same_page h (mem (pm s)) (mem m)"
proof -
  have "free_pages True (pm s) \<noteq> {}" using c(1) by auto
  then obtain tfp a where a: "pmem_alloc True (pm s) = (tfp, a)" "tfp \<noteq> 0" "tfp \<in> free_pages True (pm s)" "tfp \<notin> H" "own a R (insert tfp H)"
      "mem a = mem (pm s)" "\<And>j. free_pages j a = free_pages j (pm s) - {tfp}"
    by (rule own_take [OF o]) blast
  have ca: "card (free_pages True (pm s)) = card (free_pages True a) + 1"
    using card_Suc_Diff1 [OF finite_free [OF ownD(1) [OF o]] a(3)] a(7) by simp
  have fa: "free_pages False a = free_pages False (pm s)" using a(7) page_regions_disjoint [OF ownD(1) [OF o] a(3)] by simp
  have "8 \<le> card (free_pages True a)" "free_pages False a \<noteq> {}" using ca c fa by simp_all
  then obtain root b where b: "proc_pgtbl_init im tfp a = Inr (root, b)" "root \<noteq> 0" "root \<notin> R" "root \<in> free_pages False a"
      "own b (insert root R) (insert tfp H)" "card (free_pages True a) \<le> card (free_pages True b) + 8" "free_pages False b = free_pages False a - {root}"
      "\<And>x. unat x < 2 ^ 38 \<Longrightarrow> pt_entry (mem b) root x = bare_map (trampoline im) tfp x"
      "\<And>r x. r \<in> R \<Longrightarrow> pt_entry (mem b) r x = pt_entry (mem a) r x" "\<And>h. h \<in> insert tfp H \<Longrightarrow> same_page h (mem a) (mem b)"
    by (rule proc_pgtbl_init_ok [OF a(5)]) blast
  have "free_pages True b \<noteq> {}" using b(6) ca c by auto
  then obtain stk d where d: "pmem_alloc True b = (stk, d)" "stk \<noteq> 0" "stk \<in> free_pages True b" "stk \<notin> insert tfp H"
      "own d (insert root R) (insert stk (insert tfp H))" "mem d = mem b" "\<And>j. free_pages j d = free_pages j b - {stk}"
    by (rule own_take [OF b(5)]) blast
  have cd: "card (free_pages True b) = card (free_pages True d) + 1"
    using card_Suc_Diff1 [OF finite_free [OF ownD(1) [OF b(5)]] d(3)] d(7) by simp
  have fd: "free_pages False d = free_pages False b" using d(7) page_regions_disjoint [OF ownD(1) [OF b(5)] d(3)] by simp
  have kr: "kernel_pgtbl s \<in> insert root R" "kernel_pgtbl s \<noteq> root" using k b(3) by auto
  have c2: "2 \<le> card (free_pages True d)" using cd b(6) ca c by simp
  obtain m where m: "vm_mappages (kernel_pgtbl s) (kstack (proc_at s i)) stk PGSIZE (PTE_R OR PTE_W) d = Inr m"
      "step_on (kernel_pgtbl s) 2 (insert root R) (insert stk (insert tfp H)) d m"
      "\<And>x. unat x < 2 ^ 38 \<Longrightarrow> pt_entry (mem m) (kernel_pgtbl s) x =
         (if on_page (kstack (proc_at s i)) x then PA_TO_PTE stk OR (PTE_R OR PTE_W) OR PTE_V else pt_entry (mem d) (kernel_pgtbl s) x)"
    by (rule own_map [OF d(5) kr(1) ks c2]) blast
  show thesis
  proof (rule that [of tfp root m stk])
    show "proc_setup im i s = Inr (Some i, upd i (fresh_proc im (global_pid s) tfp root) (s\<lparr>global_pid := global_pid s + 1, pm := m\<rparr>))"
      using pid a(1,2) b(1,2) d(1,2) m(1) i
      by (simp add: proc_setup_def alloc_pid_def lift_pm_def Let_def assert_that_def upd_def fresh_proc_def [abs_def])
    show "own m (insert root R) (insert stk (insert tfp H))" using m(2) by (simp add: step_on_def)
    show "root \<notin> R" "root \<in> free_pages False (pm s)" using b(3,4) fa by simp_all
    show "stk \<noteq> tfp" "stk \<notin> H" "tfp \<notin> H" using d(4) a(4) by auto
    show "card (free_pages True (pm s)) \<le> card (free_pages True m) + 12" using m(2) cd b(6) ca by (simp add: step_on_def)
    show "free_pages False m = free_pages False (pm s) - {root}" using m(2) fd b(7) fa by (simp add: step_on_def)
    show "pt_entry (mem m) root x = bare_map (trampoline im) tfp x" if "unat x < 2 ^ 38" for x
      using m(2) kr(2) d(6) b(8) [OF that] by (auto simp: step_on_def)
    show "pt_entry (mem m) (kernel_pgtbl s) x =
       (if on_page (kstack (proc_at s i)) x then PA_TO_PTE stk OR (PTE_R OR PTE_W) OR PTE_V else pt_entry (mem (pm s)) (kernel_pgtbl s) x)"
      if "unat x < 2 ^ 38" for x
      unfolding m(3) [OF that] d(6) b(9) [OF k] a(6) ..
    show "same_page h (mem (pm s)) (mem m)" if "h \<in> H" for h
      using m(2) that d(6) a(6) b(10) [of h] by (auto simp: step_on_def intro: same_page_trans)
  qed
qed

section \<open>Contents of pages\<close>

lemma same_page_bytes: "same_page p m m' \<Longrightarrow> load_bytes m' p 4096 = load_bytes m p 4096"
  by (simp add: same_page_def load_bytes_def)

lemma load_stored:
  assumes "length bs \<le> n" and "n < 2 ^ 64"
  shows "load_bytes (store_bytes m p bs) p n = bs @ drop (length bs) (load_bytes m p n)"
proof (rule nth_equalityI)
  show "length (load_bytes (store_bytes m p bs) p n) = length (bs @ drop (length bs) (load_bytes m p n))"
    using assms(1) by (simp add: load_bytes_def)
  fix j assume "j < length (load_bytes (store_bytes m p bs) p n)"
  then have j: "j < n" by (simp add: load_bytes_def)
  have u: "unat (p + of_nat j - p :: u64) = j" using unat_of_nat64 [of j] j assms(2) by simp
  have le: "length bs \<le> 2 ^ 64" using assms by simp
  have "store_bytes m p bs (p + of_nat j) = (if j < length bs then bs ! j else m (p + of_nat j))"
    using store_bytes_apply [OF le, of m p "p + of_nat j"] by (simp only: u)
  then show "load_bytes (store_bytes m p bs) p n ! j = (bs @ drop (length bs) (load_bytes m p n)) ! j"
    using j assms(1) by (simp add: load_bytes_def nth_append)
qed

lemma store_page: "aligned 12 p \<Longrightarrow> aligned 12 q \<Longrightarrow> q \<noteq> p \<Longrightarrow> length bs \<le> 4096 \<Longrightarrow> same_page q m (store_bytes m p bs)"
  using store_bytes_page [of p q 0 bs m] by simp

lemma map_zero_page_ok:
  assumes o: "own (pm s) R H" and r: "pgtbl (proc_at s i) \<in> R" and va: "aligned 12 va" "unat va + 4096 \<le> 0x4000000000"
    and c: "2 \<le> card (free_pages True (pm s))" "free_pages False (pm s) \<noteq> {}"
  obtains pa m where "map_zero_page i va perm msg s = Inr (pa, s\<lparr>pm := m\<rparr>)" "own m R (insert pa H)" "pa \<notin> H" "pa \<in> free_pages False (pm s)"
    "card (free_pages True (pm s)) \<le> card (free_pages True m) + 2" "free_pages False m = free_pages False (pm s) - {pa}"
    "\<And>x. unat x < 2 ^ 38 \<Longrightarrow> pt_entry (mem m) (pgtbl (proc_at s i)) x =
       (if on_page va x then PA_TO_PTE pa OR perm OR PTE_V else pt_entry (mem (pm s)) (pgtbl (proc_at s i)) x)"
    "\<And>r x. r \<in> R \<Longrightarrow> r \<noteq> pgtbl (proc_at s i) \<Longrightarrow> pt_entry (mem m) r x = pt_entry (mem (pm s)) r x"
    "\<And>h. h \<in> H \<Longrightarrow> same_page h (mem (pm s)) (mem m)" "load_bytes (mem m) pa 4096 = replicate 4096 0"
proof -
  let ?r = "pgtbl (proc_at s i)"
  obtain pa a where a: "pmem_alloc False (pm s) = (pa, a)" "pa \<noteq> 0" "pa \<in> free_pages False (pm s)" "pa \<notin> H" "own a R (insert pa H)"
      "mem a = mem (pm s)" "\<And>j. free_pages j a = free_pages j (pm s) - {pa}"
    by (rule own_take [OF o c(2)]) blast
  define z where "z = store_bytes (mem a) pa (replicate 4096 0)"
  have al: "aligned 12 pa" using ownD(4) [OF a(5)] by simp
  have sp: "same_page q (mem a) z" if "aligned 12 q" "q \<noteq> pa" for q unfolding z_def by (rule store_page [OF al that]) simp
  have w: "own (a\<lparr>mem := z\<rparr>) R (insert pa H)" "free_pages k (a\<lparr>mem := z\<rparr>) = free_pages k a" "r \<in> R \<Longrightarrow> pt_entry z r x = pt_entry (mem a) r x" for k r x
    using own_write [OF a(5) insertI1, of z] sp by blast+
  have ms: "memset (mem a) pa 0 4096 = Inr z" by (simp add: z_def memset_def memset_loop_eq)
  have fa: "free_pages True a = free_pages True (pm s)" using a(7) page_regions_disjoint [OF ownD(1) [OF o] a(3)] by simp
  have c2: "2 \<le> card (free_pages True (a\<lparr>mem := z\<rparr>))" using w(2) fa c(1) by simp
  obtain m where m: "vm_mappages ?r va pa PGSIZE perm (a\<lparr>mem := z\<rparr>) = Inr m" "step_on ?r 2 R (insert pa H) (a\<lparr>mem := z\<rparr>) m"
      "\<And>x. unat x < 2 ^ 38 \<Longrightarrow> pt_entry (mem m) ?r x = (if on_page va x then PA_TO_PTE pa OR perm OR PTE_V else pt_entry (mem (a\<lparr>mem := z\<rparr>)) ?r x)"
    by (rule own_map [OF w(1) r va c2, of pa perm]) blast
  show thesis
  proof (rule that [of pa m])
    show "map_zero_page i va perm msg s = Inr (pa, s\<lparr>pm := m\<rparr>)"
      using a(1,2) ms m(1) by (simp add: map_zero_page_def assert_that_def)
    show "own m R (insert pa H)" "pa \<notin> H" "pa \<in> free_pages False (pm s)" using m(2) a(3,4) by (simp_all add: step_on_def)
    show "card (free_pages True (pm s)) \<le> card (free_pages True m) + 2" "free_pages False m = free_pages False (pm s) - {pa}"
      using m(2) w(2) fa a(7) by (simp_all add: step_on_def)
    show "pt_entry (mem m) ?r x = (if on_page va x then PA_TO_PTE pa OR perm OR PTE_V else pt_entry (mem (pm s)) ?r x)"
      if "unat x < 2 ^ 38" for x
      using m(3) [OF that] w(3) [OF r] a(6) by simp
    show "pt_entry (mem m) q x = pt_entry (mem (pm s)) q x" if "q \<in> R" "q \<noteq> ?r" for q x
      using m(2) w(3) [OF that(1)] a(6) that by (simp add: step_on_def)
    show "same_page h (mem (pm s)) (mem m)" if "h \<in> H" for h
    proof -
      have "same_page h (mem a) z" using that a(4) ownD(4) [OF o that] by (intro sp) auto
      then show ?thesis using m(2) that a(6) by (auto simp: step_on_def intro: same_page_trans)
    qed
    have "same_page pa z (mem m)" using m(2) by (simp add: step_on_def)
    then have "load_bytes (mem m) pa 4096 = load_bytes z pa 4096" by (rule same_page_bytes)
    also have "\<dots> = replicate 4096 0 @ drop 4096 (load_bytes (mem a) pa 4096)"
      using load_stored [of "replicate 4096 0" 4096 "mem a" pa] by (simp add: z_def)
    also have "\<dots> = replicate 4096 0" by (simp add: load_bytes_def)
    finally show "load_bytes (mem m) pa 4096 = replicate 4096 0" .
  qed
qed

section \<open>The first process\<close>

text \<open>Its address space: the code at 0, the stack at \<open>0x10000\<close>, the trap frame and the trampoline at the top.\<close>

definition first_map :: "u64 \<Rightarrow> u64 \<Rightarrow> u64 \<Rightarrow> u64 \<Rightarrow> u64 \<Rightarrow> u64" where
  "first_map tramp trapframe code stack x =
     (if on_page 0x10000 x then PA_TO_PTE stack OR (PTE_R OR PTE_W OR PTE_U) OR PTE_V
      else if on_page 0 x then PA_TO_PTE code OR (PTE_R OR PTE_W OR PTE_X OR PTE_U) OR PTE_V
      else bare_map tramp trapframe x)"

text \<open>What the memory holds for the first process.\<close>

definition first_memory :: "image \<Rightarrow> u64 \<Rightarrow> u64 \<Rightarrow> u64 \<Rightarrow> u64 \<Rightarrow> u64 \<Rightarrow> pmem \<Rightarrow> bool" where
  "first_memory im kpt root trapframe code stack m \<longleftrightarrow>
     own m {root, kpt} {trapframe, code, stack} \<and> root \<noteq> kpt \<and> distinct [trapframe, code, stack] \<and>
     (\<forall>x. unat x < 2 ^ 38 \<longrightarrow> pt_entry (mem m) root x = first_map (trampoline im) trapframe code stack x) \<and>
     load_bytes (mem m) code 4096 = initcode im @ replicate (4096 - length (initcode im)) 0 \<and>
     load_bytes (mem m) stack 4096 = replicate 4096 0 \<and>
     load64 (mem m) (trapframe + TF_EPC) = 0 \<and> load64 (mem m) (trapframe + TF_SP) = 0x10000 + PGSIZE"

lemma own_subset: "own s R H \<Longrightarrow> H' \<subseteq> H \<Longrightarrow> own s R H'"
  unfolding own_def by blast

lemma tf_stores:
  assumes o: "own m R H" and t: "t \<in> H"
    and m'_def: "m' = m\<lparr>mem := store64 (store64 (mem m) (t + TF_EPC) 0) (t + TF_SP) v\<rparr>"
  shows "own m' R H" "r \<in> R \<Longrightarrow> pt_entry (mem m') r x = pt_entry (mem m) r x" "h \<in> H \<Longrightarrow> h \<noteq> t \<Longrightarrow> same_page h (mem m) (mem m')"
    "load64 (mem m') (t + TF_EPC) = 0" "load64 (mem m') (t + TF_SP) = v" "free_pages k m' = free_pages k m"
proof -
  have al: "aligned 12 t" by (rule ownD(4) [OF o t])
  have sp: "same_page q (mem m) (mem m')" if "aligned 12 q" "q \<noteq> t" for q
  proof -
    have "same_page q (mem m) (store64 (mem m) (t + 8 * 3) 0)" by (rule store64_page [OF al]) (use that in simp_all)
    moreover have "same_page q (store64 (mem m) (t + 8 * 3) 0) (store64 (store64 (mem m) (t + 8 * 3) 0) (t + 8 * 6) v)"
      by (rule store64_page [OF al]) (use that in simp_all)
    ultimately show ?thesis unfolding m'_def by (simp add: same_page_trans)
  qed
  have m': "m' = m\<lparr>mem := mem m'\<rparr>" by (simp add: m'_def)
  note w = own_write [OF o t sp, folded m']
  show "own m' R H" "r \<in> R \<Longrightarrow> pt_entry (mem m') r x = pt_entry (mem m) r x" "free_pages k m' = free_pages k m" by (rule w; assumption)+
  show "h \<in> H \<Longrightarrow> h \<noteq> t \<Longrightarrow> same_page h (mem m) (mem m')" using sp ownD(4) [OF o] by blast
  show "load64 (mem m') (t + TF_SP) = v" by (simp add: m'_def)
  have "aligned 3 (t + 8 * 3)" "aligned 3 (t + 8 * 6)" using aligned_index [OF al, of 3] aligned_index [OF al, of 6] by simp_all
  moreover have "t + 8 * 3 \<noteq> t + 8 * 6" by simp
  ultimately show "load64 (mem m') (t + TF_EPC) = 0"
    using load64_store64_other [of "t + 8 * 3" "t + 8 * 6"] by (simp add: m'_def)
qed

lemma copy_code:
  assumes o: "own m R H" and p: "p \<in> H" and bs: "length bs \<le> 4096"
  defines "m' \<equiv> m\<lparr>mem := store_bytes (mem m) p bs\<rparr>"
  shows "own m' R H" "r \<in> R \<Longrightarrow> pt_entry (mem m') r x = pt_entry (mem m) r x" "h \<in> H \<Longrightarrow> h \<noteq> p \<Longrightarrow> same_page h (mem m) (mem m')"
    "free_pages k m' = free_pages k m" "load_bytes (mem m) p 4096 = replicate 4096 0 \<Longrightarrow> load_bytes (mem m') p 4096 = bs @ replicate (4096 - length bs) 0"
proof -
  have sp: "same_page q (mem m) (mem m')" if "aligned 12 q" "q \<noteq> p" for q
    unfolding m'_def using store_page [OF ownD(4) [OF o p] that bs] by simp
  have m': "m' = m\<lparr>mem := mem m'\<rparr>" by (simp add: m'_def)
  note w = own_write [OF o p sp, folded m']
  show "own m' R H" "r \<in> R \<Longrightarrow> pt_entry (mem m') r x = pt_entry (mem m) r x" "free_pages k m' = free_pages k m" by (rule w; assumption)+
  show "h \<in> H \<Longrightarrow> h \<noteq> p \<Longrightarrow> same_page h (mem m) (mem m')" using sp ownD(4) [OF o] by blast
  show "load_bytes (mem m') p 4096 = bs @ replicate (4096 - length bs) 0" if "load_bytes (mem m) p 4096 = replicate 4096 0"
    using load_stored [of bs 4096 "mem m" p] bs that by (simp add: m'_def)
qed

lemma proc_alloc_first:
  assumes q: "quiet s" and u: "pstate (proc_at s 0) = UNUSED" and ks: "kstack (proc_at s 0) = KSTACK 0"
    and pid: "0 \<le> global_pid s" "global_pid s < 2 ^ 31 - 1" and o: "own (pm s) {kernel_pgtbl s} H"
    and c: "12 \<le> card (free_pages True (pm s))" "free_pages False (pm s) \<noteq> {}"
  obtains t m root tfp stk where "proc_alloc im s = Inr (Some 0, t)" "slot_held 0 t" "cur t = cur s" "pm t = m" "kernel_pgtbl t = kernel_pgtbl s"
    "pgtbl (proc_at t 0) = root" "tf (proc_at t 0) = tfp" "length (procs t) = NPROC"
    "own m {root, kernel_pgtbl s} (insert stk (insert tfp H))" "root \<noteq> kernel_pgtbl s" "stk \<noteq> tfp" "stk \<notin> H" "tfp \<notin> H" "root \<in> free_pages False (pm s)"
    "card (free_pages True (pm s)) \<le> card (free_pages True m) + 12" "free_pages False m = free_pages False (pm s) - {root}"
    "\<And>x. unat x < 2 ^ 38 \<Longrightarrow> pt_entry (mem m) root x = bare_map (trampoline im) tfp x"
    "\<And>x. unat x < 2 ^ 38 \<Longrightarrow> pt_entry (mem m) (kernel_pgtbl s) x =
       (if on_page (KSTACK 0) x then PA_TO_PTE stk OR (PTE_R OR PTE_W) OR PTE_V else pt_entry (mem (pm s)) (kernel_pgtbl s) x)"
proof -
  have ti: "table_inv s" "length (procs s) = NPROC" using q table_invD(1) by (auto simp: quiet_def)
  have lf: "lock_free (plk (proc_at s 0))" using table_invD(2) [OF ti(1)] by simp
  let ?a = "upd 0 (\<lambda>p. p\<lparr>plk := held_lock (plk (proc_at s 0))\<rparr>) (s\<lparr>cpu := push_off (cpu s)\<rparr>)"
  have a: "acquire_proc 0 s = Inr ?a" by (rule acquire_proc_free [OF lf])
  have at: "proc_at ?a 0 = (proc_at s 0)\<lparr>plk := held_lock (plk (proc_at s 0))\<rparr>" using ti(2) by simp
  have al: "aligned 12 (KSTACK 0)" "unat (KSTACK 0) + 4096 \<le> 0x4000000000" by (simp_all add: KSTACK_0)
  obtain m root tfp stk where m:
    "proc_setup im 0 ?a = Inr (Some 0, upd 0 (fresh_proc im (global_pid ?a) tfp root) (?a\<lparr>global_pid := global_pid ?a + 1, pm := m\<rparr>))"
    "own m (insert root {kernel_pgtbl ?a}) (insert stk (insert tfp H))" "root \<notin> {kernel_pgtbl ?a}" "stk \<noteq> tfp" "stk \<notin> H" "tfp \<notin> H"
    "root \<in> free_pages False (pm ?a)" "card (free_pages True (pm ?a)) \<le> card (free_pages True m) + 12"
    "free_pages False m = free_pages False (pm ?a) - {root}"
    "\<And>x. unat x < 2 ^ 38 \<Longrightarrow> pt_entry (mem m) root x = bare_map (trampoline im) tfp x"
    "\<And>x. unat x < 2 ^ 38 \<Longrightarrow> pt_entry (mem m) (kernel_pgtbl ?a) x =
       (if on_page (kstack (proc_at ?a 0)) x then PA_TO_PTE stk OR (PTE_R OR PTE_W) OR PTE_V else pt_entry (mem (pm ?a)) (kernel_pgtbl ?a) x)"
    by (rule proc_setup_ok [of ?a "{kernel_pgtbl ?a}" H 0 im]) (use o pid c al ks ti(2) in simp_all)
  let ?t = "upd 0 (fresh_proc im (global_pid ?a) tfp root) (?a\<lparr>global_pid := global_pid ?a + 1, pm := m\<rparr>)"
  have "[0..<NPROC] = 0 # [1..<NPROC]" by (simp add: upt_rec)
  then have al2: "proc_alloc im s = Inr (Some 0, ?t)"
    unfolding proc_alloc_def using a m(1) u at by (simp only: proc_alloc_loop.simps bindr_Inr) simp
  have k: "kernel_pgtbl ?a = kernel_pgtbl s" "pm ?a = pm s" "kstack (proc_at ?a 0) = KSTACK 0" using at ks by simp_all
  have "allocated s 0 ?t"
    using proc_alloc_loop_inv [OF q table_range al2 [unfolded proc_alloc_def]] by simp
  then have sh: "slot_held 0 ?t" by (simp add: allocated_def)
  have "pgtbl (proc_at ?t 0) = root" "tf (proc_at ?t 0) = tfp" using ti(2) by (simp_all add: fresh_proc_def)
  with al2 sh m(2-) k show thesis by (intro that [of ?t m root tfp stk]) (simp_all add: ti(2))
qed

text \<open>The three writes after \<^verbatim>\<open>proc_alloc\<close>, on the memory alone.\<close>

lemma first_memory_built:
  assumes o: "own m {root, kpt} (insert stk (insert tfp H))" and d: "root \<noteq> kpt" "stk \<noteq> tfp"
    and e: "\<And>x. unat x < 2 ^ 38 \<Longrightarrow> pt_entry (mem m) root x = bare_map (trampoline im) tfp x"
    and c: "4 \<le> card (free_pages True m)" "2 \<le> card (free_pages False m)"
    and s: "pm s = m" "pgtbl (proc_at s i) = root" and bs: "length (initcode im) \<le> 4096"
  obtains code m1 m2 stack m3 where
    "map_zero_page i 0 (PTE_R OR PTE_W OR PTE_X OR PTE_U) msg s = Inr (code, s\<lparr>pm := m1\<rparr>)"
    "m2 = m1\<lparr>mem := store_bytes (mem m1) code (initcode im)\<rparr>"
    "\<forall>u. pm u = m2 \<longrightarrow> pgtbl (proc_at u i) = root \<longrightarrow> map_zero_page i 0x10000 (PTE_R OR PTE_W OR PTE_U) msg' u = Inr (stack, u\<lparr>pm := m3\<rparr>)"
    "first_memory im kpt root tfp code stack (m3\<lparr>mem := store64 (store64 (mem m3) (tfp + TF_EPC) 0) (tfp + TF_SP) (0x10000 + PGSIZE)\<rparr>)"
    "\<forall>x. pt_entry (store64 (store64 (mem m3) (tfp + TF_EPC) 0) (tfp + TF_SP) (0x10000 + PGSIZE)) kpt x = pt_entry (mem m) kpt x"
proof -
  let ?R = "{root, kpt}" and ?H = "insert stk (insert tfp H)"
  have fin: "finite (free_pages False m)" by (rule finite_free [OF ownD(1) [OF o]])
  have al: "aligned 12 (0 :: u64)" "aligned 12 (0x10000 :: u64)" by (simp_all add: aligned_def take_bit_eq_mod)
  have ne: "free_pages False m \<noteq> {}" using c(2) by auto
  have pre: "own (pm s) ?R ?H" "pgtbl (proc_at s i) \<in> ?R" and pre2: "2 \<le> card (free_pages True (pm s))" "free_pages False (pm s) \<noteq> {}"
    using o c(1) ne unfolding s by simp_all
  obtain code m1 where a: "map_zero_page i 0 (PTE_R OR PTE_W OR PTE_X OR PTE_U) msg s = Inr (code, s\<lparr>pm := m1\<rparr>)" "own m1 ?R (insert code ?H)"
      "code \<notin> ?H" "code \<in> free_pages False m" "card (free_pages True m) \<le> card (free_pages True m1) + 2" "free_pages False m1 = free_pages False m - {code}"
      "\<And>x. unat x < 2 ^ 38 \<Longrightarrow> pt_entry (mem m1) root x =
         (if on_page 0 x then PA_TO_PTE code OR (PTE_R OR PTE_W OR PTE_X OR PTE_U) OR PTE_V else pt_entry (mem m) root x)"
      "\<And>r x. r \<in> ?R \<Longrightarrow> r \<noteq> root \<Longrightarrow> pt_entry (mem m1) r x = pt_entry (mem m) r x"
      "\<And>h. h \<in> ?H \<Longrightarrow> same_page h (mem m) (mem m1)" "load_bytes (mem m1) code 4096 = replicate 4096 0"
    by (rule map_zero_page_ok [OF pre al(1) _ pre2, where perm = "PTE_R OR PTE_W OR PTE_X OR PTE_U" and msg = msg, unfolded s]) (simp, blast)
  define m2 where m2: "m2 = m1\<lparr>mem := store_bytes (mem m1) code (initcode im)\<rparr>"
  note b = copy_code [OF a(2) insertI1 bs, folded m2]
  have "1 \<le> card (free_pages False m1)" using c(2) a(4,6) card_Suc_Diff1 [OF fin, of code] by simp
  then have c2: "2 \<le> card (free_pages True m2)" "free_pages False m2 \<noteq> {}" using a(5) c(1) b(4) by auto
  define u0 where "u0 = s\<lparr>pm := m2\<rparr>"
  have u0: "pm u0 = m2" "pgtbl (proc_at u0 i) = root" using s(2) by (simp_all add: u0_def)
  have qre: "own (pm u0) ?R (insert code ?H)" "pgtbl (proc_at u0 i) \<in> ?R" and qre2: "2 \<le> card (free_pages True (pm u0))" "free_pages False (pm u0) \<noteq> {}"
    using b(1) c2 unfolding u0 by simp_all
  obtain stack m3 where d3: "map_zero_page i 0x10000 (PTE_R OR PTE_W OR PTE_U) msg' u0 = Inr (stack, u0\<lparr>pm := m3\<rparr>)" "own m3 ?R (insert stack (insert code ?H))"
      "stack \<notin> insert code ?H"
      "\<And>x. unat x < 2 ^ 38 \<Longrightarrow> pt_entry (mem m3) root x =
         (if on_page 0x10000 x then PA_TO_PTE stack OR (PTE_R OR PTE_W OR PTE_U) OR PTE_V else pt_entry (mem m2) root x)"
      "\<And>r x. r \<in> ?R \<Longrightarrow> r \<noteq> root \<Longrightarrow> pt_entry (mem m3) r x = pt_entry (mem m2) r x"
      "\<And>h. h \<in> insert code ?H \<Longrightarrow> same_page h (mem m2) (mem m3)" "load_bytes (mem m3) stack 4096 = replicate 4096 0"
    by (rule map_zero_page_ok [OF qre al(2) _ qre2, where perm = "PTE_R OR PTE_W OR PTE_U" and msg = msg', unfolded u0]) (simp, blast)
  have again: "map_zero_page i 0x10000 (PTE_R OR PTE_W OR PTE_U) msg' u = Inr (stack, u\<lparr>pm := m3\<rparr>)" if "pm u = m2" "pgtbl (proc_at u i) = root" for u
    using d3(1) that s(2) by (auto simp: map_zero_page_def u0_def bindr_eq_Inr split: prod.splits dest!: arg_cong [of "s\<lparr>pm := _\<rparr>" _ pm])
  define m4 where m4: "m4 = m3\<lparr>mem := store64 (store64 (mem m3) (tfp + TF_EPC) 0) (tfp + TF_SP) (0x10000 + PGSIZE)\<rparr>"
  have ti: "tfp \<in> insert stack (insert code ?H)" by simp
  note f = tf_stores [OF d3(2) ti m4]
  have code: "load_bytes (mem m4) code 4096 = initcode im @ replicate (4096 - length (initcode im)) 0"
    using same_page_bytes [OF f(3) [of code]] same_page_bytes [OF d3(6) [of code]] b(5) a(3,10) by auto
  have stack: "load_bytes (mem m4) stack 4096 = replicate 4096 0" using same_page_bytes [OF f(3) [of stack]] d3(3,7) by auto
  have ent: "pt_entry (mem m4) root x = first_map (trampoline im) tfp code stack x" if "unat x < 2 ^ 38" for x
    unfolding f(2) [of root, simplified] d3(4) [OF that] b(2) [of root, simplified] a(7) [OF that] e [OF that] first_map_def ..
  have "first_memory im kpt root tfp code stack m4"
    unfolding first_memory_def using own_subset [OF f(1)] d(1) d3(3) a(3) ent code stack f(4,5) by auto
  moreover have "pt_entry (mem m4) kpt x = pt_entry (mem m) kpt x" for x
    using f(2) [of kpt] d3(5) [of kpt] b(2) [of kpt] a(8) [of kpt] d(1) by simp
  ultimately show thesis using that [OF a(1) m2, of stack m3] again unfolding m4 by simp
qed

lemma proc_make_first_ok:
  assumes q: "quiet s" "cur s = None" and u: "pstate (proc_at s 0) = UNUSED" and ks: "kstack (proc_at s 0) = KSTACK 0"
    and pid: "0 \<le> global_pid s" "global_pid s < 2 ^ 31 - 1" and o: "own (pm s) {kernel_pgtbl s} H"
    and c: "16 \<le> card (free_pages True (pm s))" "3 \<le> card (free_pages False (pm s))" and bs: "length (initcode im) \<le> 4096"
  obtains t code stack stk where "proc_make_first im s = Inr t" "kernel_pgtbl t = kernel_pgtbl s"
    "first_memory im (kernel_pgtbl s) (pgtbl (proc_at t 0)) (tf (proc_at t 0)) code stack (pm t)"
    "heap_top (proc_at t 0) = PGSIZE" "ustack_base (proc_at t 0) = 0x10000" "ustack_pages (proc_at t 0) = 1"
    "proczero t = Some 0" "pstate (proc_at t 0) = RUNNABLE" "kont (proc_at t 0) = ForkRet"
    "\<And>x. unat x < 2 ^ 38 \<Longrightarrow> pt_entry (mem (pm t)) (kernel_pgtbl s) x =
       (if on_page (KSTACK 0) x then PA_TO_PTE stk OR (PTE_R OR PTE_W) OR PTE_V else pt_entry (mem (pm s)) (kernel_pgtbl s) x)"
    "stk \<notin> H"
proof -
  have fin: "finite (free_pages False (pm s))" by (rule finite_free [OF ownD(1) [OF o]])
  have c1: "12 \<le> card (free_pages True (pm s))" "free_pages False (pm s) \<noteq> {}" using c by auto
  obtain a m root tfp stk where a: "proc_alloc im s = Inr (Some 0, a)" "slot_held 0 a" "cur a = cur s" "pm a = m" "kernel_pgtbl a = kernel_pgtbl s"
    "pgtbl (proc_at a 0) = root" "tf (proc_at a 0) = tfp" "length (procs a) = NPROC"
    "own m {root, kernel_pgtbl s} (insert stk (insert tfp H))" "root \<noteq> kernel_pgtbl s" "stk \<noteq> tfp" "stk \<notin> H" "tfp \<notin> H" "root \<in> free_pages False (pm s)"
    "card (free_pages True (pm s)) \<le> card (free_pages True m) + 12" "free_pages False m = free_pages False (pm s) - {root}"
    "\<And>x. unat x < 2 ^ 38 \<Longrightarrow> pt_entry (mem m) root x = bare_map (trampoline im) tfp x"
    "\<And>x. unat x < 2 ^ 38 \<Longrightarrow> pt_entry (mem m) (kernel_pgtbl s) x =
       (if on_page (KSTACK 0) x then PA_TO_PTE stk OR (PTE_R OR PTE_W) OR PTE_V else pt_entry (mem (pm s)) (kernel_pgtbl s) x)"
    by (rule proc_alloc_first [OF q(1) u ks pid o c1, of im]) blast
  let ?g = "\<lambda>p. p\<lparr>ctx := (ctx p)\<lparr>ctx_ra := forkret_pc im\<rparr>, kont := ForkRet\<rparr>"
  let ?s = "upd 0 ?g (a\<lparr>proczero := Some 0\<rparr>)"
  have s: "pm ?s = m" "pgtbl (proc_at ?s 0) = root" using a(4,6,8) by simp_all
  have c2: "4 \<le> card (free_pages True m)" "2 \<le> card (free_pages False m)"
    using c a(14,15,16) card_Suc_Diff1 [OF fin a(14)] by simp_all
  have e: "\<And>x. unat x < 2 ^ 38 \<Longrightarrow> pt_entry (mem m) root x = bare_map (trampoline im) tfp x" by (rule a(17))
  obtain code m1 m2 stack m3 where b:
    "map_zero_page 0 0 (PTE_R OR PTE_W OR PTE_X OR PTE_U) ''proc_make_first: pmem_alloc'' ?s = Inr (code, ?s\<lparr>pm := m1\<rparr>)"
    "m2 = m1\<lparr>mem := store_bytes (mem m1) code (initcode im)\<rparr>"
    "\<forall>u. pm u = m2 \<longrightarrow> pgtbl (proc_at u 0) = root \<longrightarrow>
       map_zero_page 0 0x10000 (PTE_R OR PTE_W OR PTE_U) ''proc_make_first: pmem_alloc for stack'' u = Inr (stack, u\<lparr>pm := m3\<rparr>)"
    "first_memory im (kernel_pgtbl s) root tfp code stack
       (m3\<lparr>mem := store64 (store64 (mem m3) (tfp + TF_EPC) 0) (tfp + TF_SP) (0x10000 + PGSIZE)\<rparr>)"
    "\<forall>x. pt_entry (store64 (store64 (mem m3) (tfp + TF_EPC) 0) (tfp + TF_SP) (0x10000 + PGSIZE)) (kernel_pgtbl s) x = pt_entry (mem m) (kernel_pgtbl s) x"
    by (rule first_memory_built [OF a(9,10,11) e c2 s bs, where msg = "''proc_make_first: pmem_alloc''" and
        msg' = "''proc_make_first: pmem_alloc for stack''"]) blast
  let ?m4 = "m3\<lparr>mem := store64 (store64 (mem m3) (tfp + TF_EPC) 0) (tfp + TF_SP) (0x10000 + PGSIZE)\<rparr>"
  let ?h = "\<lambda>p. (?g p)\<lparr>heap_top := PGSIZE, ustack_base := 0x10000, ustack_pages := 1, pstate := RUNNABLE\<rparr>"
  let ?u = "a\<lparr>proczero := Some 0, pm := ?m4\<rparr>"
  let ?s2 = "upd 0 (\<lambda>p. (?g p)\<lparr>heap_top := PGSIZE, ustack_base := 0x10000, ustack_pages := 1\<rparr>) (a\<lparr>proczero := Some 0, pm := m2\<rparr>)"
  have m3: "map_zero_page 0 0x10000 (PTE_R OR PTE_W OR PTE_U) ''proc_make_first: pmem_alloc for stack'' ?s2 = Inr (stack, ?s2\<lparr>pm := m3\<rparr>)"
    by (rule b(3) [rule_format]) (use a(6,8) in simp_all)
  have "slot_held 0 ?u" by (rule slot_held_frame [OF a(2)]) simp_all
  then have "slot_held 0 (upd 0 ?h ?u)"
    by (rule slot_held_upd) (use a(3) q(2) in \<open>simp_all add: keeps_lock_def kont_ok_def\<close>)
  from slot_held_release [OF this] obtain t l where t: "release_proc 0 (upd 0 ?h ?u) = Inr t"
    "t = (upd 0 (\<lambda>p. p\<lparr>plk := l\<rparr>) (upd 0 ?h ?u))\<lparr>cpu := popped (cpu (upd 0 ?h ?u))\<rparr>" by blast
  have r: "proc_make_first im s = Inr (t\<lparr>cur := None, ctl := Scheduler NPROC\<rparr>)"
    unfolding proc_make_first_def a(1)
    using b(1) m3 t(1) a(7,8) b(2) by (simp add: Let_def upd_upd upd_pm_commute tf_set_def)
  have p: "proc_at (t\<lparr>cur := None, ctl := Scheduler NPROC\<rparr>) 0 = (?h (proc_at a 0))\<lparr>plk := l\<rparr>" "pm (t\<lparr>cur := None, ctl := Scheduler NPROC\<rparr>) = ?m4"
    "kernel_pgtbl (t\<lparr>cur := None, ctl := Scheduler NPROC\<rparr>) = kernel_pgtbl s" "proczero (t\<lparr>cur := None, ctl := Scheduler NPROC\<rparr>) = Some 0"
    unfolding t(2) using a(5,8) by simp_all
  show thesis
    by (rule that [OF r, of code stack stk]) (use p a(6,7,12,18) b(4,5) in simp_all)
qed

end
