(* ===== verification/Boot.thy ===== *)
theory Boot
  imports First_Proc Traps
begin

text \<open>
  The start of the machine: \<^verbatim>\<open>kernel/boot/start.c\<close>, \<^verbatim>\<open>timer_init\<close> of \<^verbatim>\<open>kernel/dev/timer.c\<close> with the interrupt routine
  \<^verbatim>\<open>timer_vector\<close> of \<^verbatim>\<open>kernel/trap/trap.S\<close> it prepares, \<^verbatim>\<open>uart_init\<close>, \<^verbatim>\<open>print_init\<close> and \<^verbatim>\<open>main\<close> of \<^verbatim>\<open>kernel/boot/main.c\<close>.

  In machine mode a hart works on its control registers and on cells of 64 bits: the registers of the CLINT and the scratch
  areas of the harts, both by address.  \<^verbatim>\<open>main\<close> of hart 0 is the list of its initialisations in their order; the other harts wait
  for the flag \<^verbatim>\<open>started\<close>.
\<close>

section \<open>Machine mode\<close>

record hregs =
  mhartid :: u64
  mstatus :: u64
  mepc :: u64
  m_satp :: u64
  medeleg :: u64
  mideleg :: u64
  sie_csr :: u64
  sip_csr :: u64
  pmpaddr0 :: u64
  pmpcfg0 :: u64
  mscratch :: u64
  mtvec :: u64
  mie :: u64
  x_tp :: u64
  x_a0 :: u64
  x_a1 :: u64
  x_a2 :: u64
  x_a3 :: u64
  m_mode :: u64
  m_pc :: u64

type_synonym cells = "u64 \<Rightarrow> u64"

record bcode =
  main_pc :: u64
  timer_vector_pc :: u64
  mscratch_base :: u64
  etext_addr :: u64

abbreviation NCPU :: int where "NCPU \<equiv> 2"
abbreviation INTERVAL :: u64 where "INTERVAL \<equiv> 1000000"
abbreviation MSTATUS_MPP_MASK :: u64 where "MSTATUS_MPP_MASK \<equiv> 0x1800"
abbreviation MSTATUS_MPP_S :: u64 where "MSTATUS_MPP_S \<equiv> 0x800"
abbreviation MSTATUS_MIE :: u64 where "MSTATUS_MIE \<equiv> 8"
abbreviation MIE_MTIE :: u64 where "MIE_MTIE \<equiv> 0x80"
abbreviation SIE_SEIE :: u64 where "SIE_SEIE \<equiv> 0x200"
abbreviation SIE_STIE :: u64 where "SIE_STIE \<equiv> 0x20"
abbreviation SIE_SSIE :: u64 where "SIE_SSIE \<equiv> 2"
abbreviation CLINT_MTIME :: u64 where "CLINT_MTIME \<equiv> 0x2000000 + 0xBFF8"

definition CLINT_MTIMECMP :: "int \<Rightarrow> u64" where
  "CLINT_MTIMECMP hartid = 0x2000000 + 0x4000 + 8 * of_int hartid"

text \<open>\<^verbatim>\<open>mscratch[hartid]\<close>: an array of 5 cells for each of \<^verbatim>\<open>NCPU\<close> harts.\<close>

definition scratch_of :: "bcode \<Rightarrow> int \<Rightarrow> u64" where
  "scratch_of bc hartid = mscratch_base bc + 40 * of_int hartid"

definition timer_init :: "bcode \<Rightarrow> hregs \<times> cells \<Rightarrow> (hregs \<times> cells) res" where
  "timer_init bc = (\<lambda>(r, m).
     let hartid = sint (ucast (x_tp r) :: 32 word);
         m = m(CLINT_MTIMECMP hartid := m CLINT_MTIME + INTERVAL)
     in if hartid < 0 \<or> NCPU \<le> hartid then Inl Undefined
        else let scratch = scratch_of bc hartid;
                 m = m(scratch + 24 := CLINT_MTIMECMP hartid, scratch + 32 := INTERVAL);
                 r = r\<lparr>mscratch := scratch, mtvec := timer_vector_pc bc\<rparr>;
                 r = r\<lparr>mstatus := mstatus r OR MSTATUS_MIE\<rparr>
          in Inr (r\<lparr>mie := mie r OR MIE_MTIE\<rparr>, m))"

text \<open>\<^verbatim>\<open>mret\<close>: the mode of the field MPP, the address of \<^verbatim>\<open>mepc\<close>, and MIE from MPIE.\<close>

definition mret :: "hregs \<Rightarrow> hregs" where
  "mret r = r\<lparr>m_mode := drop_bit 11 (mstatus r AND MSTATUS_MPP_MASK), m_pc := mepc r,
     mstatus := (mstatus r AND NOT (MSTATUS_MPP_MASK OR MSTATUS_MIE)) OR drop_bit 4 (mstatus r AND 0x80) OR 0x80\<rparr>"

definition start :: "bcode \<Rightarrow> hregs \<times> cells \<Rightarrow> (hregs \<times> cells) res" where
  "start bc = (\<lambda>(r, m).
     let x = mstatus r;
         x = x AND NOT MSTATUS_MPP_MASK;
         x = x OR MSTATUS_MPP_S;
         r = r\<lparr>mstatus := x\<rparr>;
         r = r\<lparr>mepc := main_pc bc\<rparr>;
         r = r\<lparr>m_satp := 0\<rparr>;
         r = r\<lparr>medeleg := 0xffff, mideleg := 0xffff\<rparr>;
         r = r\<lparr>sie_csr := sie_csr r OR SIE_SEIE OR SIE_STIE OR SIE_SSIE\<rparr>;
         r = r\<lparr>pmpaddr0 := 0x3fffffffffffff, pmpcfg0 := 0xf\<rparr>
     in bindr (timer_init bc (r, m)) (\<lambda>(r, m).
        let hid = scast (ucast (mhartid r) :: 32 word)
        in Inr (mret (r\<lparr>x_tp := hid\<rparr>), m)))"

text \<open>The interrupt routine of the timer, instruction by instruction.\<close>

definition timer_vector :: "hregs \<times> cells \<Rightarrow> hregs \<times> cells" where
  "timer_vector = (\<lambda>(r, m).
     let r = r\<lparr>x_a0 := mscratch r, mscratch := x_a0 r\<rparr>;
         m = m(x_a0 r := x_a1 r);
         m = m(x_a0 r + 8 := x_a2 r);
         m = m(x_a0 r + 16 := x_a3 r);
         r = r\<lparr>x_a1 := m (x_a0 r + 24)\<rparr>;
         r = r\<lparr>x_a2 := m (x_a0 r + 32)\<rparr>;
         r = r\<lparr>x_a3 := m (x_a1 r)\<rparr>;
         r = r\<lparr>x_a3 := x_a3 r + x_a2 r\<rparr>;
         m = m(x_a1 r := x_a3 r);
         r = r\<lparr>x_a1 := 2\<rparr>;
         r = r\<lparr>sip_csr := x_a1 r\<rparr>;
         r = r\<lparr>x_a3 := m (x_a0 r + 16)\<rparr>;
         r = r\<lparr>x_a2 := m (x_a0 r + 8)\<rparr>;
         r = r\<lparr>x_a1 := m (x_a0 r)\<rparr>;
         r = r\<lparr>x_a0 := mscratch r, mscratch := x_a0 r\<rparr>
     in (mret r, m))"

section \<open>The console\<close>

text \<open>The writes of \<^verbatim>\<open>uart_init\<close> to the registers of the UART, in order.\<close>

definition uart_init :: "(nat \<times> byte) list" where
  "uart_init = (let IER = 1; FCR = 2; LCR = 3
     in [(IER, 0x00), (LCR, push_bit 7 1), (0, 0x03), (1, 0x00), (LCR, push_bit 0 3),
         (FCR, push_bit 0 1 OR push_bit 1 3), (IER, push_bit 0 1 OR push_bit 1 1)])"

section \<open>Hart 0\<close>

text \<open>The machine of \<open>Traps\<close> with what only the start touches: the registers of the UART that have been written, the lock of
  \<^verbatim>\<open>printf\<close>, the bookkeeping of the harts but the first, and \<^verbatim>\<open>started\<close>.\<close>

record boot =
  ts :: tstate
  uart_writes :: "(nat \<times> byte) list"
  disk_writes :: "(reg \<times> u32) list"
  pr_lock :: spinlock
  pr_locking :: bool
  other_harts :: "hart list"
  started :: bool

abbreviation ker_of :: "boot \<Rightarrow> kernel" where "ker_of b \<equiv> ker (sy (ts b))"

definition on_ker :: "(kernel \<Rightarrow> kernel res) \<Rightarrow> boot \<Rightarrow> boot res" where
  "on_ker f b = bindr (f (ker_of b)) (\<lambda>k. Inr (b\<lparr>ts := set_ker k (ts b)\<rparr>))"

definition on_ts :: "(tstate \<Rightarrow> tstate) \<Rightarrow> boot \<Rightarrow> boot res" where
  "on_ts f b = Inr (b\<lparr>ts := f (ts b)\<rparr>)"

definition print_init :: "boot \<Rightarrow> boot" where
  "print_init b = b\<lparr>uart_writes := uart_writes b @ uart_init, pr_lock := spinlock_init ''print'', pr_locking := True\<rparr>"

definition kvm_inithart :: "tstate \<Rightarrow> tstate" where
  "kvm_inithart s = s\<lparr>satp := kvm_satp (kernel_pgtbl (ker (sy s)))\<rparr>"

definition boot_cpu_init :: "boot \<Rightarrow> boot" where
  "boot_cpu_init b =
     (let cs = cpu_init (cpu (ker_of b) # other_harts b)
      in b\<lparr>ts := set_ker ((ker_of b)\<lparr>cpu := hd cs\<rparr>) (ts b), other_harts := tl cs\<rparr>)"

definition boot_disk_init :: "tcode \<Rightarrow> mmio \<Rightarrow> boot \<Rightarrow> boot res" where
  "boot_disk_init tc regs b = bindr (virtio_disk_init (t_lay tc) regs (vd (ts b))) (\<lambda>(w, v).
     Inr (b\<lparr>ts := (ts b)\<lparr>vd := v\<rparr>, disk_writes := disk_writes b @ w\<rparr>))"

definition init_steps :: "bcode \<Rightarrow> tcode \<Rightarrow> mmio \<Rightarrow> (boot \<Rightarrow> boot res) list" where
  "init_steps bc tc regs = (let im = img (t_env tc) in
    [(\<lambda>b. Inr (print_init b)),
     on_ker (\<lambda>k. bindr (pmem_init (ALLOC_BEGIN im) (mem (pm k))) (\<lambda>p. Inr (k\<lparr>pm := p\<rparr>))),
     on_ker (\<lambda>k. Inr (k\<lparr>mms := mmap_init (mms k)\<rparr>)),
     on_ker (\<lambda>k. bindr (kvm_init (etext_addr bc) (trampoline im) (pm k)) (\<lambda>(root, p). Inr (k\<lparr>kernel_pgtbl := root, pm := p\<rparr>))),
     on_ts kvm_inithart,
     on_ker (\<lambda>k. Inr (proc_init k)),
     (\<lambda>b. Inr (boot_cpu_init b)),
     on_ts trap_kernel_init,
     on_ts (trap_kernel_inithart tc),
     on_ts (\<lambda>s. s\<lparr>plc := plic_init (plc s)\<rparr>),
     on_ts (\<lambda>s. s\<lparr>plc := plic_inithart 0 (plc s)\<rparr>),
     boot_disk_init tc regs,
     (\<lambda>b. Inr (b\<lparr>started := True\<rparr>)),
     on_ker (proc_make_first im)])"

primrec run_steps :: "('a \<Rightarrow> 'a res) list \<Rightarrow> 'a \<Rightarrow> 'a res" where
  "run_steps [] b = Inr b"
| "run_steps (f # fs) b = bindr (f b) (run_steps fs)"

text \<open>\<^verbatim>\<open>main\<close> on hart 0, up to the loop of the scheduler.\<close>

definition main_hart0 :: "bcode \<Rightarrow> tcode \<Rightarrow> mmio \<Rightarrow> boot \<Rightarrow> boot res" where
  "main_hart0 bc tc regs b = run_steps (init_steps bc tc regs) b"

section \<open>All harts\<close>

text \<open>The other harts spin on \<^verbatim>\<open>started\<close>, load the kernel's page table, set the trap vector and go idle.  The steps of the harts are
  interleaved; \<open>n_done\<close> counts the initialisations of hart 0.\<close>

datatype hart_pc = Spin | LoadTable | SetVector | Idle

record boot_sys =
  bst :: boot
  n_done :: nat
  hpc :: "nat \<Rightarrow> hart_pc"
  h_satp :: "nat \<Rightarrow> u64"
  h_stvec :: "nat \<Rightarrow> u64"

inductive boot_step :: "bcode \<Rightarrow> tcode \<Rightarrow> mmio \<Rightarrow> boot_sys \<Rightarrow> boot_sys \<Rightarrow> bool" for bc tc regs where
  b_init: "n_done s < length (init_steps bc tc regs) \<Longrightarrow> (init_steps bc tc regs ! n_done s) (bst s) = Inr b \<Longrightarrow>
     boot_step bc tc regs s (s\<lparr>bst := b, n_done := Suc (n_done s)\<rparr>)"
| b_spin: "0 < j \<Longrightarrow> hpc s j = Spin \<Longrightarrow> \<not> started (bst s) \<Longrightarrow> boot_step bc tc regs s s"
| b_go: "0 < j \<Longrightarrow> hpc s j = Spin \<Longrightarrow> started (bst s) \<Longrightarrow> boot_step bc tc regs s (s\<lparr>hpc := (hpc s)(j := LoadTable)\<rparr>)"
| b_table: "0 < j \<Longrightarrow> hpc s j = LoadTable \<Longrightarrow>
     boot_step bc tc regs s (s\<lparr>h_satp := (h_satp s)(j := kvm_satp (kernel_pgtbl (ker_of (bst s)))), hpc := (hpc s)(j := SetVector)\<rparr>)"
| b_vector: "0 < j \<Longrightarrow> hpc s j = SetVector \<Longrightarrow>
     boot_step bc tc regs s (s\<lparr>h_stvec := (h_stvec s)(j := kernel_vector tc), hpc := (hpc s)(j := Idle)\<rparr>)"

inductive_cases boot_stepE: "boot_step bc tc regs s t"

definition boot_start :: "boot \<Rightarrow> boot_sys \<Rightarrow> bool" where
  "boot_start b s \<longleftrightarrow> bst s = b \<and> n_done s = 0 \<and> \<not> started b \<and> (\<forall>j > 0. hpc s j = Spin)"

end
