(* ===== verification/Boot_Props.thy ===== *)
theory Boot_Props
  imports Boot
begin

text \<open>
  What the start of the machine achieves: the timer of a hart ticks, hart 0 brings the kernel up to the scheduler with the first
  process ready, and no other hart uses the kernel's page table before it is complete.
\<close>

section \<open>The timer of a hart\<close>

lemma unat_cmp: "0 \<le> h \<Longrightarrow> h < 2 \<Longrightarrow> unat (CLINT_MTIMECMP h) = 0x2004000 + 8 * nat h"
proof -
  assume "0 \<le> h" "h < 2"
  then have "h = 0 \<or> h = 1" by auto
  then show ?thesis by (auto simp: CLINT_MTIMECMP_def)
qed

lemma unat_scratch:
  assumes "0 \<le> h" "h < 2" "unat (mscratch_base bc) + 80 < 2 ^ 64" "k < 40"
  shows "unat (scratch_of bc h + of_nat k) = unat (mscratch_base bc) + 40 * nat h + k"
proof -
  have h: "h = 0 \<or> h = 1" using assms(1,2) by auto
  have "unat (mscratch_base bc + of_nat (40 * nat h + k)) = unat (mscratch_base bc) + (40 * nat h + k)"
  proof -
    have n: "40 * nat h + k < 80" using h assms(4) by auto
    then have u: "unat (of_nat (40 * nat h + k) :: u64) = 40 * nat h + k" by (intro unat_of_nat64) simp
    have "unat (mscratch_base bc) + unat (of_nat (40 * nat h + k) :: u64) < 2 ^ LENGTH(64)" unfolding u using n assms(3) by simp
    from iffD1 [OF unat_add_lem this] show ?thesis unfolding u .
  qed
  moreover have "scratch_of bc h + of_nat k = mscratch_base bc + of_nat (40 * nat h + k)" using h by (auto simp: scratch_of_def)
  ultimately show ?thesis by (simp only: add.assoc)
qed

text \<open>The scratch areas lie in the memory of the kernel, above the registers of the CLINT.\<close>

definition scratch_ok :: "bcode \<Rightarrow> bool" where
  "scratch_ok bc \<longleftrightarrow> 0x80000000 \<le> unat (mscratch_base bc) \<and> unat (mscratch_base bc) + 80 < 2 ^ 64"

definition armed :: "bcode \<Rightarrow> int \<Rightarrow> hregs \<times> cells \<Rightarrow> bool" where
  "armed bc h = (\<lambda>(r, m). mscratch r = scratch_of bc h \<and> m (scratch_of bc h + 24) = CLINT_MTIMECMP h \<and> m (scratch_of bc h + 32) = INTERVAL)"

lemma scratch_apart:
  assumes "scratch_ok bc" "0 \<le> h" "h < 2" "0 \<le> j" "j < 2"
  shows "k < 40 \<Longrightarrow> scratch_of bc h + of_nat k \<noteq> CLINT_MTIMECMP j"
    "k < 40 \<Longrightarrow> l < 40 \<Longrightarrow> k \<noteq> l \<Longrightarrow> scratch_of bc h + of_nat k \<noteq> scratch_of bc h + of_nat l"
proof -
  have b: "unat (mscratch_base bc) + 80 < 2 ^ 64" "0x80000000 \<le> unat (mscratch_base bc)" using assms(1) by (auto simp: scratch_ok_def)
  note u = unat_scratch [OF assms(2,3) b(1)]
  show "k < 40 \<Longrightarrow> scratch_of bc h + of_nat k \<noteq> CLINT_MTIMECMP j"
    using u [of k] unat_cmp [OF assms(4,5)] b(2) assms(5) by auto
  assume kl: "k < 40" "l < 40" "k \<noteq> l"
  show "scratch_of bc h + of_nat k \<noteq> scratch_of bc h + of_nat l"
  proof
    assume "scratch_of bc h + of_nat k = scratch_of bc h + of_nat l"
    then have "unat (scratch_of bc h + of_nat k) = unat (scratch_of bc h + of_nat l)" by simp
    then show False using u [OF kl(1)] u [OF kl(2)] kl(3) by simp
  qed
qed

lemma scratch_cells:
  assumes "scratch_ok bc" "0 \<le> h" "h < 2" "0 \<le> j" "j < 2"
  defines "s \<equiv> scratch_of bc h"
  shows "s \<noteq> CLINT_MTIMECMP j" "s + 8 \<noteq> CLINT_MTIMECMP j" "s + 16 \<noteq> CLINT_MTIMECMP j" "s + 24 \<noteq> CLINT_MTIMECMP j" "s + 32 \<noteq> CLINT_MTIMECMP j"
  using scratch_apart(1) [OF assms(1-5), of 0] scratch_apart(1) [OF assms(1-5), of 8] scratch_apart(1) [OF assms(1-5), of 16]
    scratch_apart(1) [OF assms(1-5), of 24] scratch_apart(1) [OF assms(1-5), of 32]
  by (simp_all add: s_def)

text \<open>One timer interrupt: the next one is due an interval later, a software interrupt is raised, and the registers are as before.\<close>

lemma timer_vector_ok:
  assumes ok: "scratch_ok bc" and h: "0 \<le> h" "h < 2" and a: "armed bc h (r, m)"
  obtains r' m' where "timer_vector (r, m) = (r', m')" "armed bc h (r', m')" "m' (CLINT_MTIMECMP h) = m (CLINT_MTIMECMP h) + INTERVAL"
    "sip_csr r' = 2" "x_a0 r' = x_a0 r" "x_a1 r' = x_a1 r" "x_a2 r' = x_a2 r" "x_a3 r' = x_a3 r" "x_tp r' = x_tp r" "m_pc r' = mepc r"
    "\<And>j. 0 \<le> j \<Longrightarrow> j < 2 \<Longrightarrow> j \<noteq> h \<Longrightarrow> m' (CLINT_MTIMECMP j) = m (CLINT_MTIMECMP j)"
proof -
  note c = scratch_cells [OF ok h]
  have s: "mscratch r = scratch_of bc h" "m (scratch_of bc h + 24) = CLINT_MTIMECMP h" "m (scratch_of bc h + 32) = INTERVAL"
    using a by (auto simp: armed_def)
  have ne: "CLINT_MTIMECMP j \<noteq> CLINT_MTIMECMP h" if "0 \<le> j" "j < 2" "j \<noteq> h" for j
    using unat_cmp [OF h] unat_cmp [OF that(1,2)] that h by (auto simp: nat_eq_iff)
  obtain r' m' where t: "timer_vector (r, m) = (r', m')" by fastforce
  have r: "r' = mret (r\<lparr>sip_csr := 2\<rparr>)"
    and m: "m' = (m(scratch_of bc h := x_a1 r, scratch_of bc h + 8 := x_a2 r, scratch_of bc h + 16 := x_a3 r))
        (CLINT_MTIMECMP h := m (CLINT_MTIMECMP h) + INTERVAL)"
    using t s c [OF h] by (auto simp: timer_vector_def Let_def)
  show thesis
    by (rule that [OF t]) (use s c c [symmetric] h ne in \<open>auto simp: r m armed_def mret_def\<close>)
qed

lemma timer_vectors_ok:
  assumes ok: "scratch_ok bc" and h: "0 \<le> h" "h < 2" and a: "armed bc h (r, m)"
  shows "\<exists>r' m'. (timer_vector ^^ n) (r, m) = (r', m') \<and> armed bc h (r', m') \<and> m' (CLINT_MTIMECMP h) = m (CLINT_MTIMECMP h) + of_nat n * INTERVAL \<and>
    x_a0 r' = x_a0 r \<and> x_a1 r' = x_a1 r \<and> x_a2 r' = x_a2 r \<and> x_a3 r' = x_a3 r \<and> x_tp r' = x_tp r \<and>
    (\<forall>j. 0 \<le> j \<longrightarrow> j < 2 \<longrightarrow> j \<noteq> h \<longrightarrow> m' (CLINT_MTIMECMP j) = m (CLINT_MTIMECMP j))"
proof (induction n)
  case 0
  then show ?case using a by simp
next
  case (Suc n)
  then obtain r1 m1 where 1: "(timer_vector ^^ n) (r, m) = (r1, m1)" "armed bc h (r1, m1)"
    "m1 (CLINT_MTIMECMP h) = m (CLINT_MTIMECMP h) + of_nat n * INTERVAL"
    "x_a0 r1 = x_a0 r \<and> x_a1 r1 = x_a1 r \<and> x_a2 r1 = x_a2 r \<and> x_a3 r1 = x_a3 r \<and> x_tp r1 = x_tp r"
    "\<forall>j. 0 \<le> j \<longrightarrow> j < 2 \<longrightarrow> j \<noteq> h \<longrightarrow> m1 (CLINT_MTIMECMP j) = m (CLINT_MTIMECMP j)" by blast
  obtain r2 m2 where 2: "timer_vector (r1, m1) = (r2, m2)" "armed bc h (r2, m2)" "m2 (CLINT_MTIMECMP h) = m1 (CLINT_MTIMECMP h) + INTERVAL"
    "x_a0 r2 = x_a0 r1" "x_a1 r2 = x_a1 r1" "x_a2 r2 = x_a2 r1" "x_a3 r2 = x_a3 r1" "x_tp r2 = x_tp r1"
    "\<And>j. 0 \<le> j \<Longrightarrow> j < 2 \<Longrightarrow> j \<noteq> h \<Longrightarrow> m2 (CLINT_MTIMECMP j) = m1 (CLINT_MTIMECMP j)"
    by (rule timer_vector_ok [OF ok h 1(2)]) blast
  have "m2 (CLINT_MTIMECMP h) = m (CLINT_MTIMECMP h) + of_nat (Suc n) * INTERVAL" using 2(3) 1(3) by (simp add: algebra_simps)
  with 1 2 show ?case by (intro exI [of _ r2] exI [of _ m2]) simp
qed

lemma sint_tp:
  assumes "0 \<le> h" "h < 2"
  shows "sint (ucast (of_int h :: u64) :: 32 word) = h" "scast (ucast (of_int h :: u64) :: 32 word) = (of_int h :: u64)"
proof -
  have "h = 0 \<or> h = 1" using assms by auto
  then show "sint (ucast (of_int h :: u64) :: 32 word) = h" "scast (ucast (of_int h :: u64) :: 32 word) = (of_int h :: u64)" by auto
qed

lemma start_ok:
  assumes ok: "scratch_ok bc" and h: "0 \<le> h" "h < 2" "x_tp r = of_int h" and i: "0 \<le> i" "i < 2" "mhartid r = of_int i"
  obtains r' m' where "start bc (r, m) = Inr (r', m')" "armed bc h (r', m')" "m' (CLINT_MTIMECMP h) = m CLINT_MTIME + INTERVAL"
    "m_mode r' = 1" "m_pc r' = main_pc bc" "m_satp r' = 0" "x_tp r' = of_int i" "mtvec r' = timer_vector_pc bc" "mie r' AND MIE_MTIE \<noteq> 0"
    "\<And>j. 0 \<le> j \<Longrightarrow> j < 2 \<Longrightarrow> j \<noteq> h \<Longrightarrow> m' (CLINT_MTIMECMP j) = m (CLINT_MTIMECMP j)"
proof -
  note c = scratch_cells [OF ok h(1,2)]
  have ne: "CLINT_MTIMECMP j \<noteq> CLINT_MTIMECMP h" if "0 \<le> j" "j < 2" "j \<noteq> h" for j
    using unat_cmp [OF h(1,2)] unat_cmp [OF that(1,2)] that h by (auto simp: nat_eq_iff)
  have ne2: "scratch_of bc h + 24 \<noteq> scratch_of bc h + 32" by simp
  let ?s = "scratch_of bc h"
  let ?x = "(mstatus r AND NOT MSTATUS_MPP_MASK) OR MSTATUS_MPP_S"
  let ?r = "r\<lparr>mepc := main_pc bc, m_satp := 0, medeleg := 0xffff, mideleg := 0xffff,
      sie_csr := sie_csr r OR SIE_SEIE OR SIE_STIE OR SIE_SSIE, pmpaddr0 := 0x3fffffffffffff, pmpcfg0 := 0xf,
      mscratch := ?s, mtvec := timer_vector_pc bc, mstatus := ?x OR MSTATUS_MIE, mie := mie r OR MIE_MTIE, x_tp := of_int i\<rparr>"
  let ?m = "m(CLINT_MTIMECMP h := m CLINT_MTIME + INTERVAL, ?s + 24 := CLINT_MTIMECMP h, ?s + 32 := INTERVAL)"
  have st: "start bc (r, m) = Inr (mret ?r, ?m)"
    using sint_tp(1) [OF h(1,2)] sint_tp(2) [OF i(1,2)] h i by (simp add: start_def timer_init_def Let_def)
  have mode: "drop_bit 11 ((?x OR MSTATUS_MIE) AND MSTATUS_MPP_MASK) = 1"
    by (simp add: bit.conj_disj_distrib2 and.assoc)
  have "bit ((mie r OR MIE_MTIE) AND MIE_MTIE) 7" by (simp add: bit_simps)
  then have mtie: "(mie r OR MIE_MTIE) AND MIE_MTIE \<noteq> 0" by auto
  show thesis
    by (rule that [OF st]) (use c c [symmetric] h ne ne2 mode mtie in \<open>auto simp: armed_def mret_def\<close>)
qed

text \<open>C28. Starting a hart.  \<^verbatim>\<open>start\<close> leaves machine mode for \<^verbatim>\<open>main\<close> in supervisor mode with paging off and with the number of the hart
  in \<^verbatim>\<open>tp\<close>, and arms the timer of the hart whose number \<^verbatim>\<open>tp\<close> holds when it is called: the comparator is set one interval ahead, and
  every one of any number of timer interrupts moves it one interval further, keeps the registers of the interrupted program and
  leaves the comparators of the other harts alone.  Nothing sets \<^verbatim>\<open>tp\<close> before, so on a hart other than 0 whose \<^verbatim>\<open>tp\<close> is 0 it is the
  timer of hart 0 that is armed.\<close>

theorem start_timer_correct:
  assumes "scratch_ok bc" and "0 \<le> h" and "h < 2" and "x_tp r = of_int h" and "0 \<le> i" and "i < 2" and "mhartid r = of_int i"
  shows "\<exists>r' m'. start bc (r, m) = Inr (r', m') \<and> m_mode r' = 1 \<and> m_pc r' = main_pc bc \<and> m_satp r' = 0 \<and> x_tp r' = mhartid r \<and>
    mtvec r' = timer_vector_pc bc \<and> mie r' AND MIE_MTIE \<noteq> 0 \<and>
    (\<forall>n. \<exists>r'' m''. (timer_vector ^^ n) (r', m') = (r'', m'') \<and>
       m'' (CLINT_MTIMECMP h) = m CLINT_MTIME + of_nat (Suc n) * INTERVAL \<and>
       (\<forall>j. 0 \<le> j \<longrightarrow> j < 2 \<longrightarrow> j \<noteq> h \<longrightarrow> m'' (CLINT_MTIMECMP j) = m (CLINT_MTIMECMP j)) \<and>
       x_a0 r'' = x_a0 r' \<and> x_a1 r'' = x_a1 r' \<and> x_a2 r'' = x_a2 r' \<and> x_a3 r'' = x_a3 r' \<and> x_tp r'' = x_tp r')"
proof -
  obtain r' m' where s: "start bc (r, m) = Inr (r', m')" "armed bc h (r', m')" "m' (CLINT_MTIMECMP h) = m CLINT_MTIME + INTERVAL"
      "m_mode r' = 1" "m_pc r' = main_pc bc" "m_satp r' = 0" "x_tp r' = of_int i" "mtvec r' = timer_vector_pc bc" "mie r' AND MIE_MTIE \<noteq> 0"
      "\<And>j. 0 \<le> j \<Longrightarrow> j < 2 \<Longrightarrow> j \<noteq> h \<Longrightarrow> m' (CLINT_MTIMECMP j) = m (CLINT_MTIMECMP j)"
    by (rule start_ok [OF assms, of m]) blast
  have "\<exists>r'' m''. (timer_vector ^^ n) (r', m') = (r'', m'') \<and>
       m'' (CLINT_MTIMECMP h) = m CLINT_MTIME + of_nat (Suc n) * INTERVAL \<and>
       (\<forall>j. 0 \<le> j \<longrightarrow> j < 2 \<longrightarrow> j \<noteq> h \<longrightarrow> m'' (CLINT_MTIMECMP j) = m (CLINT_MTIMECMP j)) \<and>
       x_a0 r'' = x_a0 r' \<and> x_a1 r'' = x_a1 r' \<and> x_a2 r'' = x_a2 r' \<and> x_a3 r'' = x_a3 r' \<and> x_tp r'' = x_tp r'" for n
    using timer_vectors_ok [OF assms(1-3) s(2), of n] s(3,10) by (auto simp: algebra_simps)
  with s assms(7) show ?thesis by auto
qed

definition wit_regs0 :: hregs where
  "wit_regs0 = \<lparr>mhartid = 1, mstatus = 0, mepc = 0, m_satp = 0, medeleg = 0, mideleg = 0, sie_csr = 0, sip_csr = 0, pmpaddr0 = 0, pmpcfg0 = 0,
     mscratch = 0, mtvec = 0, mie = 0, x_tp = 0, x_a0 = 0, x_a1 = 0, x_a2 = 0, x_a3 = 0, m_mode = 3, m_pc = 0\<rparr>"

definition wit_code :: bcode where
  "wit_code = \<lparr>main_pc = 0x80000400, timer_vector_pc = 0x80000300, mscratch_base = 0x80010000, etext_addr = 0x80008000\<rparr>"

text \<open>Hart 1, with the registers at 0: it runs \<^verbatim>\<open>main\<close> as hart 1, and has armed the timer of hart 0 and not its own.\<close>

theorem start_timer_correct_witness:
  "\<exists>r' m'. start wit_code (wit_regs0, \<lambda>_. 7) = Inr (r', m') \<and> m_pc r' = 0x80000400 \<and> x_tp r' = 1 \<and>
     m' (CLINT_MTIMECMP 0) = 1000007 \<and> m' (CLINT_MTIMECMP 1) = 7"
proof -
  have "scratch_ok wit_code" by (simp add: scratch_ok_def wit_code_def)
  from start_timer_correct [OF this, of 0 wit_regs0 1 "\<lambda>_. 7"] obtain r' m' where
    s: "start wit_code (wit_regs0, \<lambda>_. 7) = Inr (r', m')" "m_pc r' = main_pc wit_code" "x_tp r' = mhartid wit_regs0"
    and t: "\<forall>n. \<exists>r'' m''. (timer_vector ^^ n) (r', m') = (r'', m'') \<and>
       m'' (CLINT_MTIMECMP 0) = 7 + of_nat (Suc n) * INTERVAL \<and> (\<forall>j. 0 \<le> j \<longrightarrow> j < 2 \<longrightarrow> j \<noteq> 0 \<longrightarrow> m'' (CLINT_MTIMECMP j) = 7)"
    by (fastforce simp: wit_regs0_def)
  from t [rule_format, of 0] have "m' (CLINT_MTIMECMP 0) = 1000007" "m' (CLINT_MTIMECMP 1) = 7" by auto
  with s show ?thesis by (simp add: wit_code_def wit_regs0_def)
qed

section \<open>Hart 0\<close>

lemma run_steps_append: "run_steps (fs @ gs) b = bindr (run_steps fs b) (run_steps gs)"
  by (induction fs arbitrary: b) (auto simp: bindr_def split: sum.splits)

lemma run_steps_snoc: "run_steps (fs @ [f]) b = bindr (run_steps fs b) f"
  by (auto simp: run_steps_append bindr_def split: sum.splits)

lemma kernel_map_stack:
  assumes "0x80000000 < etext" "etext < PHYSTOP" "unat x < 2 ^ 38"
  shows "(if on_page (KSTACK 0) x then PA_TO_PTE stk OR (PTE_R OR PTE_W) OR PTE_V else kernel_map etext tramp ks x) = kernel_map etext tramp stk x"
proof (cases "on_page (KSTACK 0) x")
  case True
  have "PG_ROUND_DOWN x = KSTACK 0" by (rule one_page) (use True in \<open>simp_all add: KSTACK_0\<close>)
  then show ?thesis unfolding kernel_map_split [OF assms, of tramp stk] using True by (simp only: if_True simp_thms) simp
next
  case False
  then show ?thesis unfolding kernel_map_split [OF assms] by (simp only: if_False)
qed

text \<open>The linker's addresses, in the order of \<^verbatim>\<open>kernel.ld\<close>, with room for three user pages.\<close>

definition link_ok :: "bcode \<Rightarrow> image \<Rightarrow> bool" where
  "link_ok bc im \<longleftrightarrow> ALLOC_BEGIN im mod PGSIZE = 0 \<and> etext_addr bc mod PGSIZE = 0 \<and> 0x80000000 < etext_addr bc \<and> etext_addr bc \<le> ALLOC_BEGIN im \<and>
     unat (ALLOC_BEGIN im) + 1027 * 4096 \<le> 0x88000000 \<and> length (initcode im) \<le> 4096"

text \<open>The memory of the kernel when \<^verbatim>\<open>main\<close> begins: no process has run, \<^verbatim>\<open>global_pid\<close> has its initial value.\<close>

definition fresh_kernel :: "kernel \<Rightarrow> bool" where
  "fresh_kernel k \<longleftrightarrow> length (procs k) = NPROC \<and> (\<forall>j < NPROC. kont (proc_at k j) = Gone) \<and> cur k = None \<and> global_pid k = 1"

definition disk_present :: "mmio \<Rightarrow> bool" where
  "disk_present r \<longleftrightarrow> MAGIC_VALUE r = 0x74726976 \<and> VERSION r = 1 \<and> DEVICE_ID r = 2 \<and> VENDOR_ID r = 0x554d4551 \<and> of_nat NUM \<le> QUEUE_NUM_MAX r"

lemma kernel_memory_ready:
  assumes "link_ok bc im"
  obtains p root t ks where "pmem_init (ALLOC_BEGIN im) m = Inr p" "kvm_init (etext_addr bc) (trampoline im) p = Inr (root, t)" "own t {root} {ks}"
    "16 \<le> card (free_pages True t)" "3 \<le> card (free_pages False t)"
    "\<And>x. unat x < 2 ^ 38 \<Longrightarrow> pt_entry (mem t) root x = kernel_map (etext_addr bc) (trampoline im) ks x"
proof -
  let ?a = "ALLOC_BEGIN im" and ?e = "etext_addr bc"
  have l: "?a mod PGSIZE = 0" "?e mod PGSIZE = 0" "0x80000000 < ?e" "?e \<le> ?a" "unat ?a + 1027 * 4096 \<le> 0x88000000" using assms by (auto simp: link_ok_def)
  have ua: "unat ?e \<le> unat ?a" "0x80000000 < unat ?e" using l(3,4) by (simp_all add: word_le_nat_alt word_less_nat_alt)
  have "0 < ?a" "unat ?a + 1024 * 4096 \<le> 0x88000000" using ua l(5) by (simp_all add: word_less_nat_alt)
  then obtain p where p: "pmem_init ?a m = Inr p" "pmem_inv p" "card (free_pages True p) = 1024" "card (free_pages False p) = (0x88000000 - unat ?a) div 4096 - 1024"
    using pmem_init_correct [OF l(1), of m] by blast
  have e: "?e < PHYSTOP" using ua l(5) by (simp add: word_less_nat_alt)
  have "272 \<le> card (free_pages True p)" using p(3) by simp
  then obtain root t ks where t: "kvm_init ?e (trampoline im) p = Inr (root, t)" "pt_inv t root" "ks \<in> free_pages True p" "ks \<notin> free_pages True t"
      "ks \<notin> pt_tables (mem t) root" "free_pages False t = free_pages False p" "card (free_pages True p) \<le> card (free_pages True t) + 270"
      "\<And>x. unat x < 2 ^ 38 \<Longrightarrow> pt_entry (mem t) root x = kernel_map ?e (trampoline im) ks x"
    by (rule kvm_init_ok [OF p(2) _ l(2,3) e]) blast
  have "own t {root} {ks}"
    using t(2,4-6) free_page_aligned [OF p(2) t(3)] page_regions_disjoint [OF p(2) t(3)] unfolding own_def pt_inv_def
    by (auto split: bool.splits) (metis (full_types))
  moreover have "1027 * 4096 div 4096 \<le> (0x88000000 - unat ?a) div 4096" using l(5) by (intro div_le_mono) simp
  then have "3 \<le> card (free_pages False t)" using t(6) p(4) by simp
  ultimately show thesis using that p(1) t(1,7,8) p(3) by simp
qed

lemma boot_ok:
  assumes "link_ok bc (img (t_env tc))" and "fresh_kernel (ker_of b)" and "disk_present regs"
  shows "\<exists>b' code stack stk. main_hart0 bc tc regs b = Inr b' \<and> started b' \<and> satp (ts b') = kvm_satp (kernel_pgtbl (ker_of b')) \<and>
    stvec (ts b') = kernel_vector tc \<and> p_regs (plc (ts b')) (PLIC_SENABLE 0) = 0x402 \<and> vfree (vd (ts b')) = replicate NUM True \<and>
    (\<forall>x. unat x < 2 ^ 38 \<longrightarrow> pt_entry (mem (pm (ker_of b'))) (kernel_pgtbl (ker_of b')) x =
       kernel_map (etext_addr bc) (trampoline (img (t_env tc))) stk x) \<and>
    first_memory (img (t_env tc)) (kernel_pgtbl (ker_of b')) (pgtbl (proc_at (ker_of b') 0)) (tf (proc_at (ker_of b') 0)) code stack (pm (ker_of b')) \<and>
    proczero (ker_of b') = Some 0 \<and> pstate (proc_at (ker_of b') 0) = RUNNABLE \<and> kont (proc_at (ker_of b') 0) = ForkRet \<and>
    kstart (img (t_env tc)) (ker_of b')"
proof -
  define im where im: "im = img (t_env tc)"
  let ?k = "ker_of b"
  obtain p root t ks where t: "pmem_init (ALLOC_BEGIN im) (mem (pm ?k)) = Inr p" "kvm_init (etext_addr bc) (trampoline im) p = Inr (root, t)" "own t {root} {ks}"
      "16 \<le> card (free_pages True t)" "3 \<le> card (free_pages False t)"
      "\<And>x. unat x < 2 ^ 38 \<Longrightarrow> pt_entry (mem t) root x = kernel_map (etext_addr bc) (trampoline im) ks x"
    by (rule kernel_memory_ready [OF assms(1) [folded im], of "mem (pm ?k)"]) blast
  define B where "B = ?k\<lparr>pm := t, mms := mmap_init (mms ?k), kernel_pgtbl := root, cpu := (cpu ?k)\<lparr>noff := 0, origin := False\<rparr>\<rparr>"
  define K where "K = timer_create (proc_init B)"
  have B: "length (procs B) = NPROC" "\<forall>j < NPROC. kont (proc_at B j) = Gone" "noff (cpu B) = 0" "cur B = None" "global_pid B = 1"
    using assms(2) by (auto simp: B_def fresh_kernel_def)
  have q: "quiet K" "cur K = None" using booted_quiet [OF B(1-4)] by (auto simp: K_def)
  have K: "pm K = t" "kernel_pgtbl K = root" "global_pid K = 1" "pstate (proc_at K 0) = UNUSED" "kstack (proc_at K 0) = KSTACK 0"
    using B(5) by (simp_all add: K_def B_def timer_create_def proc_init_def)
  have bs: "length (initcode im) \<le> 4096" using assms(1) by (simp add: link_ok_def im)
  obtain u code stack stk where u: "proc_make_first im K = Inr u" "kernel_pgtbl u = root"
      "first_memory im root (pgtbl (proc_at u 0)) (tf (proc_at u 0)) code stack (pm u)"
      "proczero u = Some 0" "pstate (proc_at u 0) = RUNNABLE" "kont (proc_at u 0) = ForkRet"
      "\<And>x. unat x < 2 ^ 38 \<Longrightarrow> pt_entry (mem (pm u)) root x =
         (if on_page (KSTACK 0) x then PA_TO_PTE stk OR (PTE_R OR PTE_W) OR PTE_V else pt_entry (mem t) root x)"
    by (rule proc_make_first_ok [OF q K(4,5), of "{ks}" im, unfolded K(1-3)]) (use t(3-5) bs in simp_all)
  have e: "0x80000000 < etext_addr bc" "etext_addr bc < PHYSTOP" using assms(1) by (auto simp: link_ok_def word_le_nat_alt word_less_nat_alt)
  have map: "pt_entry (mem (pm u)) root x = kernel_map (etext_addr bc) (trampoline im) stk x" if "unat x < 2 ^ 38" for x
    unfolding u(7) [OF that] t(6) [OF that] by (rule kernel_map_stack [OF e that])
  have ks: "kstart im u" unfolding kstart_def using B u(1) K_def by blast
  have qn: "QUEUE_NUM_MAX regs \<noteq> 0" "\<not> QUEUE_NUM_MAX regs < of_nat NUM" using assms(3) by (auto simp: disk_present_def not_less)
  obtain w v where v: "virtio_disk_init (t_lay tc) regs (vd (ts b)) = Inr (w, v)" "vfree v = replicate NUM True"
    using assms(3) qn unfolding virtio_disk_init_def disk_present_def Let_def by (simp only: if_False simp_thms) simp
  have kd: "timer_create ((proc_init (?k\<lparr>mms := mmap_init (mms ?k), kernel_pgtbl := root, pm := t\<rparr>))\<lparr>cpu := (cpu ?k)\<lparr>noff := 0, origin := False\<rparr>\<rparr>) = K"
    by (simp add: K_def B_def timer_create_def proc_init_def)
  obtain b' where b': "main_hart0 bc tc regs b = Inr b'" "started b'" "ker_of b' = u" "satp (ts b') = kvm_satp root" "stvec (ts b') = kernel_vector tc"
      "plc (ts b') = plic_inithart 0 (plic_init (plc (ts b)))" "vd (ts b') = v"
    unfolding main_hart0_def init_steps_def im [symmetric] Let_def
    using t(1,2) v(1) u(1) kd
    by (simp add: on_ker_def on_ts_def set_ker_def kvm_inithart_def boot_cpu_init_def boot_disk_init_def trap_kernel_init_def trap_kernel_inithart_def
        cpu_init_def print_init_def timer_create_def proc_init_def)
  have regs: "p_regs (plc (ts b')) (PLIC_SENABLE 0) = 0x402"
    unfolding b'(6) by (simp add: plic_inithart_def PLIC_SENABLE_def PLIC_SPRIORITY_def)
  have satp: "satp (ts b') = kvm_satp (kernel_pgtbl (ker_of b'))" and vfree: "vfree (vd (ts b')) = replicate NUM True"
    using b'(3,4,7) u(2) v(2) by simp_all
  have space: "\<forall>x. unat x < 2 ^ 38 \<longrightarrow> pt_entry (mem (pm (ker_of b'))) (kernel_pgtbl (ker_of b')) x =
       kernel_map (etext_addr bc) (trampoline im) stk x"
    using map unfolding b'(3) u(2) by blast
  show ?thesis
    unfolding im [symmetric]
    by (intro exI conjI) (rule b'(1) b'(2) satp b'(5) regs vfree space u(3-6) [folded b'(3) u(2), unfolded b'(3) [symmetric]] ks [folded b'(3)])+
qed

lemma boot_ends:
  "link_ok bc (img (t_env tc)) \<Longrightarrow> fresh_kernel (ker_of b) \<Longrightarrow> disk_present regs \<Longrightarrow> \<exists>b'. main_hart0 bc tc regs b = Inr b' \<and> started b'"
  using boot_ok [of bc tc b regs] by blast

text \<open>C4. The kernel comes up.  With the sections placed as the linker script does, the disk present, and any contents of the memory, \<^verbatim>\<open>main\<close>
  on hart 0 runs all its initialisations and \<^verbatim>\<open>proc_make_first\<close> without a panic.  Then \<^verbatim>\<open>satp\<close> holds the kernel's page table, which
  maps what it should at every address, traps go to the kernel's vector, the interrupts of the serial line and the disk are enabled,
  and process 0 is ready to run: its address space, its code and stack pages and its trap frame are the intended ones, in pages
  that nothing else uses.  The state is one of the start states from which the properties of the scheduler are proved.\<close>

theorem main_boots:
  assumes "link_ok bc (img (t_env tc))" and "fresh_kernel (ker_of b)" and "disk_present regs"
  shows "\<exists>b' code stack stk. main_hart0 bc tc regs b = Inr b' \<and> started b' \<and> satp (ts b') = kvm_satp (kernel_pgtbl (ker_of b')) \<and>
    stvec (ts b') = kernel_vector tc \<and> p_regs (plc (ts b')) (PLIC_SENABLE 0) = 0x402 \<and> vfree (vd (ts b')) = replicate NUM True \<and>
    (\<forall>x. unat x < 2 ^ 38 \<longrightarrow> pt_entry (mem (pm (ker_of b'))) (kernel_pgtbl (ker_of b')) x =
       kernel_map (etext_addr bc) (trampoline (img (t_env tc))) stk x) \<and>
    first_memory (img (t_env tc)) (kernel_pgtbl (ker_of b')) (pgtbl (proc_at (ker_of b') 0)) (tf (proc_at (ker_of b') 0)) code stack (pm (ker_of b')) \<and>
    proczero (ker_of b') = Some 0 \<and> pstate (proc_at (ker_of b') 0) = RUNNABLE \<and> kont (proc_at (ker_of b') 0) = ForkRet \<and>
    kstart (img (t_env tc)) (ker_of b')"
  by (rule boot_ok [OF assms])

text \<open>A machine at reset: cleared memory, 64 unused slots, one disk.\<close>

definition reset_proc0 :: proc where
  "reset_proc0 = \<lparr>plk = spinlock_init ''proc'', pid = 0, pstate = UNUSED, parent = None, exit_state = 0, sleep_space = None, pgtbl = 0, heap_top = 0,
     ustack_base = 0, ustack_pages = 0, pmmap = None, tf = 0, kstack = 0, ctx = \<lparr>ctx_ra = 0, ctx_sp = 0, ctx_s = []\<rparr>, cwd = None,
     filelist = replicate FILE_PER_PROC None, kont = Gone\<rparr>"

definition reset_kernel :: kernel where
  "reset_kernel = \<lparr>pm = \<lparr>mem = (\<lambda>_. 0), kern_region = init_region 0 0, user_region = init_region 0 0\<rparr>,
     mms = \<lparr>regions = (\<lambda>_. \<lparr>m_begin = 0, npages = 0, m_next = None\<rparr>), node_next = (\<lambda>_. None)\<rparr>, procs = replicate NPROC reset_proc0, proczero = None,
     global_pid = 1, first = True, kernel_pgtbl = 0, wait_lock = spinlock_init [], ticks = 0, timer_lk = spinlock_init [],
     cpu = \<lparr>noff = 0, origin = False, sie = False\<rparr>, cur = None, ctl = Scheduler 0\<rparr>"

definition reset_disk :: vdisk where
  "reset_disk = \<lparr>desc = [], avail = [], used = \<lparr>ua_flags = 0, ua_idx = 0, ua_elems = []\<rparr>, vfree = [], used_idx = 0, info_b = replicate NUM None,
     vdisk_lock = spinlock_init [], dma = (\<lambda>_. 0), disk_flag = (\<lambda>_. False), bnum = (\<lambda>_. 0), frames = (\<lambda>_. frame.Outside), sleeping = (\<lambda>_. None),
     intr_status = 0, notified = False\<rparr>"

definition reset_boot :: boot where
  "reset_boot = \<lparr>ts = \<lparr>sy = \<lparr>ker = reset_kernel, fsys = \<lparr>disk = (\<lambda>n. []), bufs = [], nxt = (\<lambda>n. None), prv = (\<lambda>n. None),
         sb = \<lparr>magic = 0, block_size = 0, inode_bitmap_start = 0, inode_start = 0, data_bitmap_start = 0, data_start = 0, inode_blocks = 0,
           data_blocks = 0, total_blocks = 0\<rparr>, icache = [], ftable = [], devlist = []\<rparr>, con = []\<rparr>,
       vd = reset_disk, ser = \<lparr>rx = [], tx = []\<rparr>, plc = \<lparr>p_regs = (\<lambda>a. 0), p_pending = [], p_claimed = [], p_done = []\<rparr>,
       spp = False, scause = 0, sepc = 0, stval = 0, stvec = 0, satp = 0, sip = 0, tp = 0, leave = None\<rparr>,
     uart_writes = [], disk_writes = [], pr_lock = spinlock_init [], pr_locking = False,
     other_harts = [\<lparr>noff = 0, origin = False, sie = False\<rparr>], started = False\<rparr>"

definition boot_tc :: tcode where
  "boot_tc = \<lparr>t_env = \<lparr>img = \<lparr>trampoline = 0x80007000, ALLOC_BEGIN = 0x80040000, fork_return_pc = 0x80001000, forkret_pc = 0x80001100,
         initcode = [0x13, 0, 0, 0]\<rparr>, call = (\<lambda>_ _ _ _ m. Inr (0, m)), junk = [], pad = []\<rparr>,
     t_lay = \<lparr>hdr_va = (\<lambda>p. 0), data_addr = (\<lambda>p. 0), info_addr = 0, pages_addr = 0x80020000, kpt = 0,
       kpm = \<lparr>mem = (\<lambda>_. 0), kern_region = init_region 0 0, user_region = init_region 0 0\<rparr>\<rparr>,
     kernel_vector = 0x80000200, user_vector = 0x80007000, user_return = 0x80007080, trap_user_handler_pc = 0x80002000\<rparr>"

definition boot_disk :: mmio where
  "boot_disk = \<lparr>MAGIC_VALUE = 0x74726976, VERSION = 1, DEVICE_ID = 2, VENDOR_ID = 0x554d4551, DEVICE_FEATURES = 0, QUEUE_NUM_MAX = 1024\<rparr>"

lemma reset_ok: "link_ok wit_code (img (t_env boot_tc))" "fresh_kernel (ker_of reset_boot)" "disk_present boot_disk"
  by (simp_all add: link_ok_def wit_code_def boot_tc_def fresh_kernel_def reset_boot_def reset_kernel_def reset_proc0_def disk_present_def boot_disk_def)

theorem main_boots_witness:
  "\<exists>b'. main_hart0 wit_code boot_tc boot_disk reset_boot = Inr b' \<and> started b' \<and> proczero (ker_of b') = Some 0 \<and>
     stvec (ts b') = 0x80000200 \<and> kstart (img (t_env boot_tc)) (ker_of b')"
proof -
  from main_boots [OF reset_ok] obtain b' where "main_hart0 wit_code boot_tc boot_disk reset_boot = Inr b'" "started b'"
    "stvec (ts b') = kernel_vector boot_tc" "proczero (ker_of b') = Some 0" "kstart (img (t_env boot_tc)) (ker_of b')" by blast
  then show ?thesis by (intro exI [of _ b']) (simp add: boot_tc_def)
qed

section \<open>All harts\<close>

text \<open>The kernel's page table is chosen once.\<close>

lemma lock_keeps_table: "acquire_proc i s = Inr t \<Longrightarrow> kernel_pgtbl t = kernel_pgtbl s" "release_proc i s = Inr t \<Longrightarrow> kernel_pgtbl t = kernel_pgtbl s"
  by (auto simp: acquire_proc_def release_proc_def bindr_eq_Inr)

lemma proc_alloc_keeps_table: "proc_alloc_loop im is s = Inr (q, t) \<Longrightarrow> kernel_pgtbl t = kernel_pgtbl s"
proof (induction "is" arbitrary: s)
  case (Cons i xs)
  then obtain a where a: "acquire_proc i s = Inr a" by (auto simp: bindr_eq_Inr)
  show ?case
  proof (cases "pstate (proc_at a i) = UNUSED")
    case True
    then have "proc_setup im i a = Inr (q, t)" using Cons.prems a by simp
    then show ?thesis by (cases rule: proc_setup_frame) (use lock_keeps_table(1) [OF a] in \<open>auto dest: lock_keeps_table(2)\<close>)
  next
    case False
    then obtain c where "release_proc i a = Inr c" "proc_alloc_loop im xs c = Inr (q, t)" using Cons.prems a by (auto simp: bindr_eq_Inr)
    then show ?thesis using Cons.IH [of c] lock_keeps_table(1) [OF a] lock_keeps_table(2) [of i a c] by simp
  qed
qed simp

lemma make_first_keeps_table: "proc_make_first im s = Inr t \<Longrightarrow> kernel_pgtbl t = kernel_pgtbl s"
proof -
  assume t: "proc_make_first im s = Inr t"
  have mz: "kernel_pgtbl s' = kernel_pgtbl u" if "map_zero_page i va perm msg u = Inr (pa, s')" for i va perm msg u pa s'
    using that by (auto simp: map_zero_page_def Let_def bindr_eq_Inr split: prod.splits)
  show ?thesis
    using t unfolding proc_make_first_def Let_def bindr_eq_Inr proc_alloc_def
    by (auto simp: bindr_eq_Inr tf_set_def split: option.splits dest!: mz lock_keeps_table(2) proc_alloc_keeps_table)
qed

text \<open>What each initialisation does to \<^verbatim>\<open>started\<close> and to the page table in use.\<close>

lemma init_step_frame:
  assumes "k < 14" and "(init_steps bc tc regs ! k) b = Inr c"
  shows "started c \<longleftrightarrow> started b \<or> k = 12"
    "k = 4 \<Longrightarrow> satp (ts c) = kvm_satp (kernel_pgtbl (ker_of c))"
    "5 \<le> k \<Longrightarrow> satp (ts c) = satp (ts b) \<and> kernel_pgtbl (ker_of c) = kernel_pgtbl (ker_of b)"
proof -
  note d = init_steps_def Let_def on_ker_def on_ts_def set_ker_def kvm_inithart_def boot_cpu_init_def boot_disk_init_def trap_kernel_init_def
    trap_kernel_inithart_def print_init_def timer_create_def proc_init_def bindr_eq_Inr
  have "k = 0 \<or> k = 1 \<or> k = 2 \<or> k = 3 \<or> k = 4 \<or> k = 5 \<or> k = 6 \<or> k = 7 \<or> k = 8 \<or> k = 9 \<or> k = 10 \<or> k = 11 \<or> k = 12 \<or> k = 13"
    using assms(1) by presburger
  then show "started c \<longleftrightarrow> started b \<or> k = 12"
    "k = 4 \<Longrightarrow> satp (ts c) = kvm_satp (kernel_pgtbl (ker_of c))"
    "5 \<le> k \<Longrightarrow> satp (ts c) = satp (ts b) \<and> kernel_pgtbl (ker_of c) = kernel_pgtbl (ker_of b)"
    using assms(2) by (elim disjE; auto simp: d dest: make_first_keeps_table)+
qed

definition boot_inv :: "bcode \<Rightarrow> tcode \<Rightarrow> mmio \<Rightarrow> boot \<Rightarrow> boot_sys \<Rightarrow> bool" where
  "boot_inv bc tc regs b s \<longleftrightarrow> n_done s \<le> 14 \<and> run_steps (take (n_done s) (init_steps bc tc regs)) b = Inr (bst s) \<and>
     (started (bst s) \<longrightarrow> 13 \<le> n_done s) \<and> (5 \<le> n_done s \<longrightarrow> satp (ts (bst s)) = kvm_satp (kernel_pgtbl (ker_of (bst s)))) \<and>
     (\<forall>j > 0. hpc s j \<noteq> Spin \<longrightarrow> started (bst s)) \<and>
     (\<forall>j > 0. hpc s j = SetVector \<or> hpc s j = Idle \<longrightarrow> h_satp s j = satp (ts (bst s))) \<and>
     (\<forall>j > 0. hpc s j = Idle \<longrightarrow> h_stvec s j = kernel_vector tc)"

lemma length_init_steps: "length (init_steps bc tc regs) = 14"
  by (simp add: init_steps_def Let_def)

lemma boot_inv_init:
  assumes inv: "boot_inv bc tc regs b s" and k: "n_done s < 14" and c: "(init_steps bc tc regs ! n_done s) (bst s) = Inr c"
  shows "boot_inv bc tc regs b (s\<lparr>bst := c, n_done := Suc (n_done s)\<rparr>)"
proof -
  note i = inv [unfolded boot_inv_def] and f = init_step_frame [OF k c]
  have "take (Suc (n_done s)) (init_steps bc tc regs) = take (n_done s) (init_steps bc tc regs) @ [init_steps bc tc regs ! n_done s]"
    using k by (simp add: take_Suc_conv_app_nth length_init_steps)
  then have run: "run_steps (take (Suc (n_done s)) (init_steps bc tc regs)) b = Inr c" using i c by (simp add: run_steps_snoc)
  have st: "started c \<longrightarrow> 13 \<le> Suc (n_done s)"
  proof
    assume "started c"
    then have "n_done s = 12 \<or> 13 \<le> n_done s" using f(1) i by blast
    then show "13 \<le> Suc (n_done s)" by linarith
  qed
  have tab: "5 \<le> Suc (n_done s) \<longrightarrow> satp (ts c) = kvm_satp (kernel_pgtbl (ker_of c))"
    using f(2,3) i by (cases "n_done s = 4") simp_all
  have sp: "satp (ts c) = satp (ts (bst s))" "started c" if "0 < j" "hpc s j \<noteq> Spin" for j
  proof -
    have b: "started (bst s)" using i that by blast
    then have "13 \<le> n_done s" using i by blast
    then show "satp (ts c) = satp (ts (bst s))" using f(3) by simp
    show "started c" using b f(1) by blast
  qed
  have hs: "h_satp s j = satp (ts c)" if "0 < j" "hpc s j = SetVector \<or> hpc s j = Idle" for j
  proof -
    have "hpc s j \<noteq> Spin" using that(2) by auto
    moreover have "h_satp s j = satp (ts (bst s))" using i that by blast
    ultimately show ?thesis using sp(1) [OF that(1)] by simp
  qed
  have le: "Suc (n_done s) \<le> 14" and vec: "\<forall>j > 0. hpc s j = Idle \<longrightarrow> h_stvec s j = kernel_vector tc" using k i by simp_all
  have go: "\<forall>j > 0. hpc s j \<noteq> Spin \<longrightarrow> started c" and hsj: "\<forall>j > 0. hpc s j = SetVector \<or> hpc s j = Idle \<longrightarrow> h_satp s j = satp (ts c)"
    using sp(2) hs by blast+
  let ?t = "s\<lparr>bst := c, n_done := Suc (n_done s)\<rparr>"
  have t: "bst ?t = c" "n_done ?t = Suc (n_done s)" "hpc ?t = hpc s" "h_satp ?t = h_satp s" "h_stvec ?t = h_stvec s" by simp_all
  show ?thesis unfolding boot_inv_def t by (intro conjI le run st tab go hsj vec)
qed

lemma boot_inv_step:
  assumes "boot_inv bc tc regs b s" and "boot_step bc tc regs s t"
  shows "boot_inv bc tc regs b t"
  using assms(2)
proof (cases rule: boot_step.cases)
  case (b_init c)
  then show ?thesis using boot_inv_init [OF assms(1)] by (simp add: length_init_steps)
next
  case (b_spin j)
  then show ?thesis using assms(1) by simp
next
  case (b_go j)
  then show ?thesis using assms(1) unfolding boot_inv_def by simp
next
  case (b_table j)
  have "hpc s j \<noteq> Spin" using b_table by simp
  then have "satp (ts (bst s)) = kvm_satp (kernel_pgtbl (ker_of (bst s)))" "started (bst s)"
    using assms(1) b_table(2) unfolding boot_inv_def by auto
  then show ?thesis using assms(1) b_table unfolding boot_inv_def by simp
next
  case (b_vector j)
  then show ?thesis using assms(1) unfolding boot_inv_def by simp
qed

interpretation boot_protocol: inductive_invariant "boot_start b" "boot_step bc tc regs" "boot_inv bc tc regs b" for bc tc regs b
proof (unfold_locales, goal_cases)
  case (1 s)
  then show ?case by (simp add: boot_start_def boot_inv_def)
next
  case (2 s t)
  then show ?case by (rule boot_inv_step)
qed

text \<open>C27. The order of the start on several harts.  In every interleaving, a hart other than 0 that has left its waiting loop finds the
  initialisations of hart 0 done, up to the setting of \<^verbatim>\<open>started\<close> at least: the state is the one hart 0 reaches alone by its first 13 or
  all 14 steps.  When it has loaded a page table, this is the one hart 0 runs on, and when it is idle its traps go to the kernel's vector.\<close>

theorem boot_order:
  assumes "reach (boot_start b) (boot_step bc tc regs) s" and "0 < j" and "hpc s j \<noteq> Spin"
  shows "(run_steps (take 13 (init_steps bc tc regs)) b = Inr (bst s) \<or> main_hart0 bc tc regs b = Inr (bst s)) \<and> started (bst s) \<and>
    satp (ts (bst s)) = MAKE_SATP (kernel_pgtbl (ker_of (bst s))) \<and>
    (hpc s j \<noteq> LoadTable \<longrightarrow> h_satp s j = satp (ts (bst s))) \<and> (hpc s j = Idle \<longrightarrow> h_stvec s j = kernel_vector tc)"
proof -
  have i: "boot_inv bc tc regs b s" by (rule boot_protocol.reach_inv [OF assms(1)])
  then have st: "started (bst s)" and n: "13 \<le> n_done s" "n_done s \<le> 14" using assms(2,3) by (auto simp: boot_inv_def)
  have "n_done s = 13 \<or> n_done s = 14" using n by auto
  then have "run_steps (take 13 (init_steps bc tc regs)) b = Inr (bst s) \<or> main_hart0 bc tc regs b = Inr (bst s)"
    using i length_init_steps [of bc tc regs] by (auto simp: boot_inv_def main_hart0_def)
  moreover have "hpc s j = LoadTable \<or> hpc s j = SetVector \<or> hpc s j = Idle" using assms(3) by (cases "hpc s j") auto
  ultimately show ?thesis using i st n assms(2) by (auto simp: boot_inv_def kvm_satp_def)
qed

text \<open>Hart 0 can always go on alone, so the other harts get to the end.\<close>

lemma reach_run:
  assumes "main_hart0 bc tc regs b = Inr b'" and "\<not> started b" and "n \<le> 14"
  shows "\<exists>s. reach (boot_start b) (boot_step bc tc regs) s \<and> n_done s = n \<and> (\<forall>j > 0. hpc s j = Spin) \<and>
    run_steps (take n (init_steps bc tc regs)) b = Inr (bst s)"
  using assms(3)
proof (induction n)
  case 0
  let ?s = "\<lparr>bst = b, n_done = 0, hpc = (\<lambda>_. Spin), h_satp = (\<lambda>_. 0), h_stvec = (\<lambda>_. 0)\<rparr>"
  have "reach (boot_start b) (boot_step bc tc regs) ?s" by (rule reach_start) (simp add: boot_start_def assms(2))
  then show ?case by (intro exI [of _ ?s]) simp
next
  case (Suc n)
  then obtain s where s: "reach (boot_start b) (boot_step bc tc regs) s" "n_done s = n" "\<forall>j > 0. hpc s j = Spin"
    "run_steps (take n (init_steps bc tc regs)) b = Inr (bst s)" by auto
  let ?st = "init_steps bc tc regs"
  have n: "n < length ?st" using Suc.prems by (simp add: length_init_steps)
  have split: "?st = take n ?st @ [?st ! n] @ drop (Suc n) ?st" using id_take_nth_drop [OF n] by simp
  have "run_steps (take n ?st @ [?st ! n] @ drop (Suc n) ?st) b = Inr b'" using assms(1) split unfolding main_hart0_def by metis
  then obtain c where c: "(?st ! n) (bst s) = Inr c" unfolding run_steps_append s(4) by (auto simp: bindr_eq_Inr)
  let ?t = "s\<lparr>bst := c, n_done := Suc n\<rparr>"
  have "boot_step bc tc regs s ?t" using b_init [of s bc tc regs c] s(2) n c by simp
  then have "reach (boot_start b) (boot_step bc tc regs) ?t" by (rule reach_step [OF s(1)])
  moreover have "run_steps (take (Suc n) ?st) b = Inr c" using n c s(4) by (simp add: take_Suc_conv_app_nth run_steps_snoc)
  ultimately show ?case using s(3) by (intro exI [of _ ?t]) simp
qed

text \<open>Hart 1 after hart 0 has made the first process.\<close>

theorem boot_order_witness:
  "\<exists>s. reach (boot_start reset_boot) (boot_step wit_code boot_tc boot_disk) s \<and> hpc s 1 = Idle \<and>
     main_hart0 wit_code boot_tc boot_disk reset_boot = Inr (bst s) \<and>
     h_satp s 1 = satp (ts (bst s)) \<and> h_stvec s 1 = 0x80000200"
proof -
  obtain b' where b': "main_hart0 wit_code boot_tc boot_disk reset_boot = Inr b'" using boot_ends [OF reset_ok] by blast
  have ns: "\<not> started reset_boot" by (simp add: reset_boot_def)
  let ?R = "reach (boot_start reset_boot) (boot_step wit_code boot_tc boot_disk)"
  from reach_run [OF b' ns, of 14] obtain s where s: "?R s" "n_done s = 14" "hpc s 1 = Spin"
    "run_steps (take 14 (init_steps wit_code boot_tc boot_disk)) reset_boot = Inr (bst s)" by auto
  have e: "bst s = b'" using s(4) b' by (simp add: main_hart0_def length_init_steps)
  have st: "started (bst s)" using boot_ends [OF reset_ok] b' e by auto
  let ?a = "s\<lparr>hpc := (hpc s)(1 := LoadTable)\<rparr>"
  let ?b = "?a\<lparr>h_satp := (h_satp ?a)(1 := kvm_satp (kernel_pgtbl (ker_of (bst ?a)))), hpc := (hpc ?a)(1 := SetVector)\<rparr>"
  let ?c = "?b\<lparr>h_stvec := (h_stvec ?b)(1 := kernel_vector boot_tc), hpc := (hpc ?b)(1 := Idle)\<rparr>"
  have "?R ?a" by (rule reach_step [OF s(1)], rule b_go) (use s st in simp_all)
  then have "?R ?b" by (rule reach_step, intro b_table) simp_all
  then have r: "?R ?c" by (rule reach_step, intro b_vector) simp_all
  from boot_order [OF r, of 1] have "h_satp ?c 1 = satp (ts (bst ?c))" "h_stvec ?c 1 = kernel_vector boot_tc" by simp_all
  with r b' e show ?thesis by (intro exI [of _ ?c]) (simp add: boot_tc_def)
qed

end
