(* ===== verification/Spec2Isabelle.thy ===== *)
theory Spec2Isabelle
  imports Strings Spinlock Pmem Mmap Bufcache Bitmap Vmem Uvm Inode Dirs Fs_Init Files Procs Print Syscalls Exec Dir_Map Mkfs_Props Proc_Props Trap_Props Boot_Props
begin

text \<open>
  WHUOS is a teaching kernel for RISC-V in C, under \<^verbatim>\<open>src/whu-oslab-lab/code\<close>.  This development models its kernel
  (\<^verbatim>\<open>kernel/\<close>, with the headers of \<^verbatim>\<open>include/\<close>) and the tool that makes its disk (\<^verbatim>\<open>mkfs/\<close>) function by function and proves what the functions are meant to do.

  \<^bold>\<open>The program.\<close>  The hart boots into \<^verbatim>\<open>main\<close>, which sets up the page allocator, the kernel page table, the process
  table, the traps and the disk, makes the first process and enters the scheduler.  A process calls the kernel by a
  trap (\<^verbatim>\<open>trap_user_handler\<close>), which dispatches the system call; file calls go through open files, paths and
  directories, inodes and their block trees, the bitmaps and the buffer cache to the disk driver, which sleeps until
  the interrupt of the device (\<^verbatim>\<open>trap_kernel_handler\<close>, \<^verbatim>\<open>external_interrupt_handler\<close>) wakes it.  Processes give up the
  hart in \<^verbatim>\<open>proc_sched\<close> and the scheduler resumes them.  Only hart 0 runs processes.

  \<^bold>\<open>Conventions.\<close>  Machine integers are words of their width and wrap around as in C.  A kernel function returns
  \<open>Inr\<close> of its result, or \<open>Inl\<close> of how the machine stopped: \<open>Panic msg\<close>, \<open>Hang\<close> for a loop nothing can leave, \<open>Undefined\<close>
  for an access C gives no meaning.  Physical memory is a function from 64-bit addresses to bytes; structures that
  nobody accesses by address are records, arrays of them lists, and a pointer to such a structure is its index.
  Every operation of a component keeps the name of its function in C.

  \<^bold>\<open>Theories and sources.\<close>

  \<^item> \<open>Kernel_Prelude\<close>: results, byte strings, little-endian words, memory, and the interfaces several components
    implement: \<open>inductive_invariant\<close> (step relations), \<open>alloc_pool\<close> (allocators), \<open>record_layout\<close> (records on disk),
    \<open>block_store\<close> (a cache of blocks).  \<open>Ring_Queues\<close>: disjoint regions and ring indices.
  \<^item> \<open>Strings\<close>: \<^verbatim>\<open>lib/str.c\<close>.  \<open>memmove\<close> is right for overlapping regions; the string functions agree with functions on the
    bytes up to the NUL.
  \<^item> \<open>Spinlock\<close>: \<^verbatim>\<open>lib/spinlock.c\<close>, \<^verbatim>\<open>proc/cpu.c\<close>.  Mutual exclusion for every interleaving of the instructions of several
    harts; the nesting of interrupt disabling.
  \<^item> \<open>Pmem\<close>, \<open>Mmap\<close>: \<^verbatim>\<open>mem/pmem.c\<close> with the free lists threaded through the pages, \<^verbatim>\<open>mem/mmap.c\<close>; both are allocators in
    the sense of \<open>alloc_pool\<close>.
  \<^item> \<open>Vmem\<close>, \<open>Uvm\<close>: \<^verbatim>\<open>mem/kvm.c\<close>, \<^verbatim>\<open>mem/uvm.c\<close>.  Three-level page tables in memory; mapping and unmapping change exactly the
    pages asked for; copies between kernel and user memory.  \<open>Kvm\<close>: the table \<^verbatim>\<open>kvm_init\<close> builds, at every virtual address.
    \<open>Page_Owners\<close>: several tables in one memory, none of which the work on another disturbs.
  \<^item> \<open>Bufcache\<close>, \<open>Bitmap\<close>: \<^verbatim>\<open>fs/buf.c\<close>, \<^verbatim>\<open>fs/bitmap.c\<close>.  The cache as a \<open>block_store\<close>: a block has one buffer, what is
    written is on the disk, the victim is the least recently released buffer; the bitmaps as allocators over it.
  \<^item> \<open>Inode\<close>, \<open>File_Data\<close>: \<^verbatim>\<open>fs/inode.c\<close>.  The inode cache, inodes on disk, the block tree; what is written to a file is
    what is read back.
  \<^item> \<open>Dirs\<close>, \<open>Dir_Map\<close>: \<^verbatim>\<open>fs/dir.c\<close>.  Directories and paths; search, insertion and deletion refine the operations of a map
    from names to inode numbers.  \<open>Fs_Init\<close>: \<^verbatim>\<open>fs/fs.c\<close>.  \<open>Files\<close>: \<^verbatim>\<open>fs/file.c\<close>.
  \<^item> \<open>Procs\<close>, \<open>Sched\<close>, \<open>Proc_Props\<close>: \<^verbatim>\<open>proc/proc.c\<close>, \<^verbatim>\<open>dev/timer.c\<close>.  The process table with fork, exit, wait, sleep and wakeup,
    the scheduler, and the kernel as a transition system with its invariant.
  \<^item> \<open>Print\<close>: \<^verbatim>\<open>lib/print.c\<close>, \<^verbatim>\<open>dev/uart.c\<close>.  \<open>Syscalls\<close>, \<open>Exec\<close>: \<^verbatim>\<open>syscall/\<close>.
  \<^item> \<open>Virtio\<close>, \<open>Disk_System\<close>, \<open>Disk_Refine\<close>, \<open>Disk_Props\<close>: \<^verbatim>\<open>dev/virtio.c\<close>.  The driver with its ring, the device as a parameter
    that does what the virtio specification says, all processes and the interrupt as a transition system, and its
    refinement of a disk on which each call takes effect at one moment.
  \<^item> \<open>Traps\<close>, \<open>Trap_Props\<close>: \<^verbatim>\<open>trap/trap_kernel.c\<close>, \<^verbatim>\<open>trap/trap_user.c\<close>, \<^verbatim>\<open>dev/plic.c\<close>.
  \<^item> \<open>First_Proc\<close>, \<open>Boot\<close>, \<open>Boot_Props\<close>: \<^verbatim>\<open>boot/start.c\<close>, \<^verbatim>\<open>boot/main.c\<close>, \<^verbatim>\<open>timer_init\<close> with the routine \<^verbatim>\<open>timer_vector\<close> of \<^verbatim>\<open>trap.S\<close>, \<^verbatim>\<open>uart_init\<close>
    and \<^verbatim>\<open>print_init\<close>.  The timer of a hart ticks; hart 0 runs from reset to the scheduler with the first process in its address
    space, and the state is a start state of \<open>Sched\<close>; the other harts wait until the initialisations are done.
  \<^item> \<open>Mkfs\<close>, \<open>Mkfs_Image\<close>, \<open>Mkfs_Main\<close>, \<open>Mkfs_Boot\<close>, \<open>Mkfs_Props\<close>: \<^verbatim>\<open>mkfs/mkfs.c\<close>, the tool that makes the file system on the host.
    What each operation changes of the image, the image a command line gives, and the kernel on that image: it mounts, \<^verbatim>\<open>fs_init\<close> passes its own
    exercise of the root directory, and the first program is read back byte by byte.

  \<^bold>\<open>Fuel.\<close>  Loops are structural, over the list of slots or the remaining length, or have a termination proof, with these
  exceptions.  \<open>scan\<close> (the list of buffers) has \<^verbatim>\<open>N_BLOCK_BUF\<close> steps, as many as there are nodes.  \<open>free_chain\<close> has one
  round more than there are descriptors, enough on every ring (\<open>Disk_Props.disk_driver_loops_end\<close>), and the loop of
  \<open>virtio_disk_intr\<close> as many as the two 16-bit indices are apart.  \<open>fork_regions\<close> has \<^verbatim>\<open>N_MMAP\<close> rounds, each of which
  takes a region from the store.  The scheduler's endless loop is a step relation.

  \<^bold>\<open>Not modelled.\<close>  The assembly files but for \<^verbatim>\<open>timer_vector\<close> (saving and restoring of registers; a switch splits a
  function in the part before and after it), what the UART makes of the writes of \<^verbatim>\<open>uart_init\<close> (the device), the debug output (\<^verbatim>\<open>vm_print\<close>, \<^verbatim>\<open>buf_print\<close>, \<^verbatim>\<open>bitmap_print\<close>, \<^verbatim>\<open>inode_print\<close>, the traces of system
  calls), the user programs, and \<^verbatim>\<open>src/ref_project\<close>, another kernel.  A buffer's
  or an inode's sleep lock is a spinlock in this kernel; a process that sleeps in the disk driver keeps it, and the
  interleaving of several processes inside the file system is not modelled.
\<close>

end
